(* ===== verification/RG_Prelude.thy ===== *)
theory RG_Prelude
  imports Main "HOL-Library.Word"
begin

text \<open>
  Shared vocabulary of the development: the machine integer types, the collections of
  rewrite rules the component proofs use, and generic facts on lists, folds and maps.
\<close>

unbundle bit_operations_syntax

type_synonym u8 = "8 word"
type_synonym u16 = "16 word"
type_synonym u32 = "32 word"
type_synonym u64 = "64 word"

named_theorems frame_simps \<open>which fields an operation leaves alone\<close>
named_theorems wf_intros \<open>operations that preserve well-formedness\<close>

subsection \<open>Updating the elements of a list that satisfy a test\<close>

definition upd_where :: "('a \<Rightarrow> bool) \<Rightarrow> ('a \<Rightarrow> 'a) \<Rightarrow> 'a list \<Rightarrow> 'a list" where
  "upd_where P f xs = map (\<lambda>x. if P x then f x else x) xs"

lemma length_upd_where [simp]: "length (upd_where P f xs) = length xs"
  by (simp add: upd_where_def)

lemma upd_where_Nil [simp]: "upd_where P f [] = []"
  by (simp add: upd_where_def)

lemma upd_where_Cons [simp]:
  "upd_where P f (x # xs) = (if P x then f x else x) # upd_where P f xs"
  by (simp add: upd_where_def)

lemma map_upd_where_frame: "(\<And>x. P x \<Longrightarrow> g (f x) = g x) \<Longrightarrow> map g (upd_where P f xs) = map g xs"
  by (simp add: upd_where_def)

lemma find_upd_where:
  "(\<And>x. Q (f x) = Q x) \<Longrightarrow>
   find Q (upd_where P f xs) = map_option (\<lambda>x. if P x then f x else x) (find Q xs)"
  by (induction xs) auto

lemma set_upd_where: "set (upd_where P f xs) = (\<lambda>x. if P x then f x else x) ` set xs"
  by (simp add: upd_where_def)

subsection \<open>Looking an element up by a key that is its position\<close>

lemma find_Some_in: "find P xs = Some x \<Longrightarrow> x \<in> set xs \<and> P x"
  by (induction xs) (auto split: if_splits)

lemma find_None_iff_ex: "find P xs = None \<longleftrightarrow> (\<forall>x \<in> set xs. \<not> P x)"
  by (induction xs) auto

lemma find_distinct_key:
  "distinct (map key xs) \<Longrightarrow> x \<in> set xs \<Longrightarrow> find (\<lambda>y. key y = key x) xs = Some x"
  by (induction xs) (auto simp: rev_image_eqI)

lemma find_first_index:
  assumes "i < length xs" "P (xs ! i)" "\<And>j. j < i \<Longrightarrow> \<not> P (xs ! j)"
  shows "find P xs = Some (xs ! i)"
proof -
  have "find P xs = (if \<exists>j < length xs. P (xs ! j) then Some (xs ! (LEAST j. j < length xs \<and> P (xs ! j))) else None)"
  proof (cases "find P xs")
    case None
    then show ?thesis by (auto simp: find_None_iff_ex)
  next
    case (Some x)
    then obtain k where k: "k < length xs" "P (xs ! k)" "x = xs ! k" "\<forall>j < k. \<not> P (xs ! j)"
      by (auto simp: find_Some_iff)
    then have "(LEAST j. j < length xs \<and> P (xs ! j)) = k"
      by (intro Least_equality) (auto simp: not_less [symmetric])
    with Some k show ?thesis by auto
  qed
  moreover have "(LEAST j. j < length xs \<and> P (xs ! j)) = i"
    using assms by (intro Least_equality) (auto simp: not_less [symmetric])
  ultimately show ?thesis using assms by auto
qed

subsection \<open>Folds\<close>

lemma fold_invariant_on:
  "P s \<Longrightarrow> (\<And>x s. x \<in> set xs \<Longrightarrow> P s \<Longrightarrow> P (f x s)) \<Longrightarrow> P (fold f xs s)"
  by (induction xs arbitrary: s) auto

lemma fold_preserves:
  "(\<And>x s. x \<in> set xs \<Longrightarrow> g (f x s) = g s) \<Longrightarrow> g (fold f xs s) = g s"
  by (induction xs arbitrary: s) auto

lemma fold_concat_map: "fold (\<lambda>x. fold f (g x)) xs s = fold f (concat (map g xs)) s"
  by (induction xs arbitrary: s) auto

subsection \<open>Checked results\<close>

text \<open>
  \<open>Q_ASSERT\<close> is modelled as in a build with assertions on: a failed assertion is the
  result \<open>Inl (Assert msg)\<close>. An exhausted heap aborts: \<open>Inl Out_of_memory\<close>.
\<close>

datatype fault = Assert string | Out_of_memory

type_synonym 'a checked = "fault + 'a"

definition require :: "bool \<Rightarrow> string \<Rightarrow> 'a checked \<Rightarrow> 'a checked" where
  "require b msg k = (if b then k else Inl (Assert msg))"

definition and_then :: "'a checked \<Rightarrow> ('a \<Rightarrow> 'b checked) \<Rightarrow> 'b checked" where
  "and_then x f = (case x of Inl e \<Rightarrow> Inl e | Inr v \<Rightarrow> f v)"

definition or_oom :: "'a option \<Rightarrow> 'a checked" where
  "or_oom x = (case x of None \<Rightarrow> Inl Out_of_memory | Some v \<Rightarrow> Inr v)"

lemma require_Inr [simp]: "require b msg k = Inr v \<longleftrightarrow> b \<and> k = Inr v"
  by (simp add: require_def)

lemma and_then_Inr [simp]: "and_then x f = Inr v \<longleftrightarrow> (\<exists>u. x = Inr u \<and> f u = Inr v)"
  by (simp add: and_then_def split: sum.split)

lemma or_oom_Inr [simp]: "or_oom x = Inr v \<longleftrightarrow> x = Some v"
  by (simp add: or_oom_def split: option.split)

lemma require_True [simp]: "require True msg k = k"
  by (simp add: require_def)

lemma and_then_eval [simp]: "and_then (Inr v) f = f v" "and_then (Inl e) f = Inl e"
  by (simp_all add: and_then_def)

end
