(* ===== verification/Gpu_Types.thy ===== *)
theory Gpu_Types
  imports RG_Prelude
begin

text \<open>
  The WebGPU vocabulary the render graph is written over (the enumerations and structs of
  webgpu.h that webgpu/base names), and the pure helpers on texel blocks, texture sizes and
  row pitches of webgpu/base/RenderGraph.cpp and RenderGraph.h. A set of flag bits is a set of
  flag names: bitwise or is union, \<open>have & ~want\<close> is set difference, comparison with 0 is
  comparison with the empty set. A GPU object is named by the ordinal of its creation; \<open>None\<close>
  is the null pointer.
\<close>

subsection \<open>Enumerations\<close>

datatype pass_kind = PK_None | PK_Graphics | PK_Compute | PK_Transfer
datatype size_kind = SK_Absolute | SK_Relative
datatype resource_kind = RK_Texture | RK_Buffer

datatype texture_dimension = TD_Undefined | TD_1D | TD_2D | TD_3D
datatype view_dimension =
    VD_Undefined | VD_2D | VD_2DArray | VD_Cube | VD_CubeArray | VD_3D
datatype texture_aspect = TA_All | TA_StencilOnly | TA_DepthOnly
datatype load_op = LO_Undefined | LO_Load | LO_Clear
datatype store_op = SO_Undefined | SO_Store | SO_Discard

datatype texture_usage_bit =
    TU_CopySrc | TU_CopyDst | TU_TextureBinding | TU_StorageBinding | TU_RenderAttachment
  | TU_TransientAttachment
datatype buffer_usage_bit =
    BU_MapRead | BU_MapWrite | BU_CopySrc | BU_CopyDst | BU_Index | BU_Vertex | BU_Uniform
  | BU_Storage | BU_Indirect | BU_QueryResolve

type_synonym texture_usage = "texture_usage_bit set"
type_synonym buffer_usage = "buffer_usage_bit set"

text \<open>Texture formats, grouped as \<open>format_block\<close> groups them.\<close>

datatype format_8_16bit =
    R8Unorm | R8Snorm | R8Uint | R8Sint
  | R16Uint | R16Sint | R16Float
  | RG8Unorm | RG8Snorm | RG8Uint | RG8Sint
datatype format_32bit =
    R32Float | R32Uint | R32Sint
  | RG16Uint | RG16Sint | RG16Float
  | RGBA8Unorm | RGBA8UnormSrgb | RGBA8Snorm | RGBA8Uint | RGBA8Sint
  | BGRA8Unorm | BGRA8UnormSrgb
  | RGB10A2Uint | RGB10A2Unorm | RG11B10Ufloat
datatype format_64_128bit =
    RG32Float | RG32Uint | RG32Sint
  | RGBA16Uint | RGBA16Sint | RGBA16Float
  | RGBA32Float | RGBA32Uint | RGBA32Sint
datatype format_depth =
    Stencil8 | Depth16Unorm | Depth24Plus | Depth32Float
  | Depth24PlusStencil8 | Depth32FloatStencil8
datatype format_bc =
    BC1RGBAUnorm | BC1RGBAUnormSrgb | BC4RUnorm | BC4RSnorm
  | BC2RGBAUnorm | BC2RGBAUnormSrgb | BC3RGBAUnorm | BC3RGBAUnormSrgb
  | BC5RGUnorm | BC5RGSnorm | BC6HRGBUfloat | BC6HRGBFloat | BC7RGBAUnorm | BC7RGBAUnormSrgb
datatype format_etc =
    ETC2RGB8Unorm | ETC2RGB8UnormSrgb | ETC2RGB8A1Unorm | ETC2RGB8A1UnormSrgb
  | EACR11Unorm | EACR11Snorm
  | ETC2RGBA8Unorm | ETC2RGBA8UnormSrgb | EACRG11Unorm | EACRG11Snorm
datatype format_astc =
    ASTC4x4 | ASTC5x4 | ASTC5x5 | ASTC6x5 | ASTC6x6 | ASTC8x5 | ASTC8x6 | ASTC8x8
  | ASTC10x5 | ASTC10x6 | ASTC10x8 | ASTC10x10 | ASTC12x10 | ASTC12x12

datatype texture_format =
    TF_Undefined
  | TF_8_16 format_8_16bit
  | TF_32 format_32bit
  | TF_64_128 format_64_128bit
  | TF_Depth format_depth
  | TF_BC format_bc
  | TF_ETC format_etc
  | TF_ASTC format_astc bool \<comment> \<open>block footprint; True is the UnormSrgb variant\<close>
  | TF_Other nat \<comment> \<open>an enumerator the source does not name\<close>

subsection \<open>Extents and signatures\<close>

record extent3d =
  ext_width :: u32
  ext_height :: u32
  ext_depth :: u32

definition mk_extent :: "u32 \<Rightarrow> u32 \<Rightarrow> u32 \<Rightarrow> extent3d" where
  "mk_extent w h d = \<lparr>ext_width = w, ext_height = h, ext_depth = d\<rparr>"

definition extent_zero :: extent3d where
  "extent_zero = mk_extent 0 0 0"

definition extent_eq :: "extent3d \<Rightarrow> extent3d \<Rightarrow> bool" where
  "extent_eq a b \<longleftrightarrow>
     ext_width a = ext_width b \<and> ext_height a = ext_height b \<and> ext_depth a = ext_depth b"

lemma extent_eq_iff [simp]: "extent_eq a b \<longleftrightarrow> a = b"
  by (auto simp: extent_eq_def)

record tex_signature =
  sig_size :: extent3d
  sig_format :: texture_format
  sig_dim :: texture_dimension
  sig_mips :: u32
  sig_samples :: u32

definition sig_eq :: "tex_signature \<Rightarrow> tex_signature \<Rightarrow> bool" where
  "sig_eq a b \<longleftrightarrow>
     extent_eq (sig_size a) (sig_size b) \<and> sig_format a = sig_format b \<and> sig_dim a = sig_dim b
     \<and> sig_mips a = sig_mips b \<and> sig_samples a = sig_samples b"

lemma sig_eq_iff [simp]: "sig_eq a b \<longleftrightarrow> a = b"
  by (auto simp: sig_eq_def)

definition sig_default :: tex_signature where
  "sig_default = \<lparr>sig_size = extent_zero, sig_format = TF_Undefined, sig_dim = TD_Undefined,
                  sig_mips = 1, sig_samples = 1\<rparr>"

subsection \<open>GPU objects\<close>

type_synonym gpu_ref = "nat option"

definition is_depth_format :: "texture_format \<Rightarrow> bool" where
  "is_depth_format f = (case f of TF_Depth d \<Rightarrow> d \<noteq> Stencil8 | _ \<Rightarrow> False)"

definition format_has_stencil :: "texture_format \<Rightarrow> bool" where
  "format_has_stencil f =
     (case f of TF_Depth d \<Rightarrow> d \<in> {Stencil8, Depth24PlusStencil8, Depth32FloatStencil8} | _ \<Rightarrow> False)"

subsection \<open>Texel blocks and texture sizes\<close>

record texel_block =
  tb_w :: u32
  tb_h :: u32
  tb_bytes :: u32

definition mk_block :: "u32 \<Rightarrow> u32 \<Rightarrow> u32 \<Rightarrow> texel_block" where
  "mk_block w h b = \<lparr>tb_w = w, tb_h = h, tb_bytes = b\<rparr>"

fun astc_block :: "format_astc \<Rightarrow> texel_block" where
  "astc_block ASTC4x4 = mk_block 4 4 16"
| "astc_block ASTC5x4 = mk_block 5 4 16"
| "astc_block ASTC5x5 = mk_block 5 5 16"
| "astc_block ASTC6x5 = mk_block 6 5 16"
| "astc_block ASTC6x6 = mk_block 6 6 16"
| "astc_block ASTC8x5 = mk_block 8 5 16"
| "astc_block ASTC8x6 = mk_block 8 6 16"
| "astc_block ASTC8x8 = mk_block 8 8 16"
| "astc_block ASTC10x5 = mk_block 10 5 16"
| "astc_block ASTC10x6 = mk_block 10 6 16"
| "astc_block ASTC10x8 = mk_block 10 8 16"
| "astc_block ASTC10x10 = mk_block 10 10 16"
| "astc_block ASTC12x10 = mk_block 12 10 16"
| "astc_block ASTC12x12 = mk_block 12 12 16"

definition format_block :: "texture_format \<Rightarrow> texel_block" where
  "format_block f =
     (case f of
        TF_8_16 g \<Rightarrow> (if g \<in> {R8Unorm, R8Snorm, R8Uint, R8Sint} then mk_block 1 1 1 else mk_block 1 1 2)
      | TF_32 _ \<Rightarrow> mk_block 1 1 4
      | TF_64_128 g \<Rightarrow>
          (if g \<in> {RGBA32Float, RGBA32Uint, RGBA32Sint} then mk_block 1 1 16 else mk_block 1 1 8)
      | TF_Depth d \<Rightarrow>
          (case d of Stencil8 \<Rightarrow> mk_block 1 1 1
                   | Depth16Unorm \<Rightarrow> mk_block 1 1 2
                   | Depth24Plus \<Rightarrow> mk_block 1 1 4
                   | Depth32Float \<Rightarrow> mk_block 1 1 4
                   | Depth24PlusStencil8 \<Rightarrow> mk_block 1 1 8
                   | Depth32FloatStencil8 \<Rightarrow> mk_block 1 1 8)
      | TF_BC g \<Rightarrow>
          (if g \<in> {BC1RGBAUnorm, BC1RGBAUnormSrgb, BC4RUnorm, BC4RSnorm} then mk_block 4 4 8
           else mk_block 4 4 16)
      | TF_ETC g \<Rightarrow>
          (if g \<in> {ETC2RGB8Unorm, ETC2RGB8UnormSrgb, ETC2RGB8A1Unorm, ETC2RGB8A1UnormSrgb,
                   EACR11Unorm, EACR11Snorm} then mk_block 4 4 8
           else mk_block 4 4 16)
      | TF_ASTC g _ \<Rightarrow> astc_block g
      | _ \<Rightarrow> mk_block 0 0 0)"

definition mip_dim :: "u32 \<Rightarrow> u32 \<Rightarrow> u32" where
  "mip_dim v mip = (let v' = drop_bit (unat mip) v in if v' \<noteq> 0 then v' else 1)"

text \<open>One iteration of the level loop of \<open>texture_bytes\<close>; \<open>layers\<close> and \<open>samples\<close> are already normalised.\<close>

definition level_bytes ::
  "texel_block \<Rightarrow> extent3d \<Rightarrow> bool \<Rightarrow> u32 \<Rightarrow> u32 \<Rightarrow> nat \<Rightarrow> u64" where
  "level_bytes b sz is3D layers samples m =
     (let w = (if drop_bit m (ext_width sz) \<noteq> 0 then drop_bit m (ext_width sz) else 1);
          h = (if drop_bit m (ext_height sz) \<noteq> 0 then drop_bit m (ext_height sz) else 1);
          d = (if is3D then (if drop_bit m (ext_depth sz) \<noteq> 0 then drop_bit m (ext_depth sz) else 1) else 1);
          bw = (w + tb_w b - 1) div tb_w b;
          bh = (h + tb_h b - 1) div tb_h b
      in ucast bw * ucast bh * ucast d * ucast layers * ucast samples * ucast (tb_bytes b))"

definition texture_bytes ::
  "extent3d \<Rightarrow> texture_format \<Rightarrow> u32 \<Rightarrow> u32 \<Rightarrow> texture_dimension \<Rightarrow> u64" where
  "texture_bytes sz fmt mips samples dim =
     (let b = format_block fmt in
      if tb_bytes b = 0 then 0
      else
        let is3D = (dim = TD_3D);
            layers = (if is3D then 1 else if ext_depth sz \<noteq> 0 then ext_depth sz else 1);
            smp = (if samples \<noteq> 0 then samples else 1)
        in fold (\<lambda>m total. total + level_bytes b sz is3D layers smp m) [0..<unat mips] 0)"

definition aligned_bytes_per_row :: "u32 \<Rightarrow> u32 \<Rightarrow> u32" where
  "aligned_bytes_per_row widthTexels texelBlockBytes =
     (let align = 256; raw = widthTexels * texelBlockBytes
      in (raw + (align - 1)) AND NOT (align - 1))"

end
