(* ===== verification/Float32.thy ===== *)
theory Float32
  imports Complex_Main RG_Prelude "HOL-Library.Log_Nat"
begin

text \<open>
  The binary32 arithmetic that \<open>resolve_size\<close> of webgpu/base/RenderGraph.cpp uses to scale a
  texture extent. A finite \<open>float\<close> is the rational it denotes; an operation is the exact
  rational operation followed by rounding to nearest, ties to even, with 24 significant bits
  and the exponent range of binary32 (gradual underflow included). Values that would overflow to
  infinity stay finite here; they only reach the conversion to \<open>uint32_t\<close>, which is undefined
  in C++ for anything outside the range of the type. The conversion is then taken modulo
  2 to the 32 (x86-64); no property rests on that case.
\<close>

type_synonym f32 = rat

definition pow2 :: "int \<Rightarrow> rat" where
  "pow2 e = (if 0 \<le> e then 2 ^ nat e else 1 / 2 ^ nat (- e))"

definition flog2 :: "rat \<Rightarrow> int" where
  "flog2 x =
     (let (n, d) = quotient_of x; e = bitlen n - bitlen d
      in if pow2 e \<le> x then e else e - 1)"

definition round_half_even :: "rat \<Rightarrow> int" where
  "round_half_even y =
     (let f = \<lfloor>y\<rfloor>; r = y - of_int f
      in if r < 1 / 2 then f else if r > 1 / 2 then f + 1 else if even f then f else f + 1)"

definition round32 :: "rat \<Rightarrow> f32" where
  "round32 x =
     (if x = 0 then 0
      else let e = max (flog2 \<bar>x\<bar>) (- 126); u = pow2 (e - 23)
           in of_int (round_half_even (x / u)) * u)"

definition f32_to_u32 :: "f32 \<Rightarrow> u32" where
  "f32_to_u32 x = word_of_int (if 0 \<le> x then \<lfloor>x\<rfloor> else \<lceil>x\<rceil>)"

text \<open>\<open>(uint32_t)(v * scale + 0.5f)\<close>: the integer operand is converted to \<open>float\<close> first.\<close>

definition scale_dim :: "u32 \<Rightarrow> f32 \<Rightarrow> u32" where
  "scale_dim v scale = f32_to_u32 (round32 (round32 (round32 (of_int (uint v)) * scale) + 1 / 2))"

subsection \<open>Powers of two\<close>

lemma pow2_pos [simp]: "0 < pow2 e"
  by (simp add: pow2_def)

lemma pow2_nonzero [simp]: "pow2 e \<noteq> 0"
  using pow2_pos [of e] by linarith

lemma pow2_powr: "pow2 e = (2 :: rat) powi e"
  by (simp add: pow2_def power_int_def divide_simps)

lemma pow2_add: "pow2 (a + b) = pow2 a * pow2 b"
  by (simp add: pow2_powr power_int_add)

lemma pow2_diff: "pow2 (a - b) = pow2 a / pow2 b"
  by (simp add: pow2_powr power_int_diff)

lemma pow2_mono: "a \<le> b \<Longrightarrow> pow2 a \<le> pow2 b"
  by (simp add: pow2_powr power_int_increasing)

lemma pow2_less_iff: "pow2 a < pow2 b \<longleftrightarrow> a < b"
  by (metis linorder_not_le order_less_irrefl pow2_mono order.strict_trans2 pow2_powr
      power_int_strict_increasing one_less_numeral_iff semiring_norm(76))

lemma pow2_nat: "0 \<le> e \<Longrightarrow> pow2 e = of_int (2 ^ nat e)"
  by (simp add: pow2_def)

lemma flog2_le:
  assumes "0 < x" shows "pow2 (flog2 x) \<le> x"
proof -
  obtain n d where q: "quotient_of x = (n, d)" by force
  have d: "0 < d" using quotient_of_denom_pos [OF q] .
  have x: "x = of_int n / of_int d" using quotient_of_div [OF q] .
  have n: "0 < n" using assms x d by (simp add: zero_less_divide_iff)
  let ?a = "bitlen n" and ?b = "bitlen d"
  have bounds: "2 ^ nat (?a - 1) \<le> n" "d < 2 ^ nat ?b"
    using bitlen_bounds [OF n] bitlen_bounds [OF d] by auto
  have apos: "0 < ?a" "0 < ?b"
    using n d bitlen_nonneg [of n] bitlen_nonneg [of d] bitlen_eq_zero_iff [of n] bitlen_eq_zero_iff [of d]
    by linarith+
  have "pow2 (?a - ?b - 1) = pow2 (?a - 1) / pow2 ?b"
    using pow2_diff [of "?a - 1" ?b] by (simp add: algebra_simps)
  also have "\<dots> = of_int (2 ^ nat (?a - 1)) / of_int (2 ^ nat ?b)"
    using apos by (simp add: pow2_nat)
  also have "\<dots> \<le> of_int n / of_int d"
  proof (rule frac_le)
    show "(0 :: rat) \<le> of_int n" "(0 :: rat) < of_int d" using n d by simp_all
    show "of_int (2 ^ nat (?a - 1)) \<le> (of_int n :: rat)" using bounds(1) by (simp only: of_int_le_iff)
    show "(of_int d :: rat) \<le> of_int (2 ^ nat ?b)" using bounds(2) by (simp only: of_int_le_iff)
  qed
  finally have "pow2 (?a - ?b - 1) \<le> x" using x by simp
  then show ?thesis by (simp add: flog2_def q Let_def)
qed

subsection \<open>Values that need no rounding\<close>

lemma round_half_even_of_int [simp]: "round_half_even (of_int m) = m"
  by (simp add: round_half_even_def)

lemma round32_exact:
  assumes m: "\<bar>m\<bar> < 2 ^ 24" and k: "- 149 \<le> k"
  shows "round32 (of_int m * pow2 k) = of_int m * pow2 k"
proof (cases "m = 0")
  case True
  then show ?thesis by (simp add: round32_def)
next
  case False
  let ?x = "of_int m * pow2 k :: rat"
  let ?e = "max (flog2 \<bar>?x\<bar>) (- 126)"
  have abs: "\<bar>?x\<bar> = of_int \<bar>m\<bar> * pow2 k" by (simp add: abs_mult abs_of_pos)
  have pos: "0 < \<bar>?x\<bar>" using False by simp
  have "pow2 (flog2 \<bar>?x\<bar>) \<le> \<bar>?x\<bar>" by (rule flog2_le [OF pos])
  also have "\<dots> < of_int (2 ^ 24) * pow2 k"
    using m unfolding abs by (intro mult_strict_right_mono) (simp_all only: of_int_less_iff pow2_pos)
  also have "\<dots> = pow2 (k + 24)" unfolding pow2_add by (simp add: pow2_nat)
  finally have "flog2 \<bar>?x\<bar> < k + 24" by (simp add: pow2_less_iff)
  then have j: "0 \<le> k - (?e - 23)" using k by linarith
  have "?x / pow2 (?e - 23) = of_int m * pow2 (k - (?e - 23))"
    by (simp add: pow2_diff)
  also have "\<dots> = of_int (m * 2 ^ nat (k - (?e - 23)))"
    using j by (simp add: pow2_nat)
  finally have "round_half_even (?x / pow2 (?e - 23)) = m * 2 ^ nat (k - (?e - 23))"
    by (simp only: round_half_even_of_int)
  then have "round32 ?x = of_int (m * 2 ^ nat (k - (?e - 23))) * pow2 (?e - 23)"
    using False by (simp add: round32_def Let_def)
  also have "\<dots> = of_int m * (pow2 (k - (?e - 23)) * pow2 (?e - 23))"
    using j by (simp add: pow2_nat)
  also have "\<dots> = ?x" by (simp flip: pow2_add)
  finally show ?thesis .
qed

lemma round32_int: "\<bar>m\<bar> < 2 ^ 24 \<Longrightarrow> round32 (of_int m) = of_int m"
  using round32_exact [of m 0] by (simp add: pow2_def)

lemma round32_half_int: "\<bar>m\<bar> < 2 ^ 24 \<Longrightarrow> round32 (of_int m / 2) = of_int m / 2"
  using round32_exact [of m "-1"] by (simp add: pow2_def)

subsection \<open>Scaling by one and by one half\<close>

lemma f32_to_u32_nonneg: "0 \<le> x \<Longrightarrow> f32_to_u32 x = word_of_int \<lfloor>x\<rfloor>"
  by (simp add: f32_to_u32_def)

lemma scale_dim_int_one:
  fixes n :: int
  assumes "0 \<le> n" "n < 2 ^ 23"
  shows "f32_to_u32 (round32 (round32 (round32 (of_int n) * 1) + 1 / 2)) = word_of_int n"
proof -
  have 1: "round32 (of_int n) = of_int n"
    using assms by (intro round32_int) simp
  have e: "(of_int n + 1 / 2 :: rat) = of_int (2 * n + 1) / 2" by simp
  have 2: "round32 (of_int n + 1 / 2) = of_int n + 1 / 2"
    unfolding e by (rule round32_half_int) (use assms in simp)
  have fl: "\<lfloor>(of_int n + 1 / 2 :: rat)\<rfloor> = n"
    by (intro floor_unique) simp_all
  have pos: "(0 :: rat) \<le> of_int n + 1 / 2" using assms by simp
  show ?thesis by (simp only: 1 2 mult_1_right f32_to_u32_nonneg [OF pos] fl)
qed

lemma scale_dim_int_half:
  fixes n :: int
  assumes "0 \<le> n" "n < 2 ^ 23"
  shows "f32_to_u32 (round32 (round32 (round32 (of_int n) * (1 / 2)) + 1 / 2)) = word_of_int ((n + 1) div 2)"
proof -
  have 1: "round32 (of_int n) = of_int n"
    using assms by (intro round32_int) simp
  have h: "(of_int n * (1 / 2) :: rat) = of_int n / 2" by simp
  have 2: "round32 (of_int n * (1 / 2)) = of_int n / 2"
    unfolding h by (rule round32_half_int) (use assms in simp)
  have e: "(of_int n / 2 + 1 / 2 :: rat) = of_int (n + 1) / 2" by simp
  have 3: "round32 (of_int n / 2 + 1 / 2) = of_int (n + 1) / 2"
    unfolding e by (rule round32_half_int) (use assms in simp)
  have fl: "\<lfloor>(of_int (n + 1) / 2 :: rat)\<rfloor> = (n + 1) div 2"
    using floor_divide_of_int_eq [of "n + 1" 2, where ?'a = rat] by simp
  have pos: "(0 :: rat) \<le> of_int (n + 1) / 2" using assms by simp
  show ?thesis by (simp only: 1 2 3 f32_to_u32_nonneg [OF pos] fl)
qed

lemma scale_dim_one: "uint v < 2 ^ 23 \<Longrightarrow> scale_dim v 1 = v"
  unfolding scale_dim_def by (subst scale_dim_int_one) simp_all

lemma scale_dim_half:
  assumes "uint v < 2 ^ 23" shows "uint (scale_dim v (1 / 2)) = (uint v + 1) div 2"
proof -
  have nn: "0 \<le> uint v" by simp
  have bnd: "0 \<le> (uint v + 1) div 2" "(uint v + 1) div 2 < 2 ^ 32" using assms nn by simp_all
  show ?thesis
    unfolding scale_dim_def scale_dim_int_half [OF nn assms]
    using bnd by (simp only: uint_word_of_int_eq take_bit_int_eq_self_iff) simp
qed

end
