(* ===== verification/Access.thy ===== *)
theory Access
  imports Gpu_Types Float32
begin

text \<open>
  Handles, the recorded accesses of a pass and their semantics: \<open>ResourceHandle\<close> and the
  view and attachment descriptors of webgpu/base/RenderGraph.h, \<open>ResourceAccess\<close> of
  RenderGraph_internal.h, and \<open>access_semantics\<close>, the conflict rule and the kind rule of
  RenderGraph.cpp. Resource ids are \<open>nat\<close>: a frame creates far fewer than 2 to the 32
  resources. Sizes, mip and layer numbers keep their widths, since an access narrows them.
\<close>

record handle =
  h_id :: nat
  h_kind :: resource_kind
  h_generation :: nat

record color =
  cr :: f32
  cg :: f32
  cb :: f32
  ca :: f32

definition mk_color :: "f32 \<Rightarrow> f32 \<Rightarrow> f32 \<Rightarrow> f32 \<Rightarrow> color" where
  "mk_color r g b a = \<lparr>cr = r, cg = g, cb = b, ca = a\<rparr>"

text \<open>\<open>float(clear.r)\<close> and its siblings: the double components rounded to \<open>float\<close>.\<close>

definition narrow_color :: "color \<Rightarrow> color" where
  "narrow_color c = mk_color (round32 (cr c)) (round32 (cg c)) (round32 (cb c)) (round32 (ca c))"

datatype access_type =
    ColorAttachment | DepthStencilAttachment | DepthStencilReadOnly | ResolveAttachment
  | Sampled | StorageRead | StorageWrite | Uniform | CopySrc | CopyDst | Vertex | Index | Indirect

record access =
  ac_handle :: handle
  ac_buf_offset :: u64
  ac_buf_size :: u64
  ac_clear_color :: color
  ac_clear_depth :: f32
  ac_load :: load_op
  ac_store :: store_op
  ac_stencil_load :: load_op
  ac_stencil_store :: store_op
  ac_view_dim :: view_dimension
  ac_view_aspect :: texture_aspect
  ac_base_layer :: u16
  ac_layer_count :: u16
  ac_type :: access_type
  ac_stencil_clear :: u8
  ac_color_index :: u8
  ac_buf_full_define :: bool
  ac_base_mip :: u8
  ac_mip_count :: u8

subsection \<open>Descriptors of the declaration calls\<close>

record subresource =
  sub_mip :: u32
  sub_layer :: u32

definition mk_sub :: "u32 \<Rightarrow> u32 \<Rightarrow> subresource" where
  "mk_sub m l = \<lparr>sub_mip = m, sub_layer = l\<rparr>"

record view_range =
  vr_base_mip :: u32
  vr_mip_count :: u32
  vr_base_layer :: u32
  vr_layer_count :: u32
  vr_dim :: view_dimension
  vr_aspect :: texture_aspect

definition default_range :: view_range where
  "default_range = \<lparr>vr_base_mip = 0, vr_mip_count = 1, vr_base_layer = 0, vr_layer_count = 1,
                    vr_dim = VD_Undefined, vr_aspect = TA_All\<rparr>"

definition range_at :: "view_range \<Rightarrow> u32 \<Rightarrow> u32 \<Rightarrow> view_range" where
  "range_at r mip layer = r\<lparr>vr_base_mip := mip, vr_base_layer := layer\<rparr>"

definition cube_range :: "texture_aspect \<Rightarrow> u32 \<Rightarrow> view_range" where
  "cube_range asp mipCount =
     default_range\<lparr>vr_mip_count := mipCount, vr_layer_count := 6, vr_dim := VD_Cube, vr_aspect := asp\<rparr>"

definition cube_array_range :: "u32 \<Rightarrow> texture_aspect \<Rightarrow> u32 \<Rightarrow> view_range" where
  "cube_array_range cubes asp mipCount =
     default_range\<lparr>vr_mip_count := mipCount, vr_layer_count := 6 * cubes, vr_dim := VD_CubeArray,
                   vr_aspect := asp\<rparr>"

definition whole_range :: "texture_aspect \<Rightarrow> view_range" where
  "whole_range asp = default_range\<lparr>vr_mip_count := 0, vr_layer_count := 0, vr_aspect := asp\<rparr>"

record buffer_range =
  br_offset :: u64
  br_size :: u64

record color_attachment =
  ca_load :: load_op
  ca_store :: store_op
  ca_clear :: color
  ca_sub :: subresource

definition default_color_attachment :: color_attachment where
  "default_color_attachment =
     \<lparr>ca_load = LO_Clear, ca_store = SO_Store, ca_clear = mk_color 0 0 0 1, ca_sub = mk_sub 0 0\<rparr>"

record depth_attachment =
  da_load :: load_op
  da_store :: store_op
  da_clear_depth :: f32
  da_sub :: subresource
  da_stencil_load :: load_op
  da_stencil_store :: store_op
  da_stencil_clear :: u32

definition default_depth_attachment :: depth_attachment where
  "default_depth_attachment =
     \<lparr>da_load = LO_Clear, da_store = SO_Store, da_clear_depth = 1, da_sub = mk_sub 0 0,
      da_stencil_load = LO_Undefined, da_stencil_store = SO_Undefined, da_stencil_clear = 0\<rparr>"

subsection \<open>What an access does\<close>

datatype define_mode = DM_None | DM_IfClearLoadOp | DM_Always | DM_CopyDst

record access_sem =
  as_write :: bool
  as_define :: define_mode
  as_tex :: texture_usage
  as_buf :: buffer_usage

definition mk_sem :: "bool \<Rightarrow> define_mode \<Rightarrow> texture_usage \<Rightarrow> buffer_usage \<Rightarrow> access_sem" where
  "mk_sem w d t b = \<lparr>as_write = w, as_define = d, as_tex = t, as_buf = b\<rparr>"

fun access_semantics :: "access_type \<Rightarrow> access_sem" where
  "access_semantics ColorAttachment = mk_sem True DM_IfClearLoadOp {TU_RenderAttachment} {}"
| "access_semantics DepthStencilAttachment = mk_sem True DM_IfClearLoadOp {TU_RenderAttachment} {}"
| "access_semantics DepthStencilReadOnly = mk_sem False DM_None {TU_RenderAttachment} {}"
| "access_semantics ResolveAttachment = mk_sem True DM_None {TU_RenderAttachment} {}"
| "access_semantics Sampled = mk_sem False DM_None {TU_TextureBinding} {}"
| "access_semantics StorageRead = mk_sem False DM_None {TU_StorageBinding} {BU_Storage}"
| "access_semantics StorageWrite = mk_sem True DM_Always {TU_StorageBinding} {BU_Storage}"
| "access_semantics Uniform = mk_sem False DM_None {} {BU_Uniform, BU_CopyDst}"
| "access_semantics CopySrc = mk_sem False DM_None {TU_CopySrc} {BU_CopySrc}"
| "access_semantics CopyDst = mk_sem True DM_CopyDst {TU_CopyDst} {BU_CopyDst}"
| "access_semantics Vertex = mk_sem False DM_None {} {BU_Vertex}"
| "access_semantics Index = mk_sem False DM_None {} {BU_Index}"
| "access_semantics Indirect = mk_sem False DM_None {} {BU_Indirect}"

definition access_is_write :: "access_type \<Rightarrow> bool" where
  "access_is_write t = as_write (access_semantics t)"

definition tex_usage_of :: "access_type \<Rightarrow> texture_usage" where
  "tex_usage_of t = as_tex (access_semantics t)"

definition buf_usage_of :: "access_type \<Rightarrow> buffer_usage" where
  "buf_usage_of t = as_buf (access_semantics t)"

definition access_defines :: "access \<Rightarrow> bool" where
  "access_defines a =
     (case as_define (access_semantics (ac_type a)) of
        DM_None \<Rightarrow> False
      | DM_IfClearLoadOp \<Rightarrow> ac_load a = LO_Clear
      | DM_Always \<Rightarrow> True
      | DM_CopyDst \<Rightarrow> h_kind (ac_handle a) = RK_Buffer \<and> ac_buf_full_define a)"

fun access_allows_kind :: "access_type \<Rightarrow> resource_kind \<Rightarrow> bool" where
  "access_allows_kind ColorAttachment k = (k = RK_Texture)"
| "access_allows_kind DepthStencilAttachment k = (k = RK_Texture)"
| "access_allows_kind DepthStencilReadOnly k = (k = RK_Texture)"
| "access_allows_kind ResolveAttachment k = (k = RK_Texture)"
| "access_allows_kind Sampled k = (k = RK_Texture)"
| "access_allows_kind Uniform k = (k = RK_Buffer)"
| "access_allows_kind Vertex k = (k = RK_Buffer)"
| "access_allows_kind Index k = (k = RK_Buffer)"
| "access_allows_kind Indirect k = (k = RK_Buffer)"
| "access_allows_kind _ k = True"

definition is_bind_access :: "access_type \<Rightarrow> bool" where
  "is_bind_access t \<longleftrightarrow> t = Uniform \<or> t = StorageRead \<or> t = StorageWrite"

definition is_mappable :: "buffer_usage \<Rightarrow> bool" where
  "is_mappable u \<longleftrightarrow> u \<inter> {BU_MapRead, BU_MapWrite} \<noteq> {}"

lemma access_defines_is_write: "access_defines a \<Longrightarrow> access_is_write (ac_type a)"
  by (cases "ac_type a") (simp_all add: access_defines_def access_is_write_def mk_sem_def)

lemma buf_usage_not_mappable: "\<not> is_mappable (buf_usage_of t)"
  by (cases t) (simp_all add: is_mappable_def buf_usage_of_def mk_sem_def)

lemma tex_usage_not_transient: "TU_TransientAttachment \<notin> tex_usage_of t"
  by (cases t) (simp_all add: tex_usage_of_def mk_sem_def)

text \<open>Each kind an access is legal on gets at least one usage bit of that kind.\<close>

lemma usage_nonempty:
  "access_allows_kind t RK_Texture \<Longrightarrow> tex_usage_of t \<noteq> {}"
  "access_allows_kind t RK_Buffer \<Longrightarrow> buf_usage_of t \<noteq> {}"
  by (cases t; simp add: tex_usage_of_def buf_usage_of_def mk_sem_def)+

subsection \<open>Conflicts inside one pass\<close>

definition ranges_overlap :: "u32 \<Rightarrow> u32 \<Rightarrow> u32 \<Rightarrow> u32 \<Rightarrow> bool" where
  "ranges_overlap aBase aCount bBase bCount =
     (let aEnd = (if aCount \<noteq> 0 then aBase + aCount else - 1);
          bEnd = (if bCount \<noteq> 0 then bBase + bCount else - 1)
      in aBase < bEnd \<and> bBase < aEnd)"

definition aspects_overlap :: "texture_aspect \<Rightarrow> texture_aspect \<Rightarrow> bool" where
  "aspects_overlap a b \<longleftrightarrow> a = TA_All \<or> b = TA_All \<or> a = b"

definition in_pass_accesses_conflict ::
  "access_type \<Rightarrow> u32 \<Rightarrow> u32 \<Rightarrow> u32 \<Rightarrow> u32 \<Rightarrow> texture_aspect \<Rightarrow>
   access_type \<Rightarrow> u32 \<Rightarrow> u32 \<Rightarrow> u32 \<Rightarrow> u32 \<Rightarrow> texture_aspect \<Rightarrow> bool" where
  "in_pass_accesses_conflict a aBaseMip aMipCount aBaseLayer aLayerCount aAspect
                             b bBaseMip bMipCount bBaseLayer bLayerCount bAspect =
     (if \<not> ranges_overlap aBaseMip aMipCount bBaseMip bMipCount then False
      else if \<not> ranges_overlap aBaseLayer aLayerCount bBaseLayer bLayerCount then False
      else if \<not> aspects_overlap aAspect bAspect then False
      else if \<not> access_is_write a \<and> \<not> access_is_write b then False
      else if (a = StorageRead \<and> b = StorageWrite) \<or> (a = StorageWrite \<and> b = StorageRead) then False
      else True)"

text \<open>What a mip or layer range covers: a count of 0 is everything from the base on.\<close>

definition covers :: "u32 \<Rightarrow> u32 \<Rightarrow> nat set" where
  "covers base n =
     (if n = 0 then {unat base ..< 2 ^ 32 - 1} else {unat base ..< unat base + unat n})"

definition range_end :: "u32 \<Rightarrow> u32 \<Rightarrow> u32" where
  "range_end base n = (if n \<noteq> 0 then base + n else - 1)"

lemma covers_range_end:
  assumes "unat base + unat n < 2 ^ 32" "unat base < 2 ^ 32 - 1"
  shows "covers base n = {unat base ..< unat (range_end base n)}" "unat base < unat (range_end base n)"
proof -
  have m: "unat (- 1 :: u32) = 2 ^ 32 - 1" by (simp add: unsigned_minus_1_eq_mask mask_eq_exp_minus_1)
  have e: "unat (base + n) = unat base + unat n" using assms by (simp add: unat_word_ariths)
  have z: "n \<noteq> 0 \<Longrightarrow> 0 < unat n" by (simp add: unat_gt_0)
  show "covers base n = {unat base ..< unat (range_end base n)}"
    unfolding covers_def range_end_def using e m by (auto simp only: split: if_splits)
  show "unat base < unat (range_end base n)"
    unfolding range_end_def using e m z assms(2) by (cases "n = 0") (simp_all only: if_True if_False not_True_eq_False, simp_all)
qed

lemma ranges_overlap_covers:
  assumes "unat aBase + unat aCount < 2 ^ 32" "unat bBase + unat bCount < 2 ^ 32"
    "unat aBase < 2 ^ 32 - 1" "unat bBase < 2 ^ 32 - 1"
  shows "ranges_overlap aBase aCount bBase bCount \<longleftrightarrow> covers aBase aCount \<inter> covers bBase bCount \<noteq> {}"
proof -
  have ivl: "{a ..< b} \<inter> {c ..< d} \<noteq> {} \<longleftrightarrow> a < d \<and> c < b" if "a < b" "c < d" for a b c d :: nat
    using that by (simp add: Int_atLeastLessThan) (auto simp: max_def min_def)
  have "ranges_overlap aBase aCount bBase bCount \<longleftrightarrow>
      unat aBase < unat (range_end bBase bCount) \<and> unat bBase < unat (range_end aBase aCount)"
    by (simp add: ranges_overlap_def range_end_def Let_def word_less_nat_alt)
  then show ?thesis
    using ivl covers_range_end [OF assms(1,3)] covers_range_end [OF assms(2,4)] by simp
qed

lemma ranges_overlap_sym: "ranges_overlap a n b m = ranges_overlap b m a n"
  by (auto simp: ranges_overlap_def Let_def)

lemma conflict_sym:
  "in_pass_accesses_conflict a m1 n1 l1 k1 p b m2 n2 l2 k2 q =
   in_pass_accesses_conflict b m2 n2 l2 k2 q a m1 n1 l1 k1 p"
  by (auto simp: in_pass_accesses_conflict_def ranges_overlap_sym [of m1] ranges_overlap_sym [of l1]
        aspects_overlap_def)

end
