(* ===== verification/Arena.thy ===== *)
theory Arena
  imports RG_Prelude
begin

text \<open>
  The chained-block bump allocator (struct \<open>Arena\<close> of webgpu/base/RenderGraph_internal.h and
  its operations in RenderGraph.cpp) and the string interner that lives in one. An address is
  the creation ordinal of a block and an offset into its payload, so an address names one byte
  for the life of the arena. Byte counts are \<open>nat\<close>: they are bounded by the memory of the
  process. \<open>malloc\<close> is the parameter \<open>mal\<close>, telling for a byte count whether the call
  succeeds; a failed one ends in \<open>oom\<close>, which aborts, here \<open>None\<close>.
\<close>

subsection \<open>Alignment\<close>

definition align_up_word :: "u64 \<Rightarrow> u64 \<Rightarrow> u64" where
  "align_up_word value alignment = (value + alignment - 1) AND NOT (alignment - 1)"

text \<open>On counts that do not wrap and a power of two, masking is rounding to a multiple.\<close>

definition align_up :: "nat \<Rightarrow> nat \<Rightarrow> nat" where
  "align_up v a = (v + a - 1) div a * a"

lemma align_up_ge: "0 < a \<Longrightarrow> v \<le> align_up v a"
proof -
  assume a: "0 < a"
  have "v + a - 1 = align_up v a + (v + a - 1) mod a"
    by (simp add: align_up_def)
  moreover have "(v + a - 1) mod a < a" using a by simp
  ultimately show ?thesis by linarith
qed

lemma align_up_lt: "0 < a \<Longrightarrow> align_up v a < v + a"
proof -
  assume a: "0 < a"
  have "align_up v a \<le> v + a - 1" by (simp add: align_up_def)
  with a show ?thesis by linarith
qed

lemma align_up_dvd: "a dvd align_up v a"
  by (simp add: align_up_def)

lemma mask_clears_low:
  fixes x :: u64
  shows "x AND NOT (2 ^ k - 1) = push_bit k (drop_bit k x)"
proof -
  have "(2 ^ k - 1 :: u64) = mask k" by (simp add: mask_eq_exp_minus_1)
  then show ?thesis by (simp add: bit_eq_iff bit_simps) (auto simp: not_le)
qed

lemma align_up_word_refines:
  assumes "k < 64" and "unat v + 2 ^ k < 2 ^ 64"
  shows "unat (align_up_word v (2 ^ k)) = align_up (unat v) (2 ^ k)"
proof -
  have uk: "unat (2 ^ k :: u64) = 2 ^ k"
  proof -
    have "(2 :: nat) ^ k < 2 ^ 64" using assms(1) by (intro power_strict_increasing) simp_all
    then show ?thesis using unat_of_nat [of "2 ^ k", where ?'a = 64] by simp
  qed
  have pos: "(1 :: u64) \<le> v + 2 ^ k"
  proof -
    have "unat (v + 2 ^ k) = unat v + 2 ^ k" using assms uk by (simp add: unat_word_ariths)
    moreover have "0 < (2 :: nat) ^ k" by simp
    ultimately have "0 < unat (v + 2 ^ k)" by linarith
    then show ?thesis by (metis not_gr0 unat_0 word_gt_0 word_less_1 not_le)
  qed
  have s: "unat (v + 2 ^ k - 1) = unat v + 2 ^ k - 1"
    using pos assms uk by (simp add: unat_sub unat_word_ariths)
  have d: "unat (drop_bit k (v + 2 ^ k - 1)) = (unat v + 2 ^ k - 1) div 2 ^ k"
    by (simp only: unat_drop_bit_eq drop_bit_eq_div [where ?'a = nat] s)
  have lt: "(unat v + 2 ^ k - 1) div 2 ^ k * 2 ^ k < 2 ^ 64"
    using assms(2) div_times_less_eq_dividend [of "unat v + 2 ^ k - 1" "2 ^ k"] by linarith
  have "unat (push_bit k (drop_bit k (v + 2 ^ k - 1))) = (unat v + 2 ^ k - 1) div 2 ^ k * 2 ^ k mod 2 ^ 64"
    unfolding unsigned_push_bit_eq d by (simp only: push_bit_eq_mult take_bit_eq_mod) simp
  with lt show ?thesis
    by (simp add: align_up_word_def mask_clears_low align_up_def)
qed

subsection \<open>Blocks and the bump cursor\<close>

record block =
  bk_id :: nat
  bk_capacity :: nat
  bk_used :: nat

record arena =
  ar_blocks :: "block list" \<comment> \<open>the chain from \<open>head\<close>\<close>
  ar_current :: "nat option" \<comment> \<open>position of \<open>current\<close> in the chain\<close>
  ar_block_size :: nat
  ar_total_capacity :: nat
  ar_peak :: nat
  ar_block_count :: nat
  ar_live :: nat
  ar_next_id :: nat \<comment> \<open>names the next block\<close>

type_synonym addr = "nat \<times> nat"

definition empty_arena :: "nat \<Rightarrow> arena" where
  "empty_arena bs = \<lparr>ar_blocks = [], ar_current = None, ar_block_size = bs, ar_total_capacity = 0,
     ar_peak = 0, ar_block_count = 0, ar_live = 0, ar_next_id = 0\<rparr>"

definition new_block :: "(nat \<Rightarrow> bool) \<Rightarrow> nat \<Rightarrow> arena \<Rightarrow> (block \<times> arena) option" where
  "new_block mal minPayload ar =
     (let payloadBytes = (if minPayload < ar_block_size ar then ar_block_size ar else minPayload)
      in if \<not> mal payloadBytes then None
         else Some (\<lparr>bk_id = ar_next_id ar, bk_capacity = payloadBytes, bk_used = 0\<rparr>,
                    ar\<lparr>ar_total_capacity := ar_total_capacity ar + payloadBytes,
                       ar_block_count := ar_block_count ar + 1,
                       ar_next_id := ar_next_id ar + 1\<rparr>))"

definition reserve :: "(nat \<Rightarrow> bool) \<Rightarrow> arena \<Rightarrow> arena" where
  "reserve mal ar =
     (case ar_current ar of
        Some _ \<Rightarrow> ar
      | None \<Rightarrow>
          (case new_block mal (ar_block_size ar) ar of
             None \<Rightarrow> ar
           | Some (b, ar') \<Rightarrow> ar'\<lparr>ar_blocks := [b], ar_current := Some 0\<rparr>))"

definition live_used :: "arena \<Rightarrow> nat" where
  "live_used ar = ar_live ar"

text \<open>The three steps of \<open>alloc_raw\<close>: have a block, have one with room, bump its cursor.\<close>

definition ensure_current :: "(nat \<Rightarrow> bool) \<Rightarrow> nat \<Rightarrow> arena \<Rightarrow> arena option" where
  "ensure_current mal need ar =
     (case ar_current ar of
        Some _ \<Rightarrow> Some ar
      | None \<Rightarrow>
          (case new_block mal need ar of
             None \<Rightarrow> None
           | Some (b, ar') \<Rightarrow> Some (ar'\<lparr>ar_blocks := [b], ar_current := Some 0\<rparr>)))"

definition ensure_room :: "(nat \<Rightarrow> bool) \<Rightarrow> nat \<Rightarrow> nat \<Rightarrow> arena \<Rightarrow> arena option" where
  "ensure_room mal sz al ar =
     (let c = the (ar_current ar); bs = ar_blocks ar; b = bs ! c
      in if align_up (bk_used b) al + sz > bk_capacity b then
           if Suc c < length bs \<and> sz + al \<le> bk_capacity (bs ! Suc c) then
             Some (ar\<lparr>ar_current := Some (Suc c),
                      ar_live := ar_live ar - bk_used (bs ! Suc c),
                      ar_blocks := bs[Suc c := (bs ! Suc c)\<lparr>bk_used := 0\<rparr>]\<rparr>)
           else
             (case new_block mal (sz + al) ar of
                None \<Rightarrow> None
              | Some (nb, ar') \<Rightarrow>
                  Some (ar'\<lparr>ar_blocks := take (Suc c) bs @ [nb] @ drop (Suc c) bs,
                            ar_current := Some (Suc c)\<rparr>))
         else Some ar)"

definition bump :: "nat \<Rightarrow> nat \<Rightarrow> arena \<Rightarrow> addr \<times> arena" where
  "bump sz al ar =
     (let c = the (ar_current ar); b = ar_blocks ar ! c;
          off = align_up (bk_used b) al;
          live = ar_live ar + ((off + sz) - bk_used b)
      in ((bk_id b, off),
          ar\<lparr>ar_live := live,
             ar_blocks := (ar_blocks ar)[c := b\<lparr>bk_used := off + sz\<rparr>],
             ar_peak := (if live > ar_peak ar then live else ar_peak ar)\<rparr>))"

definition alloc_raw :: "(nat \<Rightarrow> bool) \<Rightarrow> nat \<Rightarrow> nat \<Rightarrow> arena \<Rightarrow> (addr \<times> arena) option" where
  "alloc_raw mal sz al ar =
     (case ensure_current mal (sz + al) ar of
        None \<Rightarrow> None
      | Some ar1 \<Rightarrow>
          (case ensure_room mal sz al ar1 of
             None \<Rightarrow> None
           | Some ar2 \<Rightarrow> Some (bump sz al ar2)))"

definition extend_tail :: "addr \<Rightarrow> nat \<Rightarrow> nat \<Rightarrow> arena \<Rightarrow> (addr \<times> arena) option" where
  "extend_tail p oldSize addSize ar =
     (case ar_current ar of
        None \<Rightarrow> None
      | Some c \<Rightarrow>
          (let b = ar_blocks ar ! c
           in if \<not> (fst p = bk_id b \<and> snd p + oldSize = bk_used b) then None
              else if bk_used b + addSize > bk_capacity b then None
              else
                let live = ar_live ar + addSize
                in Some (p, ar\<lparr>ar_blocks := (ar_blocks ar)[c := b\<lparr>bk_used := bk_used b + addSize\<rparr>],
                               ar_live := live,
                               ar_peak := (if live > ar_peak ar then live else ar_peak ar)\<rparr>)))"

definition reset_arena :: "arena \<Rightarrow> arena" where
  "reset_arena ar =
     ar\<lparr>ar_blocks := map (\<lambda>b. b\<lparr>bk_used := 0\<rparr>) (ar_blocks ar),
        ar_current := (if ar_blocks ar = [] then None else Some 0),
        ar_live := 0, ar_peak := 0\<rparr>"

definition free_all :: "arena \<Rightarrow> arena" where
  "free_all ar =
     ar\<lparr>ar_blocks := [], ar_current := None, ar_total_capacity := 0, ar_peak := 0,
        ar_block_count := 0, ar_live := 0\<rparr>"

text \<open>A mark names its block by the block's identity, as the pointer does.\<close>

record mark =
  mk_block_id :: "nat option"
  mk_used :: nat

definition mark_arena :: "arena \<Rightarrow> mark" where
  "mark_arena ar =
     (case ar_current ar of
        None \<Rightarrow> \<lparr>mk_block_id = None, mk_used = 0\<rparr>
      | Some c \<Rightarrow> \<lparr>mk_block_id = Some (bk_id (ar_blocks ar ! c)), mk_used = bk_used (ar_blocks ar ! c)\<rparr>)"

definition block_pos :: "nat \<Rightarrow> block list \<Rightarrow> nat" where
  "block_pos i bs = length (takeWhile (\<lambda>b. bk_id b \<noteq> i) bs)"

definition zero_used :: "block list \<Rightarrow> block list" where
  "zero_used bs = map (\<lambda>b. b\<lparr>bk_used := 0\<rparr>) bs"

definition rewind :: "mark \<Rightarrow> arena \<Rightarrow> arena" where
  "rewind m ar =
     (let bs = ar_blocks ar in
      case mk_block_id m of
        None \<Rightarrow>
          ar\<lparr>ar_live := ar_live ar - sum_list (map bk_used bs),
             ar_blocks := zero_used bs,
             ar_current := (if bs = [] then None else Some 0)\<rparr>
      | Some i \<Rightarrow>
          (let p = block_pos i bs
           in ar\<lparr>ar_live := ar_live ar - sum_list (map bk_used (drop (Suc p) bs))
                              - (bk_used (bs ! p) - mk_used m),
                 ar_blocks := take p bs @ [(bs ! p)\<lparr>bk_used := mk_used m\<rparr>] @ zero_used (drop (Suc p) bs),
                 ar_current := Some p\<rparr>))"

text \<open>Bytes the cursors have passed, and the state the operations keep.\<close>

definition allocated :: "arena \<Rightarrow> addr set" where
  "allocated ar = {(i, p). \<exists>b \<in> set (ar_blocks ar). bk_id b = i \<and> p < bk_used b}"

definition arena_ok :: "arena \<Rightarrow> bool" where
  "arena_ok ar \<longleftrightarrow>
     distinct (map bk_id (ar_blocks ar)) \<and>
     (\<forall>b \<in> set (ar_blocks ar). bk_id b < ar_next_id ar \<and> bk_used b \<le> bk_capacity b) \<and>
     (case ar_current ar of
        None \<Rightarrow> ar_blocks ar = []
      | Some c \<Rightarrow> c < length (ar_blocks ar) \<and> (\<forall>b \<in> set (drop (Suc c) (ar_blocks ar)). bk_used b = 0)) \<and>
     ar_live ar = sum_list (map bk_used (ar_blocks ar)) \<and>
     ar_live ar \<le> ar_peak ar \<and>
     ar_total_capacity ar = sum_list (map bk_capacity (ar_blocks ar)) \<and>
     ar_block_count ar = length (ar_blocks ar)"

subsection \<open>The chain around the current block\<close>

lemma arena_current_split:
  assumes "arena_ok ar" "ar_current ar = Some c"
  obtains xs b ys where "ar_blocks ar = xs @ b # ys" "c = length xs" "\<forall>y \<in> set ys. bk_used y = 0"
proof -
  have c: "c < length (ar_blocks ar)"
    using assms by (simp add: arena_ok_def)
  have "\<forall>y \<in> set (drop (Suc c) (ar_blocks ar)). bk_used y = 0"
    using assms by (simp add: arena_ok_def)
  moreover have "ar_blocks ar = take c (ar_blocks ar) @ ar_blocks ar ! c # drop (Suc c) (ar_blocks ar)"
    using c by (rule id_take_nth_drop)
  moreover have "c = length (take c (ar_blocks ar))" using c by simp
  ultimately show ?thesis using that by blast
qed

lemma arena_okI_split:
  assumes "ar_blocks ar = xs @ b # ys" "ar_current ar = Some (length xs)"
    "distinct (map bk_id (xs @ b # ys))"
    "\<forall>x \<in> set (xs @ b # ys). bk_id x < ar_next_id ar \<and> bk_used x \<le> bk_capacity x"
    "\<forall>y \<in> set ys. bk_used y = 0"
    "ar_live ar = sum_list (map bk_used (xs @ [b]))"
    "ar_live ar \<le> ar_peak ar"
    "ar_total_capacity ar = sum_list (map bk_capacity (xs @ b # ys))"
    "ar_block_count ar = length (xs @ b # ys)"
  shows "arena_ok ar"
proof -
  have "sum_list (map bk_used ys) = 0" using assms(5) by (induction ys) auto
  with assms show ?thesis by (simp add: arena_ok_def)
qed

lemma arena_ok_splitD:
  assumes "arena_ok ar" "ar_blocks ar = xs @ b # ys" "ar_current ar = Some (length xs)"
  shows "distinct (map bk_id (xs @ b # ys))"
    "\<forall>x \<in> set (xs @ b # ys). bk_id x < ar_next_id ar \<and> bk_used x \<le> bk_capacity x"
    "\<forall>y \<in> set ys. bk_used y = 0"
    "ar_live ar = sum_list (map bk_used (xs @ [b]))"
    "ar_live ar \<le> ar_peak ar"
    "ar_total_capacity ar = sum_list (map bk_capacity (xs @ b # ys))"
    "ar_block_count ar = length (xs @ b # ys)"
proof -
  have y: "\<forall>y \<in> set ys. bk_used y = 0" using assms by (simp add: arena_ok_def)
  then have "sum_list (map bk_used ys) = 0" by (induction ys) auto
  with assms show "ar_live ar = sum_list (map bk_used (xs @ [b]))" by (simp add: arena_ok_def)
qed (use assms in \<open>simp_all add: arena_ok_def\<close>)

lemma empty_arena_ok: "arena_ok (empty_arena bs)"
  by (simp add: arena_ok_def empty_arena_def)

lemma new_block_fields:
  assumes "new_block mal n ar = Some (b, ar')"
  shows "bk_id b = ar_next_id ar" "bk_used b = 0" "n \<le> bk_capacity b"
    "ar' = ar\<lparr>ar_total_capacity := ar_total_capacity ar + bk_capacity b,
              ar_block_count := ar_block_count ar + 1, ar_next_id := ar_next_id ar + 1\<rparr>"
  using assms by (auto simp: new_block_def Let_def split: if_splits)

subsection \<open>Every step of \<open>alloc_raw\<close> keeps the invariant\<close>

lemma ensure_current_ok:
  assumes "arena_ok ar" "ensure_current mal n ar = Some ar'"
  shows "arena_ok ar'" "\<exists>c. ar_current ar' = Some c"
    and "ar_current ar \<noteq> None \<Longrightarrow> ar' = ar"
    and "allocated ar' = allocated ar" "ar_live ar' = ar_live ar"
proof -
  have "arena_ok ar' \<and> (\<exists>c. ar_current ar' = Some c) \<and> (ar_current ar \<noteq> None \<longrightarrow> ar' = ar) \<and>
    allocated ar' = allocated ar \<and> ar_live ar' = ar_live ar"
  proof (cases "ar_current ar")
    case None
    then obtain b ar1 where nb: "new_block mal n ar = Some (b, ar1)"
      and ar': "ar' = ar1\<lparr>ar_blocks := [b], ar_current := Some 0\<rparr>"
      using assms(2) by (auto simp: ensure_current_def split: option.splits)
    have e: "ar_blocks ar = []" using assms(1) None by (simp add: arena_ok_def)
    show ?thesis
      using assms(1) None e new_block_fields [OF nb]
      by (simp add: ar' arena_ok_def allocated_def)
  next
    case (Some c)
    with assms show ?thesis by (simp add: ensure_current_def)
  qed
  then show "arena_ok ar'" "\<exists>c. ar_current ar' = Some c"
    "ar_current ar \<noteq> None \<Longrightarrow> ar' = ar" "allocated ar' = allocated ar" "ar_live ar' = ar_live ar"
    by blast+
qed

text \<open>
  \<open>ensure_room\<close> only ever moves the cursor forward over unused blocks; the block it leaves
  current has room for the aligned request.
\<close>

lemma ensure_room_shape:
  assumes ok: "arena_ok ar" and cur: "ar_current ar = Some (length xs)"
    and bs: "ar_blocks ar = xs @ b # ys"
    and room: "ensure_room mal sz al ar = Some ar'" and al: "0 < al"
  shows "(ar' = ar \<and> align_up (bk_used b) al + sz \<le> bk_capacity b) \<or>
    (\<exists>nb ys'. ar_blocks ar' = (xs @ [b]) @ nb # ys' \<and> ar_current ar' = Some (length (xs @ [b])) \<and>
       bk_used nb = 0 \<and> sz + al \<le> bk_capacity nb \<and> arena_ok ar' \<and> ar_live ar' = ar_live ar \<and>
       (\<forall>y \<in> set ys'. bk_used y = 0))"
proof (cases "align_up (bk_used b) al + sz > bk_capacity b")
  case False
  with room bs cur show ?thesis by (simp add: ensure_room_def Let_def)
next
  case full: True
  note D = arena_ok_splitD [OF ok bs cur]
  show ?thesis
  proof (cases "\<exists>y zs. ys = y # zs \<and> sz + al \<le> bk_capacity y")
    case True
    then obtain y zs where ys: "ys = y # zs" and cap: "sz + al \<le> bk_capacity y" by blast
    have u: "bk_used y = 0" "y\<lparr>bk_used := 0\<rparr> = y" using D(3) ys by (simp_all add: block.equality)
    have upd: "(xs @ b # y # zs)[Suc (length xs) := y] = xs @ b # y # zs"
      by (simp add: list_update_append)
    have ar': "ar' = ar\<lparr>ar_current := Some (Suc (length xs)), ar_live := ar_live ar,
                        ar_blocks := xs @ b # y # zs\<rparr>"
      using room full cap bs cur u upd
      by (simp add: ensure_room_def Let_def ys nth_append)
    have "arena_ok ar'"
      by (rule arena_okI_split [of _ "xs @ [b]" y zs]) (use D u in \<open>auto simp: ar' ys\<close>)
    then show ?thesis using cap u D(3) by (auto simp: ar' ys)
  next
    case False
    have cond: "\<not> (Suc (length xs) < length (xs @ b # ys) \<and> sz + al \<le> bk_capacity ((xs @ b # ys) ! Suc (length xs)))"
      using False by (cases ys) (auto simp: nth_append)
    then obtain nb ar1 where nb: "new_block mal (sz + al) ar = Some (nb, ar1)"
      and ar': "ar' = ar1\<lparr>ar_blocks := xs @ b # nb # ys, ar_current := Some (Suc (length xs))\<rparr>"
      using room full cur bs by (auto simp: ensure_room_def Let_def split: option.splits)
    note F = new_block_fields [OF nb]
    have "arena_ok ar'"
      by (rule arena_okI_split [of _ "xs @ [b]" nb ys]) (use D F in \<open>auto simp: ar' intro: less_SucI\<close>)
    then show ?thesis using F D(3) by (auto simp: ar')
  qed
qed

lemma bump_split:
  assumes "ar_blocks ar = xs @ b # ys" "ar_current ar = Some (length xs)"
  shows "bump sz al ar =
    (let off = align_up (bk_used b) al; live = ar_live ar + ((off + sz) - bk_used b)
     in ((bk_id b, off),
         ar\<lparr>ar_live := live, ar_blocks := xs @ b\<lparr>bk_used := off + sz\<rparr> # ys,
            ar_peak := (if live > ar_peak ar then live else ar_peak ar)\<rparr>))"
  using assms by (simp add: bump_def Let_def)

lemma bump_ok:
  assumes ok: "arena_ok ar" and bs: "ar_blocks ar = xs @ b # ys" and cur: "ar_current ar = Some (length xs)"
    and fits: "align_up (bk_used b) al + sz \<le> bk_capacity b" and al: "0 < al"
    and e: "bump sz al ar = (a, ar')"
  shows "arena_ok ar'"
proof -
  note D = arena_ok_splitD [OF ok bs cur]
  have ge: "bk_used b \<le> align_up (bk_used b) al" using al by (rule align_up_ge)
  have ar': "ar' = snd (bump sz al ar)" using e by simp
  show ?thesis
    by (rule arena_okI_split [of _ xs "b\<lparr>bk_used := align_up (bk_used b) al + sz\<rparr>" ys])
      (use D ge fits cur in \<open>auto simp: ar' bump_split [OF bs cur] Let_def\<close>)
qed

subsection \<open>What an allocation returns\<close>

definition region :: "addr \<Rightarrow> nat \<Rightarrow> addr set" where
  "region a sz = {(fst a, p) | p. snd a \<le> p \<and> p < snd a + sz}"

lemma allocated_cases:
  "ar_blocks ar = xs @ b # ys \<Longrightarrow>
   allocated ar = {(bk_id x, p) | x p. x \<in> set (xs @ ys) \<and> p < bk_used x} \<union> {(bk_id b, p) | p. p < bk_used b}"
  by (auto simp: allocated_def)

lemma bump_region:
  assumes ok: "arena_ok ar" and bs: "ar_blocks ar = xs @ b # ys" and cur: "ar_current ar = Some (length xs)"
    and al: "0 < al" and e: "bump sz al ar = (a, ar')"
  shows "region a sz \<inter> allocated ar = {}" "region a sz \<subseteq> allocated ar'" "allocated ar \<subseteq> allocated ar'"
    "al dvd snd a" "ar_live ar \<le> ar_live ar'"
proof -
  note D = arena_ok_splitD [OF ok bs cur]
  let ?off = "align_up (bk_used b) al"
  have ge: "bk_used b \<le> ?off" using al by (rule align_up_ge)
  have a: "a = (bk_id b, ?off)" and bs': "ar_blocks ar' = xs @ b\<lparr>bk_used := ?off + sz\<rparr> # ys"
    and live: "ar_live ar' = ar_live ar + (?off + sz - bk_used b)"
    using e by (auto simp: bump_split [OF bs cur] Let_def)
  have ne: "bk_id b \<notin> bk_id ` set (xs @ ys)"
    using D(1) by auto
  have "False" if "q \<in> region a sz" "q \<in> allocated ar" for q
  proof -
    from that(1) obtain p where q: "q = (bk_id b, p)" "?off \<le> p" by (auto simp: region_def a)
    with that(2) consider x where "x \<in> set (xs @ ys)" "bk_id b = bk_id x" | "p < bk_used b"
      by (auto simp: allocated_cases [OF bs])
    then show False using ne ge q(2) by cases (blast, linarith)
  qed
  then show "region a sz \<inter> allocated ar = {}" by blast
  show "region a sz \<subseteq> allocated ar'" by (auto simp: region_def a allocated_cases [OF bs'])
  show "allocated ar \<subseteq> allocated ar'"
    using ge by (auto simp: allocated_cases [OF bs] allocated_cases [OF bs'])
  show "al dvd snd a" using align_up_dvd by (simp add: a)
  show "ar_live ar \<le> ar_live ar'" by (simp add: live)
qed

lemma ensure_room_allocated:
  assumes ok: "arena_ok ar" and cur: "ar_current ar = Some (length xs)"
    and bs: "ar_blocks ar = xs @ b # ys" and room: "ensure_room mal sz al ar = Some ar'"
  shows "allocated ar' = allocated ar"
proof (cases "align_up (bk_used b) al + sz > bk_capacity b")
  case False
  with room bs cur show ?thesis by (simp add: ensure_room_def Let_def)
next
  case full: True
  note D = arena_ok_splitD [OF ok bs cur]
  show ?thesis
  proof (cases "Suc (length xs) < length (xs @ b # ys) \<and> sz + al \<le> bk_capacity ((xs @ b # ys) ! Suc (length xs))")
    case True
    then obtain y zs where ys: "ys = y # zs" by (cases ys) auto
    then have "bk_used y = 0" using D(3) by simp
    with full True room bs cur show ?thesis
      by (auto simp: ensure_room_def Let_def ys nth_append list_update_append allocated_def)
  next
    case False
    then obtain nb ar1 where nb: "new_block mal (sz + al) ar = Some (nb, ar1)"
      and ar': "ar' = ar1\<lparr>ar_blocks := xs @ b # nb # ys, ar_current := Some (Suc (length xs))\<rparr>"
      using room full cur bs by (auto simp: ensure_room_def Let_def split: option.splits)
    show ?thesis using new_block_fields [OF nb] bs by (auto simp: ar' allocated_def)
  qed
qed

text \<open>The block the bump finally uses, with the facts its correctness needs.\<close>

lemma alloc_raw_cases:
  assumes ok: "arena_ok ar" and al: "0 < al" and e: "alloc_raw mal sz al ar = Some (a, ar')"
  obtains ar2 xs b ys where "arena_ok ar2" "ar_blocks ar2 = xs @ b # ys" "ar_current ar2 = Some (length xs)"
    "align_up (bk_used b) al + sz \<le> bk_capacity b" "bump sz al ar2 = (a, ar')"
    "allocated ar2 = allocated ar"
proof -
  obtain ar1 ar2 where 1: "ensure_current mal (sz + al) ar = Some ar1"
    and 2: "ensure_room mal sz al ar1 = Some ar2" and 3: "bump sz al ar2 = (a, ar')"
    using e by (auto simp: alloc_raw_def split: option.splits)
  note C = ensure_current_ok [OF ok 1]
  obtain c where c: "ar_current ar1 = Some c" using C(2) by blast
  obtain xs b ys where bs: "ar_blocks ar1 = xs @ b # ys" and cx: "c = length xs"
    using arena_current_split [OF C(1) c] by metis
  have al2: "allocated ar2 = allocated ar"
    using ensure_room_allocated [OF C(1) _ bs 2] c cx C(4) by simp
  from ensure_room_shape [OF C(1) _ bs 2 al] c cx consider
      (same) "ar2 = ar1" "align_up (bk_used b) al + sz \<le> bk_capacity b"
    | (moved) nb ys' where "ar_blocks ar2 = (xs @ [b]) @ nb # ys'" "ar_current ar2 = Some (length (xs @ [b]))"
        "bk_used nb = 0" "sz + al \<le> bk_capacity nb" "arena_ok ar2"
    by auto
  then show ?thesis
  proof cases
    case same
    show ?thesis
      by (rule that [of ar2 xs b ys]) (use same C(1) bs c cx 3 al2 in simp_all)
  next
    case moved
    have "align_up (bk_used nb) al + sz \<le> bk_capacity nb"
      using moved(3,4) align_up_lt [OF al, of 0] by simp
    then show ?thesis
      by (intro that [of ar2 "xs @ [b]" nb ys']) (use moved 3 al2 in simp_all)
  qed
qed

lemma alloc_raw_ok [wf_intros]:
  assumes "arena_ok ar" "0 < al" "alloc_raw mal sz al ar = Some (a, ar')"
  shows "arena_ok ar'"
proof -
  from assms obtain ar2 xs b ys where *: "arena_ok ar2" "ar_blocks ar2 = xs @ b # ys"
    "ar_current ar2 = Some (length xs)" "align_up (bk_used b) al + sz \<le> bk_capacity b"
    and e: "bump sz al ar2 = (a, ar')" by (rule alloc_raw_cases)
  show ?thesis by (rule bump_ok [OF * assms(2) e])
qed

lemma alloc_raw_region:
  assumes "arena_ok ar" "0 < al" "alloc_raw mal sz al ar = Some (a, ar')"
  shows "region a sz \<inter> allocated ar = {}" "region a sz \<subseteq> allocated ar'"
    "allocated ar \<subseteq> allocated ar'" "al dvd snd a"
proof -
  from assms obtain ar2 xs b ys where "arena_ok ar2" "ar_blocks ar2 = xs @ b # ys"
    "ar_current ar2 = Some (length xs)" and e: "bump sz al ar2 = (a, ar')" "allocated ar2 = allocated ar"
    by (rule alloc_raw_cases)
  note R = bump_region [OF this(1-3) assms(2) e(1)]
  show "region a sz \<inter> allocated ar = {}" using R(1) e(2) by simp
  show "region a sz \<subseteq> allocated ar'" by (rule R(2))
  show "allocated ar \<subseteq> allocated ar'" using R(3) e(2) by simp
  show "al dvd snd a" by (rule R(4))
qed

lemma alloc_raw_in_block:
  assumes "arena_ok ar" "0 < al" "alloc_raw mal sz al ar = Some (a, ar')"
  shows "\<exists>b \<in> set (ar_blocks ar'). bk_id b = fst a \<and> snd a + sz \<le> bk_capacity b"
proof -
  from assms obtain ar2 xs b ys where bs: "ar_blocks ar2 = xs @ b # ys"
    and cur: "ar_current ar2 = Some (length xs)" and fits: "align_up (bk_used b) al + sz \<le> bk_capacity b"
    and e: "bump sz al ar2 = (a, ar')"
    by (rule alloc_raw_cases)
  from e fits show ?thesis by (auto simp: bump_split [OF bs cur] Let_def)
qed

text \<open>With a heap that serves every request the allocator always returns.\<close>

lemma alloc_raw_returns: "(\<And>n. mal n) \<Longrightarrow> \<exists>a ar'. alloc_raw mal sz al ar = Some (a, ar')"
proof -
  assume mal: "\<And>n. mal n"
  have "\<exists>ar1. ensure_current mal (sz + al) ar = Some ar1"
    by (simp add: ensure_current_def new_block_def Let_def mal split: option.split)
  moreover have "\<exists>ar2. ensure_room mal sz al ar1 = Some ar2" for ar1
    by (simp add: ensure_room_def new_block_def Let_def mal split: option.split)
  ultimately show ?thesis
    by (metis alloc_raw_def option.simps(5) surj_pair)
qed

subsection \<open>Sequences of allocations\<close>

fun alloc_list :: "(nat \<Rightarrow> bool) \<Rightarrow> (nat \<times> nat) list \<Rightarrow> arena \<Rightarrow> (addr list \<times> arena) option" where
  "alloc_list mal [] ar = Some ([], ar)"
| "alloc_list mal ((sz, al) # rs) ar =
     (case alloc_raw mal sz al ar of
        None \<Rightarrow> None
      | Some (a, ar1) \<Rightarrow>
          (case alloc_list mal rs ar1 of
             None \<Rightarrow> None
           | Some (as, ar2) \<Rightarrow> Some (a # as, ar2)))"

definition aligned_requests :: "(nat \<times> nat) list \<Rightarrow> bool" where
  "aligned_requests rs = list_all (\<lambda>(sz, al). 0 < al) rs"

lemma alloc_list_step:
  assumes "alloc_list mal ((sz, al) # rs) ar = Some (as, ar')"
  obtains a as' ar1 where "alloc_raw mal sz al ar = Some (a, ar1)"
    "alloc_list mal rs ar1 = Some (as', ar')" "as = a # as'"
  using assms by (auto split: option.splits)

definition regions :: "addr list \<Rightarrow> (nat \<times> nat) list \<Rightarrow> addr set list" where
  "regions as rs = map2 (\<lambda>a r. region a (fst r)) as rs"

lemma alloc_list_regions:
  assumes "alloc_list mal rs ar = Some (as, ar')" "arena_ok ar" "aligned_requests rs"
  shows "arena_ok ar' \<and> allocated ar \<subseteq> allocated ar' \<and> list_all2 (\<lambda>a r. snd r dvd snd a) as rs \<and>
    (\<forall>R \<in> set (regions as rs). R \<inter> allocated ar = {} \<and> R \<subseteq> allocated ar') \<and>
    sorted_wrt (\<lambda>R S. R \<inter> S = {}) (regions as rs)"
  using assms
proof (induction rs arbitrary: ar as)
  case Nil
  then show ?case by (simp add: regions_def)
next
  case (Cons r rs)
  obtain sz al where r: "r = (sz, al)" by force
  obtain a as' ar1 where 1: "alloc_raw mal sz al ar = Some (a, ar1)"
    and 2: "alloc_list mal rs ar1 = Some (as', ar')" and as: "as = a # as'"
    using Cons.prems(1) alloc_list_step unfolding r by metis
  have al: "0 < al" and rs: "aligned_requests rs"
    using Cons.prems(3) by (auto simp: aligned_requests_def r)
  note R = alloc_raw_region [OF Cons.prems(2) al 1]
  note I = Cons.IH [OF 2 alloc_raw_ok [OF Cons.prems(2) al 1] rs]
  have cons: "regions (a # as') ((sz, al) # rs) = region a sz # regions as' rs"
    by (simp add: regions_def)
  have "\<forall>S \<in> set (regions as' rs). region a sz \<inter> S = {}"
    using R(2) I by blast
  moreover have "\<forall>S \<in> set (regions as' rs). S \<inter> allocated ar = {}"
    using R(3) I by blast
  ultimately show ?case
    using R I unfolding as r cons by (auto 0 3)
qed

subsection \<open>Rewinding to a mark\<close>

lemma alloc_raw_shape:
  assumes ok: "arena_ok ar" and bs: "ar_blocks ar = xs @ b # ys" and cur: "ar_current ar = Some (length xs)"
    and al: "0 < al" and e: "alloc_raw mal sz al ar = Some (a, ar')"
  shows "\<exists>b' ys' c'. ar_blocks ar' = xs @ b' # ys' \<and> bk_id b' = bk_id b \<and> bk_used b \<le> bk_used b' \<and>
           ar_current ar' = Some c' \<and> length xs \<le> c'"
proof -
  obtain ar2 where room: "ensure_room mal sz al ar = Some ar2" and bmp: "bump sz al ar2 = (a, ar')"
    using e cur by (auto simp: alloc_raw_def ensure_current_def split: option.splits)
  from ensure_room_shape [OF ok cur bs room al] show ?thesis
  proof
    assume same: "ar2 = ar \<and> align_up (bk_used b) al + sz \<le> bk_capacity b"
    have "bk_used b \<le> align_up (bk_used b) al + sz" using align_up_ge [OF al, of "bk_used b"] by linarith
    with same bmp cur show ?thesis by (auto simp: bump_split [OF bs cur] Let_def)
  next
    assume "\<exists>nb ys'. ar_blocks ar2 = (xs @ [b]) @ nb # ys' \<and> ar_current ar2 = Some (length (xs @ [b])) \<and>
       bk_used nb = 0 \<and> sz + al \<le> bk_capacity nb \<and> arena_ok ar2 \<and> ar_live ar2 = ar_live ar \<and>
       (\<forall>y \<in> set ys'. bk_used y = 0)"
    then obtain nb ys' where m: "ar_blocks ar2 = (xs @ [b]) @ nb # ys'"
      "ar_current ar2 = Some (length (xs @ [b]))" by blast
    show ?thesis using bmp m(2) by (auto simp: bump_split [OF m] Let_def)
  qed
qed

definition extends_mark :: "block list \<Rightarrow> nat \<Rightarrow> nat \<Rightarrow> arena \<Rightarrow> bool" where
  "extends_mark pre i u ar \<longleftrightarrow>
     (\<exists>b zs c. ar_blocks ar = pre @ b # zs \<and> bk_id b = i \<and> u \<le> bk_used b \<and>
        ar_current ar = Some c \<and> length pre \<le> c)"

lemma extends_mark_alloc:
  assumes ok: "arena_ok ar" and ext: "extends_mark pre i u ar" and al: "0 < al"
    and e: "alloc_raw mal sz al ar = Some (a, ar')"
  shows "extends_mark pre i u ar'"
proof -
  obtain b zs c where bs: "ar_blocks ar = pre @ b # zs" and b: "bk_id b = i" "u \<le> bk_used b"
    and cur: "ar_current ar = Some c" and le: "length pre \<le> c"
    using ext by (auto simp: extends_mark_def)
  obtain xs x ys where sp: "ar_blocks ar = xs @ x # ys" and cx: "c = length xs"
    using arena_current_split [OF ok cur] by metis
  obtain x' ys' c' where *: "ar_blocks ar' = xs @ x' # ys'" "bk_id x' = bk_id x" "bk_used x \<le> bk_used x'"
    "ar_current ar' = Some c'" "length xs \<le> c'"
    using alloc_raw_shape [OF ok sp _ al e] cur cx by auto
  show ?thesis
  proof (cases "length pre = length xs")
    case True
    then have "pre = xs" "b = x" using bs sp by (simp_all add: append_eq_append_conv)
    with * b show ?thesis by (auto simp: extends_mark_def)
  next
    case False
    then have "length pre < length xs" using le cx by simp
    then obtain ws where "xs = pre @ b # ws"
      using bs sp by (auto simp: append_eq_append_conv2 append_eq_Cons_conv)
    with * b show ?thesis by (auto simp: extends_mark_def)
  qed
qed

lemma extends_mark_alloc_list:
  assumes "alloc_list mal rs ar = Some (as, ar')" "arena_ok ar" "aligned_requests rs" "extends_mark pre i u ar"
  shows "extends_mark pre i u ar'"
  using assms
proof (induction rs arbitrary: ar as)
  case Nil
  then show ?case by simp
next
  case (Cons r rs)
  obtain sz al where r: "r = (sz, al)" by force
  obtain a as' ar1 where 1: "alloc_raw mal sz al ar = Some (a, ar1)"
    and 2: "alloc_list mal rs ar1 = Some (as', ar')"
    using Cons.prems(1) alloc_list_step unfolding r by metis
  have al: "0 < al" and rs: "aligned_requests rs"
    using Cons.prems(3) by (auto simp: aligned_requests_def r)
  show ?case
    by (rule Cons.IH [OF 2 alloc_raw_ok [OF Cons.prems(2) al 1] rs
          extends_mark_alloc [OF Cons.prems(2,4) al 1]])
qed

lemma block_pos_split:
  "distinct (map bk_id (pre @ b # zs)) \<Longrightarrow> block_pos (bk_id b) (pre @ b # zs) = length pre"
  unfolding block_pos_def by (subst takeWhile_append2) (auto simp: rev_image_eqI)

lemma allocated_zero_tail:
  "ar_blocks ar = pre @ b # zs \<Longrightarrow> \<forall>z \<in> set zs. bk_used z = 0 \<Longrightarrow>
   allocated ar = {(bk_id x, p) | x p. x \<in> set pre \<and> p < bk_used x} \<union> {(bk_id b, p) | p. p < bk_used b}"
  by (fastforce simp: allocated_def)

lemma rewind_extends_mark:
  assumes ok: "arena_ok ar" and ext: "extends_mark pre i u ar"
  shows "\<exists>b zs. rewind \<lparr>mk_block_id = Some i, mk_used = u\<rparr> ar =
      ar\<lparr>ar_live := sum_list (map bk_used pre) + u, ar_blocks := pre @ b # zs, ar_current := Some (length pre)\<rparr>
    \<and> bk_id b = i \<and> bk_used b = u \<and> (\<forall>z \<in> set zs. bk_used z = 0)"
proof -
  obtain b zs where bs: "ar_blocks ar = pre @ b # zs" and b: "bk_id b = i" "u \<le> bk_used b"
    using ext by (auto simp: extends_mark_def)
  have pos: "block_pos i (ar_blocks ar) = length pre"
    using ok block_pos_split [of pre b zs] b bs by (simp add: arena_ok_def)
  have live: "ar_live ar = sum_list (map bk_used pre) + bk_used b + sum_list (map bk_used zs)"
    using ok bs by (simp add: arena_ok_def)
  show ?thesis
    by (rule exI [of _ "b\<lparr>bk_used := u\<rparr>"], rule exI [of _ "zero_used zs"])
      (use b pos live in \<open>auto simp: rewind_def Let_def bs zero_used_def\<close>)
qed

lemma rewind_mark_restores:
  assumes ok: "arena_ok ar" and reqs: "aligned_requests rs" and run: "alloc_list mal rs ar = Some (as, ar')"
  shows "allocated (rewind (mark_arena ar) ar') = allocated ar"
    and "ar_live (rewind (mark_arena ar) ar') = ar_live ar"
    and "ar_current ar \<noteq> None \<Longrightarrow> ar_current (rewind (mark_arena ar) ar') = ar_current ar"
proof -
  have ok': "arena_ok ar'" using alloc_list_regions [OF run ok reqs] by blast
  have "allocated (rewind (mark_arena ar) ar') = allocated ar \<and>
    ar_live (rewind (mark_arena ar) ar') = ar_live ar \<and>
    (ar_current ar \<noteq> None \<longrightarrow> ar_current (rewind (mark_arena ar) ar') = ar_current ar)"
  proof (cases "ar_current ar")
    case None
    then have "ar_blocks ar = []" using ok by (simp add: arena_ok_def)
    with ok None ok' show ?thesis
      by (auto simp: mark_arena_def rewind_def allocated_def zero_used_def arena_ok_def Let_def)
  next
    case (Some c)
    obtain xs b ys where sp: "ar_blocks ar = xs @ b # ys" and cx: "c = length xs"
      and y: "\<forall>y \<in> set ys. bk_used y = 0"
      using arena_current_split [OF ok Some] by metis
    have m: "mark_arena ar = \<lparr>mk_block_id = Some (bk_id b), mk_used = bk_used b\<rparr>"
      by (simp add: mark_arena_def Some sp cx)
    have "extends_mark xs (bk_id b) (bk_used b) ar"
      using sp Some cx by (auto simp: extends_mark_def)
    from rewind_extends_mark [OF ok' extends_mark_alloc_list [OF run ok reqs this]]
    obtain b' zs where rw: "rewind (mark_arena ar) ar' =
        ar'\<lparr>ar_live := sum_list (map bk_used xs) + bk_used b, ar_blocks := xs @ b' # zs,
            ar_current := Some (length xs)\<rparr>"
      and b': "bk_id b' = bk_id b" "bk_used b' = bk_used b" "\<forall>z \<in> set zs. bk_used z = 0"
      unfolding m by blast
    have "allocated (rewind (mark_arena ar) ar') = allocated ar"
      using b' by (subst allocated_zero_tail [OF sp y], subst allocated_zero_tail [of _ xs b' zs]) (simp_all add: rw)
    moreover have "ar_live ar = sum_list (map bk_used (xs @ [b]))"
      using arena_ok_splitD [OF ok sp] Some cx by simp
    ultimately show ?thesis using Some cx by (simp add: rw)
  qed
  then show "allocated (rewind (mark_arena ar) ar') = allocated ar"
    "ar_live (rewind (mark_arena ar) ar') = ar_live ar"
    "ar_current ar \<noteq> None \<Longrightarrow> ar_current (rewind (mark_arena ar) ar') = ar_current ar"
    by blast+
qed

end
