(* ===== verification/Interner.thy ===== *)
theory Interner
  imports Arena
begin

text \<open>
  Names: the FNV-1a hash, \<open>ResourceId\<close> and the \<open>StringInterner\<close> of
  webgpu/base/RenderGraph_internal.h and RenderGraph.cpp. An interned name is the address of the
  arena copy of the string. The pools and \<open>validate_history_layers\<close> compare names by
  that address; the locale \<open>name_table\<close> states what they rely on, and its interpretation on
  \<open>intern\<close> discharges it.
\<close>

definition fnv1a :: "string \<Rightarrow> u64" where
  "fnv1a s = fold (\<lambda>c hash. (hash XOR of_char c) * 1099511628211) s 14695981039346656037"

record resource_id =
  rid_value :: u64
  rid_data :: "addr option" \<comment> \<open>\<open>name.data\<close>; \<open>None\<close> for a view that was never interned\<close>
  rid_chars :: string

definition make_resource_id :: "string \<Rightarrow> resource_id" where
  "make_resource_id s = \<lparr>rid_value = fnv1a s, rid_data = None, rid_chars = s\<rparr>"

definition rid_eq :: "resource_id \<Rightarrow> resource_id \<Rightarrow> bool" where
  "rid_eq a b \<longleftrightarrow> rid_value a = rid_value b \<and> length (rid_chars a) = length (rid_chars b)
     \<and> rid_chars a = rid_chars b"

text \<open>The span before the first dot, empty when there is none.\<close>

definition group_prefix :: "string \<Rightarrow> string" where
  "group_prefix name = (if CHR ''.'' \<in> set name then takeWhile (\<lambda>c. c \<noteq> CHR ''.'') name else [])"

record intern_node =
  in_hash :: u64
  in_data :: addr
  in_name :: string

record interner =
  it_buckets :: "nat \<Rightarrow> intern_node list"
  it_arena :: arena
  it_node_size :: nat \<comment> \<open>\<open>sizeof(Node)\<close> and \<open>alignof(Node)\<close> of the ABI\<close>
  it_node_align :: nat

definition kBuckets :: nat where
  "kBuckets = 64"

definition empty_interner :: "nat \<Rightarrow> nat \<Rightarrow> arena \<Rightarrow> interner" where
  "empty_interner nsz nal ar =
     \<lparr>it_buckets = (\<lambda>_. []), it_arena = ar, it_node_size = nsz, it_node_align = nal\<rparr>"

definition copy_string :: "(nat \<Rightarrow> bool) \<Rightarrow> string \<Rightarrow> arena \<Rightarrow> (addr \<times> arena) option" where
  "copy_string mal s ar = alloc_raw mal (length s + 1) 1 ar"

definition bucket_of :: "string \<Rightarrow> nat" where
  "bucket_of s = unat (fnv1a s AND (of_nat kBuckets - 1))"

definition intern :: "(nat \<Rightarrow> bool) \<Rightarrow> string \<Rightarrow> interner \<Rightarrow> (resource_id \<times> interner) option" where
  "intern mal s it =
     (let h = fnv1a s; k = bucket_of s in
      case find (\<lambda>n. in_hash n = h \<and> length (in_name n) = length s \<and> (s = [] \<or> in_name n = s)) (it_buckets it k) of
        Some n \<Rightarrow> Some (\<lparr>rid_value = in_hash n, rid_data = Some (in_data n), rid_chars = in_name n\<rparr>, it)
      | None \<Rightarrow>
          (case alloc_raw mal (it_node_size it) (it_node_align it) (it_arena it) of
             None \<Rightarrow> None
           | Some (_, ar1) \<Rightarrow>
               (case copy_string mal s ar1 of
                  None \<Rightarrow> None
                | Some (p, ar2) \<Rightarrow>
                    Some (\<lparr>rid_value = h, rid_data = Some p, rid_chars = s\<rparr>,
                          it\<lparr>it_arena := ar2,
                             it_buckets := (it_buckets it)
                               (k := \<lparr>in_hash = h, in_data = p, in_name = s\<rparr> # it_buckets it k)\<rparr>))))"

subsection \<open>The table of interned names\<close>

definition interned :: "interner \<Rightarrow> (addr \<times> string) set" where
  "interned it = {(in_data n, in_name n) | n k. n \<in> set (it_buckets it k)}"

definition interner_ok :: "interner \<Rightarrow> bool" where
  "interner_ok it \<longleftrightarrow>
     arena_ok (it_arena it) \<and> 0 < it_node_align it \<and>
     (\<forall>k. \<forall>n \<in> set (it_buckets it k). bucket_of (in_name n) = k \<and> in_hash n = fnv1a (in_name n)) \<and>
     (\<forall>p s. (p, s) \<in> interned it \<longrightarrow> p \<in> allocated (it_arena it)) \<and>
     (\<forall>p s q t. (p, s) \<in> interned it \<longrightarrow> (q, t) \<in> interned it \<longrightarrow> (p = q \<longleftrightarrow> s = t))"

lemma interner_okD:
  assumes "interner_ok it"
  shows "arena_ok (it_arena it)" "0 < it_node_align it"
    "n \<in> set (it_buckets it k) \<Longrightarrow> bucket_of (in_name n) = k \<and> in_hash n = fnv1a (in_name n)"
    "(p, s) \<in> interned it \<Longrightarrow> p \<in> allocated (it_arena it)"
    "(p, s) \<in> interned it \<Longrightarrow> (q, t) \<in> interned it \<Longrightarrow> p = q \<longleftrightarrow> s = t"
  using assms unfolding interner_ok_def by blast+

definition id_in_table :: "interner \<Rightarrow> resource_id \<Rightarrow> bool" where
  "id_in_table it r \<longleftrightarrow> rid_value r = fnv1a (rid_chars r) \<and>
     (case rid_data r of None \<Rightarrow> False | Some p \<Rightarrow> (p, rid_chars r) \<in> interned it)"

lemma empty_interner_ok: "arena_ok ar \<Longrightarrow> 0 < nal \<Longrightarrow> interner_ok (empty_interner nsz nal ar)"
  by (simp add: interner_ok_def empty_interner_def interned_def)

lemma intern_cases:
  assumes "interner_ok it" "intern mal s it = Some (r, it')"
  obtains (known) p where "(p, s) \<in> interned it" "r = \<lparr>rid_value = fnv1a s, rid_data = Some p, rid_chars = s\<rparr>" "it' = it"
  | (fresh) p a ar1 ar2 where "\<forall>q. (q, s) \<notin> interned it"
      "alloc_raw mal (it_node_size it) (it_node_align it) (it_arena it) = Some (a, ar1)"
      "alloc_raw mal (length s + 1) 1 ar1 = Some (p, ar2)"
      "r = \<lparr>rid_value = fnv1a s, rid_data = Some p, rid_chars = s\<rparr>"
      "it' = it\<lparr>it_arena := ar2, it_buckets := (it_buckets it)
               (bucket_of s := \<lparr>in_hash = fnv1a s, in_data = p, in_name = s\<rparr> # it_buckets it (bucket_of s))\<rparr>"
proof -
  let ?P = "\<lambda>n. in_hash n = fnv1a s \<and> length (in_name n) = length s \<and> (s = [] \<or> in_name n = s)"
  show ?thesis
  proof (cases "find ?P (it_buckets it (bucket_of s))")
    case None
    have "(q, s) \<notin> interned it" for q
    proof
      assume "(q, s) \<in> interned it"
      then obtain n k where n: "n \<in> set (it_buckets it k)" "in_name n = s"
        by (auto simp: interned_def)
      then have "k = bucket_of s" "?P n" using interner_okD(3) [OF assms(1) n(1)] by auto
      with n None show False by (auto simp: find_None_iff_ex)
    qed
    then have no: "\<forall>q. (q, s) \<notin> interned it" by blast
    obtain a ar1 where 1: "alloc_raw mal (it_node_size it) (it_node_align it) (it_arena it) = Some (a, ar1)"
      using assms(2) None by (auto simp: intern_def Let_def split: option.splits)
    obtain p ar2 where 2: "copy_string mal s ar1 = Some (p, ar2)"
      using assms(2) None 1 by (auto simp: intern_def Let_def split: option.splits)
    have e: "Some (\<lparr>rid_value = fnv1a s, rid_data = Some p, rid_chars = s\<rparr>,
        it\<lparr>it_arena := ar2, it_buckets := (it_buckets it)
           (bucket_of s := \<lparr>in_hash = fnv1a s, in_data = p, in_name = s\<rparr> # it_buckets it (bucket_of s))\<rparr>) = Some (r, it')"
      using assms(2) by (simp only: intern_def Let_def None 1 2 option.simps prod.case)
    then show ?thesis
      by (intro fresh [OF no 1 2 [unfolded copy_string_def]]) simp_all
  next
    case (Some n)
    then have n: "n \<in> set (it_buckets it (bucket_of s))" "?P n"
      using find_Some_in by fast+
    then have nm: "in_name n = s" by auto
    have mem: "(in_data n, s) \<in> interned it" using n nm by (auto simp: interned_def)
    have "intern mal s it = Some (\<lparr>rid_value = in_hash n, rid_data = Some (in_data n), rid_chars = in_name n\<rparr>, it)"
      by (simp only: intern_def Let_def Some option.simps)
    then have "r = \<lparr>rid_value = fnv1a s, rid_data = Some (in_data n), rid_chars = s\<rparr>" "it' = it"
      using assms(2) n nm by simp_all
    with mem show ?thesis by (rule known)
  qed
qed

lemma interned_extend:
  "interned (it\<lparr>it_arena := ar, it_buckets := (it_buckets it)(k := n # it_buckets it k)\<rparr>)
     = insert (in_data n, in_name n) (interned it)"
  by (auto simp: interned_def split: if_splits)

lemma intern_ok:
  assumes ok: "interner_ok it" and e: "intern mal s it = Some (r, it')"
  shows "interner_ok it'" "interned it \<subseteq> interned it'" "id_in_table it' r" "rid_chars r = s"
proof -
  have "interner_ok it' \<and> interned it \<subseteq> interned it' \<and> id_in_table it' r \<and> rid_chars r = s"
    using ok e
  proof (cases rule: intern_cases)
    case (known p)
    with ok show ?thesis by (simp add: id_in_table_def)
  next
    case (fresh p a ar1 ar2)
    note A = interner_okD(1,2) [OF ok]
    note B = alloc_raw_ok [OF A fresh(2)] alloc_raw_region [OF A fresh(2)]
    have C: "arena_ok ar2" "region p (length s + 1) \<inter> allocated ar1 = {}"
      "region p (length s + 1) \<subseteq> allocated ar2" "allocated ar1 \<subseteq> allocated ar2"
      using alloc_raw_ok [OF B(1) _ fresh(3)] alloc_raw_region [OF B(1) _ fresh(3)] by simp_all
    have mem: "p \<in> region p (length s + 1)" by (simp add: region_def prod_eq_iff)
    have new: "p \<notin> allocated (it_arena it)" using B(4) C(2) mem by blast
    have sub: "allocated (it_arena it) \<subseteq> allocated ar2" using B(4) C(4) by blast
    have I: "interned it' = insert (p, s) (interned it)" by (simp add: fresh(5) interned_extend)
    have all: "q \<in> allocated ar2" if "(q, t) \<in> interned it'" for q t
    proof -
      have "q = p \<or> (q, t) \<in> interned it" using that I by auto
      then show ?thesis
      proof
        assume "(q, t) \<in> interned it"
        from interner_okD(4) [OF ok this] show ?thesis using sub by (rule set_rev_mp)
      qed (use C(3) mem in auto)
    qed
    have same: "q = q' \<longleftrightarrow> t = t'" if "(q, t) \<in> interned it'" "(q', t') \<in> interned it'" for q t q' t'
    proof -
      have old: "(x, y) \<in> interned it \<Longrightarrow> x \<noteq> p \<and> y \<noteq> s" for x y
        using interner_okD(4) [OF ok, of x y] new fresh(1) by blast
      have "(q = p \<and> t = s) \<or> (q, t) \<in> interned it" "(q' = p \<and> t' = s) \<or> (q', t') \<in> interned it"
        using that I by auto
      then show ?thesis using old [of q t] old [of q' t'] interner_okD(5) [OF ok, of q t q' t'] by auto
    qed
    have bk: "\<forall>k. \<forall>n \<in> set (it_buckets it' k). bucket_of (in_name n) = k \<and> in_hash n = fnv1a (in_name n)"
      using interner_okD(3) [OF ok] by (auto simp: fresh(5))
    have "interner_ok it'"
      unfolding interner_ok_def using A(2) C(1) bk all same by (simp add: fresh(5))
    moreover have "id_in_table it' r" using I by (simp add: id_in_table_def fresh(4))
    ultimately show ?thesis using I by (auto simp: fresh(4))
  qed
  then show "interner_ok it'" "interned it \<subseteq> interned it'" "id_in_table it' r" "rid_chars r = s"
    by blast+
qed

lemma id_in_table_mono: "interned it \<subseteq> interned it' \<Longrightarrow> id_in_table it r \<Longrightarrow> id_in_table it' r"
  by (auto simp: id_in_table_def split: option.splits)

subsection \<open>Comparing names by address\<close>

locale name_table =
  fixes ok :: "'st \<Rightarrow> bool"
    and valid :: "'st \<Rightarrow> 'id \<Rightarrow> bool"
    and data :: "'id \<Rightarrow> addr option"
    and chars :: "'id \<Rightarrow> string"
    and add :: "string \<Rightarrow> 'st \<Rightarrow> ('id \<times> 'st) option"
  assumes same: "ok st \<Longrightarrow> valid st a \<Longrightarrow> valid st b \<Longrightarrow> data a = data b \<longleftrightarrow> chars a = chars b"
    and add_ok: "ok st \<Longrightarrow> add s st = Some (a, st') \<Longrightarrow> ok st' \<and> valid st' a \<and> chars a = s"
    and add_keeps: "ok st \<Longrightarrow> add s st = Some (a, st') \<Longrightarrow> valid st b \<Longrightarrow> valid st' b"
begin

lemma add_twice:
  assumes "ok st" "add s st = Some (a, st1)" "add t st1 = Some (b, st2)"
  shows "data a = data b \<longleftrightarrow> s = t"
proof -
  have 1: "ok st1" "valid st1 a" "chars a = s" using add_ok [OF assms(1,2)] by auto
  have 2: "ok st2" "valid st2 b" "chars b = t" using add_ok [OF 1(1) assms(3)] by auto
  have "valid st2 a" using add_keeps [OF 1(1) assms(3) 1(2)] .
  from same [OF 2(1) this 2(2)] show ?thesis using 1(3) 2(3) by simp
qed

lemma find_by_data:
  assumes "ok st" "valid st a" "\<forall>x \<in> set xs. valid st (key x)"
  shows "find (\<lambda>x. data (key x) = data a) xs = find (\<lambda>x. chars (key x) = chars a) xs"
proof (rule find_cong)
  fix x assume "x \<in> set xs"
  then have "valid st (key x)" using assms(3) by blast
  from same [OF assms(1) this assms(2)] show "(data (key x) = data a) = (chars (key x) = chars a)" .
qed simp

end

lemma id_data_iff_chars:
  assumes "interner_ok it" "id_in_table it a" "id_in_table it b"
  shows "rid_data a = rid_data b \<longleftrightarrow> rid_chars a = rid_chars b"
proof -
  obtain p q where "rid_data a = Some p" "(p, rid_chars a) \<in> interned it"
    "rid_data b = Some q" "(q, rid_chars b) \<in> interned it"
    using assms(2,3) by (auto simp: id_in_table_def split: option.splits)
  then show ?thesis using interner_okD(5) [OF assms(1)] by simp
qed

interpretation names: name_table interner_ok id_in_table rid_data rid_chars "intern mal" for mal
proof
  fix st a b assume "interner_ok st" "id_in_table st a" "id_in_table st b"
  then show "rid_data a = rid_data b \<longleftrightarrow> rid_chars a = rid_chars b" by (rule id_data_iff_chars)
next
  fix st s a st' assume "interner_ok st" "intern mal s st = Some (a, st')"
  then show "interner_ok st' \<and> id_in_table st' a \<and> rid_chars a = s" 
    using intern_ok(1,3,4) [of st mal s a st'] by blast
next
  fix st s a st' b assume "interner_ok st" "intern mal s st = Some (a, st')" "id_in_table st b"
  then show "id_in_table st' b" using intern_ok(2) [of st mal s a st'] id_in_table_mono by blast
qed

end
