(* ===== verification/Graph.thy ===== *)
theory Graph
  imports Access Interner
begin

text \<open>
  The state of one frame's render graph: \<open>ResourceNode\<close>, \<open>PassNode\<close>,
  \<open>PhysicalResource\<close> and \<open>RenderGraphStorage\<close> of
  webgpu/base/RenderGraph_internal.h. The intrusive lists are lists; a pass pointer is the
  declaration index of the pass, a node pointer is the id of the node. The flags of the
  resource nodes and passes that only one phase uses live in the state of that phase.
\<close>

subsection \<open>Errors\<close>

datatype rg_state = RG_Recording | RG_Compiled | RG_Failed | RG_Finished

datatype graph_error =
    CompileTwice rg_state
  | InvalidHandle string nat
  | ForeignInitTarget string nat
  | ForeignRelativeTo string nat
  | InitTargetNotPersistent
  | CyclicRelative string
  | NoRelativeBase string
  | DependencyCycle
  | WritesHistoryLayer string string nat
  | ReadNeverWritten string string
  | ReadModifyWrite string string
  | ReadBeforeWrite string string
  | ZeroExtent string u32 u32
  | HistoryNotAdjacent string
  | HistoryAsymmetric string bool bool
  | AliasIneligible string u32 u32

datatype view_error =
    CubeStorage | CubeNot2D | CubeNotSquare u32 u32 | CubeNeedsSix u32 | CubeArrayNeedsSixes u32
  | CubeExceeds u32 u32 u32
  | MipPastEnd u32 u32 | LayerPastEnd u32 u32 | MipRange u32 u32 u32 | LayerRange u32 u32 u32
  | BufferRangePastEnd u64 u64 u64 | BufferRangeEmpty u64 u64 | BufferRangeMisaligned u64

datatype attachment_error =
    Attachment3D string
  | NoAttachments
  | AttachmentSize string u32 u32 string u32 u32
  | AttachmentSamples string u32 string u32
  | NotDepthFormat string
  | StencilOpsWithoutStencil string
  | StencilOpsMissing string
  | ResolveSourceSingle string string u32
  | ResolveTargetMulti string u32
  | ResolveFormat string string
  | ResolveSize string u32 u32 string u32 u32

datatype realize_error =
    NeverCompiled
  | NoPoolEntry string
  | UsageShrank string
  | RecreatedTwice string
  | MappableSlot nat
  | MappableBuffer string

datatype rg_error =
    GraphError graph_error
  | ViewError string string view_error \<comment> \<open>pass and resource\<close>
  | AttachmentError string attachment_error \<comment> \<open>pass\<close>
  | RealizeError realize_error

subsection \<open>Nodes\<close>

record res_node =
  rn_handle :: handle
  rn_id :: resource_id
  rn_kind :: resource_kind
  rn_imported :: bool
  rn_persistent :: bool
  rn_history :: bool
  rn_history_valid :: bool
  rn_resolving :: bool
  rn_resolved_done :: bool
  rn_has_writer :: bool
  rn_first_defines :: bool
  rn_transient_attachment :: bool
  rn_history_index :: nat
  rn_history_hash :: u64
  rn_dimension :: texture_dimension
  rn_format :: texture_format
  rn_size_kind :: size_kind
  rn_scale_x :: f32
  rn_scale_y :: f32
  rn_relative_to :: handle
  rn_width :: u32
  rn_height :: u32
  rn_depth_or_layers :: u32
  rn_mips :: u32
  rn_samples :: u32
  rn_buffer_size :: u64
  rn_texture :: gpu_ref
  rn_view :: gpu_ref
  rn_buffer :: gpu_ref
  rn_resolved :: extent3d
  rn_tex_usage :: texture_usage
  rn_buf_usage :: buffer_usage
  rn_first_use :: "nat option" \<comment> \<open>\<open>None\<close> is \<open>kNoPass\<close>\<close>
  rn_last_use :: "nat option"
  rn_alias_slot :: "nat option" \<comment> \<open>\<open>None\<close> is \<open>kNoSlot\<close>\<close>
  rn_live_accesses :: nat
  rn_sole_access :: "access option"

definition null_handle :: handle where
  "null_handle = \<lparr>h_id = 0, h_kind = RK_Texture, h_generation = 0\<rparr>"

text \<open>The default member initialisers; \<open>WGPU_EXTENT_3D_INIT\<close> is width 0, height and depth 1.\<close>

definition fresh_node :: "handle \<Rightarrow> resource_id \<Rightarrow> resource_kind \<Rightarrow> res_node" where
  "fresh_node h rid k =
     \<lparr>rn_handle = h, rn_id = rid, rn_kind = k, rn_imported = False, rn_persistent = False,
      rn_history = False, rn_history_valid = False, rn_resolving = False, rn_resolved_done = False,
      rn_has_writer = False, rn_first_defines = False, rn_transient_attachment = False,
      rn_history_index = 0, rn_history_hash = 0, rn_dimension = TD_Undefined,
      rn_format = TF_Undefined, rn_size_kind = SK_Absolute, rn_scale_x = 1, rn_scale_y = 1,
      rn_relative_to = null_handle, rn_width = 0, rn_height = 0, rn_depth_or_layers = 1,
      rn_mips = 1, rn_samples = 1, rn_buffer_size = 0, rn_texture = None, rn_view = None,
      rn_buffer = None, rn_resolved = mk_extent 0 1 1, rn_tex_usage = {}, rn_buf_usage = {},
      rn_first_use = None, rn_last_use = None, rn_alias_slot = None, rn_live_accesses = 0,
      rn_sole_access = None\<rparr>"

definition is_external :: "res_node \<Rightarrow> bool" where
  "is_external r \<longleftrightarrow> rn_imported r \<or> rn_persistent r"

definition node_name :: "res_node \<Rightarrow> string" where
  "node_name r = rid_chars (rn_id r)"

definition tex_signature_of :: "res_node \<Rightarrow> tex_signature" where
  "tex_signature_of r =
     \<lparr>sig_size = rn_resolved r, sig_format = rn_format r, sig_dim = rn_dimension r,
      sig_mips = rn_mips r, sig_samples = rn_samples r\<rparr>"

definition node_layers :: "res_node \<Rightarrow> u32" where
  "node_layers r = (if rn_dimension r = TD_2D then rn_depth_or_layers r else 1)"

definition pool_used :: "res_node \<Rightarrow> bool" where
  "pool_used r = (if rn_kind r = RK_Texture then rn_tex_usage r \<noteq> {} else rn_buf_usage r \<noteq> {})"

record pass_node =
  pn_id :: resource_id
  pn_kind :: pass_kind
  pn_index :: nat
  pn_has_exec :: bool
  pn_accesses :: "access list"
  pn_adjacency :: "nat list"
  pn_sink :: bool
  pn_force_keep :: bool
  pn_init_targets :: "(handle \<times> u64) list"
  pn_skip_init :: bool

definition fresh_pass :: "resource_id \<Rightarrow> pass_kind \<Rightarrow> pass_node" where
  "fresh_pass rid k =
     \<lparr>pn_id = rid, pn_kind = k, pn_index = 0, pn_has_exec = False, pn_accesses = [], pn_adjacency = [],
      pn_sink = False, pn_force_keep = False, pn_init_targets = [], pn_skip_init = False\<rparr>"

definition pass_name :: "pass_node \<Rightarrow> string" where
  "pass_name p = rid_chars (pn_id p)"

definition pass_name_at :: "pass_node list \<Rightarrow> nat \<Rightarrow> string" where
  "pass_name_at ps i = (if i < length ps then pass_name (ps ! i) else [])"

definition kMaxColorAttachments :: nat where "kMaxColorAttachments = 8"
definition kMaxInitTargets :: nat where "kMaxInitTargets = 8"

record phys =
  ph_kind :: resource_kind
  ph_free_from :: nat
  ph_identity :: "addr option"
  ph_sig :: tex_signature
  ph_tex_usage :: texture_usage
  ph_texture :: gpu_ref
  ph_view :: gpu_ref
  ph_buffer_size :: u64
  ph_buf_usage :: buffer_usage
  ph_buffer :: gpu_ref

definition empty_phys :: phys where
  "empty_phys = \<lparr>ph_kind = RK_Texture, ph_free_from = 0, ph_identity = None, ph_sig = sig_default,
     ph_tex_usage = {}, ph_texture = None, ph_view = None, ph_buffer_size = 0, ph_buf_usage = {},
     ph_buffer = None\<rparr>"

subsection \<open>The graph\<close>

record graph =
  g_nodes :: "res_node list"
  g_passes :: "pass_node list"
  g_state :: rg_state
  g_next_id :: nat
  g_pass_count :: nat
  g_generation :: nat
  g_slots :: "phys list"
  g_transient_count :: nat
  g_errors :: "rg_error list"

definition fresh_graph :: "nat \<Rightarrow> graph" where
  "fresh_graph gen = \<lparr>g_nodes = [], g_passes = [], g_state = RG_Recording, g_next_id = 1,
     g_pass_count = 0, g_generation = gen, g_slots = [], g_transient_count = 0, g_errors = []\<rparr>"

definition push_error :: "rg_error \<Rightarrow> graph \<Rightarrow> graph" where
  "push_error e g = g\<lparr>g_errors := g_errors g @ [e], g_state := RG_Failed\<rparr>"

definition find_node :: "graph \<Rightarrow> nat \<Rightarrow> res_node option" where
  "find_node g i = find (\<lambda>r. h_id (rn_handle r) = i) (g_nodes g)"

definition upd_node :: "nat \<Rightarrow> (res_node \<Rightarrow> res_node) \<Rightarrow> graph \<Rightarrow> graph" where
  "upd_node i f g = g\<lparr>g_nodes := upd_where (\<lambda>r. h_id (rn_handle r) = i) f (g_nodes g)\<rparr>"

text \<open>\<open>if (s.m_state == Failed) return;\<close> between the phases of \<open>compile_impl\<close>.\<close>

definition unless_failed :: "(graph \<Rightarrow> graph) \<Rightarrow> graph \<Rightarrow> graph" where
  "unless_failed f g = (if g_state g = RG_Failed then g else f g)"

lemma push_error_simps [simp]:
  "g_state (push_error e g) = RG_Failed" "g_errors (push_error e g) = g_errors g @ [e]"
  "g_nodes (push_error e g) = g_nodes g" "g_passes (push_error e g) = g_passes g"
  "g_next_id (push_error e g) = g_next_id g" "g_generation (push_error e g) = g_generation g"
  "g_slots (push_error e g) = g_slots g" "g_pass_count (push_error e g) = g_pass_count g"
  "g_transient_count (push_error e g) = g_transient_count g"
  by (simp_all add: push_error_def)

lemma upd_node_simps [simp]:
  "g_state (upd_node i f g) = g_state g" "g_errors (upd_node i f g) = g_errors g"
  "g_passes (upd_node i f g) = g_passes g" "g_next_id (upd_node i f g) = g_next_id g"
  "g_generation (upd_node i f g) = g_generation g" "g_slots (upd_node i f g) = g_slots g"
  "g_pass_count (upd_node i f g) = g_pass_count g"
  "g_transient_count (upd_node i f g) = g_transient_count g"
  "g_nodes (upd_node i f g) = upd_where (\<lambda>r. h_id (rn_handle r) = i) f (g_nodes g)"
  by (simp_all add: upd_node_def)

lemma find_node_push_error [simp]: "find_node (push_error e g) i = find_node g i"
  by (simp add: find_node_def)

lemma find_node_upd_node:
  "(\<And>r. rn_handle (f r) = rn_handle r) \<Longrightarrow>
   find_node (upd_node i f g) j = map_option (\<lambda>r. if h_id (rn_handle r) = i then f r else r) (find_node g j)"
  unfolding find_node_def upd_node_simps by (subst find_upd_where) simp_all

lemma find_node_Some: "find_node g i = Some r \<Longrightarrow> r \<in> set (g_nodes g) \<and> h_id (rn_handle r) = i"
  unfolding find_node_def by (rule find_Some_in)

text \<open>Ids are handed out in declaration order from 1, so a node's id is its position plus one.\<close>

definition ids_ok :: "graph \<Rightarrow> bool" where
  "ids_ok g \<longleftrightarrow> map (\<lambda>r. h_id (rn_handle r)) (g_nodes g) = [1..<g_next_id g] \<and> 0 < g_next_id g"

lemma ids_ok_distinct: "ids_ok g \<Longrightarrow> distinct (map (\<lambda>r. h_id (rn_handle r)) (g_nodes g))"
  by (simp add: ids_ok_def)

lemma ids_ok_find:
  assumes "ids_ok g" "0 < i" "i < g_next_id g"
  shows "\<exists>r. find_node g i = Some r"
proof -
  have "i \<in> set (map (\<lambda>r. h_id (rn_handle r)) (g_nodes g))" using assms by (simp add: ids_ok_def)
  then show ?thesis
    by (cases "find_node g i") (auto simp: find_node_def find_None_iff_ex)
qed

lemma ids_ok_find_self:
  assumes "ids_ok g" "r \<in> set (g_nodes g)"
  shows "find_node g (h_id (rn_handle r)) = Some r"
  unfolding find_node_def using find_distinct_key [OF ids_ok_distinct [OF assms(1)] assms(2)] by simp

end
