(* ===== verification/Recording.thy ===== *)
theory Recording
  imports Graph
begin

text \<open>
  Recording a frame: the \<open>create_*\<close> and \<open>import_*\<close> calls of \<open>RenderGraph\<close>,
  \<open>begin_pass\<close>/\<open>end_pass\<close>/\<open>add_pass\<close>, and every declaration of
  \<open>PassBuilder\<close> (webgpu/base/RenderGraph.cpp). A recording call maps the interner and the
  graph to their new values; a builder call maps the pass under construction. The sizes WebGPU
  reports for imported objects (\<open>wgpuTextureGetWidth\<close> and its siblings,
  \<open>wgpuBufferGetSize\<close>) are the parameters \<open>tex_extent\<close> and \<open>buf_size\<close>.
\<close>

type_synonym recording = "interner \<times> graph"

subsection \<open>Descriptors\<close>

record texture_desc =
  td_dimension :: texture_dimension
  td_format :: texture_format
  td_size_kind :: size_kind
  td_scale_x :: f32
  td_scale_y :: f32
  td_relative_to :: handle
  td_width :: u32
  td_height :: u32
  td_depth_or_layers :: u32
  td_mips :: u32
  td_samples :: u32

definition default_desc :: texture_desc where
  "default_desc = \<lparr>td_dimension = TD_Undefined, td_format = TF_Undefined, td_size_kind = SK_Absolute,
     td_scale_x = 1, td_scale_y = 1, td_relative_to = null_handle, td_width = 0, td_height = 0,
     td_depth_or_layers = 1, td_mips = 1, td_samples = 1\<rparr>"

definition desc_mips :: "texture_desc \<Rightarrow> u32 \<Rightarrow> texture_desc" where
  "desc_mips d n = d\<lparr>td_mips := n\<rparr>"

definition desc_samples :: "texture_desc \<Rightarrow> u32 \<Rightarrow> texture_desc" where
  "desc_samples d n = d\<lparr>td_samples := n\<rparr>"

definition desc_layers :: "texture_desc \<Rightarrow> u32 \<Rightarrow> texture_desc" where
  "desc_layers d n = d\<lparr>td_depth_or_layers := n\<rparr>"

definition texture_2d_array :: "texture_format \<Rightarrow> u32 \<Rightarrow> u32 \<Rightarrow> u32 \<Rightarrow> texture_desc" where
  "texture_2d_array f w h layers = default_desc\<lparr>td_dimension := TD_2D, td_format := f, td_width := w,
     td_height := h, td_depth_or_layers := layers\<rparr>"

definition texture_2d :: "texture_format \<Rightarrow> u32 \<Rightarrow> u32 \<Rightarrow> texture_desc" where
  "texture_2d f w h = default_desc\<lparr>td_dimension := TD_2D, td_format := f, td_width := w, td_height := h\<rparr>"

definition texture_cube :: "texture_format \<Rightarrow> u32 \<Rightarrow> texture_desc" where
  "texture_cube f sz = texture_2d_array f sz sz 6"

definition texture_cube_array :: "texture_format \<Rightarrow> u32 \<Rightarrow> u32 \<Rightarrow> texture_desc" where
  "texture_cube_array f sz cubes = texture_2d_array f sz sz (6 * cubes)"

definition texture_3d :: "texture_format \<Rightarrow> u32 \<Rightarrow> u32 \<Rightarrow> u32 \<Rightarrow> texture_desc" where
  "texture_3d f w h depth = default_desc\<lparr>td_dimension := TD_3D, td_format := f, td_width := w,
     td_height := h, td_depth_or_layers := depth\<rparr>"

definition texture_relative :: "texture_format \<Rightarrow> handle \<Rightarrow> f32 \<Rightarrow> f32 \<Rightarrow> texture_desc" where
  "texture_relative f base sx sy = default_desc\<lparr>td_dimension := TD_2D, td_format := f,
     td_size_kind := SK_Relative, td_scale_x := sx, td_scale_y := sy, td_relative_to := base\<rparr>"

record import_desc =
  id_view :: gpu_ref
  id_size :: extent3d
  id_format :: texture_format
  id_texture :: gpu_ref
  id_mips :: u32
  id_samples :: u32
  id_dimension :: texture_dimension

definition validate_texture_desc :: "texture_desc \<Rightarrow> unit checked" where
  "validate_texture_desc d =
     require (td_dimension d \<noteq> TD_1D) ''1d textures''
    (require (h_id (td_relative_to d) = 0 \<or> (0 < td_scale_x d \<and> 0 < td_scale_y d)) ''scale of 0''
    (require (td_size_kind d \<noteq> SK_Relative \<or> h_id (td_relative_to d) \<noteq> 0) ''needs a relativeTo handle''
    (require (td_size_kind d \<noteq> SK_Absolute \<or> (td_width d \<noteq> 0 \<and> td_height d \<noteq> 0)) ''needs a non-zero size''
    (require (td_samples d = 1 \<or> td_samples d = 4) ''MSAA samples of 1 or 4''
    (require (td_dimension d \<noteq> TD_3D \<or> td_samples d = 1) ''Texture3D does not support MSAA''
    (require (td_dimension d \<noteq> TD_3D \<or> td_mips d = 1) ''Texture3D only supports mipLevelCount of 1''
      (Inr ())))))))"

definition apply_texture_desc :: "texture_desc \<Rightarrow> res_node \<Rightarrow> res_node checked" where
  "apply_texture_desc d r =
     and_then (validate_texture_desc d) (\<lambda>_. Inr
       (r\<lparr>rn_dimension := td_dimension d, rn_format := td_format d, rn_size_kind := td_size_kind d,
          rn_scale_x := td_scale_x d, rn_scale_y := td_scale_y d, rn_relative_to := td_relative_to d,
          rn_width := td_width d, rn_height := td_height d,
          rn_depth_or_layers := (if td_depth_or_layers d \<noteq> 0 then td_depth_or_layers d else 1),
          rn_mips := (if td_mips d \<noteq> 0 then td_mips d else 1),
          rn_samples := (if td_samples d \<noteq> 0 then td_samples d else 1)\<rparr>))"

subsection \<open>Declaring resources\<close>

definition create_handle :: "resource_kind \<Rightarrow> graph \<Rightarrow> handle \<times> graph" where
  "create_handle k g =
     (\<lparr>h_id = g_next_id g, h_kind = k, h_generation = g_generation g\<rparr>, g\<lparr>g_next_id := g_next_id g + 1\<rparr>)"

definition append_node :: "res_node \<Rightarrow> graph \<Rightarrow> graph" where
  "append_node r g = g\<lparr>g_nodes := g_nodes g @ [r]\<rparr>"

text \<open>
  The common prefix of every declaration: the graph is still recording, the name is interned
  and (debug builds) no resource of this frame has it.
\<close>

definition declare_name :: "(nat \<Rightarrow> bool) \<Rightarrow> string \<Rightarrow> recording \<Rightarrow> (resource_id \<times> recording) checked" where
  "declare_name mal name st =
     require (g_state (snd st) = RG_Recording) ''Render graph is in read only mode after compile()''
       (and_then (or_oom (intern mal name (fst st))) (\<lambda>(rid, it).
          require (\<forall>r \<in> set (g_nodes (snd st)). \<not> rid_eq (rn_id r) rid) ''ResourceIds must to be unique!''
            (Inr (rid, it, snd st))))"

definition relative_handle_ok :: "texture_desc \<Rightarrow> graph \<Rightarrow> bool" where
  "relative_handle_ok d g \<longleftrightarrow>
     h_id (td_relative_to d) = 0 \<or> h_generation (td_relative_to d) = g_generation g"

definition create_transient_texture ::
  "(nat \<Rightarrow> bool) \<Rightarrow> string \<Rightarrow> texture_desc \<Rightarrow> recording \<Rightarrow> (handle \<times> recording) checked" where
  "create_transient_texture mal name d st =
     and_then (declare_name mal name st) (\<lambda>(rid, it, g).
     require (relative_handle_ok d g) ''TextureDesc.relativeTo is a stale/foreign handle''
       (let (h, g1) = create_handle RK_Texture g in
        and_then (apply_texture_desc d (fresh_node h rid RK_Texture)) (\<lambda>r.
          Inr (h, it, append_node r g1))))"

definition create_transient_buffer ::
  "(nat \<Rightarrow> bool) \<Rightarrow> string \<Rightarrow> u64 \<Rightarrow> recording \<Rightarrow> (handle \<times> recording) checked" where
  "create_transient_buffer mal name sz st =
     and_then (declare_name mal name st) (\<lambda>(rid, it, g).
       let (h, g1) = create_handle RK_Buffer g
       in Inr (h, it, append_node ((fresh_node h rid RK_Buffer)\<lparr>rn_buffer_size := sz\<rparr>) g1))"

definition import_texture ::
  "(nat \<Rightarrow> bool) \<Rightarrow> (nat \<Rightarrow> extent3d) \<Rightarrow> string \<Rightarrow> import_desc \<Rightarrow> recording \<Rightarrow> (handle \<times> recording) checked" where
  "import_texture mal tex_extent name d st =
     and_then (declare_name mal name st) (\<lambda>(rid, it, g).
       let (h, g1) = create_handle RK_Texture g in
       require (id_view d \<noteq> None) ''ImportTextureDesc.view is required''
      (require (id_format d \<noteq> TF_Undefined) ''pass the imported view's format''
      (require (case id_texture d of None \<Rightarrow> True | Some t \<Rightarrow> extent_eq (id_size d) (tex_extent t))
         ''size disagrees with the backing texture''
      (require (id_dimension d \<noteq> TD_1D) ''1d textures''
        (Inr (h, it, append_node
          ((fresh_node h rid RK_Texture)\<lparr>rn_imported := True, rn_view := id_view d, rn_texture := id_texture d,
             rn_resolved := id_size d,
             rn_depth_or_layers := (if ext_depth (id_size d) \<noteq> 0 then ext_depth (id_size d) else 1),
             rn_format := id_format d, rn_mips := (if id_mips d \<noteq> 0 then id_mips d else 1),
             rn_samples := (if id_samples d \<noteq> 0 then id_samples d else 1),
             rn_dimension := id_dimension d\<rparr>) g1))))))"

definition import_buffer ::
  "(nat \<Rightarrow> bool) \<Rightarrow> (nat \<Rightarrow> u64) \<Rightarrow> string \<Rightarrow> gpu_ref \<Rightarrow> recording \<Rightarrow> (handle \<times> recording) checked" where
  "import_buffer mal buf_size name buffer st =
     require (g_state (snd st) = RG_Recording) ''Render graph is in read only mode after compile()''
    (require (buffer \<noteq> None) ''import_buffer: null buffer''
     (and_then (declare_name mal name st) (\<lambda>(rid, it, g).
       let (h, g1) = create_handle RK_Buffer g
       in Inr (h, it, append_node
            ((fresh_node h rid RK_Buffer)\<lparr>rn_imported := True, rn_buffer := buffer,
               rn_buffer_size := buf_size (the buffer)\<rparr>) g1))))"

text \<open>\<open>kLayers\<close> is 2: layer 0 is \<open>.curr\<close>, layer 1 is \<open>.prev\<close>.\<close>

definition create_history_texture ::
  "(nat \<Rightarrow> bool) \<Rightarrow> string \<Rightarrow> texture_desc \<Rightarrow> u64 \<Rightarrow> recording \<Rightarrow> ((handle \<times> handle) \<times> recording) checked" where
  "create_history_texture mal name d hash st =
     and_then (declare_name mal name st) (\<lambda>(rid, it, g).
     require (relative_handle_ok d g) ''TextureDesc.relativeTo is a stale/foreign handle''
       (let (curr, g1) = create_handle RK_Texture g in
        and_then (apply_texture_desc d
           ((fresh_node curr rid RK_Texture)\<lparr>rn_persistent := True, rn_history := True,
              rn_history_index := 0, rn_history_hash := hash\<rparr>)) (\<lambda>r0.
        let (prev, g2) = create_handle RK_Texture (append_node r0 g1) in
        and_then (apply_texture_desc d
           ((fresh_node prev rid RK_Texture)\<lparr>rn_persistent := True, rn_history := True,
              rn_history_index := 1, rn_history_hash := hash\<rparr>)) (\<lambda>r1.
          Inr ((curr, prev), it, append_node r1 g2)))))"

definition create_history_buffer ::
  "(nat \<Rightarrow> bool) \<Rightarrow> string \<Rightarrow> u64 \<Rightarrow> u64 \<Rightarrow> recording \<Rightarrow> ((handle \<times> handle) \<times> recording) checked" where
  "create_history_buffer mal name sz hash st =
     and_then (declare_name mal name st) (\<lambda>(rid, it, g).
       let (curr, g1) = create_handle RK_Buffer g;
           r0 = (fresh_node curr rid RK_Buffer)\<lparr>rn_persistent := True, rn_history := True,
                  rn_history_index := 0, rn_history_hash := hash, rn_buffer_size := sz\<rparr>;
           (prev, g2) = create_handle RK_Buffer (append_node r0 g1);
           r1 = (fresh_node prev rid RK_Buffer)\<lparr>rn_persistent := True, rn_history := True,
                  rn_history_index := 1, rn_history_hash := hash, rn_buffer_size := sz\<rparr>
       in Inr ((curr, prev), it, append_node r1 g2))"

definition create_persistent_buffer ::
  "(nat \<Rightarrow> bool) \<Rightarrow> string \<Rightarrow> u64 \<Rightarrow> recording \<Rightarrow> (handle \<times> recording) checked" where
  "create_persistent_buffer mal name sz st =
     and_then (declare_name mal name st) (\<lambda>(rid, it, g).
       let (h, g1) = create_handle RK_Buffer g
       in Inr (h, it, append_node
            ((fresh_node h rid RK_Buffer)\<lparr>rn_persistent := True, rn_history_index := 0,
               rn_buffer_size := sz\<rparr>) g1))"

definition create_persistent_texture ::
  "(nat \<Rightarrow> bool) \<Rightarrow> string \<Rightarrow> texture_desc \<Rightarrow> recording \<Rightarrow> (handle \<times> recording) checked" where
  "create_persistent_texture mal name d st =
     and_then (declare_name mal name st) (\<lambda>(rid, it, g).
     require (relative_handle_ok d g) ''TextureDesc.relativeTo is a stale/foreign handle''
       (let (h, g1) = create_handle RK_Texture g in
        and_then (apply_texture_desc d ((fresh_node h rid RK_Texture)\<lparr>rn_persistent := True,
            rn_history_index := 0\<rparr>)) (\<lambda>r.
          Inr (h, it, append_node r g1))))"

end
