(* ===== verification/Pass_Builder.thy ===== *)
theory Pass_Builder
  imports Recording
begin

text \<open>
  The declarations of a pass: \<open>use\<close> and every operation of \<open>PassBuilder\<close>
  (webgpu/base/RenderGraph.cpp). A builder call maps the pass under construction to its new
  value; the graph is read for the handle checks. The access array grows by doubling in the
  arena, which only matters to the allocator: here it is a list. A setup callback is the
  list of builder calls it makes.
\<close>

subsection \<open>Recording one access\<close>

text \<open>The arguments of \<open>use\<close> after the access type, with the defaults of its signature.\<close>

record use_args =
  ua_load :: load_op
  ua_store :: store_op
  ua_clear :: color
  ua_clear_depth :: f32
  ua_mip :: u32
  ua_layer :: u32
  ua_range :: view_range
  ua_stencil_load :: load_op
  ua_stencil_store :: store_op
  ua_stencil_clear :: u32

definition default_use :: use_args where
  "default_use = \<lparr>ua_load = LO_Undefined, ua_store = SO_Undefined, ua_clear = mk_color 0 0 0 0,
     ua_clear_depth = 0, ua_mip = 0, ua_layer = 0, ua_range = default_range,
     ua_stencil_load = LO_Undefined, ua_stencil_store = SO_Undefined, ua_stencil_clear = 0\<rparr>"

definition at_subresource :: "u32 \<Rightarrow> u32 \<Rightarrow> use_args" where
  "at_subresource mip layer = default_use\<lparr>ua_mip := mip, ua_layer := layer\<rparr>"

definition over_range :: "view_range \<Rightarrow> use_args" where
  "over_range r = (at_subresource (vr_base_mip r) (vr_base_layer r))\<lparr>ua_range := r\<rparr>"

definition recorded_access :: "handle \<Rightarrow> access_type \<Rightarrow> use_args \<Rightarrow> access" where
  "recorded_access h t u =
     \<lparr>ac_handle = h, ac_buf_offset = 0, ac_buf_size = 0, ac_clear_color = narrow_color (ua_clear u),
      ac_clear_depth = ua_clear_depth u, ac_load = ua_load u, ac_store = ua_store u,
      ac_stencil_load = ua_stencil_load u, ac_stencil_store = ua_stencil_store u,
      ac_view_dim = vr_dim (ua_range u), ac_view_aspect = vr_aspect (ua_range u),
      ac_base_layer = ucast (ua_layer u), ac_layer_count = ucast (vr_layer_count (ua_range u)),
      ac_type = t, ac_stencil_clear = ucast (ua_stencil_clear u), ac_color_index = 0,
      ac_buf_full_define = False, ac_base_mip = ucast (ua_mip u),
      ac_mip_count = ucast (vr_mip_count (ua_range u))\<rparr>"

definition clashes :: "handle \<Rightarrow> access_type \<Rightarrow> use_args \<Rightarrow> access \<Rightarrow> bool" where
  "clashes h t u a \<longleftrightarrow>
     h_id (ac_handle a) = h_id h \<and>
     in_pass_accesses_conflict t (ua_mip u) (vr_mip_count (ua_range u)) (ua_layer u)
       (vr_layer_count (ua_range u)) (vr_aspect (ua_range u))
       (ac_type a) (ucast (ac_base_mip a)) (ucast (ac_mip_count a)) (ucast (ac_base_layer a))
       (ucast (ac_layer_count a)) (ac_view_aspect a)"

definition use_access ::
  "graph \<Rightarrow> handle \<Rightarrow> access_type \<Rightarrow> use_args \<Rightarrow> pass_node \<Rightarrow> pass_node checked" where
  "use_access g h t u p =
     require (h_id h \<noteq> 0) ''handle.id != 0''
    (require (h_id h < g_next_id g) ''stale or foreign ResourceHandle''
    (require (h_generation h = g_generation g) ''not created by this graph''
    (require (access_allows_kind t (h_kind h)) ''handle kind disagrees with this access''
    (require (pn_kind p = PK_Transfer \<or> \<not> list_ex (clashes h t u) (pn_accesses p))
       ''illegal in-pass resource usage''
      (Inr (p\<lparr>pn_accesses := pn_accesses p @ [recorded_access h t u]\<rparr>))))))"

text \<open>\<open>m_pass->accesses[m_pass->accessCount - 1].x = y\<close>.\<close>

definition edit_last :: "(access \<Rightarrow> access) \<Rightarrow> pass_node \<Rightarrow> pass_node" where
  "edit_last f p = p\<lparr>pn_accesses := butlast (pn_accesses p) @ [f (last (pn_accesses p))]\<rparr>"

text \<open>\<open>find_node\<close> with its check: while recording there is no table, so the list is searched.\<close>

definition find_node_checked :: "graph \<Rightarrow> handle \<Rightarrow> res_node option checked" where
  "find_node_checked g h =
     require (\<not> (h_id h \<noteq> 0 \<and> h_generation h \<noteq> 0 \<and> h_generation h \<noteq> g_generation g))
       ''stale/foreign ResourceHandle passed to a ctx resolver'' (Inr (find_node g (h_id h)))"

subsection \<open>Attachments\<close>

definition b_color ::
  "graph \<Rightarrow> handle \<Rightarrow> u32 \<Rightarrow> color_attachment \<Rightarrow> pass_node \<Rightarrow> pass_node checked" where
  "b_color g h idx a p =
     require (h_id h \<noteq> 0) ''handle.id != 0''
    (require (pn_kind p = PK_Graphics) ''color attachment is only legal for graphics passes''
    (require (unat idx < kMaxColorAttachments) ''color() attachmentIndex out of range''
    (require (\<not> (\<exists>b \<in> set (pn_accesses p). ac_type b = ColorAttachment \<and> ucast (ac_color_index b) = idx))
       ''duplicate color() attachmentIndex in one pass''
      (and_then
        (use_access g h ColorAttachment
          ((at_subresource (sub_mip (ca_sub a)) (sub_layer (ca_sub a)))
             \<lparr>ua_load := ca_load a, ua_store := ca_store a, ua_clear := ca_clear a\<rparr>) p)
        (\<lambda>p1. Inr (edit_last (\<lambda>b. b\<lparr>ac_color_index := ucast idx\<rparr>) p1))))))"

definition b_resolve ::
  "graph \<Rightarrow> handle \<Rightarrow> handle \<Rightarrow> subresource \<Rightarrow> pass_node \<Rightarrow> pass_node checked" where
  "b_resolve g src target sub p =
     require (h_id src \<noteq> 0) ''src.id != 0''
    (require (h_id target \<noteq> 0) ''target.id != 0''
    (require (pn_kind p = PK_Graphics) ''resolve target is only legal for graphics passes''
      (case find (\<lambda>b. ac_type b = ColorAttachment \<and> h_id (ac_handle b) = h_id src) (pn_accesses p) of
         None \<Rightarrow> Inl (Assert ''resolve() src is not a color attachment in this pass'')
       | Some c \<Rightarrow>
           require (\<not> (\<exists>b \<in> set (pn_accesses p).
                ac_type b = ResolveAttachment \<and> ac_color_index b = ac_color_index c))
             ''two resolve() targets for one color slot in a pass''
             (and_then
               (use_access g target ResolveAttachment (at_subresource (sub_mip sub) (sub_layer sub)) p)
               (\<lambda>p1. Inr (edit_last (\<lambda>b. b\<lparr>ac_color_index := ac_color_index c\<rparr>) p1))))))"

definition assert_single_depth :: "pass_node \<Rightarrow> unit checked" where
  "assert_single_depth p =
     require (\<not> (\<exists>b \<in> set (pn_accesses p).
         ac_type b = DepthStencilAttachment \<or> ac_type b = DepthStencilReadOnly))
       ''two depth-stencil attachments in one pass'' (Inr ())"

definition b_depth_stencil ::
  "graph \<Rightarrow> handle \<Rightarrow> depth_attachment \<Rightarrow> pass_node \<Rightarrow> pass_node checked" where
  "b_depth_stencil g h a p =
     require (h_id h \<noteq> 0) ''handle.id != 0''
    (require (pn_kind p = PK_Graphics) ''depth-stencil attachment is only legal for graphics passes''
      (and_then (assert_single_depth p) (\<lambda>_.
        use_access g h DepthStencilAttachment
          ((at_subresource (sub_mip (da_sub a)) (sub_layer (da_sub a)))
             \<lparr>ua_load := da_load a, ua_store := da_store a, ua_clear_depth := da_clear_depth a,
              ua_stencil_load := da_stencil_load a, ua_stencil_store := da_stencil_store a,
              ua_stencil_clear := da_stencil_clear a\<rparr>) p)))"

definition b_depth_stencil_read_only ::
  "graph \<Rightarrow> handle \<Rightarrow> subresource \<Rightarrow> pass_node \<Rightarrow> pass_node checked" where
  "b_depth_stencil_read_only g h sub p =
     require (h_id h \<noteq> 0) ''handle.id != 0''
    (require (pn_kind p = PK_Graphics) ''depth-stencil attachment is only legal for graphics passes''
      (and_then (assert_single_depth p) (\<lambda>_.
        use_access g h DepthStencilReadOnly (at_subresource (sub_mip sub) (sub_layer sub)) p)))"

subsection \<open>Textures\<close>

definition b_sampled :: "graph \<Rightarrow> handle \<Rightarrow> view_range \<Rightarrow> pass_node \<Rightarrow> pass_node checked" where
  "b_sampled g h r p = require (h_id h \<noteq> 0) ''handle.id != 0'' (use_access g h Sampled (over_range r) p)"

definition b_tex_storage_read :: "graph \<Rightarrow> handle \<Rightarrow> view_range \<Rightarrow> pass_node \<Rightarrow> pass_node checked" where
  "b_tex_storage_read g h r p =
     require (h_id h \<noteq> 0) ''handle.id != 0'' (use_access g h StorageRead (over_range r) p)"

definition b_tex_storage_write :: "graph \<Rightarrow> handle \<Rightarrow> view_range \<Rightarrow> pass_node \<Rightarrow> pass_node checked" where
  "b_tex_storage_write g h r p =
     require (h_id h \<noteq> 0) ''handle.id != 0'' (use_access g h StorageWrite (over_range r) p)"

definition b_tex_storage_read_write ::
  "graph \<Rightarrow> handle \<Rightarrow> view_range \<Rightarrow> pass_node \<Rightarrow> pass_node checked" where
  "b_tex_storage_read_write g h r p =
     require (h_id h \<noteq> 0) ''handle.id != 0''
       (and_then (b_tex_storage_read g h r p) (b_tex_storage_write g h r))"

subsection \<open>Buffers\<close>

definition remaining :: "u64 \<Rightarrow> u64 \<Rightarrow> u64 \<Rightarrow> u64" where
  "remaining sz bytes offset = (if sz \<noteq> 0 then sz else if bytes > offset then bytes - offset else 0)"

definition set_bind_range :: "graph \<Rightarrow> handle \<Rightarrow> buffer_range \<Rightarrow> pass_node \<Rightarrow> pass_node checked" where
  "set_bind_range g h r p =
     (if br_offset r = 0 \<and> br_size r = 0 then Inr p
      else and_then (find_node_checked g h) (\<lambda>n.
        case n of
          None \<Rightarrow> Inl (Assert ''bind range: handle is 0 or from another graph'')
        | Some n \<Rightarrow> Inr (edit_last (\<lambda>a. a\<lparr>ac_buf_offset := br_offset r,
                ac_buf_size := remaining (br_size r) (rn_buffer_size n) (br_offset r)\<rparr>) p)))"

definition b_bind ::
  "graph \<Rightarrow> handle \<Rightarrow> access_type \<Rightarrow> buffer_range \<Rightarrow> pass_node \<Rightarrow> pass_node checked" where
  "b_bind g h t r p =
     require (h_id h \<noteq> 0) ''handle.id != 0''
       (and_then (use_access g h t default_use p) (set_bind_range g h r))"

definition b_buf_storage_read where "b_buf_storage_read g h r p = b_bind g h StorageRead r p"
definition b_buf_storage_write where "b_buf_storage_write g h r p = b_bind g h StorageWrite r p"
definition b_uniform where "b_uniform g h r p = b_bind g h Uniform r p"

definition b_buf_storage_read_write ::
  "graph \<Rightarrow> handle \<Rightarrow> buffer_range \<Rightarrow> pass_node \<Rightarrow> pass_node checked" where
  "b_buf_storage_read_write g h r p =
     require (h_id h \<noteq> 0) ''handle.id != 0''
       (and_then (b_buf_storage_read g h r p) (b_buf_storage_write g h r))"

definition b_plain :: "graph \<Rightarrow> handle \<Rightarrow> access_type \<Rightarrow> pass_node \<Rightarrow> pass_node checked" where
  "b_plain g h t p = require (h_id h \<noteq> 0) ''handle.id != 0'' (use_access g h t default_use p)"

definition b_host_write where "b_host_write g h p = b_plain g h CopyDst p"
definition b_vertex_buffer where "b_vertex_buffer g h p = b_plain g h Vertex p"
definition b_index_buffer where "b_index_buffer g h p = b_plain g h Index p"
definition b_indirect_buffer where "b_indirect_buffer g h p = b_plain g h Indirect p"

subsection \<open>Copies\<close>

definition b_copy_texture ::
  "graph \<Rightarrow> handle \<Rightarrow> handle \<Rightarrow> subresource \<Rightarrow> subresource \<Rightarrow> pass_node \<Rightarrow> pass_node checked" where
  "b_copy_texture g src dst ssub dsub p =
     require (h_id src \<noteq> 0 \<and> h_id dst \<noteq> 0) ''src.id != 0 && dst.id != 0''
    (require (pn_kind p = PK_Transfer) ''copy_texture() is only legal in Transfer passes''
    (require (\<not> (h_id src = h_id dst \<and> sub_mip ssub = sub_mip dsub \<and> sub_layer ssub = sub_layer dsub))
       ''copy_texture: src and dst are the same subresource''
      (and_then (use_access g src CopySrc (at_subresource (sub_mip ssub) (sub_layer ssub)) p)
        (use_access g dst CopyDst (at_subresource (sub_mip dsub) (sub_layer dsub))))))"

definition b_copy_texture_to_buffer ::
  "graph \<Rightarrow> handle \<Rightarrow> handle \<Rightarrow> subresource \<Rightarrow> pass_node \<Rightarrow> pass_node checked" where
  "b_copy_texture_to_buffer g src dst ssub p =
     require (h_id src \<noteq> 0 \<and> h_id dst \<noteq> 0) ''src.id != 0 && dst.id != 0''
    (require (pn_kind p = PK_Transfer) ''copy_texture_to_buffer() is only legal in Transfer passes''
      (and_then (use_access g src CopySrc (at_subresource (sub_mip ssub) (sub_layer ssub)) p)
        (use_access g dst CopyDst default_use)))"

definition b_copy_buffer_to_texture ::
  "graph \<Rightarrow> handle \<Rightarrow> handle \<Rightarrow> subresource \<Rightarrow> pass_node \<Rightarrow> pass_node checked" where
  "b_copy_buffer_to_texture g src dst dsub p =
     require (h_id src \<noteq> 0 \<and> h_id dst \<noteq> 0) ''src.id != 0 && dst.id != 0''
    (require (pn_kind p = PK_Transfer) ''copy_buffer_to_texture() is only legal in Transfer passes''
      (and_then (use_access g src CopySrc default_use p)
        (use_access g dst CopyDst (at_subresource (sub_mip dsub) (sub_layer dsub)))))"

definition b_copy_buffer ::
  "graph \<Rightarrow> handle \<Rightarrow> handle \<Rightarrow> u64 \<Rightarrow> u64 \<Rightarrow> u64 \<Rightarrow> pass_node \<Rightarrow> pass_node checked" where
  "b_copy_buffer g src dst srcOffset dstOffset sz p =
     require (h_id src \<noteq> 0 \<and> h_id dst \<noteq> 0) ''src.id != 0 && dst.id != 0''
    (require (pn_kind p = PK_Transfer) ''copy_buffer() is only legal in Transfer passes''
    (require (h_id src \<noteq> h_id dst) ''copy_buffer: same-buffer copy''
    (require (srcOffset mod 4 = 0 \<and> dstOffset mod 4 = 0 \<and> sz mod 4 = 0)
       ''copy_buffer: offsets and size must be multiples of 4''
      (and_then (find_node_checked g src) (\<lambda>sn.
       and_then (find_node_checked g dst) (\<lambda>dn.
         case (sn, dn) of
           (Some sn, Some dn) \<Rightarrow>
             (let n = remaining sz (rn_buffer_size sn) srcOffset in
              and_then (use_access g src CopySrc default_use p) (\<lambda>p1.
              and_then (use_access g dst CopyDst default_use
                (edit_last (\<lambda>a. a\<lparr>ac_buf_offset := srcOffset, ac_buf_size := n\<rparr>) p1)) (\<lambda>p2.
              Inr (edit_last (\<lambda>a. a\<lparr>ac_buf_offset := dstOffset, ac_buf_size := n,
                     ac_buf_full_define := (dstOffset = 0 \<and> n = rn_buffer_size dn)\<rparr>) p2))))
         | _ \<Rightarrow> Inl (Assert ''copy_buffer: handle is 0 or from another graph'')))))))"

subsection \<open>Bakes and side effects\<close>

definition b_initialize :: "graph \<Rightarrow> handle \<Rightarrow> u64 \<Rightarrow> pass_node \<Rightarrow> pass_node checked" where
  "b_initialize g target hash p =
     require (h_id target \<noteq> 0) ''target.id != 0''
    (require (h_id target < g_next_id g) ''stale or foreign ResourceHandle''
    (require (\<forall>t \<in> set (pn_init_targets p). h_id (fst t) \<noteq> h_id target)
       ''initialize() called twice for the same target in one pass''
    (require (length (pn_init_targets p) < kMaxInitTargets)
       ''more than kMaxInitTargets initialize() targets in one pass''
      (Inr (p\<lparr>pn_init_targets := pn_init_targets p @ [(target, hash)]\<rparr>)))))"

definition b_force_keep :: "pass_node \<Rightarrow> pass_node checked" where
  "b_force_keep p = Inr (p\<lparr>pn_force_keep := True\<rparr>)"

subsection \<open>A setup callback\<close>

datatype builder_call =
    B_Color handle u32 color_attachment
  | B_Resolve handle handle subresource
  | B_DepthStencil handle depth_attachment
  | B_DepthStencilReadOnly handle subresource
  | B_Sampled handle view_range
  | B_TexStorageRead handle view_range
  | B_TexStorageWrite handle view_range
  | B_TexStorageReadWrite handle view_range
  | B_BufStorageRead handle buffer_range
  | B_BufStorageWrite handle buffer_range
  | B_BufStorageReadWrite handle buffer_range
  | B_Uniform handle buffer_range
  | B_HostWrite handle
  | B_CopyTexture handle handle subresource subresource
  | B_CopyTextureToBuffer handle handle subresource
  | B_CopyBufferToTexture handle handle subresource
  | B_CopyBuffer handle handle u64 u64 u64
  | B_Vertex handle
  | B_Index handle
  | B_Indirect handle
  | B_Initialize handle u64
  | B_ForceKeep

fun run_builder :: "graph \<Rightarrow> builder_call \<Rightarrow> pass_node \<Rightarrow> pass_node checked" where
  "run_builder g (B_Color h i a) p = b_color g h i a p"
| "run_builder g (B_Resolve s t sub) p = b_resolve g s t sub p"
| "run_builder g (B_DepthStencil h a) p = b_depth_stencil g h a p"
| "run_builder g (B_DepthStencilReadOnly h sub) p = b_depth_stencil_read_only g h sub p"
| "run_builder g (B_Sampled h r) p = b_sampled g h r p"
| "run_builder g (B_TexStorageRead h r) p = b_tex_storage_read g h r p"
| "run_builder g (B_TexStorageWrite h r) p = b_tex_storage_write g h r p"
| "run_builder g (B_TexStorageReadWrite h r) p = b_tex_storage_read_write g h r p"
| "run_builder g (B_BufStorageRead h r) p = b_buf_storage_read g h r p"
| "run_builder g (B_BufStorageWrite h r) p = b_buf_storage_write g h r p"
| "run_builder g (B_BufStorageReadWrite h r) p = b_buf_storage_read_write g h r p"
| "run_builder g (B_Uniform h r) p = b_uniform g h r p"
| "run_builder g (B_HostWrite h) p = b_host_write g h p"
| "run_builder g (B_CopyTexture s d ss ds) p = b_copy_texture g s d ss ds p"
| "run_builder g (B_CopyTextureToBuffer s d ss) p = b_copy_texture_to_buffer g s d ss p"
| "run_builder g (B_CopyBufferToTexture s d ds) p = b_copy_buffer_to_texture g s d ds p"
| "run_builder g (B_CopyBuffer s d so dof sz) p = b_copy_buffer g s d so dof sz p"
| "run_builder g (B_Vertex h) p = b_vertex_buffer g h p"
| "run_builder g (B_Index h) p = b_index_buffer g h p"
| "run_builder g (B_Indirect h) p = b_indirect_buffer g h p"
| "run_builder g (B_Initialize h hash) p = b_initialize g h hash p"
| "run_builder g B_ForceKeep p = b_force_keep p"

fun run_setup :: "graph \<Rightarrow> builder_call list \<Rightarrow> pass_node \<Rightarrow> pass_node checked" where
  "run_setup g [] p = Inr p"
| "run_setup g (c # cs) p = and_then (run_builder g c p) (run_setup g cs)"

subsection \<open>What one declaration appends\<close>

definition handle_ok :: "graph \<Rightarrow> handle \<Rightarrow> bool" where
  "handle_ok g h \<longleftrightarrow> 0 < h_id h \<and> h_id h < g_next_id g \<and> h_generation h = g_generation g"

definition is_attachment :: "access_type \<Rightarrow> bool" where
  "is_attachment t \<longleftrightarrow> t \<in> {ColorAttachment, DepthStencilAttachment, DepthStencilReadOnly, ResolveAttachment}"

definition access_ok :: "graph \<Rightarrow> access \<Rightarrow> bool" where
  "access_ok g a \<longleftrightarrow> handle_ok g (ac_handle a) \<and> access_allows_kind (ac_type a) (h_kind (ac_handle a))"

text \<open>An edit of the access just appended that leaves what the checks read.\<close>

definition benign :: "(access \<Rightarrow> access) \<Rightarrow> bool" where
  "benign f \<longleftrightarrow> (\<forall>a. ac_handle (f a) = ac_handle a \<and> ac_type (f a) = ac_type a \<and>
     ac_base_mip (f a) = ac_base_mip a \<and> ac_mip_count (f a) = ac_mip_count a \<and>
     ac_base_layer (f a) = ac_base_layer a \<and> ac_layer_count (f a) = ac_layer_count a \<and>
     ac_view_aspect (f a) = ac_view_aspect a)"

lemma use_access_Inr:
  "use_access g h t u p = Inr p' \<longleftrightarrow>
     handle_ok g h \<and> access_allows_kind t (h_kind h) \<and>
     (pn_kind p = PK_Transfer \<or> (\<forall>a \<in> set (pn_accesses p). \<not> clashes h t u a)) \<and>
     p' = p\<lparr>pn_accesses := pn_accesses p @ [recorded_access h t u]\<rparr>"
  by (auto simp: use_access_def handle_ok_def list_ex_iff)

lemma edit_last_append:
  "edit_last f (p\<lparr>pn_accesses := as @ [a]\<rparr>) = p\<lparr>pn_accesses := as @ [f a]\<rparr>"
  by (simp add: edit_last_def)

text \<open>The single step every access declaration is made of.\<close>

definition appends ::
  "graph \<Rightarrow> handle \<Rightarrow> access_type \<Rightarrow> use_args \<Rightarrow> (access \<Rightarrow> access) \<Rightarrow> pass_node \<Rightarrow> pass_node \<Rightarrow> bool" where
  "appends g h t u f p p' \<longleftrightarrow>
     handle_ok g h \<and> access_allows_kind t (h_kind h) \<and> benign f \<and>
     (pn_kind p = PK_Transfer \<or> (\<forall>a \<in> set (pn_accesses p). \<not> clashes h t u a)) \<and>
     p' = p\<lparr>pn_accesses := pn_accesses p @ [f (recorded_access h t u)]\<rparr>"

lemma benign_id [simp]: "benign (\<lambda>a. a)"
  and benign_color [simp]: "benign (\<lambda>a. a\<lparr>ac_color_index := i\<rparr>)"
  and benign_range [simp]: "benign (\<lambda>a. a\<lparr>ac_buf_offset := x, ac_buf_size := y\<rparr>)"
  and benign_define [simp]: "benign (\<lambda>a. a\<lparr>ac_buf_offset := x, ac_buf_size := y, ac_buf_full_define := b\<rparr>)"
  by (simp_all add: benign_def)

lemma appends_use: "use_access g h t u p = Inr p' \<Longrightarrow> appends g h t u (\<lambda>a. a) p p'"
  by (auto simp: use_access_Inr appends_def)

lemma appends_edit:
  "use_access g h t u p = Inr p1 \<Longrightarrow> benign f \<Longrightarrow> appends g h t u f p (edit_last f p1)"
  by (auto simp: use_access_Inr appends_def edit_last_append)

lemma benign_comp: "benign f \<Longrightarrow> benign g \<Longrightarrow> benign (\<lambda>a. g (f a))"
  by (simp add: benign_def)

lemma appends_bind:
  assumes "b_bind g h t r p = Inr p'"
  shows "\<exists>f. appends g h t default_use f p p' \<and>
           (\<forall>a. ac_color_index (f a) = ac_color_index a)"
proof -
  from assms obtain p1 where u: "use_access g h t default_use p = Inr p1"
    and s: "set_bind_range g h r p1 = Inr p'"
    by (auto simp: b_bind_def)
  show ?thesis
  proof (cases "br_offset r = 0 \<and> br_size r = 0")
    case True
    then have "p' = p1" using s by (simp add: set_bind_range_def)
    then show ?thesis using appends_use [OF u] by auto
  next
    case False
    then obtain n where "find_node_checked g h = Inr (Some n)"
      using s by (auto simp: set_bind_range_def split: option.split_asm)
    then have "p' = edit_last (\<lambda>a. a\<lparr>ac_buf_offset := br_offset r,
        ac_buf_size := remaining (br_size r) (rn_buffer_size n) (br_offset r)\<rparr>) p1"
      using s False by (simp add: set_bind_range_def)
    then show ?thesis using appends_edit [OF u benign_range] by fastforce
  qed
qed

lemmas builder_defs =
  b_color_def b_resolve_def b_depth_stencil_def b_depth_stencil_read_only_def b_sampled_def
  b_tex_storage_read_def b_tex_storage_write_def b_tex_storage_read_write_def
  b_buf_storage_read_def b_buf_storage_write_def b_buf_storage_read_write_def b_uniform_def
  b_host_write_def b_plain_def b_copy_texture_def b_copy_texture_to_buffer_def
  b_copy_buffer_to_texture_def b_copy_buffer_def b_vertex_buffer_def b_index_buffer_def
  b_indirect_buffer_def b_initialize_def b_force_keep_def assert_single_depth_def

text \<open>
  Which arguments a builder call passes to \<open>use\<close>, in order: handle, type and ranges.
\<close>

fun call_uses :: "builder_call \<Rightarrow> (handle \<times> access_type \<times> u32 \<times> u32 \<times> u32 \<times> u32 \<times> texture_aspect) list" where
  "call_uses (B_Color h i a) = [(h, ColorAttachment, sub_mip (ca_sub a), 1, sub_layer (ca_sub a), 1, TA_All)]"
| "call_uses (B_Resolve s t sub) = [(t, ResolveAttachment, sub_mip sub, 1, sub_layer sub, 1, TA_All)]"
| "call_uses (B_DepthStencil h a) = [(h, DepthStencilAttachment, sub_mip (da_sub a), 1, sub_layer (da_sub a), 1, TA_All)]"
| "call_uses (B_DepthStencilReadOnly h sub) = [(h, DepthStencilReadOnly, sub_mip sub, 1, sub_layer sub, 1, TA_All)]"
| "call_uses (B_Sampled h r) = [(h, Sampled, vr_base_mip r, vr_mip_count r, vr_base_layer r, vr_layer_count r, vr_aspect r)]"
| "call_uses (B_TexStorageRead h r) = [(h, StorageRead, vr_base_mip r, vr_mip_count r, vr_base_layer r, vr_layer_count r, vr_aspect r)]"
| "call_uses (B_TexStorageWrite h r) = [(h, StorageWrite, vr_base_mip r, vr_mip_count r, vr_base_layer r, vr_layer_count r, vr_aspect r)]"
| "call_uses (B_TexStorageReadWrite h r) =
     [(h, StorageRead, vr_base_mip r, vr_mip_count r, vr_base_layer r, vr_layer_count r, vr_aspect r),
      (h, StorageWrite, vr_base_mip r, vr_mip_count r, vr_base_layer r, vr_layer_count r, vr_aspect r)]"
| "call_uses (B_BufStorageRead h r) = [(h, StorageRead, 0, 1, 0, 1, TA_All)]"
| "call_uses (B_BufStorageWrite h r) = [(h, StorageWrite, 0, 1, 0, 1, TA_All)]"
| "call_uses (B_BufStorageReadWrite h r) = [(h, StorageRead, 0, 1, 0, 1, TA_All), (h, StorageWrite, 0, 1, 0, 1, TA_All)]"
| "call_uses (B_Uniform h r) = [(h, Uniform, 0, 1, 0, 1, TA_All)]"
| "call_uses (B_HostWrite h) = [(h, CopyDst, 0, 1, 0, 1, TA_All)]"
| "call_uses (B_CopyTexture s d ss ds) =
     [(s, CopySrc, sub_mip ss, 1, sub_layer ss, 1, TA_All), (d, CopyDst, sub_mip ds, 1, sub_layer ds, 1, TA_All)]"
| "call_uses (B_CopyTextureToBuffer s d ss) = [(s, CopySrc, sub_mip ss, 1, sub_layer ss, 1, TA_All), (d, CopyDst, 0, 1, 0, 1, TA_All)]"
| "call_uses (B_CopyBufferToTexture s d ds) = [(s, CopySrc, 0, 1, 0, 1, TA_All), (d, CopyDst, sub_mip ds, 1, sub_layer ds, 1, TA_All)]"
| "call_uses (B_CopyBuffer s d so dof sz) = [(s, CopySrc, 0, 1, 0, 1, TA_All), (d, CopyDst, 0, 1, 0, 1, TA_All)]"
| "call_uses (B_Vertex h) = [(h, Vertex, 0, 1, 0, 1, TA_All)]"
| "call_uses (B_Index h) = [(h, Index, 0, 1, 0, 1, TA_All)]"
| "call_uses (B_Indirect h) = [(h, Indirect, 0, 1, 0, 1, TA_All)]"
| "call_uses (B_Initialize h hash) = []"
| "call_uses B_ForceKeep = []"

definition use_key :: "handle \<Rightarrow> access_type \<Rightarrow> use_args \<Rightarrow> handle \<times> access_type \<times> u32 \<times> u32 \<times> u32 \<times> u32 \<times> texture_aspect" where
  "use_key h t u = (h, t, ua_mip u, vr_mip_count (ua_range u), ua_layer u, vr_layer_count (ua_range u), vr_aspect (ua_range u))"

text \<open>A chain of appends, one per use of the call; the slot of a non-attachment is untouched.\<close>

inductive append_chain ::
  "graph \<Rightarrow> (handle \<times> access_type \<times> u32 \<times> u32 \<times> u32 \<times> u32 \<times> texture_aspect) list \<Rightarrow> pass_node \<Rightarrow> pass_node \<Rightarrow> bool"
  for g where
  chain_nil: "append_chain g [] p p"
| chain_cons: "appends g h t u f p p1 \<Longrightarrow> append_chain g ks p1 p2 \<Longrightarrow> append_chain g (use_key h t u # ks) p p2"

lemma chain_one: "appends g h t u f p p' \<Longrightarrow> k = use_key h t u \<Longrightarrow> append_chain g [k] p p'"
  using chain_cons [OF _ chain_nil] by simp

lemma chain_two:
  "appends g h t u f p p1 \<Longrightarrow> appends g h' t' u' f' p1 p' \<Longrightarrow> k = use_key h t u \<Longrightarrow> k' = use_key h' t' u' \<Longrightarrow>
   append_chain g [k, k'] p p'"
  using chain_cons [OF _ chain_one] by simp

lemma use_key_simps:
  "use_key h t default_use = (h, t, 0, 1, 0, 1, TA_All)"
  "use_key h t (at_subresource m l) = (h, t, m, 1, l, 1, TA_All)"
  "use_key h t (over_range r) =
     (h, t, vr_base_mip r, vr_mip_count r, vr_base_layer r, vr_layer_count r, vr_aspect r)"
  "use_key h t (u\<lparr>ua_load := lo, ua_store := so, ua_clear := c\<rparr>) = use_key h t u"
  "use_key h t (u\<lparr>ua_load := lo, ua_store := so, ua_clear_depth := d, ua_stencil_load := sl,
     ua_stencil_store := ss, ua_stencil_clear := sc\<rparr>) = use_key h t u"
  by (simp_all add: use_key_def at_subresource_def over_range_def default_use_def default_range_def)

lemma copy_buffer_uses:
  assumes "b_copy_buffer g src dst so dof sz p = Inr p'"
  shows "\<exists>(sn :: res_node) (dn :: res_node) p1 p2.
    use_access g src CopySrc default_use p = Inr p1 \<and>
    use_access g dst CopyDst default_use (edit_last (\<lambda>a. a\<lparr>ac_buf_offset := so,
       ac_buf_size := remaining sz (rn_buffer_size sn) so\<rparr>) p1) = Inr p2 \<and>
    p' = edit_last (\<lambda>a. a\<lparr>ac_buf_offset := dof, ac_buf_size := remaining sz (rn_buffer_size sn) so,
       ac_buf_full_define := (dof = 0 \<and> remaining sz (rn_buffer_size sn) so = rn_buffer_size dn)\<rparr>) p2"
proof -
  obtain a b where ab: "find_node_checked g src = Inr a" "find_node_checked g dst = Inr b"
    using assms by (auto simp: b_copy_buffer_def)
  show ?thesis
  proof (cases "\<exists>sn dn. a = Some sn \<and> b = Some dn")
    case True
    then obtain sn dn where "a = Some sn" "b = Some dn" by blast
    with assms ab obtain p1 p2 where
      "use_access g src CopySrc default_use p = Inr p1"
      "use_access g dst CopyDst default_use (edit_last (\<lambda>a. a\<lparr>ac_buf_offset := so,
         ac_buf_size := remaining sz (rn_buffer_size sn) so\<rparr>) p1) = Inr p2"
      "p' = edit_last (\<lambda>a. a\<lparr>ac_buf_offset := dof, ac_buf_size := remaining sz (rn_buffer_size sn) so,
         ac_buf_full_define := (dof = 0 \<and> remaining sz (rn_buffer_size sn) so = rn_buffer_size dn)\<rparr>) p2"
      by (auto simp: b_copy_buffer_def Let_def)
    then show ?thesis by blast
  next
    case False
    then show ?thesis using assms ab
      by (cases a; cases b) (auto simp: b_copy_buffer_def)
  qed
qed

text \<open>Every builder call but \<open>initialize\<close> and \<open>force_keep\<close> is such a chain.\<close>

lemma builder_chain:
  assumes "run_builder g c p = Inr p'" "call_uses c \<noteq> []"
  shows "append_chain g (call_uses c) p p'"
  using assms
proof (cases c)
  case (B_Color h i a)
  then show ?thesis using assms
    by (auto simp: builder_defs use_key_simps intro!: chain_one [OF appends_edit])
next
  case (B_Resolve s t sub)
  then show ?thesis using assms
    by (auto simp: builder_defs use_key_simps split: option.splits intro!: chain_one [OF appends_edit])
next
  case (B_DepthStencil h a)
  then show ?thesis using assms
    by (auto simp: builder_defs use_key_simps intro!: chain_one [OF appends_use])
next
  case (B_DepthStencilReadOnly h a)
  then show ?thesis using assms
    by (auto simp: builder_defs use_key_simps intro!: chain_one [OF appends_use])
next
  case (B_Sampled h a)
  then show ?thesis using assms
    by (auto simp: builder_defs use_key_simps intro!: chain_one [OF appends_use])
next
  case (B_TexStorageRead h a)
  then show ?thesis using assms
    by (auto simp: builder_defs use_key_simps intro!: chain_one [OF appends_use])
next
  case (B_TexStorageWrite h a)
  then show ?thesis using assms
    by (auto simp: builder_defs use_key_simps intro!: chain_one [OF appends_use])
next
  case (B_TexStorageReadWrite h a)
  then show ?thesis using assms
    by (auto simp: builder_defs use_key_simps intro!: chain_two [OF appends_use appends_use])
next
  case (B_BufStorageRead h r)
  then show ?thesis using assms
    by (auto simp: b_buf_storage_read_def use_key_simps dest!: appends_bind intro!: chain_one)
next
  case (B_BufStorageWrite h r)
  then show ?thesis using assms
    by (auto simp: b_buf_storage_write_def use_key_simps dest!: appends_bind intro!: chain_one)
next
  case (B_BufStorageReadWrite h r)
  then obtain p1 where "b_bind g h StorageRead r p = Inr p1" "b_bind g h StorageWrite r p1 = Inr p'"
    using assms by (auto simp: b_buf_storage_read_write_def b_buf_storage_read_def b_buf_storage_write_def)
  then show ?thesis using B_BufStorageReadWrite
    by (auto simp: use_key_simps dest!: appends_bind intro!: chain_two)
next
  case (B_Uniform h r)
  then show ?thesis using assms
    by (auto simp: b_uniform_def use_key_simps dest!: appends_bind intro!: chain_one)
next
  case (B_CopyTexture s d ss ds)
  then show ?thesis using assms
    by (auto simp: builder_defs use_key_simps intro!: chain_two [OF appends_use appends_use])
next
  case (B_CopyTextureToBuffer s d ss)
  then show ?thesis using assms
    by (auto simp: builder_defs use_key_simps intro!: chain_two [OF appends_use appends_use])
next
  case (B_CopyBufferToTexture s d ss)
  then show ?thesis using assms
    by (auto simp: builder_defs use_key_simps intro!: chain_two [OF appends_use appends_use])
next
  case (B_CopyBuffer s d so dof sz)
  then show ?thesis using assms
    by (auto simp: use_key_simps dest!: copy_buffer_uses intro!: chain_two [OF appends_edit appends_edit])
qed (auto simp: builder_defs use_key_simps intro!: chain_one [OF appends_use])

subsection \<open>Invariants of a pass under construction\<close>

lemma appends_frame:
  assumes "appends g h t u f p p'"
  shows "pn_kind p' = pn_kind p" "pn_id p' = pn_id p" "pn_init_targets p' = pn_init_targets p"
    "pn_adjacency p' = pn_adjacency p" "pn_skip_init p' = pn_skip_init p" "pn_sink p' = pn_sink p"
    "pn_has_exec p' = pn_has_exec p" "pn_force_keep p' = pn_force_keep p"
  using assms by (simp_all add: appends_def)

lemma chain_frame:
  "append_chain g ks p p' \<Longrightarrow>
   pn_kind p' = pn_kind p \<and> pn_id p' = pn_id p \<and> pn_init_targets p' = pn_init_targets p \<and>
   pn_adjacency p' = pn_adjacency p \<and> pn_skip_init p' = pn_skip_init p \<and> pn_sink p' = pn_sink p \<and>
   pn_has_exec p' = pn_has_exec p"
  by (induction rule: append_chain.induct) (auto simp: appends_frame)

lemma recorded_simps [simp]:
  "ac_handle (recorded_access h t u) = h" "ac_type (recorded_access h t u) = t"
  "ac_base_mip (recorded_access h t u) = ucast (ua_mip u)"
  "ac_mip_count (recorded_access h t u) = ucast (vr_mip_count (ua_range u))"
  "ac_base_layer (recorded_access h t u) = ucast (ua_layer u)"
  "ac_layer_count (recorded_access h t u) = ucast (vr_layer_count (ua_range u))"
  "ac_view_aspect (recorded_access h t u) = vr_aspect (ua_range u)"
  "ac_color_index (recorded_access h t u) = 0"
  by (simp_all add: recorded_access_def)

text \<open>
  A property of the access list that every append keeps is kept by every builder call, hence by
  a whole setup.
\<close>

lemma builder_accesses_only:
  assumes "run_builder g c p = Inr p'" "call_uses c = []"
  shows "pn_accesses p' = pn_accesses p \<and> pn_kind p' = pn_kind p \<and> pn_id p' = pn_id p"
  using assms by (cases c) (auto simp: b_initialize_def b_force_keep_def)

lemma builder_kind:
  assumes "run_builder g c p = Inr p'"
  shows "pn_kind p' = pn_kind p \<and> pn_id p' = pn_id p"
  using builder_chain [OF assms] chain_frame builder_accesses_only [OF assms] by metis

lemma setup_preserves:
  assumes chain: "\<And>h t u f p p1. use_key h t u \<in> K \<Longrightarrow> appends g h t u f p p1 \<Longrightarrow> pn_kind p \<in> Ks \<Longrightarrow>
      Q (pn_accesses p) \<Longrightarrow> Q (pn_accesses p1)"
    and "run_setup g cs p = Inr p'" "pn_kind p \<in> Ks" "Q (pn_accesses p)"
    and keys: "\<forall>c \<in> set cs. set (call_uses c) \<subseteq> K"
  shows "Q (pn_accesses p')"
proof -
  have step: "append_chain g ks p p1 \<Longrightarrow> set ks \<subseteq> K \<Longrightarrow> pn_kind p \<in> Ks \<Longrightarrow> Q (pn_accesses p) \<Longrightarrow> Q (pn_accesses p1)"
    for ks p p1
  proof (induction rule: append_chain.induct)
    case (chain_cons h t u f p p1 ks p2)
    then have "Q (pn_accesses p1)" "pn_kind p1 \<in> Ks"
      using chain [of h t u f p p1] appends_frame(1) [of g h t u f p p1] by auto
    then show ?case using chain_cons by simp
  qed simp
  show ?thesis using assms(2-)
  proof (induction cs arbitrary: p)
    case (Cons c cs)
    then obtain p1 where r: "run_builder g c p = Inr p1" and rest: "run_setup g cs p1 = Inr p'" by auto
    have "Q (pn_accesses p1)"
      using step [OF builder_chain [OF r]] builder_accesses_only [OF r] Cons.prems by (cases "call_uses c = []") auto
    moreover have "pn_kind p1 \<in> Ks" using builder_kind [OF r] Cons.prems by simp
    ultimately show ?case using Cons.IH [OF rest] Cons.prems by simp
  qed simp
qed

lemma setup_kind: "run_setup g cs p = Inr p' \<Longrightarrow> pn_kind p' = pn_kind p \<and> pn_id p' = pn_id p"
  by (induction cs arbitrary: p) (auto dest!: builder_kind)

lemma setup_accesses_ok:
  assumes "run_setup g cs p = Inr p'" "list_all (access_ok g) (pn_accesses p)"
  shows "list_all (access_ok g) (pn_accesses p')"
proof (rule setup_preserves [where Q = "list_all (access_ok g)" and K = UNIV and Ks = UNIV])
  show "run_setup g cs p = Inr p'" by (rule assms(1))
qed (use assms(2) in \<open>auto simp: appends_def access_ok_def benign_def\<close>)

subsection \<open>Exclusive use of a written subresource\<close>

definition accesses_clash :: "access \<Rightarrow> access \<Rightarrow> bool" where
  "accesses_clash a b \<longleftrightarrow>
     h_id (ac_handle a) = h_id (ac_handle b) \<and>
     in_pass_accesses_conflict
       (ac_type a) (ucast (ac_base_mip a)) (ucast (ac_mip_count a)) (ucast (ac_base_layer a))
       (ucast (ac_layer_count a)) (ac_view_aspect a)
       (ac_type b) (ucast (ac_base_mip b)) (ucast (ac_mip_count b)) (ucast (ac_base_layer b))
       (ucast (ac_layer_count b)) (ac_view_aspect b)"

lemma accesses_clash_sym: "accesses_clash a b = accesses_clash b a"
  unfolding accesses_clash_def using conflict_sym by metis

definition exclusive :: "access list \<Rightarrow> bool" where
  "exclusive as \<longleftrightarrow> sorted_wrt (\<lambda>a b. \<not> accesses_clash a b) as"

text \<open>The declared ranges survive the narrowing to the widths of \<open>ResourceAccess\<close>.\<close>

fun key_in_range :: "handle \<times> access_type \<times> u32 \<times> u32 \<times> u32 \<times> u32 \<times> texture_aspect \<Rightarrow> bool" where
  "key_in_range (h, t, m, mc, l, lc, asp) \<longleftrightarrow> m < 2 ^ 8 \<and> mc < 2 ^ 8 \<and> l < 2 ^ 16 \<and> lc < 2 ^ 16"

definition call_in_range :: "builder_call \<Rightarrow> bool" where
  "call_in_range c \<longleftrightarrow> list_all key_in_range (call_uses c)"

lemma narrow_u8: "(x :: u32) < 2 ^ 8 \<Longrightarrow> ucast (ucast x :: u8) = x"
  using less_mask_eq [of x 8] by (simp add: unsigned_ucast_eq take_bit_eq_mask)

lemma narrow_u16: "(x :: u32) < 2 ^ 16 \<Longrightarrow> ucast (ucast x :: u16) = x"
  using less_mask_eq [of x 16] by (simp add: unsigned_ucast_eq take_bit_eq_mask)

lemma appends_exclusive:
  assumes "appends g h t u f p p'" "key_in_range (use_key h t u)" "pn_kind p \<noteq> PK_Transfer"
    "exclusive (pn_accesses p)"
  shows "exclusive (pn_accesses p')"
proof -
  let ?a = "f (recorded_access h t u)"
  have f: "benign f" and n: "\<forall>a \<in> set (pn_accesses p). \<not> clashes h t u a"
    and p': "pn_accesses p' = pn_accesses p @ [?a]"
    using assms(1,3) by (auto simp: appends_def)
  have "\<not> accesses_clash ?a a" if "a \<in> set (pn_accesses p)" for a
    using n that assms(2) f
    by (auto simp: clashes_def accesses_clash_def benign_def use_key_def narrow_u8 narrow_u16)
  then show ?thesis using assms(4) p' accesses_clash_sym
    by (simp add: exclusive_def sorted_wrt_append)
qed

lemma setup_exclusive:
  assumes "run_setup g cs p = Inr p'" "pn_kind p \<noteq> PK_Transfer" "list_all call_in_range cs"
    "exclusive (pn_accesses p)"
  shows "exclusive (pn_accesses p')"
proof (rule setup_preserves [where Q = exclusive and K = "Collect key_in_range" and Ks = "- {PK_Transfer}"])
  show "run_setup g cs p = Inr p'" by (rule assms(1))
qed (use assms in \<open>auto simp: call_in_range_def list_all_iff dest!: appends_exclusive\<close>)

text \<open>
  What exclusivity says of the GPU: two accesses of one resource whose mips, layers and aspects
  meet are two reads, or the storage read and storage write of a read-write binding.
\<close>

definition same_texels :: "access \<Rightarrow> access \<Rightarrow> bool" where
  "same_texels a b \<longleftrightarrow>
     h_id (ac_handle a) = h_id (ac_handle b) \<and>
     covers (ucast (ac_base_mip a)) (ucast (ac_mip_count a)) \<inter>
       covers (ucast (ac_base_mip b)) (ucast (ac_mip_count b)) \<noteq> {} \<and>
     covers (ucast (ac_base_layer a)) (ucast (ac_layer_count a)) \<inter>
       covers (ucast (ac_base_layer b)) (ucast (ac_layer_count b)) \<noteq> {} \<and>
     aspects_overlap (ac_view_aspect a) (ac_view_aspect b)"

lemma unat_u8: "unat (x :: u8) < 256"
  using unsigned_less [where 'a = nat, of x] by simp

lemma unat_u16: "unat (x :: u16) < 65536"
  using unsigned_less [where 'a = nat, of x] by simp

lemma same_texels_harmless:
  assumes "\<not> accesses_clash a b" "same_texels a b"
  shows "(\<not> access_is_write (ac_type a) \<and> \<not> access_is_write (ac_type b)) \<or>
         {ac_type a, ac_type b} = {StorageRead, StorageWrite}"
proof -
  have u8: "unat (ucast (x :: u8) :: u32) = unat x" and u16: "unat (ucast (y :: u16) :: u32) = unat y"
    for x y using unat_u8 [of x] unat_u16 [of y] by (simp_all add: unsigned_ucast_eq take_bit_nat_eq_self)
  have mips: "ranges_overlap (ucast (ac_base_mip a)) (ucast (ac_mip_count a))
      (ucast (ac_base_mip b)) (ucast (ac_mip_count b))"
    using assms(2) unat_u8 [of "ac_base_mip a"] unat_u8 [of "ac_mip_count a"]
      unat_u8 [of "ac_base_mip b"] unat_u8 [of "ac_mip_count b"]
    by (subst ranges_overlap_covers) (simp_all add: same_texels_def u8)
  have layers: "ranges_overlap (ucast (ac_base_layer a)) (ucast (ac_layer_count a))
      (ucast (ac_base_layer b)) (ucast (ac_layer_count b))"
    using assms(2) unat_u16 [of "ac_base_layer a"] unat_u16 [of "ac_layer_count a"]
      unat_u16 [of "ac_base_layer b"] unat_u16 [of "ac_layer_count b"]
    by (subst ranges_overlap_covers) (simp_all add: same_texels_def u16)
  show ?thesis
    using assms mips layers
    by (auto simp: accesses_clash_def same_texels_def in_pass_accesses_conflict_def split: if_splits)
qed

lemma exclusive_pair:
  assumes "exclusive as" "i < length as" "j < length as" "i \<noteq> j"
  shows "\<not> accesses_clash (as ! i) (as ! j)"
  using assms accesses_clash_sym unfolding exclusive_def sorted_wrt_iff_nth_less
  by (metis linorder_neqE_nat)

subsection \<open>The attachments of a render pass\<close>

definition slots :: "access_type \<Rightarrow> access list \<Rightarrow> u8 list" where
  "slots t as = map ac_color_index (filter (\<lambda>a. ac_type a = t) as)"

definition is_depth_attachment :: "access \<Rightarrow> bool" where
  "is_depth_attachment a \<longleftrightarrow> ac_type a = DepthStencilAttachment \<or> ac_type a = DepthStencilReadOnly"

definition attachments_ok :: "pass_node \<Rightarrow> bool" where
  "attachments_ok p \<longleftrightarrow>
     (pn_kind p \<noteq> PK_Graphics \<longrightarrow> list_all (\<lambda>a. \<not> is_attachment (ac_type a)) (pn_accesses p)) \<and>
     distinct (slots ColorAttachment (pn_accesses p)) \<and>
     list_all (\<lambda>i. unat i < kMaxColorAttachments) (slots ColorAttachment (pn_accesses p)) \<and>
     distinct (slots ResolveAttachment (pn_accesses p)) \<and>
     set (slots ResolveAttachment (pn_accesses p)) \<subseteq> set (slots ColorAttachment (pn_accesses p)) \<and>
     length (filter is_depth_attachment (pn_accesses p)) \<le> 1"

lemma slots_snoc: "slots t (as @ [a]) = slots t as @ (if ac_type a = t then [ac_color_index a] else [])"
  by (simp add: slots_def)

lemma in_slots: "i \<in> set (slots t as) \<longleftrightarrow> (\<exists>a \<in> set as. ac_type a = t \<and> ac_color_index a = i)"
  by (auto simp: slots_def)

lemma appends_plain_attachments:
  assumes "appends g h t u f p p'" "\<not> is_attachment t" "attachments_ok p"
  shows "attachments_ok p'"
proof -
  have "pn_accesses p' = pn_accesses p @ [f (recorded_access h t u)]" "pn_kind p' = pn_kind p"
    "ac_type (f (recorded_access h t u)) = t"
    using assms(1) by (auto simp: appends_def benign_def)
  moreover have "t \<noteq> ColorAttachment" "t \<noteq> ResolveAttachment" "t \<noteq> DepthStencilAttachment" "t \<noteq> DepthStencilReadOnly"
    using assms(2) by (auto simp: is_attachment_def)
  ultimately show ?thesis using assms(2,3)
    by (simp add: attachments_ok_def slots_snoc is_depth_attachment_def)
qed

lemma chain_plain_attachments:
  "append_chain g ks p p' \<Longrightarrow> (\<forall>k \<in> set ks. \<not> is_attachment (fst (snd k))) \<Longrightarrow> attachments_ok p \<Longrightarrow> attachments_ok p'"
  by (induction rule: append_chain.induct) (auto simp: use_key_def dest: appends_plain_attachments)

lemma color_attachments:
  assumes "b_color g h i a p = Inr p'" "attachments_ok p"
  shows "attachments_ok p'"
proof -
  from assms(1) obtain u where p': "p' = p\<lparr>pn_accesses := pn_accesses p @
      [(recorded_access h ColorAttachment u)\<lparr>ac_color_index := ucast i\<rparr>]\<rparr>"
    and k: "pn_kind p = PK_Graphics" and i: "unat i < kMaxColorAttachments"
    and d: "\<forall>b \<in> set (pn_accesses p). ac_type b = ColorAttachment \<longrightarrow> ucast (ac_color_index b) \<noteq> i"
    by (auto simp: b_color_def use_access_Inr edit_last_append)
  have "i < 2 ^ 8" using i by (simp add: word_less_nat_alt kMaxColorAttachments_def)
  then have i8: "ucast (ucast i :: u8) = i" by (rule narrow_u8)
  then have "unat (ucast i :: u8) = unat i"
    using i by (simp add: unsigned_ucast_eq take_bit_nat_eq_self kMaxColorAttachments_def)
  moreover have "ucast i \<notin> set (slots ColorAttachment (pn_accesses p))"
    using d i8 by (auto simp: in_slots)
  ultimately show ?thesis using assms(2) k i
    by (auto simp: p' attachments_ok_def slots_snoc is_depth_attachment_def is_attachment_def)
qed

lemma resolve_attachments:
  assumes "b_resolve g src h sub p = Inr p'" "attachments_ok p"
  shows "attachments_ok p'"
proof -
  from assms(1) obtain c where c: "find (\<lambda>b. ac_type b = ColorAttachment \<and> h_id (ac_handle b) = h_id src) (pn_accesses p) = Some c"
    by (auto simp: b_resolve_def split: option.split_asm)
  with assms(1) obtain u where p': "p' = p\<lparr>pn_accesses := pn_accesses p @
      [(recorded_access h ResolveAttachment u)\<lparr>ac_color_index := ac_color_index c\<rparr>]\<rparr>"
    and k: "pn_kind p = PK_Graphics"
    and d: "\<forall>b \<in> set (pn_accesses p). ac_type b = ResolveAttachment \<longrightarrow> ac_color_index b \<noteq> ac_color_index c"
    by (auto simp: b_resolve_def use_access_Inr edit_last_append)
  have "ac_color_index c \<in> set (slots ColorAttachment (pn_accesses p))"
    using find_Some_in [OF c] by (auto simp: in_slots)
  moreover have "ac_color_index c \<notin> set (slots ResolveAttachment (pn_accesses p))"
    using d by (auto simp: in_slots)
  ultimately show ?thesis using assms(2) k
    by (auto simp: p' attachments_ok_def slots_snoc is_depth_attachment_def is_attachment_def)
qed

lemma depth_attachments:
  assumes "attachments_ok p" "assert_single_depth p = Inr ()" "pn_kind p = PK_Graphics"
    "use_access g h t u p = Inr p'" "t = DepthStencilAttachment \<or> t = DepthStencilReadOnly"
  shows "attachments_ok p'"
proof -
  have "filter is_depth_attachment (pn_accesses p) = []"
    using assms(2) by (simp add: assert_single_depth_def filter_empty_conv is_depth_attachment_def)
  then show ?thesis using assms
    by (auto simp: use_access_Inr attachments_ok_def slots_snoc is_depth_attachment_def is_attachment_def)
qed

lemma builder_attachments:
  assumes "run_builder g c p = Inr p'" "attachments_ok p"
  shows "attachments_ok p'"
proof (cases "\<forall>k \<in> set (call_uses c). \<not> is_attachment (fst (snd k))")
  case True
  show ?thesis
  proof (cases "call_uses c = []")
    case True
    then show ?thesis using builder_accesses_only [OF assms(1) True] assms(2) by (simp add: attachments_ok_def)
  next
    case False
    then show ?thesis using chain_plain_attachments [OF builder_chain [OF assms(1) False] True assms(2)] by simp
  qed
next
  case False
  then show ?thesis using assms
    by (cases c) (auto simp: is_attachment_def b_depth_stencil_def b_depth_stencil_read_only_def
        intro: color_attachments resolve_attachments depth_attachments)
qed

lemma setup_attachments:
  "run_setup g cs p = Inr p' \<Longrightarrow> attachments_ok p \<Longrightarrow> attachments_ok p'"
  by (induction cs arbitrary: p) (auto dest: builder_attachments)

subsection \<open>Bake targets\<close>

definition init_targets_ok :: "graph \<Rightarrow> pass_node \<Rightarrow> bool" where
  "init_targets_ok g p \<longleftrightarrow>
     distinct (map (\<lambda>t. h_id (fst t)) (pn_init_targets p)) \<and> length (pn_init_targets p) \<le> kMaxInitTargets \<and>
     list_all (\<lambda>t. 0 < h_id (fst t) \<and> h_id (fst t) < g_next_id g) (pn_init_targets p)"

lemma builder_init_targets:
  assumes "run_builder g c p = Inr p'" "init_targets_ok g p"
  shows "init_targets_ok g p'"
proof (cases "call_uses c = []")
  case True
  then show ?thesis using assms
    by (cases c) (fastforce simp: b_initialize_def b_force_keep_def init_targets_ok_def)+
next
  case False
  then show ?thesis using chain_frame [OF builder_chain [OF assms(1) False]] assms(2)
    by (simp add: init_targets_ok_def)
qed

lemma setup_init_targets:
  "run_setup g cs p = Inr p' \<Longrightarrow> init_targets_ok g p \<Longrightarrow> init_targets_ok g p'"
  by (induction cs arbitrary: p) (auto dest: builder_init_targets)

lemma setup_frame:
  "run_setup g cs p = Inr p' \<Longrightarrow> pn_adjacency p' = pn_adjacency p \<and> pn_skip_init p' = pn_skip_init p \<and> pn_sink p' = pn_sink p"
proof (induction cs arbitrary: p)
  case (Cons c cs)
  then obtain p1 where r: "run_builder g c p = Inr p1" and rest: "run_setup g cs p1 = Inr p'" by auto
  have "pn_adjacency p1 = pn_adjacency p \<and> pn_skip_init p1 = pn_skip_init p \<and> pn_sink p1 = pn_sink p"
  proof (cases "call_uses c = []")
    case True
    then show ?thesis using r by (cases c) (auto simp: b_initialize_def b_force_keep_def)
  qed (use chain_frame [OF builder_chain [OF r]] in simp)
  then show ?case using Cons.IH [OF rest] by simp
qed simp

end
