(* ===== verification/Record_Frame.thy ===== *)
theory Record_Frame
  imports Pass_Builder
begin

text \<open>
  Adding passes and a whole recording: \<open>begin_pass\<close>, \<open>end_pass\<close>,
  \<open>add_pass\<close>, the initialized resources that add their own bake passes, and the
  well-formedness that every sequence of recording calls establishes
  (webgpu/base/RenderGraph.cpp and RenderGraph.h).
\<close>

subsection \<open>Passes\<close>

definition begin_pass ::
  "(nat \<Rightarrow> bool) \<Rightarrow> string \<Rightarrow> pass_kind \<Rightarrow> recording \<Rightarrow> (pass_node \<times> recording) checked" where
  "begin_pass mal name kind st =
     require (g_state (snd st) = RG_Recording) ''Render graph is in read only mode after compile()''
       (and_then (or_oom (intern mal name (fst st))) (\<lambda>(rid, it).
          Inr (fresh_pass rid kind, it, snd st)))"

definition set_exec :: "pass_node \<Rightarrow> pass_node" where
  "set_exec p = p\<lparr>pn_has_exec := True\<rparr>"

definition writes_target :: "pass_node \<Rightarrow> handle \<Rightarrow> bool" where
  "writes_target p t \<longleftrightarrow>
     list_ex (\<lambda>a. h_id (ac_handle a) = h_id t \<and> access_is_write (ac_type a)) (pn_accesses p)"

definition end_pass :: "pass_node \<Rightarrow> graph \<Rightarrow> graph checked" where
  "end_pass p g =
     require (list_all (\<lambda>t. writes_target p (fst t)) (pn_init_targets p))
       ''initialize() target must also be written by this pass''
       (Inr (g\<lparr>g_passes := g_passes g @ [p]\<rparr>))"

definition add_pass ::
  "(nat \<Rightarrow> bool) \<Rightarrow> string \<Rightarrow> pass_kind \<Rightarrow> builder_call list \<Rightarrow> recording \<Rightarrow> recording checked" where
  "add_pass mal name kind setup st =
     require (name \<noteq> []) ''must have name''
    (require (kind \<noteq> PK_None) ''kind != PassKind::None''
      (and_then (begin_pass mal name kind st) (\<lambda>(p, it, g).
       and_then (run_setup g setup p) (\<lambda>p1.
       and_then (end_pass (set_exec p1) g) (\<lambda>g1. Inr (it, g1))))))"

subsection \<open>Initialized resources\<close>

fun decimal :: "nat \<Rightarrow> string" where
  "decimal n = (if n < 10 then [char_of (48 + n)] else decimal (n div 10) @ [char_of (48 + n mod 10)])"

declare decimal.simps [simp del]

definition layer_pass_name :: "string \<Rightarrow> nat \<Rightarrow> nat \<Rightarrow> string" where
  "layer_pass_name name layers layer =
     (if layers > 1 then name @ ''.layer'' @ decimal layer else name)"

definition fill_setup :: "handle \<Rightarrow> bool \<Rightarrow> color \<Rightarrow> u32 \<Rightarrow> builder_call list" where
  "fill_setup h depth fill layer =
     [if depth
      then B_DepthStencil h (default_depth_attachment\<lparr>da_clear_depth := round32 (cr fill), da_sub := mk_sub 0 layer\<rparr>)
      else B_Color h 0 (default_color_attachment\<lparr>ca_clear := fill, ca_sub := mk_sub 0 layer\<rparr>),
      B_Initialize h 0]"

fun fill_layers ::
  "(nat \<Rightarrow> bool) \<Rightarrow> string \<Rightarrow> handle \<Rightarrow> bool \<Rightarrow> color \<Rightarrow> nat \<Rightarrow> nat list \<Rightarrow> recording \<Rightarrow> recording checked" where
  "fill_layers mal name h depth fill layers [] st = Inr st"
| "fill_layers mal name h depth fill layers (l # ls) st =
     and_then (add_pass mal (layer_pass_name name layers l) PK_Graphics (fill_setup h depth fill (of_nat l)) st)
       (fill_layers mal name h depth fill layers ls)"

definition create_initialized_texture ::
  "(nat \<Rightarrow> bool) \<Rightarrow> string \<Rightarrow> texture_desc \<Rightarrow> color \<Rightarrow> recording \<Rightarrow> (handle \<times> recording) checked" where
  "create_initialized_texture mal name d fill st =
     require (td_dimension d \<noteq> TD_3D) ''3D textures cannot be cleared this way''
       (and_then (create_persistent_texture mal name d st) (\<lambda>(h, st1).
          let layers = (if td_depth_or_layers d \<noteq> 0 then unat (td_depth_or_layers d) else 1) in
          and_then (fill_layers mal name h (is_depth_format (td_format d)) fill layers [0..<layers] st1)
            (\<lambda>st2. Inr (h, st2))))"

text \<open>The upload body writes the bytes with the queue at execute time; only the declaration is here.\<close>

definition create_initialized_buffer ::
  "(nat \<Rightarrow> bool) \<Rightarrow> string \<Rightarrow> u64 \<Rightarrow> recording \<Rightarrow> (handle \<times> recording) checked" where
  "create_initialized_buffer mal name sz st =
     and_then (create_persistent_buffer mal name sz st) (\<lambda>(h, st1).
       and_then (add_pass mal name PK_Transfer [B_HostWrite h, B_Initialize h 0] st1)
         (\<lambda>st2. Inr (h, st2)))"

subsection \<open>A recording\<close>

datatype command =
    C_TransientTexture string texture_desc
  | C_TransientBuffer string u64
  | C_ImportTexture string import_desc
  | C_ImportBuffer string gpu_ref
  | C_HistoryTexture string texture_desc u64
  | C_HistoryBuffer string u64 u64
  | C_PersistentBuffer string u64
  | C_PersistentTexture string texture_desc
  | C_InitializedTexture string texture_desc color
  | C_InitializedBuffer string u64
  | C_AddPass string pass_kind "builder_call list"

definition drop_handle :: "('a \<times> recording) checked \<Rightarrow> recording checked" where
  "drop_handle r = and_then r (\<lambda>(h, st). Inr st)"

text \<open>What WebGPU reports on imported objects, and which allocations succeed.\<close>

record platform =
  pf_malloc :: "nat \<Rightarrow> bool"
  pf_tex_extent :: "nat \<Rightarrow> extent3d"
  pf_buf_size :: "nat \<Rightarrow> u64"

fun run_command :: "platform \<Rightarrow> command \<Rightarrow> recording \<Rightarrow> recording checked" where
  "run_command pf (C_TransientTexture n d) st = drop_handle (create_transient_texture (pf_malloc pf) n d st)"
| "run_command pf (C_TransientBuffer n sz) st = drop_handle (create_transient_buffer (pf_malloc pf) n sz st)"
| "run_command pf (C_ImportTexture n d) st = drop_handle (import_texture (pf_malloc pf) (pf_tex_extent pf) n d st)"
| "run_command pf (C_ImportBuffer n b) st = drop_handle (import_buffer (pf_malloc pf) (pf_buf_size pf) n b st)"
| "run_command pf (C_HistoryTexture n d hash) st = drop_handle (create_history_texture (pf_malloc pf) n d hash st)"
| "run_command pf (C_HistoryBuffer n sz hash) st = drop_handle (create_history_buffer (pf_malloc pf) n sz hash st)"
| "run_command pf (C_PersistentBuffer n sz) st = drop_handle (create_persistent_buffer (pf_malloc pf) n sz st)"
| "run_command pf (C_PersistentTexture n d) st = drop_handle (create_persistent_texture (pf_malloc pf) n d st)"
| "run_command pf (C_InitializedTexture n d fill) st =
     drop_handle (create_initialized_texture (pf_malloc pf) n d fill st)"
| "run_command pf (C_InitializedBuffer n sz) st = drop_handle (create_initialized_buffer (pf_malloc pf) n sz st)"
| "run_command pf (C_AddPass n k setup) st = add_pass (pf_malloc pf) n k setup st"

fun run_commands :: "platform \<Rightarrow> command list \<Rightarrow> recording \<Rightarrow> recording checked" where
  "run_commands pf [] st = Inr st"
| "run_commands pf (c # cs) st = and_then (run_command pf c st) (run_commands pf cs)"

text \<open>\<open>start_recording\<close>: a fresh graph with the next generation number.\<close>

definition start_recording :: "nat \<Rightarrow> interner \<Rightarrow> nat \<times> recording" where
  "start_recording next_generation it = (next_generation + 1, it, fresh_graph next_generation)"

definition record_frame :: "platform \<Rightarrow> nat \<Rightarrow> interner \<Rightarrow> command list \<Rightarrow> recording checked" where
  "record_frame pf gen it cs = run_commands pf cs (snd (start_recording gen it))"

end
