(* ===== verification/Record_Wf.thy ===== *)
theory Record_Wf
  imports Record_Frame
begin

text \<open>
  What every recording establishes, whatever the sequence of calls: ids are the declaration
  order, names are interned and distinct but for the two layers of a history resource, which
  stand next to each other with one descriptor, and every pass names only resources of its own
  graph, within the attachment and bake rules of \<open>PassBuilder\<close>.
\<close>

subsection \<open>Declared nodes and passes\<close>

definition untouched :: "res_node \<Rightarrow> bool" where
  "untouched r \<longleftrightarrow>
     \<not> rn_resolving r \<and> \<not> rn_resolved_done r \<and> \<not> rn_has_writer r \<and> \<not> rn_first_defines r \<and>
     \<not> rn_transient_attachment r \<and> \<not> rn_history_valid r \<and> rn_tex_usage r = {} \<and> rn_buf_usage r = {} \<and>
     rn_first_use r = None \<and> rn_last_use r = None \<and> rn_alias_slot r = None \<and> rn_live_accesses r = 0 \<and>
     rn_sole_access r = None"

definition shape_ok :: "res_node \<Rightarrow> bool" where
  "shape_ok r \<longleftrightarrow>
     rn_mips r \<noteq> 0 \<and> rn_samples r \<noteq> 0 \<and> rn_depth_or_layers r \<noteq> 0 \<and>
     (rn_kind r = RK_Texture \<and> \<not> rn_imported r \<longrightarrow>
        (rn_size_kind r = SK_Absolute \<longrightarrow> rn_width r \<noteq> 0 \<and> rn_height r \<noteq> 0) \<and>
        (rn_size_kind r = SK_Relative \<longrightarrow> h_id (rn_relative_to r) \<noteq> 0))"

definition node_declared :: "interner \<Rightarrow> nat \<Rightarrow> res_node \<Rightarrow> bool" where
  "node_declared it gen r \<longleftrightarrow>
     h_kind (rn_handle r) = rn_kind r \<and> h_generation (rn_handle r) = gen \<and> id_in_table it (rn_id r) \<and>
     untouched r \<and> shape_ok r \<and> (rn_history r \<longrightarrow> rn_persistent r) \<and> \<not> (rn_imported r \<and> rn_persistent r) \<and>
     (h_id (rn_relative_to r) = 0 \<or> h_generation (rn_relative_to r) = gen)"

definition pass_declared :: "interner \<Rightarrow> graph \<Rightarrow> pass_node \<Rightarrow> bool" where
  "pass_declared it g p \<longleftrightarrow>
     pn_kind p \<noteq> PK_None \<and> id_in_table it (pn_id p) \<and> list_all (access_ok g) (pn_accesses p) \<and>
     attachments_ok p \<and> init_targets_ok g p \<and> list_all (\<lambda>t. writes_target p (fst t)) (pn_init_targets p) \<and>
     pn_adjacency p = [] \<and> \<not> pn_sink p \<and> \<not> pn_skip_init p"

text \<open>The declaration order: single resources and curr/prev pairs, each under a new name.\<close>

definition new_name :: "res_node list \<Rightarrow> res_node \<Rightarrow> bool" where
  "new_name rs r \<longleftrightarrow> (\<forall>q \<in> set rs. \<not> rid_eq (rn_id q) (rn_id r))"

inductive declared_list :: "res_node list \<Rightarrow> bool" where
  decl_nil: "declared_list []"
| decl_one: "declared_list rs \<Longrightarrow> \<not> rn_history r \<Longrightarrow> rn_history_index r = 0 \<Longrightarrow> new_name rs r \<Longrightarrow>
    declared_list (rs @ [r])"
| decl_two: "declared_list rs \<Longrightarrow> rn_history r \<Longrightarrow> rn_history_index r = 0 \<Longrightarrow> new_name rs r \<Longrightarrow>
    q = r\<lparr>rn_handle := rn_handle q, rn_history_index := 1\<rparr> \<Longrightarrow> declared_list (rs @ [r, q])"

definition recorded_ok :: "recording \<Rightarrow> bool" where
  "recorded_ok st \<longleftrightarrow> (case st of (it, g) \<Rightarrow>
     interner_ok it \<and> ids_ok g \<and> g_state g = RG_Recording \<and> g_errors g = [] \<and> g_slots g = [] \<and>
     0 < g_generation g \<and>
     list_all (node_declared it (g_generation g)) (g_nodes g) \<and> declared_list (g_nodes g) \<and>
     list_all (pass_declared it g) (g_passes g))"

lemma recorded_okD:
  assumes "recorded_ok (it, g)"
  shows "interner_ok it" "ids_ok g" "g_state g = RG_Recording" "g_errors g = []" "g_slots g = []"
    "0 < g_generation g" "list_all (node_declared it (g_generation g)) (g_nodes g)"
    "declared_list (g_nodes g)" "list_all (pass_declared it g) (g_passes g)"
  using assms by (simp_all add: recorded_ok_def)

subsection \<open>Monotonicity\<close>

lemma node_declared_mono: "interned it \<subseteq> interned it' \<Longrightarrow> node_declared it gen r \<Longrightarrow> node_declared it' gen r"
  by (auto simp: node_declared_def intro: id_in_table_mono)

lemma pass_declared_mono:
  assumes "pass_declared it g p" "interned it \<subseteq> interned it'" "g_next_id g \<le> g_next_id g'"
    "g_generation g' = g_generation g"
  shows "pass_declared it' g' p"
  using assms id_in_table_mono [of it it' "pn_id p"]
  by (auto simp: pass_declared_def access_ok_def handle_ok_def init_targets_ok_def list_all_iff)

subsection \<open>Declaring resources\<close>

lemma declare_name_Inr:
  "declare_name mal name st = Inr (rid, st') \<longleftrightarrow>
     g_state (snd st) = RG_Recording \<and> (\<exists>it. intern mal name (fst st) = Some (rid, it) \<and>
       (\<forall>r \<in> set (g_nodes (snd st)). \<not> rid_eq (rn_id r) rid) \<and> st' = (it, snd st))"
  by (cases st) (auto simp: declare_name_def)

lemma append_one:
  assumes ok: "recorded_ok (it, g)" and i: "intern mal name it = Some (rid, it')"
    and new: "\<forall>r \<in> set (g_nodes g). \<not> rid_eq (rn_id r) rid"
    and r: "rn_handle r = \<lparr>h_id = g_next_id g, h_kind = rn_kind r, h_generation = g_generation g\<rparr>"
      "rn_id r = rid" "untouched r" "shape_ok r" "\<not> rn_history r" "rn_history_index r = 0"
      "\<not> (rn_imported r \<and> rn_persistent r)"
      "h_id (rn_relative_to r) = 0 \<or> h_generation (rn_relative_to r) = g_generation g"
  shows "recorded_ok (it', append_node r (g\<lparr>g_next_id := g_next_id g + 1\<rparr>))"
proof -
  note R = recorded_okD [OF ok]
  note I = intern_ok [OF R(1) i]
  have "node_declared it' (g_generation g) r" using r I(3) by (simp add: node_declared_def)
  moreover have "list_all (node_declared it' (g_generation g)) (g_nodes g)"
    using R(7) node_declared_mono [OF I(2)] by (auto simp: list_all_iff)
  moreover have "declared_list (g_nodes g @ [r])"
    using new r by (intro decl_one R(8)) (simp_all add: new_name_def)
  moreover have "list_all (pass_declared it' (append_node r (g\<lparr>g_next_id := g_next_id g + 1\<rparr>))) (g_passes g)"
    using R(9) by (auto simp: list_all_iff append_node_def intro!: pass_declared_mono [OF _ I(2)])
  ultimately show ?thesis
    using R I(1) r(1) by (simp add: recorded_ok_def append_node_def ids_ok_def)
qed

lemma append_two:
  assumes ok: "recorded_ok (it, g)" and i: "intern mal name it = Some (rid, it')"
    and new: "\<forall>r \<in> set (g_nodes g). \<not> rid_eq (rn_id r) rid"
    and r: "rn_handle r = \<lparr>h_id = g_next_id g, h_kind = rn_kind r, h_generation = g_generation g\<rparr>"
      "rn_id r = rid" "untouched r" "shape_ok r" "rn_history r" "rn_persistent r" "\<not> rn_imported r" "rn_history_index r = 0"
      "h_id (rn_relative_to r) = 0 \<or> h_generation (rn_relative_to r) = g_generation g"
    and q: "q = r\<lparr>rn_handle := \<lparr>h_id = g_next_id g + 1, h_kind = rn_kind r, h_generation = g_generation g\<rparr>,
                  rn_history_index := 1\<rparr>"
  shows "recorded_ok (it', append_node q ((append_node r (g\<lparr>g_next_id := g_next_id g + 1\<rparr>))
           \<lparr>g_next_id := g_next_id g + 1 + 1\<rparr>))"
proof -
  note R = recorded_okD [OF ok]
  note I = intern_ok [OF R(1) i]
  let ?g = "append_node q ((append_node r (g\<lparr>g_next_id := g_next_id g + 1\<rparr>))\<lparr>g_next_id := g_next_id g + 1 + 1\<rparr>)"
  have "node_declared it' (g_generation g) r" using r I(3) by (simp add: node_declared_def)
  moreover have "node_declared it' (g_generation g) q"
    using r I(3) by (simp add: node_declared_def q untouched_def shape_ok_def)
  moreover have "list_all (node_declared it' (g_generation g)) (g_nodes g)"
    using R(7) node_declared_mono [OF I(2)] by (auto simp: list_all_iff)
  moreover have "declared_list (g_nodes g @ [r, q])"
    using new r q by (intro decl_two R(8)) (simp_all add: new_name_def)
  moreover have "list_all (pass_declared it' ?g) (g_passes g)"
    using R(9) by (auto simp: list_all_iff append_node_def intro!: pass_declared_mono [OF _ I(2)])
  ultimately show ?thesis
    using R I(1) r(1) by (simp add: recorded_ok_def append_node_def ids_ok_def q)
qed

definition with_desc :: "texture_desc \<Rightarrow> res_node \<Rightarrow> res_node" where
  "with_desc d r = r\<lparr>rn_dimension := td_dimension d, rn_format := td_format d, rn_size_kind := td_size_kind d,
          rn_scale_x := td_scale_x d, rn_scale_y := td_scale_y d, rn_relative_to := td_relative_to d,
          rn_width := td_width d, rn_height := td_height d,
          rn_depth_or_layers := (if td_depth_or_layers d \<noteq> 0 then td_depth_or_layers d else 1),
          rn_mips := (if td_mips d \<noteq> 0 then td_mips d else 1),
          rn_samples := (if td_samples d \<noteq> 0 then td_samples d else 1)\<rparr>"

lemma apply_desc_Inr:
  "apply_texture_desc d r = Inr r' \<longleftrightarrow> validate_texture_desc d = Inr () \<and> r' = with_desc d r"
  by (auto simp: apply_texture_desc_def with_desc_def)

lemma with_desc_simps [simp]:
  "rn_handle (with_desc d r) = rn_handle r" "rn_id (with_desc d r) = rn_id r" "rn_kind (with_desc d r) = rn_kind r"
  "rn_imported (with_desc d r) = rn_imported r" "rn_persistent (with_desc d r) = rn_persistent r"
  "rn_history (with_desc d r) = rn_history r" "rn_history_index (with_desc d r) = rn_history_index r"
  "rn_relative_to (with_desc d r) = td_relative_to d" "untouched (with_desc d r) = untouched r"
  by (simp_all add: with_desc_def untouched_def)

lemma with_desc_shape:
  "validate_texture_desc d = Inr () \<Longrightarrow> shape_ok (with_desc d r)"
  by (auto simp: validate_texture_desc_def shape_ok_def with_desc_def)

lemma fresh_node_simps [simp]:
  "rn_handle (fresh_node h rid k) = h" "rn_id (fresh_node h rid k) = rid" "rn_kind (fresh_node h rid k) = k"
  "rn_imported (fresh_node h rid k) = False" "rn_persistent (fresh_node h rid k) = False"
  "rn_history (fresh_node h rid k) = False" "rn_history_index (fresh_node h rid k) = 0"
  "rn_relative_to (fresh_node h rid k) = null_handle" "untouched (fresh_node h rid k)"
  "shape_ok (fresh_node h rid RK_Buffer)"
  by (simp_all add: fresh_node_def untouched_def shape_ok_def)

lemma null_handle_id [simp]: "h_id null_handle = 0"
  by (simp add: null_handle_def)

lemma created_handle: "create_handle k g = (\<lparr>h_id = g_next_id g, h_kind = k, h_generation = g_generation g\<rparr>, g\<lparr>g_next_id := g_next_id g + 1\<rparr>)"
  by (simp add: create_handle_def)

lemmas declare_defs = declare_name_Inr created_handle Let_def apply_desc_Inr relative_handle_ok_def

lemma mark_simps:
  "untouched (r\<lparr>rn_buffer_size := sz\<rparr>) = untouched r" "shape_ok (r\<lparr>rn_buffer_size := sz\<rparr>) = shape_ok r"
  "untouched (r\<lparr>rn_persistent := b, rn_history_index := i\<rparr>) = untouched r"
  "shape_ok (r\<lparr>rn_persistent := b, rn_history_index := i\<rparr>) = shape_ok r"
  "untouched (r\<lparr>rn_persistent := b, rn_history := c, rn_history_index := i, rn_history_hash := w\<rparr>) = untouched r"
  "shape_ok (r\<lparr>rn_persistent := b, rn_history := c, rn_history_index := i, rn_history_hash := w\<rparr>) = shape_ok r"
  by (simp_all add: untouched_def shape_ok_def)

lemma create_transient_texture_ok:
  assumes ok: "recorded_ok st" and c: "create_transient_texture mal name d st = Inr (h, st')"
  shows "recorded_ok st'"
proof (cases st)
  case (Pair it g)
  from c obtain rid it' where
    i: "intern mal name it = Some (rid, it')" "\<forall>r \<in> set (g_nodes g). \<not> rid_eq (rn_id r) rid"
    and v: "validate_texture_desc d = Inr ()" "h_id (td_relative_to d) = 0 \<or> h_generation (td_relative_to d) = g_generation g"
    and st': "st' = (it', append_node (with_desc d (fresh_node \<lparr>h_id = g_next_id g, h_kind = RK_Texture,
        h_generation = g_generation g\<rparr> rid RK_Texture)) (g\<lparr>g_next_id := g_next_id g + 1\<rparr>))"
    unfolding Pair create_transient_texture_def by (auto simp: declare_defs simp del: One_nat_def)
  show ?thesis unfolding st'
    by (rule append_one [OF ok [unfolded Pair] i]) (use v in \<open>simp_all add: with_desc_shape\<close>)
qed

lemma create_persistent_texture_ok:
  assumes ok: "recorded_ok st" and c: "create_persistent_texture mal name d st = Inr (h, st')"
  shows "recorded_ok st'"
proof (cases st)
  case (Pair it g)
  from c obtain rid it' where
    i: "intern mal name it = Some (rid, it')" "\<forall>r \<in> set (g_nodes g). \<not> rid_eq (rn_id r) rid"
    and v: "validate_texture_desc d = Inr ()" "h_id (td_relative_to d) = 0 \<or> h_generation (td_relative_to d) = g_generation g"
    and st': "st' = (it', append_node (with_desc d ((fresh_node \<lparr>h_id = g_next_id g, h_kind = RK_Texture,
        h_generation = g_generation g\<rparr> rid RK_Texture)\<lparr>rn_persistent := True, rn_history_index := 0\<rparr>))
        (g\<lparr>g_next_id := g_next_id g + 1\<rparr>))"
    unfolding Pair create_persistent_texture_def by (auto simp: declare_defs simp del: One_nat_def)
  show ?thesis unfolding st'
    by (rule append_one [OF ok [unfolded Pair] i]) (use v in \<open>simp_all add: with_desc_shape mark_simps\<close>)
qed

lemma create_transient_buffer_ok:
  assumes ok: "recorded_ok st" and c: "create_transient_buffer mal name sz st = Inr (h, st')"
  shows "recorded_ok st'"
proof (cases st)
  case (Pair it g)
  from c obtain rid it' where
    i: "intern mal name it = Some (rid, it')" "\<forall>r \<in> set (g_nodes g). \<not> rid_eq (rn_id r) rid"
    and st': "st' = (it', append_node ((fresh_node \<lparr>h_id = g_next_id g, h_kind = RK_Buffer,
        h_generation = g_generation g\<rparr> rid RK_Buffer)\<lparr>rn_buffer_size := sz\<rparr>) (g\<lparr>g_next_id := g_next_id g + 1\<rparr>))"
    unfolding Pair create_transient_buffer_def by (auto simp: declare_defs simp del: One_nat_def)
  show ?thesis unfolding st'
    by (rule append_one [OF ok [unfolded Pair] i]) (simp_all add: mark_simps)
qed

lemma create_persistent_buffer_ok:
  assumes ok: "recorded_ok st" and c: "create_persistent_buffer mal name sz st = Inr (h, st')"
  shows "recorded_ok st'"
proof (cases st)
  case (Pair it g)
  from c obtain rid it' where
    i: "intern mal name it = Some (rid, it')" "\<forall>r \<in> set (g_nodes g). \<not> rid_eq (rn_id r) rid"
    and st': "st' = (it', append_node ((fresh_node \<lparr>h_id = g_next_id g, h_kind = RK_Buffer,
        h_generation = g_generation g\<rparr> rid RK_Buffer)\<lparr>rn_persistent := True, rn_history_index := 0, rn_buffer_size := sz\<rparr>)
        (g\<lparr>g_next_id := g_next_id g + 1\<rparr>))"
    unfolding Pair create_persistent_buffer_def by (auto simp: declare_defs simp del: One_nat_def)
  show ?thesis unfolding st'
    by (rule append_one [OF ok [unfolded Pair] i]) (simp_all add: untouched_def shape_ok_def fresh_node_def)
qed

lemma import_texture_ok:
  assumes ok: "recorded_ok st" and c: "import_texture mal ext name d st = Inr (h, st')"
  shows "recorded_ok st'"
proof (cases st)
  case (Pair it g)
  from c obtain rid it' where
    i: "intern mal name it = Some (rid, it')" "\<forall>r \<in> set (g_nodes g). \<not> rid_eq (rn_id r) rid"
    and st': "st' = (it', append_node ((fresh_node \<lparr>h_id = g_next_id g, h_kind = RK_Texture,
        h_generation = g_generation g\<rparr> rid RK_Texture)\<lparr>rn_imported := True, rn_view := id_view d, rn_texture := id_texture d,
             rn_resolved := id_size d,
             rn_depth_or_layers := (if ext_depth (id_size d) \<noteq> 0 then ext_depth (id_size d) else 1),
             rn_format := id_format d, rn_mips := (if id_mips d \<noteq> 0 then id_mips d else 1),
             rn_samples := (if id_samples d \<noteq> 0 then id_samples d else 1),
             rn_dimension := id_dimension d\<rparr>) (g\<lparr>g_next_id := g_next_id g + 1\<rparr>))"
    unfolding Pair import_texture_def by (auto simp: declare_defs simp del: One_nat_def)
  show ?thesis unfolding st'
    by (rule append_one [OF ok [unfolded Pair] i]) (simp_all add: untouched_def shape_ok_def fresh_node_def)
qed

lemma import_buffer_ok:
  assumes ok: "recorded_ok st" and c: "import_buffer mal bsz name b st = Inr (h, st')"
  shows "recorded_ok st'"
proof (cases st)
  case (Pair it g)
  from c obtain rid it' where
    i: "intern mal name it = Some (rid, it')" "\<forall>r \<in> set (g_nodes g). \<not> rid_eq (rn_id r) rid"
    and st': "st' = (it', append_node ((fresh_node \<lparr>h_id = g_next_id g, h_kind = RK_Buffer,
        h_generation = g_generation g\<rparr> rid RK_Buffer)\<lparr>rn_imported := True, rn_buffer := b, rn_buffer_size := bsz (the b)\<rparr>)
        (g\<lparr>g_next_id := g_next_id g + 1\<rparr>))"
    unfolding Pair import_buffer_def by (auto simp: declare_defs simp del: One_nat_def)
  show ?thesis unfolding st'
    by (rule append_one [OF ok [unfolded Pair] i]) (simp_all add: untouched_def shape_ok_def fresh_node_def)
qed

lemma create_history_texture_ok:
  assumes ok: "recorded_ok st" and c: "create_history_texture mal name d hash st = Inr (hs, st')"
  shows "recorded_ok st'"
proof (cases st)
  case (Pair it g)
  let ?h = "\<lambda>i. \<lparr>h_id = i, h_kind = RK_Texture, h_generation = g_generation g\<rparr>"
  let ?n = "\<lambda>rid i k. with_desc d ((fresh_node (?h i) rid RK_Texture)
      \<lparr>rn_persistent := True, rn_history := True, rn_history_index := k, rn_history_hash := hash\<rparr>)"
  let ?g = "\<lambda>rid. append_node (?n rid (g_next_id g) 0) (g\<lparr>g_next_id := g_next_id g + 1\<rparr>)"
  have n: "g_next_id (?g rid) = g_next_id g + 1" "g_generation (?g rid) = g_generation g" for rid
    by (simp_all add: append_node_def)
  from c obtain rid it' where
    i: "intern mal name it = Some (rid, it')" "\<forall>r \<in> set (g_nodes g). \<not> rid_eq (rn_id r) rid"
    and v: "validate_texture_desc d = Inr ()" "h_id (td_relative_to d) = 0 \<or> h_generation (td_relative_to d) = g_generation g"
    and st': "st' = (it', append_node (?n rid (g_next_id g + 1) 1) ((?g rid)\<lparr>g_next_id := g_next_id g + 1 + 1\<rparr>))"
    unfolding Pair create_history_texture_def by (auto simp: declare_defs n simp del: One_nat_def)
  show ?thesis unfolding st'
    by (rule append_two [OF ok [unfolded Pair] i])
       (use v in \<open>simp_all add: with_desc_shape mark_simps, simp_all add: with_desc_def fresh_node_def\<close>)
qed

lemma create_history_buffer_ok:
  assumes ok: "recorded_ok st" and c: "create_history_buffer mal name sz hash st = Inr (hs, st')"
  shows "recorded_ok st'"
proof (cases st)
  case (Pair it g)
  let ?h = "\<lambda>i. \<lparr>h_id = i, h_kind = RK_Buffer, h_generation = g_generation g\<rparr>"
  let ?n = "\<lambda>rid i k. (fresh_node (?h i) rid RK_Buffer)\<lparr>rn_persistent := True, rn_history := True,
      rn_history_index := k, rn_history_hash := hash, rn_buffer_size := sz\<rparr>"
  let ?g = "\<lambda>rid. append_node (?n rid (g_next_id g) 0) (g\<lparr>g_next_id := g_next_id g + 1\<rparr>)"
  have n: "g_next_id (?g rid) = g_next_id g + 1" "g_generation (?g rid) = g_generation g" for rid
    by (simp_all add: append_node_def)
  from c obtain rid it' where
    i: "intern mal name it = Some (rid, it')" "\<forall>r \<in> set (g_nodes g). \<not> rid_eq (rn_id r) rid"
    and st': "st' = (it', append_node (?n rid (g_next_id g + 1) 1) ((?g rid)\<lparr>g_next_id := g_next_id g + 1 + 1\<rparr>))"
    unfolding Pair create_history_buffer_def by (auto simp: declare_defs n simp del: One_nat_def)
  show ?thesis unfolding st'
    by (rule append_two [OF ok [unfolded Pair] i]) (simp_all add: untouched_def shape_ok_def fresh_node_def)
qed

subsection \<open>Adding passes\<close>

lemma fresh_pass_ok:
  "list_all (access_ok g) (pn_accesses (fresh_pass rid k))" "attachments_ok (fresh_pass rid k)"
  "init_targets_ok g (fresh_pass rid k)" "exclusive (pn_accesses (fresh_pass rid k))"
  by (simp_all add: fresh_pass_def attachments_ok_def slots_def init_targets_ok_def exclusive_def)

lemma add_pass_Inr:
  "add_pass mal name kind setup (it, g) = Inr st' \<longleftrightarrow>
     name \<noteq> [] \<and> kind \<noteq> PK_None \<and> g_state g = RG_Recording \<and>
     (\<exists>rid it' p. intern mal name it = Some (rid, it') \<and> run_setup g setup (fresh_pass rid kind) = Inr p \<and>
        list_all (\<lambda>t. writes_target p (fst t)) (pn_init_targets p) \<and>
        st' = (it', g\<lparr>g_passes := g_passes g @ [set_exec p]\<rparr>))"
  by (auto simp: add_pass_def begin_pass_def end_pass_def set_exec_def writes_target_def)

lemma add_pass_ok:
  assumes ok: "recorded_ok st" and c: "add_pass mal name kind setup st = Inr st'"
  shows "recorded_ok st'"
proof (cases st)
  case (Pair it g)
  from c obtain rid it' p where k: "kind \<noteq> PK_None" and i: "intern mal name it = Some (rid, it')"
    and s: "run_setup g setup (fresh_pass rid kind) = Inr p"
    and w: "list_all (\<lambda>t. writes_target p (fst t)) (pn_init_targets p)"
    and st': "st' = (it', g\<lparr>g_passes := g_passes g @ [set_exec p]\<rparr>)"
    unfolding Pair by (auto simp: add_pass_Inr)
  note R = recorded_okD [OF ok [unfolded Pair]]
  note I = intern_ok [OF R(1) i]
  let ?g = "g\<lparr>g_passes := g_passes g @ [set_exec p]\<rparr>"
  have "list_all (access_ok ?g) (pn_accesses p)"
    using setup_accesses_ok [OF s fresh_pass_ok(1)] by (simp add: list_all_iff access_ok_def handle_ok_def)
  moreover have "attachments_ok (set_exec p)"
    using setup_attachments [OF s fresh_pass_ok(2)] by (simp add: attachments_ok_def set_exec_def)
  moreover have "init_targets_ok ?g (set_exec p)"
    using setup_init_targets [OF s fresh_pass_ok(3)] by (simp add: init_targets_ok_def set_exec_def)
  ultimately have "pass_declared it' ?g (set_exec p)"
    using setup_kind [OF s] setup_frame [OF s] k w I(3)
    by (simp add: pass_declared_def set_exec_def fresh_pass_def writes_target_def)
  moreover have "list_all (node_declared it' (g_generation g)) (g_nodes g)"
    using R(7) node_declared_mono [OF I(2)] by (auto simp: list_all_iff)
  moreover have "list_all (pass_declared it' ?g) (g_passes g)"
    using R(9) by (auto simp: list_all_iff intro!: pass_declared_mono [OF _ I(2)])
  ultimately show ?thesis
    using R I(1) by (simp add: st' recorded_ok_def ids_ok_def)
qed

lemma fill_layers_ok:
  "recorded_ok st \<Longrightarrow> fill_layers mal name h depth fill layers ls st = Inr st' \<Longrightarrow> recorded_ok st'"
proof (induction ls arbitrary: st)
  case (Cons l ls)
  from Cons.prems(2) obtain st1 where
    a: "add_pass mal (layer_pass_name name layers l) PK_Graphics (fill_setup h depth fill (of_nat l)) st = Inr st1"
    and r: "fill_layers mal name h depth fill layers ls st1 = Inr st'" by auto
  show ?case by (rule Cons.IH [OF add_pass_ok [OF Cons.prems(1) a] r])
qed simp

lemma create_initialized_texture_ok:
  assumes "recorded_ok st" "create_initialized_texture mal name d fill st = Inr (h, st')"
  shows "recorded_ok st'"
proof -
  obtain st1 layers where c: "create_persistent_texture mal name d st = Inr (h, st1)"
    and f: "fill_layers mal name h (is_depth_format (td_format d)) fill layers [0..<layers] st1 = Inr st'"
    using assms(2) unfolding create_initialized_texture_def Let_def by auto
  show ?thesis by (rule fill_layers_ok [OF create_persistent_texture_ok [OF assms(1) c] f])
qed

lemma create_initialized_buffer_ok:
  assumes "recorded_ok st" "create_initialized_buffer mal name sz st = Inr (h, st')"
  shows "recorded_ok st'"
proof -
  obtain st1 where c: "create_persistent_buffer mal name sz st = Inr (h, st1)"
    and a: "add_pass mal name PK_Transfer [B_HostWrite h, B_Initialize h 0] st1 = Inr st'"
    using assms(2) unfolding create_initialized_buffer_def by auto
  show ?thesis by (rule add_pass_ok [OF create_persistent_buffer_ok [OF assms(1) c] a])
qed

subsection \<open>Every recording\<close>

lemma drop_handle_Inr: "drop_handle r = Inr st \<longleftrightarrow> (\<exists>h. r = Inr (h, st))"
  by (cases st) (auto simp: drop_handle_def)

lemma run_command_ok:
  assumes ok: "recorded_ok st" and r: "run_command pf c st = Inr st'"
  shows "recorded_ok st'"
proof (cases c)
  case C_TransientTexture
  then show ?thesis using r create_transient_texture_ok [OF ok] by (cases st') (auto simp: drop_handle_Inr)
next
  case C_TransientBuffer
  then show ?thesis using r create_transient_buffer_ok [OF ok] by (cases st') (auto simp: drop_handle_Inr)
next
  case C_ImportTexture
  then show ?thesis using r import_texture_ok [OF ok] by (cases st') (auto simp: drop_handle_Inr)
next
  case C_ImportBuffer
  then show ?thesis using r import_buffer_ok [OF ok] by (cases st') (auto simp: drop_handle_Inr)
next
  case C_HistoryTexture
  then show ?thesis using r create_history_texture_ok [OF ok] by (cases st') (auto simp: drop_handle_Inr)
next
  case C_HistoryBuffer
  then show ?thesis using r create_history_buffer_ok [OF ok] by (cases st') (auto simp: drop_handle_Inr)
next
  case C_PersistentBuffer
  then show ?thesis using r create_persistent_buffer_ok [OF ok] by (cases st') (auto simp: drop_handle_Inr)
next
  case C_PersistentTexture
  then show ?thesis using r create_persistent_texture_ok [OF ok] by (cases st') (auto simp: drop_handle_Inr)
next
  case C_InitializedTexture
  then show ?thesis using r create_initialized_texture_ok [OF ok] by (cases st') (auto simp: drop_handle_Inr)
next
  case C_InitializedBuffer
  then show ?thesis using r create_initialized_buffer_ok [OF ok] by (cases st') (auto simp: drop_handle_Inr)
next
  case C_AddPass
  then show ?thesis using r add_pass_ok [OF ok] by simp
qed

lemma run_commands_ok: "recorded_ok st \<Longrightarrow> run_commands pf cs st = Inr st' \<Longrightarrow> recorded_ok st'"
  by (induction cs arbitrary: st) (auto dest: run_command_ok)

lemma fresh_graph_ok: "interner_ok it \<Longrightarrow> 0 < gen \<Longrightarrow> recorded_ok (it, fresh_graph gen)"
  by (simp add: recorded_ok_def fresh_graph_def ids_ok_def decl_nil)

lemma record_frame_ok:
  "interner_ok it \<Longrightarrow> 0 < gen \<Longrightarrow> record_frame pf gen it cs = Inr st \<Longrightarrow> recorded_ok st"
  unfolding record_frame_def start_recording_def by (rule run_commands_ok [OF fresh_graph_ok]) simp_all

subsection \<open>Names and history pairs\<close>

lemma declared_pairs:
  "declared_list rs \<Longrightarrow> i < length rs \<Longrightarrow> rn_history (rs ! i) \<Longrightarrow>
   (rn_history_index (rs ! i) = 0 \<and> Suc i < length rs \<and>
      rs ! Suc i = (rs ! i)\<lparr>rn_handle := rn_handle (rs ! Suc i), rn_history_index := 1\<rparr>) \<or>
   (0 < i \<and> rn_history_index (rs ! i) = 1 \<and> rn_history (rs ! (i - 1)) \<and> rn_history_index (rs ! (i - 1)) = 0 \<and>
      rs ! i = (rs ! (i - 1))\<lparr>rn_handle := rn_handle (rs ! i), rn_history_index := 1\<rparr>)"
proof (induction rs rule: declared_list.induct)
  case (decl_one rs r)
  then show ?case by (cases "i < length rs") (auto simp: nth_append less_Suc_eq)
next
  case (decl_two rs r q)
  show ?case
  proof (cases "i < length rs")
    case True
    then show ?thesis using decl_two by (auto simp: nth_append less_Suc_eq)
  next
    case False
    then have "i = length rs \<or> i = Suc (length rs)" using decl_two.prems by auto
    then show ?thesis
    proof
      assume "i = length rs"
      then show ?thesis using decl_two.hyps by (simp add: nth_append)
    next
      assume i: "i = Suc (length rs)"
      have "rn_history_index q = 1" using decl_two.hyps(5) by (metis res_node.select_convs(13) res_node.surjective res_node.update_convs(13))
      then show ?thesis using decl_two.hyps i by (simp add: nth_append)
    qed
  qed
qed simp

lemma declared_one_name:
  assumes "declared_list rs" "i < length rs" "j < length rs" "i < j" "rid_eq (rn_id (rs ! i)) (rn_id (rs ! j))"
  shows "j = Suc i \<and> rn_history (rs ! i) \<and> rn_history_index (rs ! i) = 0 \<and> rn_history_index (rs ! j) = 1"
  using assms
proof (induction rs rule: declared_list.induct)
  case (decl_one rs r)
  then have "i < length rs" by auto
  then show ?case using decl_one by (cases "j < length rs") (auto simp: nth_append new_name_def)
next
  case (decl_two rs r q)
  have q: "rn_id q = rn_id r" "rn_history_index q = 1"
    using decl_two.hyps(5)
    by (metis res_node.select_convs(2) res_node.surjective res_node.update_convs(1,13),
        metis res_node.select_convs(13) res_node.surjective res_node.update_convs(13))
  show ?case
  proof (cases "i < length rs")
    case True
    then show ?thesis using decl_two q by (cases "j < length rs") (auto simp: nth_append new_name_def less_Suc_eq)
  next
    case False
    then have "i = length rs" "j = Suc (length rs)" using decl_two.prems by auto
    then show ?thesis using decl_two.hyps q by (simp add: nth_append)
  qed
qed simp

end
