(* ===== verification/Hazards.thy ===== *)
theory Hazards
  imports Record_Wf
begin

text \<open>
  Phase 1 of \<open>compile_impl\<close>: the sweep over the passes in declaration order that gives
  every resource implicit versions and links each pass to the passes it must follow
  (\<open>add_dependency\<close> and \<open>sweep_resource_versions\<close> of webgpu/base/RenderGraph.cpp).
  The arrays over resource ids and pass indices are functions; they start zeroed.
\<close>

subsection \<open>The sweep\<close>

record sweep =
  sw_producer :: "nat \<Rightarrow> nat option"
  sw_readers :: "nat \<Rightarrow> nat list"
  sw_linked_by :: "nat \<Rightarrow> nat"
  sw_adj :: "nat \<Rightarrow> nat list"

definition sweep_start :: sweep where
  "sweep_start = \<lparr>sw_producer = (\<lambda>_. None), sw_readers = (\<lambda>_. []), sw_linked_by = (\<lambda>_. 0), sw_adj = (\<lambda>_. [])\<rparr>"

definition add_dependency :: "nat \<Rightarrow> nat \<Rightarrow> sweep \<Rightarrow> sweep" where
  "add_dependency p dep s = s\<lparr>sw_adj := (sw_adj s)(p := dep # sw_adj s p)\<rparr>"

definition emit_edge :: "nat \<Rightarrow> nat \<Rightarrow> sweep \<Rightarrow> sweep" where
  "emit_edge p dep s =
     (if sw_linked_by s dep = p then s
      else add_dependency p dep (s\<lparr>sw_linked_by := (sw_linked_by s)(dep := p)\<rparr>))"

definition link_producer :: "nat \<Rightarrow> nat \<Rightarrow> sweep \<Rightarrow> sweep" where
  "link_producer p i s =
     (case sw_producer s i of None \<Rightarrow> s | Some q \<Rightarrow> if q \<noteq> p then emit_edge p q s else s)"

definition link_readers :: "nat \<Rightarrow> nat \<Rightarrow> sweep \<Rightarrow> sweep" where
  "link_readers p i s = fold (\<lambda>r s. if r \<noteq> p then emit_edge p r s else s) (sw_readers s i) s"

definition sweep_write :: "nat \<Rightarrow> nat \<Rightarrow> sweep \<Rightarrow> sweep" where
  "sweep_write p i s =
     (let s1 = link_readers p i (link_producer p i s)
      in s1\<lparr>sw_producer := (sw_producer s1)(i := Some p), sw_readers := (sw_readers s1)(i := [])\<rparr>)"

definition sweep_read :: "nat \<Rightarrow> nat \<Rightarrow> sweep \<Rightarrow> sweep" where
  "sweep_read p i s =
     (let s1 = link_producer p i s
      in s1\<lparr>sw_readers := (sw_readers s1)(i := p # sw_readers s1 i)\<rparr>)"

definition sweep_access :: "nat \<Rightarrow> access \<Rightarrow> sweep \<Rightarrow> sweep" where
  "sweep_access p a s =
     (let i = h_id (ac_handle a)
      in if i = 0 then s else if access_is_write (ac_type a) then sweep_write p i s else sweep_read p i s)"

definition sweep_pass :: "pass_node \<Rightarrow> sweep \<Rightarrow> sweep" where
  "sweep_pass p s = (if pn_skip_init p then s else fold (sweep_access (pn_index p)) (pn_accesses p) s)"

definition sweep_resource_versions :: "pass_node list \<Rightarrow> sweep" where
  "sweep_resource_versions ps = fold sweep_pass ps sweep_start"

text \<open>The declaration indices \<open>compile_impl\<close> hands out first.\<close>

definition index_passes :: "pass_node list \<Rightarrow> pass_node list" where
  "index_passes ps = map (\<lambda>(i, p). p\<lparr>pn_index := i\<rparr>) (enumerate 0 ps)"

definition phase_link :: "graph \<Rightarrow> graph" where
  "phase_link g =
     (let s = sweep_resource_versions (g_passes g)
      in g\<lparr>g_passes := map (\<lambda>p. p\<lparr>pn_adjacency := sw_adj s (pn_index p)\<rparr>) (g_passes g)\<rparr>)"

lemma length_index_passes [simp]: "length (index_passes ps) = length ps"
  by (simp add: index_passes_def)

lemma index_passes_nth: "i < length ps \<Longrightarrow> index_passes ps ! i = (ps ! i)\<lparr>pn_index := i\<rparr>"
  by (simp add: index_passes_def nth_enumerate_eq)

subsection \<open>The sweep as a run over access events\<close>

text \<open>An event: the pass, the resource, whether it writes.\<close>

type_synonym event = "nat \<times> nat \<times> bool"

definition pass_events :: "pass_node \<Rightarrow> event list" where
  "pass_events p =
     (if pn_skip_init p then []
      else map (\<lambda>a. (pn_index p, h_id (ac_handle a), access_is_write (ac_type a)))
             (filter (\<lambda>a. h_id (ac_handle a) \<noteq> 0) (pn_accesses p)))"

definition events :: "pass_node list \<Rightarrow> event list" where
  "events ps = concat (map pass_events ps)"

fun sweep_event :: "event \<Rightarrow> sweep \<Rightarrow> sweep" where
  "sweep_event (p, i, w) s = (if w then sweep_write p i s else sweep_read p i s)"

lemma fold_sweep_access:
  "fold (sweep_access p) as s =
   fold sweep_event (map (\<lambda>a. (p, h_id (ac_handle a), access_is_write (ac_type a)))
     (filter (\<lambda>a. h_id (ac_handle a) \<noteq> 0) as)) s"
  by (induction as arbitrary: s) (auto simp: sweep_access_def Let_def)

lemma sweep_events: "sweep_resource_versions ps = fold sweep_event (events ps) sweep_start"
proof -
  have "sweep_pass p s = fold sweep_event (pass_events p) s" for p s
    by (simp add: sweep_pass_def pass_events_def fold_sweep_access)
  then show ?thesis
    unfolding sweep_resource_versions_def events_def fold_concat_map [symmetric]
    by (intro fold_cong) (simp_all add: fun_eq_iff)
qed

subsection \<open>Edges\<close>

definition edges :: "sweep \<Rightarrow> (nat \<times> nat) set" where
  "edges s = {(p, q). q \<in> set (sw_adj s p)}"

text \<open>
  The state after the events of passes up to \<open>k\<close>: indices are bounded, a stamp says a link
  of the current pass exists, adjacency points back and has no duplicates.
\<close>

definition sweep_ok :: "nat \<Rightarrow> sweep \<Rightarrow> bool" where
  "sweep_ok k s \<longleftrightarrow>
     (\<forall>i q. sw_producer s i = Some q \<longrightarrow> q \<le> k) \<and> (\<forall>i. \<forall>r \<in> set (sw_readers s i). r \<le> k) \<and>
     (\<forall>d. sw_linked_by s d \<le> k) \<and>
     (\<forall>d. 0 < k \<longrightarrow> (sw_linked_by s d = k \<longleftrightarrow> d \<in> set (sw_adj s k))) \<and>
     (\<forall>p. \<forall>q \<in> set (sw_adj s p). q < p) \<and> (\<forall>p. distinct (sw_adj s p)) \<and> (\<forall>p. k < p \<longrightarrow> sw_adj s p = [])"

lemma sweep_okD:
  assumes "sweep_ok k s"
  shows "sw_producer s i = Some q \<Longrightarrow> q \<le> k" "r \<in> set (sw_readers s i) \<Longrightarrow> r \<le> k"
    "sw_linked_by s d \<le> k" "0 < k \<Longrightarrow> sw_linked_by s d = k \<longleftrightarrow> d \<in> set (sw_adj s k)"
    "q \<in> set (sw_adj s p) \<Longrightarrow> q < p" "distinct (sw_adj s p)" "k < p \<Longrightarrow> sw_adj s p = []"
  using assms unfolding sweep_ok_def by blast+

lemma sweep_ok_mono:
  assumes "sweep_ok k s" "k \<le> k'"
  shows "sweep_ok k' s"
proof (cases "k = k'")
  case False
  then have l: "k < k'" using assms(2) by simp
  have "sw_linked_by s d < k'" for d using sweep_okD(3) [OF assms(1), of d] l by simp
  then have "sw_linked_by s d = k' \<longleftrightarrow> d \<in> set (sw_adj s k')" for d
    using sweep_okD(7) [OF assms(1) l] by (metis empty_iff empty_set less_irrefl)
  moreover have "\<forall>i q. sw_producer s i = Some q \<longrightarrow> q \<le> k'" "\<forall>i. \<forall>r \<in> set (sw_readers s i). r \<le> k'"
    "\<forall>d. sw_linked_by s d \<le> k'" "\<forall>p. k' < p \<longrightarrow> sw_adj s p = []"
    using sweep_okD [OF assms(1)] assms(2) by (meson le_trans order.strict_trans1)+
  moreover have "\<forall>p. \<forall>q \<in> set (sw_adj s p). q < p" "\<forall>p. distinct (sw_adj s p)"
    using sweep_okD(5,6) [OF assms(1)] by blast+
  ultimately show ?thesis by (simp add: sweep_ok_def)
qed (use assms in simp)

lemma sweep_start_ok: "sweep_ok 0 sweep_start"
  by (simp add: sweep_ok_def sweep_start_def)

lemma emit_edge_frame [simp]:
  "sw_producer (emit_edge p d s) = sw_producer s" "sw_readers (emit_edge p d s) = sw_readers s"
  by (simp_all add: emit_edge_def add_dependency_def)

lemma emit_edge_ok:
  assumes "sweep_ok k s" "d < k"
  shows "sweep_ok k (emit_edge k d s)" "edges (emit_edge k d s) = insert (k, d) (edges s)"
proof -
  have e: "sw_linked_by s d = k \<longleftrightarrow> d \<in> set (sw_adj s k)" using sweep_okD(4) [OF assms(1)] assms(2) by simp
  show "sweep_ok k (emit_edge k d s)"
    using assms e sweep_okD [OF assms(1)]
    by (auto simp: emit_edge_def add_dependency_def sweep_ok_def)
  show "edges (emit_edge k d s) = insert (k, d) (edges s)"
    using e by (auto simp: emit_edge_def add_dependency_def edges_def split: if_splits)
qed

definition links :: "nat \<Rightarrow> nat set \<Rightarrow> (nat \<times> nat) set" where
  "links k Q = {(k, q) | q. q \<in> Q \<and> q \<noteq> k}"

lemma links_insert: "links k (insert q Q) = (if q = k then links k Q else insert (k, q) (links k Q))"
  by (auto simp: links_def)

lemma link_producer_ok:
  assumes "sweep_ok k s"
  shows "sweep_ok k (link_producer k i s)"
    "edges (link_producer k i s) = edges s \<union> links k (set_option (sw_producer s i))"
    "sw_producer (link_producer k i s) = sw_producer s" "sw_readers (link_producer k i s) = sw_readers s"
proof -
  have "q < k" if "sw_producer s i = Some q" "q \<noteq> k" for q
    using sweep_okD(1) [OF assms that(1)] that(2) by simp
  then show "sweep_ok k (link_producer k i s)"
    "edges (link_producer k i s) = edges s \<union> links k (set_option (sw_producer s i))"
    using assms emit_edge_ok by (auto simp: link_producer_def links_def split: option.split)
  show "sw_producer (link_producer k i s) = sw_producer s" "sw_readers (link_producer k i s) = sw_readers s"
    by (simp_all add: link_producer_def split: option.split)
qed

lemma link_list_ok:
  assumes "sweep_ok k s" "\<forall>r \<in> set rs. r \<le> k"
  shows "sweep_ok k (fold (\<lambda>r s. if r \<noteq> k then emit_edge k r s else s) rs s) \<and>
    edges (fold (\<lambda>r s. if r \<noteq> k then emit_edge k r s else s) rs s) = edges s \<union> links k (set rs) \<and>
    sw_producer (fold (\<lambda>r s. if r \<noteq> k then emit_edge k r s else s) rs s) = sw_producer s \<and>
    sw_readers (fold (\<lambda>r s. if r \<noteq> k then emit_edge k r s else s) rs s) = sw_readers s"
  using assms
proof (induction rs arbitrary: s)
  case Nil
  then show ?case by (simp add: links_def)
next
  case (Cons r rs)
  show ?case
  proof (cases "r = k")
    case True
    then show ?thesis using Cons by (simp add: links_insert)
  next
    case False
    then have r: "r < k" using Cons.prems(2) by simp
    have "\<forall>r \<in> set rs. r \<le> k" using Cons.prems(2) by simp
    from Cons.IH [OF emit_edge_ok(1) [OF Cons.prems(1) r] this]
    show ?thesis using False emit_edge_ok(2) [OF Cons.prems(1) r] by (simp add: links_insert)
  qed
qed

lemma sweep_event_ok:
  assumes "sweep_ok k s"
  shows "sweep_ok k (sweep_event (k, i, w) s)"
    "edges (sweep_event (k, i, w) s) =
       edges s \<union> links k (set_option (sw_producer s i) \<union> (if w then set (sw_readers s i) else {}))"
    "sw_producer (sweep_event (k, i, w) s) = (if w then (sw_producer s)(i := Some k) else sw_producer s)"
    "sw_readers (sweep_event (k, i, w) s) =
       (sw_readers s)(i := if w then [] else k # sw_readers s i)"
proof -
  note P = link_producer_ok [OF assms, of i]
  have r: "\<forall>r \<in> set (sw_readers (link_producer k i s) i). r \<le> k"
    using sweep_okD(2) [OF assms] P(4) by auto
  note R = link_list_ok [OF P(1) r, folded link_readers_def]
  have e: "edges (s\<lparr>sw_producer := f, sw_readers := h\<rparr>) = edges s" "edges (s\<lparr>sw_readers := h\<rparr>) = edges s"
    "edges (s\<lparr>sw_producer := f\<rparr>) = edges s"
    for s :: sweep and f h by (simp_all add: edges_def)
  have u: "sweep_ok k (s\<lparr>sw_producer := (sw_producer s)(i := Some k), sw_readers := (sw_readers s)(i := [])\<rparr>)"
    if "sweep_ok k s" for s :: sweep
    using that by (auto simp: sweep_ok_def)
  have v: "sweep_ok k (s\<lparr>sw_readers := (sw_readers s)(i := k # sw_readers s i)\<rparr>)"
    if "sweep_ok k s" for s :: sweep
    using that by (auto simp: sweep_ok_def)
  have un: "links k (A \<union> B) = links k A \<union> links k B" for A B by (auto simp: links_def)
  have em: "links k {} = {}" by (simp add: links_def)
  show "sweep_ok k (sweep_event (k, i, w) s)"
    using u [OF conjunct1 [OF R]] v [OF P(1)]
    by (cases w) (simp_all only: sweep_event.simps sweep_write_def sweep_read_def Let_def if_True if_False)
  show "edges (sweep_event (k, i, w) s) =
       edges s \<union> links k (set_option (sw_producer s i) \<union> (if w then set (sw_readers s i) else {}))"
    using P R by (cases w) (simp_all add: sweep_write_def sweep_read_def e un em Un_assoc)
  show "sw_producer (sweep_event (k, i, w) s) = (if w then (sw_producer s)(i := Some k) else sw_producer s)"
    "sw_readers (sweep_event (k, i, w) s) = (sw_readers s)(i := if w then [] else k # sw_readers s i)"
    using P R by (simp_all add: sweep_write_def sweep_read_def Let_def fun_eq_iff)
qed

subsection \<open>Every conflicting pair is ordered\<close>

text \<open>
  After the events \<open>es\<close>: each write of a resource is the producer or before it, each read
  is pending or before the producer, pending readers come after the producer, and any two
  conflicting events of different passes are ordered.
\<close>

definition conflicting :: "event \<Rightarrow> event \<Rightarrow> bool" where
  "conflicting e f \<longleftrightarrow> fst e \<noteq> fst f \<and> fst (snd e) = fst (snd f) \<and> (snd (snd e) \<or> snd (snd f))"

definition hazards_inv :: "event list \<Rightarrow> sweep \<Rightarrow> bool" where
  "hazards_inv es s \<longleftrightarrow>
     (\<forall>p i. (p, i, True) \<in> set es \<longrightarrow> (\<exists>q. sw_producer s i = Some q \<and> (q, p) \<in> (edges s)\<^sup>*)) \<and>
     (\<forall>p i. (p, i, False) \<in> set es \<longrightarrow>
        p \<in> set (sw_readers s i) \<or> (\<exists>q. sw_producer s i = Some q \<and> (q, p) \<in> (edges s)\<^sup>*)) \<and>
     (\<forall>i r q. r \<in> set (sw_readers s i) \<longrightarrow> sw_producer s i = Some q \<longrightarrow> (r, q) \<in> (edges s)\<^sup>*) \<and>
     sorted_wrt (\<lambda>e f. conflicting e f \<longrightarrow> (fst f, fst e) \<in> (edges s)\<^sup>+) es"

lemma hazards_invD:
  assumes "hazards_inv es s"
  shows "(p, i, True) \<in> set es \<Longrightarrow> \<exists>q. sw_producer s i = Some q \<and> (q, p) \<in> (edges s)\<^sup>*"
    "(p, i, False) \<in> set es \<Longrightarrow>
       p \<in> set (sw_readers s i) \<or> (\<exists>q. sw_producer s i = Some q \<and> (q, p) \<in> (edges s)\<^sup>*)"
    "r \<in> set (sw_readers s i) \<Longrightarrow> sw_producer s i = Some q \<Longrightarrow> (r, q) \<in> (edges s)\<^sup>*"
    "sorted_wrt (\<lambda>e f. conflicting e f \<longrightarrow> (fst f, fst e) \<in> (edges s)\<^sup>+) es"
  using assms unfolding hazards_inv_def by blast+

lemma rtrancl_mono_in: "(a, b) \<in> R\<^sup>* \<Longrightarrow> R \<subseteq> S \<Longrightarrow> (a, b) \<in> S\<^sup>*"
  by (meson rtrancl_mono subset_iff)

lemma trancl_mono_in: "(a, b) \<in> R\<^sup>+ \<Longrightarrow> R \<subseteq> S \<Longrightarrow> (a, b) \<in> S\<^sup>+"
  by (meson trancl_mono)

lemma sweep_event_hazards:
  assumes ok: "sweep_ok k s" and inv: "hazards_inv es s"
  shows "hazards_inv (es @ [(k, i, w)]) (sweep_event (k, i, w) s)"
proof -
  define t where "t = sweep_event (k, i, w) s"
  note E = sweep_event_ok [OF ok, of i w, folded t_def]
  have sub: "edges s \<subseteq> edges t" using E(2) by blast
  have prod: "(k, q) \<in> (edges t)\<^sup>*" if "sw_producer s i = Some q" for q
    using E(2) that by (cases "q = k") (auto simp: links_def)
  have rdr: "(k, r) \<in> (edges t)\<^sup>*" if "w" "r \<in> set (sw_readers s i)" for r
    using E(2) that by (cases "r = k") (auto simp: links_def)
  have up: "(a, b) \<in> (edges s)\<^sup>* \<Longrightarrow> (a, b) \<in> (edges t)\<^sup>*" for a b using rtrancl_mono_in sub by metis
  have before: "(k, p) \<in> (edges t)\<^sup>*" if "(p, i, v) \<in> set es" "v \<or> w" for p v
  proof -
    have viaq: "(k, p) \<in> (edges t)\<^sup>*" if "\<exists>q. sw_producer s i = Some q \<and> (q, p) \<in> (edges s)\<^sup>*"
      using that prod up by (meson rtrancl_trans)
    note asm = \<open>(p, i, v) \<in> set es\<close> \<open>v \<or> w\<close>
    show ?thesis
    proof (cases v)
      case True
      then show ?thesis using viaq hazards_invD(1) [OF inv, of p i] asm by simp
    next
      case False
      then have "p \<in> set (sw_readers s i) \<or> (\<exists>q. sw_producer s i = Some q \<and> (q, p) \<in> (edges s)\<^sup>*)"
        using hazards_invD(2) [OF inv, of p i] asm by simp
      then show ?thesis using viaq rdr asm False by blast
    qed
  qed
  have 1: "\<exists>q. sw_producer t j = Some q \<and> (q, p) \<in> (edges t)\<^sup>*" if "(p, j, True) \<in> set (es @ [(k, i, w)])" for p j
  proof (cases "j = i \<and> w")
    case True
    then show ?thesis using that before [of p True] E(3) by auto
  next
    case False
    then have old: "(p, j, True) \<in> set es" using that by auto
    then obtain q where "sw_producer s j = Some q" "(q, p) \<in> (edges s)\<^sup>*"
      using hazards_invD(1) [OF inv] by blast
    then show ?thesis using False up E(3) by (cases w) auto
  qed
  have 2: "p \<in> set (sw_readers t j) \<or> (\<exists>q. sw_producer t j = Some q \<and> (q, p) \<in> (edges t)\<^sup>*)"
    if "(p, j, False) \<in> set (es @ [(k, i, w)])" for p j
  proof (cases "(p, j, False) \<in> set es")
    case True
    show ?thesis
    proof (cases "j = i \<and> w")
      case True
      then show ?thesis using before [of p False] E(3) \<open>(p, j, False) \<in> set es\<close> by auto
    next
      case False
      then show ?thesis
        using hazards_invD(2) [OF inv True] up E(3,4) by (cases "j = i"; cases w) auto
    qed
  next
    case False
    then have "p = k" "j = i" "\<not> w" using that by auto
    then show ?thesis using E(4) by simp
  qed
  have 3: "(r, q) \<in> (edges t)\<^sup>*" if "r \<in> set (sw_readers t j)" "sw_producer t j = Some q" for r j q
    using that hazards_invD(3) [OF inv, of r j q] prod up E(3,4)
    by (cases "j = i"; cases w) auto
  have 4: "(k, fst e) \<in> (edges t)\<^sup>+" if ec: "e \<in> set es" "conflicting e (k, i, w)" for e
  proof -
    obtain p v where e: "e = (p, i, v)" using ec(2) by (cases e) (auto simp: conflicting_def)
    then have "(k, p) \<in> (edges t)\<^sup>*" "p \<noteq> k" using ec before [of p v] by (auto simp: conflicting_def)
    then show ?thesis using e by (simp add: rtrancl_eq_or_trancl)
  qed
  have 5: "sorted_wrt (\<lambda>e f. conflicting e f \<longrightarrow> (fst f, fst e) \<in> (edges t)\<^sup>+) es"
    by (rule sorted_wrt_mono_rel [OF _ hazards_invD(4) [OF inv]]) (auto intro: trancl_mono_in [OF _ sub])
  show ?thesis
    unfolding t_def [symmetric] hazards_inv_def
    using 1 2 3 4 5 by (simp add: sorted_wrt_append)
qed

lemma fold_sweep_inv:
  assumes "sweep_ok k s" "hazards_inv es s" "sorted (map fst fs)" "\<forall>f \<in> set fs. k \<le> fst f"
  shows "hazards_inv (es @ fs) (fold sweep_event fs s) \<and>
         sweep_ok (if fs = [] then k else fst (last fs)) (fold sweep_event fs s)"
  using assms
proof (induction fs arbitrary: k s es)
  case (Cons f fs)
  obtain p i w where f: "f = (p, i, w)" by (cases f) auto
  have ok: "sweep_ok p s" using Cons.prems by (intro sweep_ok_mono [OF Cons.prems(1)]) (simp add: f)
  have "sorted (map fst fs)" "\<forall>g \<in> set fs. p \<le> fst g" using Cons.prems(3) by (auto simp: f)
  note IH = Cons.IH [OF sweep_event_ok(1) [OF ok] sweep_event_hazards [OF ok Cons.prems(2), of i w] this]
  show ?case using IH by (cases "fs = []") (simp_all add: f del: sweep_event.simps)
qed simp

lemma hazards_start: "hazards_inv [] sweep_start"
  by (simp add: hazards_inv_def sweep_start_def)

subsection \<open>The passes of a compiled graph\<close>

definition indexed :: "pass_node list \<Rightarrow> bool" where
  "indexed ps \<longleftrightarrow> (\<forall>i < length ps. pn_index (ps ! i) = i)"

lemma indexed_index_passes: "indexed (index_passes ps)"
  by (simp add: indexed_def index_passes_nth)

lemma indexed_Snoc: "indexed (ps @ [p]) \<longleftrightarrow> indexed ps \<and> pn_index p = length ps"
  by (auto simp: indexed_def nth_append less_Suc_eq)

lemma events_snoc: "events (ps @ [p]) = events ps @ pass_events p"
  by (simp add: events_def)

lemma events_index: "indexed ps \<Longrightarrow> e \<in> set (events ps) \<Longrightarrow> fst e < length ps"
  by (auto simp: events_def pass_events_def in_set_conv_nth indexed_def split: if_splits)

lemma events_sorted: "indexed ps \<Longrightarrow> sorted (map fst (events ps))"
proof (induction ps rule: rev_induct)
  case (snoc p ps)
  have "sorted (map fst (pass_events p))" "\<forall>e \<in> set (pass_events p). fst e = pn_index p"
    by (auto simp: pass_events_def sorted_wrt_map comp_def sorted_wrt_iff_nth_less)
  then show ?case
    using snoc events_index [of ps] by (fastforce simp: events_snoc sorted_append indexed_Snoc)
qed (simp add: events_def)

lemma in_events:
  assumes "indexed ps" "i < length ps" "\<not> pn_skip_init (ps ! i)" "a \<in> set (pn_accesses (ps ! i))"
    "h_id (ac_handle a) \<noteq> 0"
  shows "(i, h_id (ac_handle a), access_is_write (ac_type a)) \<in> set (events ps)"
  using assms nth_mem [of i ps] by (force simp: events_def pass_events_def indexed_def)

lemma sweep_final:
  assumes "indexed ps"
  shows "hazards_inv (events ps) (sweep_resource_versions ps)"
    "\<exists>k. sweep_ok k (sweep_resource_versions ps)"
  using fold_sweep_inv [OF sweep_start_ok hazards_start events_sorted [OF assms]]
  by (auto simp: sweep_events)

lemma adjacency_backward:
  assumes "indexed ps" "q \<in> set (sw_adj (sweep_resource_versions ps) p)"
  shows "q < p"
  using sweep_final(2) [OF assms(1)] assms(2) sweep_okD(5) by blast

lemma adjacency_distinct: "indexed ps \<Longrightarrow> distinct (sw_adj (sweep_resource_versions ps) p)"
  using sweep_final(2) sweep_okD(6) by blast

text \<open>Two passes that touch one resource, one of them writing, are ordered by the edges.\<close>

definition pass_conflict :: "pass_node \<Rightarrow> pass_node \<Rightarrow> bool" where
  "pass_conflict p q \<longleftrightarrow> (\<exists>a \<in> set (pn_accesses p). \<exists>b \<in> set (pn_accesses q).
     h_id (ac_handle a) = h_id (ac_handle b) \<and> h_id (ac_handle a) \<noteq> 0 \<and>
     (access_is_write (ac_type a) \<or> access_is_write (ac_type b)))"

lemma conflicts_ordered:
  assumes ix: "indexed ps" and ij: "i < j" "j < length ps" and ns: "\<not> pn_skip_init (ps ! i)" "\<not> pn_skip_init (ps ! j)"
    and c: "pass_conflict (ps ! i) (ps ! j)"
  shows "(j, i) \<in> (edges (sweep_resource_versions ps))\<^sup>+"
proof -
  obtain a b where ab: "a \<in> set (pn_accesses (ps ! i))" "b \<in> set (pn_accesses (ps ! j))"
    "h_id (ac_handle a) = h_id (ac_handle b)" "h_id (ac_handle a) \<noteq> 0"
    "access_is_write (ac_type a) \<or> access_is_write (ac_type b)"
    using c by (auto simp: pass_conflict_def)
  define e f where "e = (i, h_id (ac_handle a), access_is_write (ac_type a))"
    and "f = (j, h_id (ac_handle b), access_is_write (ac_type b))"
  have "e \<in> set (events ps)" "f \<in> set (events ps)"
    using in_events [OF ix _ ns(1) ab(1)] in_events [OF ix ij(2) ns(2) ab(2)] ij ab by (auto simp: e_def f_def)
  then obtain m n where mn: "m < length (events ps)" "n < length (events ps)" "events ps ! m = e" "events ps ! n = f"
    by (meson in_set_conv_nth)
  have "m < n"
  proof (rule ccontr)
    assume "\<not> m < n"
    then have "fst f \<le> fst e"
      using events_sorted [OF ix] mn by (metis le_less_linear length_map linorder_not_less nth_map sorted_iff_nth_mono)
    then show False using ij by (simp add: e_def f_def)
  qed
  moreover have "conflicting e f" using ab ij by (simp add: conflicting_def e_def f_def)
  ultimately have "(fst f, fst e) \<in> (edges (sweep_resource_versions ps))\<^sup>+"
    using hazards_invD(4) [OF sweep_final(1) [OF ix]] mn unfolding sorted_wrt_iff_nth_less by metis
  then show ?thesis by (simp add: e_def f_def)
qed

end
