(* ===== verification/Topo.thy ===== *)
theory Topo
  imports Hazards
begin

text \<open>
  Phase 2 of \<open>compile_impl\<close>: the depth-first walk with an explicit stack that culls the
  passes no sink needs and orders the rest (\<open>topo_visit\<close>, \<open>is_sink\<close> and the relinking of
  the pass list, webgpu/base/RenderGraph.cpp). A pass is named by its declaration index. The
  loop is a \<open>partial_function\<close>: not returning is \<open>None\<close>. The locale \<open>dag\<close> states
  what the walk needs of the edges, backward edges, and proves termination, order and
  exactness; its interpretation is on the edges the hazard sweep emits.
\<close>

subsection \<open>The walk\<close>

record topo =
  tp_placed :: "nat set"
  tp_on_stack :: "nat set"
  tp_order :: "nat list"
  tp_cycle :: bool

definition topo_start :: topo where
  "topo_start = \<lparr>tp_placed = {}, tp_on_stack = {}, tp_order = [], tp_cycle = False\<rparr>"

definition enter_pass :: "nat \<Rightarrow> topo \<Rightarrow> topo" where
  "enter_pass v t = t\<lparr>tp_placed := insert v (tp_placed t), tp_on_stack := insert v (tp_on_stack t)\<rparr>"

definition leave_pass :: "nat \<Rightarrow> topo \<Rightarrow> topo" where
  "leave_pass v t = t\<lparr>tp_on_stack := tp_on_stack t - {v}, tp_order := tp_order t @ [v]\<rparr>"

text \<open>A frame: a pass and the unvisited remainder of its adjacency.\<close>

type_synonym frame = "nat \<times> nat list"

partial_function (option) topo_loop :: "(nat \<Rightarrow> nat list) \<Rightarrow> frame list \<Rightarrow> topo \<Rightarrow> topo option" where
  [code]: "topo_loop adj stack t =
     (case stack of
        [] \<Rightarrow> Some t
      | (v, todo) # st \<Rightarrow>
          (case todo of
             [] \<Rightarrow> topo_loop adj st (leave_pass v t)
           | c # cs \<Rightarrow>
               if c \<in> tp_on_stack t then topo_loop adj ((v, cs) # st) (t\<lparr>tp_cycle := True\<rparr>)
               else if c \<in> tp_placed t then topo_loop adj ((v, cs) # st) t
               else topo_loop adj ((c, adj c) # (v, cs) # st) (enter_pass c t)))"

definition topo_visit :: "(nat \<Rightarrow> nat list) \<Rightarrow> nat \<Rightarrow> topo \<Rightarrow> topo option" where
  "topo_visit adj p t =
     (if p \<in> tp_on_stack t then Some (t\<lparr>tp_cycle := True\<rparr>)
      else if p \<in> tp_placed t then Some t
      else topo_loop adj [(p, adj p)] (enter_pass p t))"

fun topo_visit_all :: "(nat \<Rightarrow> nat list) \<Rightarrow> nat list \<Rightarrow> topo \<Rightarrow> topo option" where
  "topo_visit_all adj [] t = Some t"
| "topo_visit_all adj (r # rs) t = Option.bind (topo_visit adj r t) (topo_visit_all adj rs)"

lemma topo_loop_simps [simp]:
  "topo_loop adj [] t = Some t"
  "topo_loop adj ((v, []) # st) t = topo_loop adj st (leave_pass v t)"
  "topo_loop adj ((v, c # cs) # st) t =
     (if c \<in> tp_on_stack t then topo_loop adj ((v, cs) # st) (t\<lparr>tp_cycle := True\<rparr>)
      else if c \<in> tp_placed t then topo_loop adj ((v, cs) # st) t
      else topo_loop adj ((c, adj c) # (v, cs) # st) (enter_pass c t))"
  by (subst topo_loop.simps, simp)+

lemma topo_fields [simp]:
  "tp_placed (enter_pass v t) = insert v (tp_placed t)" "tp_on_stack (enter_pass v t) = insert v (tp_on_stack t)"
  "tp_order (enter_pass v t) = tp_order t" "tp_cycle (enter_pass v t) = tp_cycle t"
  "tp_placed (leave_pass v t) = tp_placed t" "tp_on_stack (leave_pass v t) = tp_on_stack t - {v}"
  "tp_order (leave_pass v t) = tp_order t @ [v]" "tp_cycle (leave_pass v t) = tp_cycle t"
  by (simp_all add: enter_pass_def leave_pass_def)

subsection \<open>Orders\<close>

definition edges_of :: "(nat \<Rightarrow> nat list) \<Rightarrow> (nat \<times> nat) set" where
  "edges_of adj = {(p, q). q \<in> set (adj p)}"

text \<open>Every dependency of an element stands before it.\<close>

definition deps_first :: "(nat \<Rightarrow> nat list) \<Rightarrow> nat list \<Rightarrow> bool" where
  "deps_first adj order \<longleftrightarrow> (\<forall>i < length order. set (adj (order ! i)) \<subseteq> set (take i order))"

lemma deps_first_Nil [simp]: "deps_first adj []"
  by (simp add: deps_first_def)

lemma deps_first_snoc:
  "deps_first adj (xs @ [v]) \<longleftrightarrow> deps_first adj xs \<and> set (adj v) \<subseteq> set xs"
  by (auto simp: deps_first_def nth_append less_Suc_eq)

lemma deps_first_closed: "deps_first adj xs \<Longrightarrow> v \<in> set xs \<Longrightarrow> set (adj v) \<subseteq> set xs"
  unfolding deps_first_def by (metis in_set_conv_nth set_take_subset subset_trans)

definition reached :: "(nat \<Rightarrow> nat list) \<Rightarrow> nat set \<Rightarrow> nat set" where
  "reached adj R = {v. \<exists>r \<in> R. (r, v) \<in> (edges_of adj)\<^sup>*}"

lemma reached_closed:
  assumes "R \<subseteq> S" "\<And>v. v \<in> S \<Longrightarrow> set (adj v) \<subseteq> S"
  shows "reached adj R \<subseteq> S"
proof
  fix v assume "v \<in> reached adj R"
  then obtain r where r: "r \<in> R" "(r, v) \<in> (edges_of adj)\<^sup>*" by (auto simp: reached_def)
  from r(2) show "v \<in> S"
    by (induction rule: rtrancl_induct) (use assms r(1) in \<open>auto simp: edges_of_def\<close>)
qed

lemma reached_step: "v \<in> reached adj R \<Longrightarrow> c \<in> set (adj v) \<Longrightarrow> c \<in> reached adj R"
  by (auto simp: reached_def edges_of_def intro: rtrancl.rtrancl_into_rtrancl)

subsection \<open>The walk on backward edges\<close>

locale dag =
  fixes adj :: "nat \<Rightarrow> nat list"
  assumes backward: "c \<in> set (adj v) \<Longrightarrow> c < v"
begin

text \<open>
  The stack from the top: the frames below wait for the pass above them, pass numbers grow
  towards the bottom, and what a frame has already visited is placed in the order.
\<close>

fun stack_ok :: "nat set \<Rightarrow> frame list \<Rightarrow> bool" where
  "stack_ok done [] = True"
| "stack_ok done ((v, todo) # st) \<longleftrightarrow>
     set (adj v) \<subseteq> done \<union> set todo \<and> set todo \<subseteq> set (adj v) \<and> (\<forall>u \<in> fst ` set st. v < u) \<and>
     stack_ok (insert v done) st"

lemma stack_ok_mono: "stack_ok A st \<Longrightarrow> A \<subseteq> B \<Longrightarrow> stack_ok B st"
proof (induction st arbitrary: A B)
  case (Cons f st)
  obtain v todo where f: "f = (v, todo)" by (cases f)
  have "stack_ok (insert v B) st" using Cons.IH [of "insert v A" "insert v B"] Cons.prems by (auto simp: f)
  then show ?case using Cons.prems by (auto simp: f)
qed simp

definition walk_ok :: "nat set \<Rightarrow> frame list \<Rightarrow> topo \<Rightarrow> bool" where
  "walk_ok R st t \<longleftrightarrow>
     \<not> tp_cycle t \<and> distinct (tp_order t) \<and> deps_first adj (tp_order t) \<and>
     tp_on_stack t = fst ` set st \<and> tp_placed t = set (tp_order t) \<union> fst ` set st \<and>
     set (tp_order t) \<inter> fst ` set st = {} \<and> stack_ok (set (tp_order t)) st \<and>
     tp_placed t \<subseteq> reached adj R"

lemma walk_leave:
  assumes "walk_ok R ((v, []) # st) t"
  shows "walk_ok R st (leave_pass v t)"
proof -
  have v: "v \<notin> fst ` set st" using assms by (auto simp: walk_ok_def)
  have "stack_ok (set (tp_order t @ [v])) st"
    using assms by (auto simp: walk_ok_def intro: stack_ok_mono)
  then show ?thesis
    using assms v unfolding walk_ok_def by (auto simp: deps_first_snoc)
qed

lemma walk_child:
  assumes "walk_ok R ((v, c # cs) # st) t"
  shows "c < v" "c \<notin> tp_on_stack t" "c \<in> tp_placed t \<Longrightarrow> c \<in> set (tp_order t)"
proof -
  show l: "c < v" using assms backward by (auto simp: walk_ok_def)
  then show "c \<notin> tp_on_stack t" using assms by (auto simp: walk_ok_def dest: order.strict_trans)
  then show "c \<in> tp_placed t \<Longrightarrow> c \<in> set (tp_order t)" using assms by (auto simp: walk_ok_def)
qed

lemma walk_skip:
  assumes "walk_ok R ((v, c # cs) # st) t" "c \<in> set (tp_order t)"
  shows "walk_ok R ((v, cs) # st) t"
  using assms unfolding walk_ok_def by auto

lemma walk_enter:
  assumes w: "walk_ok R ((v, c # cs) # st) t" and "c \<notin> tp_placed t"
  shows "walk_ok R ((c, adj c) # (v, cs) # st) (enter_pass c t)"
proof -
  have "c \<in> set (adj v)" "v \<in> reached adj R" using w by (auto simp: walk_ok_def)
  then have r: "c \<in> reached adj R" by (rule reached_step [rotated])
  have lt: "\<forall>u \<in> fst ` set st. c < u" using w walk_child(1) [OF w] by (fastforce simp: walk_ok_def)
  have "stack_ok (insert c (set (tp_order t))) ((v, cs) # st)"
    using w by (auto simp: walk_ok_def intro: stack_ok_mono)
  then show ?thesis
    using assms walk_child(1) [OF w] r lt unfolding walk_ok_def by auto
qed

text \<open>
  Termination: passes not yet placed below the bound weigh their adjacency, frames what is left.
\<close>

definition walk_size :: "nat \<Rightarrow> frame list \<Rightarrow> topo \<Rightarrow> nat" where
  "walk_size n st t = (\<Sum>(v, todo) \<leftarrow> st. length todo + 1) + (\<Sum>c \<in> {..<n} - tp_placed t. length (adj c) + 2)"

lemma walk_size_enter:
  assumes "c < n" "c \<notin> tp_placed t"
  shows "walk_size n ((c, adj c) # (v, cs) # st) (enter_pass c t) < walk_size n ((v, c # cs) # st) t"
proof -
  have "{..<n} - tp_placed t = insert c ({..<n} - tp_placed (enter_pass c t))" using assms by auto
  moreover have "c \<notin> {..<n} - tp_placed (enter_pass c t)" by simp
  ultimately have "(\<Sum>c \<in> {..<n} - tp_placed t. length (adj c) + 2) =
      length (adj c) + 2 + (\<Sum>c \<in> {..<n} - tp_placed (enter_pass c t). length (adj c) + 2)"
    by (simp only: sum.insert finite_Diff finite_lessThan not_False_eq_True)
  then show ?thesis by (simp add: walk_size_def)
qed

lemma topo_loop_ok:
  assumes "walk_ok R st t" "\<forall>v \<in> fst ` set st. v < n"
  shows "\<exists>t'. topo_loop adj st t = Some t' \<and> walk_ok R [] t' \<and> tp_placed t \<subseteq> set (tp_order t')"
  using assms
proof (induction "walk_size n st t" arbitrary: st t rule: less_induct)
  case less
  show ?case
  proof (cases st)
    case Nil
    then show ?thesis using less.prems(1) by (auto simp: walk_ok_def)
  next
    case (Cons f st')
    obtain v todo where f: "f = (v, todo)" by (cases f)
    show ?thesis
    proof (cases todo)
      case Nil
      have "walk_ok R st' (leave_pass v t)" using less.prems(1) walk_leave by (simp add: Cons f Nil)
      moreover have "walk_size n st' (leave_pass v t) < walk_size n st t"
        by (simp add: walk_size_def Cons f)
      ultimately show ?thesis
        using less.hyps [of st' "leave_pass v t"] less.prems(2) by (simp add: Cons f Nil)
    next
      case (Cons c cs)
      have st: "st = (v, c # cs) # st'" using \<open>st = f # st'\<close> f Cons by simp
      note W = less.prems(1) [unfolded st]
      note C = walk_child [OF W]
      show ?thesis
      proof (cases "c \<in> tp_placed t")
        case True
        then have "walk_ok R ((v, cs) # st') t" using walk_skip [OF W] C(3) by simp
        moreover have "walk_size n ((v, cs) # st') t < walk_size n st t" by (simp add: walk_size_def st)
        ultimately show ?thesis
          using less.hyps [of "(v, cs) # st'" t] less.prems(2) True C(2) by (simp add: st)
      next
        case False
        have n: "c < n" using C(1) less.prems(2) by (auto simp: st)
        have "\<exists>t'. topo_loop adj ((c, adj c) # (v, cs) # st') (enter_pass c t) = Some t' \<and> walk_ok R [] t' \<and>
            tp_placed (enter_pass c t) \<subseteq> set (tp_order t')"
          using less.prems(2) n by (intro less.hyps walk_enter [OF W False])
            (use walk_size_enter [OF n False] in \<open>auto simp: st\<close>)
        then show ?thesis using False C(2) by (auto simp: st)
      qed
    qed
  qed
qed

lemma topo_visit_ok:
  assumes "walk_ok R [] t" "r \<in> R"
  shows "\<exists>t'. topo_visit adj r t = Some t' \<and> walk_ok R [] t' \<and> insert r (tp_placed t) \<subseteq> set (tp_order t')"
proof (cases "r \<in> tp_placed t")
  case True
  then show ?thesis using assms by (auto simp: topo_visit_def walk_ok_def)
next
  case False
  have "r \<in> reached adj R" using assms(2) by (auto simp: reached_def)
  then have "walk_ok R [(r, adj r)] (enter_pass r t)"
    using assms(1) False by (auto simp: walk_ok_def)
  from topo_loop_ok [OF this, of "Suc r"] show ?thesis
    using False assms(1) by (auto simp: topo_visit_def walk_ok_def)
qed

lemma topo_visit_all_ok:
  assumes "walk_ok R [] t" "set rs \<subseteq> R"
  shows "\<exists>t'. topo_visit_all adj rs t = Some t' \<and> walk_ok R [] t' \<and> set rs \<union> tp_placed t \<subseteq> set (tp_order t')"
  using assms
proof (induction rs arbitrary: t)
  case Nil
  then show ?case by (auto simp: walk_ok_def)
next
  case (Cons r rs)
  obtain t1 where 1: "topo_visit adj r t = Some t1" "walk_ok R [] t1" "insert r (tp_placed t) \<subseteq> set (tp_order t1)"
    using topo_visit_ok [OF Cons.prems(1), of r] Cons.prems(2) by auto
  obtain t2 where "topo_visit_all adj rs t1 = Some t2" "walk_ok R [] t2" "set rs \<union> tp_placed t1 \<subseteq> set (tp_order t2)"
    using Cons.IH [OF 1(2)] Cons.prems(2) by auto
  moreover have "set (tp_order t1) = tp_placed t1" using 1(2) by (simp add: walk_ok_def)
  ultimately show ?case using 1 by auto
qed

text \<open>The walk returns, finds no cycle, and orders exactly what the roots reach.\<close>

lemma schedule:
  "\<exists>t. topo_visit_all adj rs topo_start = Some t \<and> \<not> tp_cycle t \<and> distinct (tp_order t) \<and>
       deps_first adj (tp_order t) \<and> set (tp_order t) = reached adj (set rs)"
proof -
  have "walk_ok (set rs) [] topo_start" by (simp add: walk_ok_def topo_start_def)
  from topo_visit_all_ok [OF this subset_refl] obtain t where
    t: "topo_visit_all adj rs topo_start = Some t" "walk_ok (set rs) [] t" "set rs \<subseteq> set (tp_order t)"
    by auto
  have "reached adj (set rs) \<subseteq> set (tp_order t)"
    by (rule reached_closed [OF t(3)]) (use t(2) deps_first_closed in \<open>auto simp: walk_ok_def\<close>)
  then show ?thesis using t by (auto simp: walk_ok_def)
qed

end

subsection \<open>Sinks, culling and the final order\<close>

definition sink_root :: "graph \<Rightarrow> nat \<Rightarrow> bool" where
  "sink_root g i \<longleftrightarrow> list_ex (\<lambda>r. h_id (rn_handle r) = i \<and> (rn_imported r \<or> rn_history r)) (g_nodes g)"

definition is_sink :: "graph \<Rightarrow> pass_node \<Rightarrow> bool" where
  "is_sink g p \<longleftrightarrow>
     list_ex (\<lambda>a. access_is_write (ac_type a) \<and> sink_root g (h_id (ac_handle a))) (pn_accesses p)"

definition is_root :: "graph \<Rightarrow> pass_node \<Rightarrow> bool" where
  "is_root g p \<longleftrightarrow> \<not> pn_skip_init p \<and> (is_sink g p \<or> pn_force_keep p)"

definition adjacency :: "pass_node list \<Rightarrow> nat \<Rightarrow> nat list" where
  "adjacency ps v = (if v < length ps then pn_adjacency (ps ! v) else [])"

definition phase_cull :: "graph \<Rightarrow> graph option" where
  "phase_cull g =
     (let ps = map (\<lambda>p. if is_root g p then p\<lparr>pn_sink := True\<rparr> else p) (g_passes g)
      in map_option
           (\<lambda>t. if tp_cycle t then push_error (GraphError DependencyCycle) (g\<lparr>g_passes := ps\<rparr>)
                else g\<lparr>g_passes := map ((!) ps) (tp_order t)\<rparr>)
           (topo_visit_all (adjacency ps) (map pn_index (filter (is_root g) (g_passes g))) topo_start))"

definition hazard_adj :: "pass_node list \<Rightarrow> nat \<Rightarrow> nat list" where
  "hazard_adj ps = sw_adj (sweep_resource_versions (index_passes ps))"

interpretation hazard_dag: dag "hazard_adj ps" for ps
  by unfold_locales (auto simp: hazard_adj_def intro: adjacency_backward [OF indexed_index_passes])

lemma adjacency_linked:
  assumes "indexed (g_passes g)"
  shows "adjacency (g_passes (phase_link g)) = sw_adj (sweep_resource_versions (g_passes g))"
proof
  fix v
  let ?s = "sweep_resource_versions (g_passes g)"
  show "adjacency (g_passes (phase_link g)) v = sw_adj ?s v"
  proof (cases "v < length (g_passes g)")
    case True
    then show ?thesis using assms by (simp add: adjacency_def phase_link_def Let_def indexed_def)
  next
    case False
    let ?k = "if events (g_passes g) = [] then 0 else fst (last (events (g_passes g)))"
    have ok: "sweep_ok ?k ?s"
      using fold_sweep_inv [OF sweep_start_ok hazards_start events_sorted [OF assms]]
      by (simp add: sweep_events)
    have "sw_adj ?s v = []"
    proof (cases "events (g_passes g) = []")
      case True
      then show ?thesis by (simp add: sweep_events sweep_start_def)
    next
      case ne: False
      then have "fst (last (events (g_passes g))) < length (g_passes g)" using events_index [OF assms] by simp
      then show ?thesis using sweep_okD(7) [OF ok, of v] ne False by simp
    qed
    then show ?thesis using False by (simp add: adjacency_def phase_link_def Let_def)
  qed
qed

lemma hazard_adj_indexed: "indexed ps \<Longrightarrow> hazard_adj ps = sw_adj (sweep_resource_versions ps)"
proof -
  assume "indexed ps"
  then have "index_passes ps = ps" by (intro nth_equalityI) (simp_all add: index_passes_nth indexed_def)
  then show ?thesis by (simp add: hazard_adj_def)
qed

text \<open>What phases 1 and 2 make of an indexed graph.\<close>

definition root_indices :: "graph \<Rightarrow> nat list" where
  "root_indices g = map pn_index (filter (is_root g) (g_passes g))"

definition linked_passes :: "graph \<Rightarrow> pass_node list" where
  "linked_passes g = map (\<lambda>p. if is_root g p then p\<lparr>pn_sink := True\<rparr> else p) (g_passes (phase_link g))"

lemma root_phase_link:
  "is_root g (p\<lparr>pn_adjacency := x\<rparr>) = is_root g p" "is_root (phase_link g) (p\<lparr>pn_adjacency := x\<rparr>) = is_root g p" "is_root (phase_link g) p = is_root g p"
  by (simp_all add: is_root_def is_sink_def sink_root_def phase_link_def Let_def)

lemma adjacency_mark: "adjacency (map (\<lambda>p. if P p then p\<lparr>pn_sink := True\<rparr> else p) ps) = adjacency ps"
  by (auto simp: adjacency_def fun_eq_iff)

lemma cull_linked:
  assumes "indexed (g_passes g)"
  shows "\<exists>order. phase_cull (phase_link g) = Some ((phase_link g)\<lparr>g_passes := map ((!) (linked_passes g)) order\<rparr>) \<and>
     distinct order \<and> deps_first (hazard_adj (g_passes g)) order \<and>
     set order = reached (hazard_adj (g_passes g)) (set (root_indices g))"
proof -
  let ?ps = "linked_passes g"
  have adj: "adjacency ?ps = hazard_adj (g_passes g)"
    by (simp add: linked_passes_def adjacency_mark adjacency_linked [OF assms] hazard_adj_indexed [OF assms])
  have roots: "map pn_index (filter (is_root (phase_link g)) (g_passes (phase_link g))) = root_indices g"
    by (simp add: root_indices_def phase_link_def Let_def filter_map comp_def
        root_phase_link [unfolded phase_link_def Let_def])
  have mark: "map (\<lambda>p. if is_root (phase_link g) p then p\<lparr>pn_sink := True\<rparr> else p) (g_passes (phase_link g)) = ?ps"
    by (simp add: linked_passes_def root_phase_link)
  obtain t where "topo_visit_all (hazard_adj (g_passes g)) (root_indices g) topo_start = Some t"
    "\<not> tp_cycle t" "distinct (tp_order t)" "deps_first (hazard_adj (g_passes g)) (tp_order t)"
    "set (tp_order t) = reached (hazard_adj (g_passes g)) (set (root_indices g))"
    using hazard_dag.schedule [of "g_passes g" "root_indices g"] by blast
  then show ?thesis
    unfolding phase_cull_def Let_def mark adj roots by (intro exI [of _ "tp_order t"]) simp
qed

end
