(* ===== verification/Sizes.thy ===== *)
theory Sizes
  imports Topo
begin

text \<open>
  Concrete sizes: \<open>resolve_size\<close> walks a texture's \<open>relativeTo\<close> chain with a memo
  and a cycle trap (webgpu/base/RenderGraph.cpp). \<open>byId\<close> is the lookup by id.
\<close>

definition resolving_nodes :: "graph \<Rightarrow> nat" where
  "resolving_nodes g = length (filter (\<lambda>r. \<not> rn_resolving r) (g_nodes g))"

lemma resolving_decreases:
  assumes "find_node g i = Some r" "\<not> rn_resolving r"
  shows "resolving_nodes (upd_node i (\<lambda>r. r\<lparr>rn_resolving := True\<rparr>) g) < resolving_nodes g"
proof -
  have "r \<in> set (g_nodes g) \<and> h_id (rn_handle r) = i" using assms(1) by (rule find_node_Some)
  then show ?thesis
    unfolding resolving_nodes_def upd_node_simps
  proof (induction "g_nodes g" arbitrary: g)
    case (Cons q qs)
    obtain g' :: graph where g': "g_nodes g' = qs" by (meson graph.select_convs(1))
    have mono: "length (filter (\<lambda>r. \<not> rn_resolving r) (upd_where P (\<lambda>r. r\<lparr>rn_resolving := True\<rparr>) xs))
        \<le> length (filter (\<lambda>r. \<not> rn_resolving r) xs)" for P and xs :: "res_node list"
      by (induction xs) auto
    show ?case
    proof (cases "q = r")
      case True
      then show ?thesis
        using Cons.hyps(2) [symmetric] Cons.prems assms(2) mono [of _ qs] by (simp add: le_imp_less_Suc)
    next
      case False
      then have "r \<in> set qs \<and> h_id (rn_handle r) = i" using Cons.prems Cons.hyps(2) [symmetric] by simp
      from Cons.hyps(1) [OF g' [symmetric]] this g'
      show ?thesis using Cons.hyps(2) [symmetric] by simp
    qed
  qed simp
qed

definition memo_size :: "nat \<Rightarrow> extent3d \<Rightarrow> graph \<Rightarrow> extent3d \<times> graph" where
  "memo_size i e g = (e, upd_node i (\<lambda>r. r\<lparr>rn_resolved_done := True, rn_resolved := e\<rparr>) g)"

definition at_least_one :: "u32 \<Rightarrow> u32" where
  "at_least_one w = (if w \<noteq> 0 then w else 1)"

definition scaled_size :: "res_node \<Rightarrow> extent3d \<Rightarrow> extent3d" where
  "scaled_size r b =
     mk_extent (at_least_one (scale_dim (ext_width b) (rn_scale_x r)))
               (at_least_one (scale_dim (ext_height b) (rn_scale_y r))) (rn_depth_or_layers r)"

function resolve_size :: "nat \<Rightarrow> graph \<Rightarrow> extent3d \<times> graph" where
  "resolve_size i g =
     (case find_node g i of
        None \<Rightarrow> (extent_zero, g)
      | Some r \<Rightarrow>
          if rn_imported r \<or> rn_resolved_done r then (rn_resolved r, g)
          else if rn_size_kind r = SK_Absolute then
            memo_size i (mk_extent (rn_width r) (rn_height r) (rn_depth_or_layers r)) g
          else if rn_resolving r then
            (extent_zero, push_error (GraphError (CyclicRelative (node_name r))) g)
          else if h_id (rn_relative_to r) = 0 \<or> find_node g (h_id (rn_relative_to r)) = None then
            memo_size i extent_zero (push_error (GraphError (NoRelativeBase (node_name r))) g)
          else
            let (b, g1) = resolve_size (h_id (rn_relative_to r)) (upd_node i (\<lambda>r. r\<lparr>rn_resolving := True\<rparr>) g)
            in memo_size i (scaled_size r b) (upd_node i (\<lambda>r. r\<lparr>rn_resolving := False\<rparr>) g1))"
  by pat_completeness auto
termination
  by (relation "measure (\<lambda>(i, g). resolving_nodes g)") (auto intro: resolving_decreases)

declare resolve_size.simps [simp del]

subsection \<open>What a size is\<close>

text \<open>
  The declared part of a node, without the memo: an imported node keeps its size, any other has
  none yet. \<open>sized L i C e\<close>: the size of \<open>i\<close> is \<open>e\<close>, through the chain
  \<open>C\<close> of relative nodes.
\<close>

definition static :: "res_node \<Rightarrow> res_node" where
  "static r = r\<lparr>rn_resolving := False, rn_resolved_done := False,
                rn_resolved := (if rn_imported r then rn_resolved r else extent_zero)\<rparr>"

inductive sized :: "(nat \<Rightarrow> res_node option) \<Rightarrow> nat \<Rightarrow> nat list \<Rightarrow> extent3d \<Rightarrow> bool" for L where
  sized_imported: "L i = Some r \<Longrightarrow> rn_imported r \<Longrightarrow> sized L i [] (rn_resolved r)"
| sized_absolute: "L i = Some r \<Longrightarrow> \<not> rn_imported r \<Longrightarrow> rn_size_kind r = SK_Absolute \<Longrightarrow>
    sized L i [] (mk_extent (rn_width r) (rn_height r) (rn_depth_or_layers r))"
| sized_relative: "L i = Some r \<Longrightarrow> \<not> rn_imported r \<Longrightarrow> rn_size_kind r = SK_Relative \<Longrightarrow>
    h_id (rn_relative_to r) \<noteq> 0 \<Longrightarrow> sized L (h_id (rn_relative_to r)) C b \<Longrightarrow>
    sized L i (i # C) (scaled_size r b)"

inductive_cases sizedE: "sized L i C e"

lemma sized_relative_inv:
  "L i = Some r \<Longrightarrow> \<not> rn_imported r \<Longrightarrow> rn_size_kind r = SK_Relative \<Longrightarrow> sized L i C e \<Longrightarrow>
   \<exists>D d. C = i # D \<and> e = scaled_size r d \<and> sized L (h_id (rn_relative_to r)) D d"
  by (erule sizedE) auto

lemma sized_unique: "sized L i C e \<Longrightarrow> sized L i C' e' \<Longrightarrow> C' = C \<and> e' = e"
proof (induction arbitrary: C' e' rule: sized.induct)
  case (sized_imported i r)
  from sized_imported.prems show ?case by (cases rule: sizedE) (use sized_imported in auto)
next
  case (sized_absolute i r)
  from sized_absolute.prems show ?case by (cases rule: sizedE) (use sized_absolute in auto)
next
  case (sized_relative i r C b)
  obtain D d where
    "C' = i # D" "e' = scaled_size r d" "sized L (h_id (rn_relative_to r)) D d"
    using sized_relative_inv [OF sized_relative.hyps(1,2,3) sized_relative.prems] by blast
  then show ?case using sized_relative.IH by simp
qed

text \<open>A node on a chain has its own size, through the rest of the chain; so no chain is a cycle.\<close>

lemma sized_suffix: "sized L i C e \<Longrightarrow> j \<in> set C \<Longrightarrow> \<exists>D d. sized L j (j # D) d \<and> length D < length C"
proof (induction rule: sized.induct)
  case (sized_relative i r C b)
  show ?case
  proof (cases "j = i")
    case True
    then show ?thesis using sized.sized_relative [OF sized_relative.hyps(1-5)] by auto
  next
    case False
    then show ?thesis using sized_relative by fastforce
  qed
qed simp_all

lemma sized_acyclic:
  assumes "sized L i (i # C) e"
  shows "i \<notin> set C"
proof
  assume "i \<in> set C"
  from assms obtain r b where b: "L i = Some r" "sized L (h_id (rn_relative_to r)) C b"
    by (cases rule: sizedE) auto
  obtain D d where D: "sized L i (i # D) d" "length D < length C"
    using sized_suffix [OF b(2) \<open>i \<in> set C\<close>] by blast
  show False using sized_unique [OF assms D(1)] D(2) by simp
qed

definition agrees :: "(nat \<Rightarrow> res_node option) \<Rightarrow> graph \<Rightarrow> bool" where
  "agrees L g \<longleftrightarrow> (\<forall>i. map_option static (find_node g i) = L i)"

lemma find_upd_Some:
  assumes "\<And>r. rn_handle (f r) = rn_handle r"
  shows "find_node (upd_node i f g) j = Some r \<longleftrightarrow>
           (\<exists>q. find_node g j = Some q \<and> r = (if j = i then f q else q))"
  using find_node_Some [of g j]
  by (cases "find_node g j") (auto simp: find_node_upd_node [OF assms])

lemma sized_exists: "sized L i C e \<Longrightarrow> L i \<noteq> None"
  by (erule sized.cases) auto

definition memo_ok :: "(nat \<Rightarrow> res_node option) \<Rightarrow> graph \<Rightarrow> bool" where
  "memo_ok L g \<longleftrightarrow> agrees L g \<and>
     (\<forall>i r. find_node g i = Some r \<longrightarrow> rn_resolved_done r \<longrightarrow> (\<exists>C. sized L i C (rn_resolved r)))"

lemma static_simps [simp]:
  "rn_imported (static r) = rn_imported r" "rn_size_kind (static r) = rn_size_kind r"
  "rn_relative_to (static r) = rn_relative_to r" "rn_width (static r) = rn_width r"
  "rn_height (static r) = rn_height r" "rn_depth_or_layers (static r) = rn_depth_or_layers r"
  "scaled_size (static r) b = scaled_size r b" "rn_imported r \<Longrightarrow> rn_resolved (static r) = rn_resolved r"
  "rn_handle (static r) = rn_handle r"
  by (simp_all add: static_def scaled_size_def)

lemma agreesD: "agrees L g \<Longrightarrow> find_node g i = Some r \<Longrightarrow> L i = Some (static r)"
  unfolding agrees_def by (metis option.simps(9))

lemma agrees_None: "agrees L g \<Longrightarrow> L i = None \<longleftrightarrow> find_node g i = None"
  unfolding agrees_def by (metis option.map_disc_iff)

lemma agrees_upd:
  assumes "agrees L g" "\<And>r. rn_handle (f r) = rn_handle r"
    "\<And>r. find_node g i = Some r \<Longrightarrow> static (f r) = static r"
  shows "agrees L (upd_node i f g)"
proof -
  have "map_option static (find_node (upd_node i f g) j) = map_option static (find_node g j)" for j
  proof (cases "find_node g j")
    case (Some r)
    then show ?thesis using assms(3) [of r] find_node_Some [OF Some]
      by (auto simp: find_node_upd_node [OF assms(2)])
  qed (simp add: find_node_upd_node [OF assms(2)])
  then show ?thesis using assms(1) by (simp add: agrees_def)
qed

definition resolving_at :: "graph \<Rightarrow> nat \<Rightarrow> bool" where
  "resolving_at g i \<longleftrightarrow> (\<exists>r. find_node g i = Some r \<and> rn_resolving r)"

lemma memo_ok_resolving:
  assumes "memo_ok L g"
  shows "memo_ok L (upd_node i (\<lambda>r. r\<lparr>rn_resolving := b\<rparr>) g)"
    "find_node g i \<noteq> None \<Longrightarrow> resolving_at (upd_node i (\<lambda>r. r\<lparr>rn_resolving := b\<rparr>) g) j \<longleftrightarrow> (if j = i then b else resolving_at g j)"
proof -
  have "agrees L (upd_node i (\<lambda>r. r\<lparr>rn_resolving := b\<rparr>) g)"
    using assms by (intro agrees_upd) (auto simp: memo_ok_def static_def)
  moreover have "\<exists>C. sized L j C (rn_resolved r)"
    if f: "find_node (upd_node i (\<lambda>r. r\<lparr>rn_resolving := b\<rparr>) g) j = Some r" "rn_resolved_done r" for j r
  proof -
    obtain q where "find_node g j = Some q" "r = (if j = i then q\<lparr>rn_resolving := b\<rparr> else q)"
      using f(1) by (subst (asm) find_upd_Some) auto
    then have "find_node g j = Some q" "rn_resolved r = rn_resolved q" "rn_resolved_done q" using f(2) by (auto split: if_splits)
    then show ?thesis using assms by (simp add: memo_ok_def)
  qed
  ultimately show "memo_ok L (upd_node i (\<lambda>r. r\<lparr>rn_resolving := b\<rparr>) g)"
    by (simp add: memo_ok_def)
  show "find_node g i \<noteq> None \<Longrightarrow> resolving_at (upd_node i (\<lambda>r. r\<lparr>rn_resolving := b\<rparr>) g) j \<longleftrightarrow> (if j = i then b else resolving_at g j)"
    by (simp add: resolving_at_def find_upd_Some) auto
qed

lemma memo_ok_memo:
  assumes "memo_ok L g" "sized L i C e" "\<forall>r. find_node g i = Some r \<longrightarrow> \<not> rn_imported r"
  shows "memo_ok L (snd (memo_size i e g))" "resolving_at (snd (memo_size i e g)) j = resolving_at g j"
proof -
  have "agrees L (snd (memo_size i e g))"
    using assms unfolding memo_size_def snd_conv by (intro agrees_upd) (auto simp: memo_ok_def static_def)
  moreover have "\<exists>C. sized L j C (rn_resolved r)"
    if f: "find_node (snd (memo_size i e g)) j = Some r" "rn_resolved_done r" for j r
  proof -
    obtain q where q: "find_node g j = Some q"
      "r = (if j = i then q\<lparr>rn_resolved_done := True, rn_resolved := e\<rparr> else q)"
      using f(1) unfolding memo_size_def snd_conv by (subst (asm) find_upd_Some) auto
    then show ?thesis using f(2) assms by (cases "j = i") (auto simp: memo_ok_def)
  qed
  ultimately show "memo_ok L (snd (memo_size i e g))" by (simp add: memo_ok_def)
  show "resolving_at (snd (memo_size i e g)) j = resolving_at g j"
    by (cases "find_node g j") (auto simp: resolving_at_def memo_size_def find_upd_Some)
qed

lemma memo_size_frame [simp]:
  "fst (memo_size i e g) = e" "g_state (snd (memo_size i e g)) = g_state g"
  "g_errors (snd (memo_size i e g)) = g_errors g"
  by (simp_all add: memo_size_def)

subsection \<open>\<open>resolve_size\<close> computes it\<close>

lemma resolve_sized:
  assumes "sized L i C e" "memo_ok L g" "\<forall>j \<in> set C. \<not> resolving_at g j"
  shows "\<exists>g'. resolve_size i g = (e, g') \<and> memo_ok L g' \<and> (\<forall>j. resolving_at g' j = resolving_at g j) \<and>
           g_state g' = g_state g \<and> g_errors g' = g_errors g"
  using assms
proof (induction arbitrary: g rule: sized.induct)
  case (sized_imported i r)
  obtain q where q: "find_node g i = Some q" "r = static q"
    using sized_imported agrees_None [of L g i] agreesD [of L g i] by (cases "find_node g i") (auto simp: memo_ok_def)
  then show ?case using sized_imported by (subst resolve_size.simps) simp
next
  case (sized_absolute i r)
  obtain q where q: "find_node g i = Some q" "r = static q"
    using sized_absolute agrees_None [of L g i] agreesD [of L g i] by (cases "find_node g i") (auto simp: memo_ok_def)
  have s: "sized L i [] (mk_extent (rn_width r) (rn_height r) (rn_depth_or_layers r))"
    by (rule sized.sized_absolute) (use sized_absolute in auto)
  show ?case
  proof (cases "rn_resolved_done q")
    case True
    then obtain C where "sized L i C (rn_resolved q)"
      using sized_absolute.prems(1) q(1) by (auto simp: memo_ok_def)
    then have "rn_resolved q = mk_extent (rn_width r) (rn_height r) (rn_depth_or_layers r)"
      using sized_unique [OF s] by blast
    then show ?thesis using q True sized_absolute by (subst resolve_size.simps) simp
  next
    case False
    then show ?thesis using q sized_absolute memo_ok_memo [OF sized_absolute.prems(1) s]
      by (subst resolve_size.simps) (simp add: prod_eq_iff)
  qed
next
  case (sized_relative i r C b)
  obtain q where q: "find_node g i = Some q" "r = static q"
    using sized_relative agrees_None [of L g i] agreesD [of L g i] by (cases "find_node g i") (auto simp: memo_ok_def)
  have s: "sized L i (i # C) (scaled_size r b)"
    by (rule sized.sized_relative) (use sized_relative in auto)
  show ?case
  proof (cases "rn_resolved_done q")
    case True
    then obtain D where "sized L i D (rn_resolved q)"
      using sized_relative.prems(1) q(1) by (auto simp: memo_ok_def)
    then have "rn_resolved q = scaled_size r b"
      using sized_unique [OF s] by blast
    then show ?thesis using q True sized_relative by (subst resolve_size.simps) simp
  next
    case False
    let ?g = "upd_node i (\<lambda>r. r\<lparr>rn_resolving := True\<rparr>) g"
    have nr: "\<not> rn_resolving q" using sized_relative.prems(2) q by (auto simp: resolving_at_def)
    have ne: "find_node g i \<noteq> None" using q by simp
    note M = memo_ok_resolving [OF sized_relative.prems(1)]
    have "\<forall>j \<in> set C. \<not> resolving_at ?g j"
      using sized_relative.prems(2) sized_acyclic [OF s] M(2) [OF ne] by auto
    then obtain g1 where g1: "resolve_size (h_id (rn_relative_to r)) ?g = (b, g1)" "memo_ok L g1"
      "\<And>j. resolving_at g1 j = resolving_at ?g j" "g_state g1 = g_state g" "g_errors g1 = g_errors g"
      using sized_relative.IH [OF M(1) [of i True]] by auto
    let ?g2 = "upd_node i (\<lambda>r. r\<lparr>rn_resolving := False\<rparr>) g1"
    have base: "find_node g (h_id (rn_relative_to r)) \<noteq> None"
      using sized_exists [OF sized_relative.hyps(5)] agrees_None [of L g "h_id (rn_relative_to r)"] sized_relative.prems(1)
      by (cases "find_node g (h_id (rn_relative_to r))") (auto simp: memo_ok_def)
    have ne1: "find_node g1 i \<noteq> None"
      using agrees_None [of L g1 i] agrees_None [of L g i] ne g1(2) sized_relative.prems(1)
      by (cases "find_node g1 i") (auto simp: memo_ok_def)
    note M2 = memo_ok_resolving [OF g1(2), of i False]
    have res: "resolve_size i g = memo_size i (scaled_size q b) ?g2"
      using q nr False base g1(1) sized_relative.hyps by (subst resolve_size.simps) auto
    have "\<forall>x. find_node ?g2 i = Some x \<longrightarrow> \<not> rn_imported x"
      using agreesD [of L ?g2 i] M2(1) sized_relative.hyps by (auto simp: memo_ok_def)
    from memo_ok_memo [OF M2(1) s this] have "memo_ok L (snd (memo_size i (scaled_size r b) ?g2))"
      "\<And>j. resolving_at (snd (memo_size i (scaled_size r b) ?g2)) j = resolving_at ?g2 j" by auto
    moreover have "resolving_at ?g2 j = resolving_at g j" for j
      using M2(2) [OF ne1, of j] g1(3) [of j] M(2) [OF ne, of True j] nr q
      by (auto simp: resolving_at_def)
    ultimately show ?thesis
      using res q g1(4,5) by (simp add: prod_eq_iff)
  qed
qed

lemma resolve_size_frame:
  "g_passes (snd (resolve_size i g)) = g_passes g \<and> g_next_id (snd (resolve_size i g)) = g_next_id g \<and>
   (g_state g = RG_Failed \<longrightarrow> g_state (snd (resolve_size i g)) = RG_Failed)"
proof (induction i g rule: resolve_size.induct)
  case (1 i g)
  show ?case
    using 1 by (subst (1 2 3) resolve_size.simps)
      (auto simp: memo_size_def split: option.split prod.split)
qed

text \<open>Conversely, if it raises no error, the node has a size and that is the result.\<close>

lemma resolve_unsized:
  assumes "memo_ok L g" "find_node g i \<noteq> None" "g_state (snd (resolve_size i g)) \<noteq> RG_Failed"
  shows "\<exists>C. sized L i C (fst (resolve_size i g))"
  using assms
proof (induction i g rule: resolve_size.induct)
  case (1 i g)
  obtain q where q: "find_node g i = Some q" using "1.prems"(2) by auto
  note L = agreesD [of L g i q, OF _ q]
  have Li: "L i = Some (static q)" using L "1.prems"(1) by (simp add: memo_ok_def)
  note not_failed = "1.prems"(3)
  show ?case
  proof (cases "rn_imported q \<or> rn_resolved_done q")
    case True
    then have "fst (resolve_size i g) = rn_resolved q" using q by (subst resolve_size.simps) simp
    moreover have "\<exists>C. sized L i C (rn_resolved q)"
    proof (cases "rn_imported q")
      case True
      then show ?thesis using sized_imported [of L i, OF Li] by auto
    next
      case False
      then show ?thesis using \<open>rn_imported q \<or> rn_resolved_done q\<close> "1.prems"(1) q by (auto simp: memo_ok_def)
    qed
    ultimately show ?thesis by simp
  next
    case nd: False
    show ?thesis
    proof (cases "rn_size_kind q = SK_Absolute")
      case True
      then have "fst (resolve_size i g) = mk_extent (rn_width q) (rn_height q) (rn_depth_or_layers q)"
        using q nd by (subst resolve_size.simps) simp
      then show ?thesis using sized_absolute [of L i, OF Li] nd True by auto
    next
      case False
      then have rel: "rn_size_kind q = SK_Relative" by (cases "rn_size_kind q") simp_all
      let ?b = "h_id (rn_relative_to q)" and ?g = "upd_node i (\<lambda>r. r\<lparr>rn_resolving := True\<rparr>) g"
      have ok1: "\<not> rn_resolving q"
      proof
        assume "rn_resolving q"
        then have "resolve_size i g = (extent_zero, push_error (GraphError (CyclicRelative (node_name q))) g)"
          using q nd False by (subst resolve_size.simps) simp
        then show False using not_failed by simp
      qed
      have ok2: "\<not> (?b = 0 \<or> find_node g ?b = None)"
      proof
        assume "?b = 0 \<or> find_node g ?b = None"
        then have "resolve_size i g = memo_size i extent_zero (push_error (GraphError (NoRelativeBase (node_name q))) g)"
          using q nd False ok1 by (subst resolve_size.simps) simp
        then show False using not_failed by simp
      qed
      note ok = ok1 ok2
      have res: "resolve_size i g = (let (b, g1) = resolve_size ?b ?g in
          memo_size i (scaled_size q b) (upd_node i (\<lambda>r. r\<lparr>rn_resolving := False\<rparr>) g1))"
        using q nd False ok by (subst resolve_size.simps) auto
      have m: "memo_ok L ?g" by (rule memo_ok_resolving(1) [OF "1.prems"(1)])
      have e: "find_node ?g ?b \<noteq> None" using ok(2) by (simp add: find_node_upd_node)
      have "g_state (snd (resolve_size ?b ?g)) \<noteq> RG_Failed"
        using "1.prems"(3) unfolding res by (auto split: prod.splits)
      from "1.IH" [OF q nd False ok m e this] obtain C where "sized L ?b C (fst (resolve_size ?b ?g))" by blast
      then have "sized L i (i # C) (scaled_size (static q) (fst (resolve_size ?b ?g)))"
        using Li nd rel ok by (intro sized_relative) auto
      then show ?thesis unfolding res by (auto split: prod.split)
    qed
  qed
qed

subsection \<open>All the sizes of a frame\<close>

definition resolve_all :: "nat list \<Rightarrow> graph \<Rightarrow> graph" where
  "resolve_all ids g = fold (\<lambda>i g. snd (resolve_size i g)) ids g"

definition settled :: "graph \<Rightarrow> nat \<Rightarrow> bool" where
  "settled g i \<longleftrightarrow> (\<exists>r. find_node g i = Some r \<and> (rn_imported r \<or> rn_resolved_done r))"

lemma settled_upd:
  assumes "\<And>r. rn_handle (f r) = rn_handle r" "\<And>r. rn_imported (f r) = rn_imported r"
    "\<And>r. rn_resolved_done r \<Longrightarrow> rn_resolved_done (f r)" "settled g j"
  shows "settled (upd_node i f g) j"
  using assms(2-4) by (cases "j = i") (auto simp: settled_def find_upd_Some [OF assms(1)])

lemma settled_push_error [simp]: "settled (push_error e g) j = settled g j"
  by (simp add: settled_def)

lemma settled_memo_size: "settled g j \<Longrightarrow> settled (snd (memo_size i e g)) j"
  unfolding memo_size_def snd_conv by (rule settled_upd) auto

lemma resolve_size_settled: "settled g j \<Longrightarrow> settled (snd (resolve_size i g)) j"
proof (induction i g rule: resolve_size.induct)
  case (1 i g)
  have s: "settled (upd_node i (\<lambda>r. r\<lparr>rn_resolving := b\<rparr>) g') j" if "settled g' j" for b g'
    using that by (intro settled_upd) auto
  show ?case
    using 1 s by (subst resolve_size.simps)
      (auto split: option.split prod.split intro!: settled_memo_size)
qed

lemma memo_size_settles: "find_node g i \<noteq> None \<Longrightarrow> settled (snd (memo_size i e g)) i"
  by (auto simp: settled_def memo_size_def find_upd_Some)

lemma resolve_size_nodes: "find_node (snd (resolve_size i g)) j = None \<longleftrightarrow> find_node g j = None"
proof (induction i g rule: resolve_size.induct)
  case (1 i g)
  have u: "find_node (upd_node i f g') j = None \<longleftrightarrow> find_node g' j = None"
    if "\<And>r. rn_handle (f r) = rn_handle r" for f g'
    using that by (simp add: find_node_upd_node)
  show ?case
    using 1 by (subst resolve_size.simps)
      (auto simp: memo_size_def u split: option.split prod.split)
qed

lemma resolve_size_settles:
  assumes "find_node g i \<noteq> None" "g_state (snd (resolve_size i g)) \<noteq> RG_Failed"
  shows "settled (snd (resolve_size i g)) i"
proof -
  obtain q where q: "find_node g i = Some q" using assms(1) by auto
  show ?thesis
  proof (cases "rn_imported q \<or> rn_resolved_done q")
    case True
    then show ?thesis using q by (subst resolve_size.simps) (auto simp: settled_def)
  next
    case False
    have m: "settled (snd (memo_size i e g')) i" if "find_node g' i = None \<longleftrightarrow> find_node g i = None" for e g'
      using that assms(1) by (intro memo_size_settles) simp
    have u: "find_node (upd_node i (\<lambda>r. r\<lparr>rn_resolving := b\<rparr>) g') i = None \<longleftrightarrow> find_node g' i = None" for b g'
      by (simp add: find_node_upd_node)
    let ?b = "h_id (rn_relative_to q)" and ?g = "upd_node i (\<lambda>r. r\<lparr>rn_resolving := True\<rparr>) g"
    consider (abs) "rn_size_kind q = SK_Absolute"
      | (bad) "g_state (snd (resolve_size i g)) = RG_Failed"
      | (rel) "resolve_size i g = (let (b, g1) = resolve_size ?b ?g in
            memo_size i (scaled_size q b) (upd_node i (\<lambda>r. r\<lparr>rn_resolving := False\<rparr>) g1))"
      using q False
      by (cases "rn_size_kind q = SK_Absolute"; cases "rn_resolving q"; cases "?b = 0 \<or> find_node g ?b = None") (auto simp: resolve_size.simps [of i g])
    then show ?thesis
    proof cases
      case abs
      then have "resolve_size i g = memo_size i (mk_extent (rn_width q) (rn_height q) (rn_depth_or_layers q)) g"
        using q False by (subst resolve_size.simps) simp
      then show ?thesis using m [of g] by simp
    next
      case rel
      obtain b g1 where r: "resolve_size ?b ?g = (b, g1)" by fastforce
      have "find_node g1 i = None \<longleftrightarrow> find_node g i = None" using resolve_size_nodes [of ?b ?g i] r u by simp
      then have "find_node (upd_node i (\<lambda>r. r\<lparr>rn_resolving := False\<rparr>) g1) i = None \<longleftrightarrow> find_node g i = None" using u by simp
      from m [OF this] show ?thesis using rel r by simp
    qed (use assms(2) in simp)
  qed
qed

lemma resolve_all_sized:
  assumes "memo_ok L g" "\<forall>j. \<not> resolving_at g j" "\<forall>i \<in> set ids. \<exists>C e. sized L i C e" "g_state g \<noteq> RG_Failed"
  shows "memo_ok L (resolve_all ids g) \<and> (\<forall>j. \<not> resolving_at (resolve_all ids g) j) \<and>
     g_state (resolve_all ids g) = g_state g \<and> g_errors (resolve_all ids g) = g_errors g \<and>
     (\<forall>i. settled g i \<or> i \<in> set ids \<longrightarrow> settled (resolve_all ids g) i)"
  using assms
proof (induction ids arbitrary: g)
  case Nil
  then show ?case by (simp add: resolve_all_def)
next
  case (Cons i ids)
  obtain C e where s: "sized L i C e" using Cons.prems(3) by auto
  obtain g1 where g1: "resolve_size i g = (e, g1)" "memo_ok L g1" "\<forall>j. resolving_at g1 j = resolving_at g j"
    "g_state g1 = g_state g" "g_errors g1 = g_errors g"
    using resolve_sized [OF s Cons.prems(1)] Cons.prems(2) by auto
  have "find_node g i \<noteq> None"
    using sized_exists [OF s] agrees_None [of L g i] Cons.prems(1) by (cases "find_node g i") (auto simp: memo_ok_def)
  then have i: "settled g1 i" using resolve_size_settles [of g i] g1 Cons.prems(4) by simp
  have k: "settled g j \<Longrightarrow> settled g1 j" for j using resolve_size_settled [of g j i] g1(1) by simp
  have "memo_ok L (resolve_all ids g1) \<and> (\<forall>j. \<not> resolving_at (resolve_all ids g1) j) \<and>
     g_state (resolve_all ids g1) = g_state g1 \<and> g_errors (resolve_all ids g1) = g_errors g1 \<and>
     (\<forall>i. settled g1 i \<or> i \<in> set ids \<longrightarrow> settled (resolve_all ids g1) i)"
    using Cons.prems g1 by (intro Cons.IH) auto
  then show ?case using g1 i k by (auto simp: resolve_all_def)
qed

lemma settled_size:
  assumes "memo_ok L g" "settled g i" "sized L i C e" "find_node g i = Some r"
  shows "rn_resolved r = e"
proof (cases "rn_imported r")
  case True
  have "L i = Some (static r)" using assms(1,4) agreesD [of L g i r] by (simp add: memo_ok_def)
  then have "sized L i [] (rn_resolved r)" using sized_imported [of L i "static r"] True by simp
  then show ?thesis using sized_unique [OF assms(3)] by simp
next
  case False
  then obtain D where "sized L i D (rn_resolved r)" using assms by (auto simp: settled_def memo_ok_def)
  then show ?thesis using sized_unique [OF assms(3)] by simp
qed

text \<open>A texture sized against earlier declarations only always has a size.\<close>

lemma sized_earlier:
  assumes earlier: "\<And>i r. L i = Some r \<Longrightarrow> \<not> rn_imported r \<Longrightarrow> rn_size_kind r = SK_Relative \<Longrightarrow>
      h_id (rn_relative_to r) \<noteq> 0 \<and> h_id (rn_relative_to r) < i \<and> L (h_id (rn_relative_to r)) \<noteq> None"
    and "L i = Some r"
  shows "\<exists>C e. sized L i C e"
  using assms(2)
proof (induction i arbitrary: r rule: less_induct)
  case (less i)
  show ?case
  proof (cases "rn_imported r")
    case True
    then show ?thesis using less.prems sized_imported by blast
  next
    case ni: False
    show ?thesis
    proof (cases "rn_size_kind r = SK_Absolute")
      case True
      then show ?thesis using ni less.prems sized_absolute by blast
    next
      case False
      then have k: "rn_size_kind r = SK_Relative" by (cases "rn_size_kind r") simp_all
      note E = earlier [OF less.prems ni k]
      then obtain C b where "sized L (h_id (rn_relative_to r)) C b" using less.IH by blast
      then show ?thesis using sized_relative [of L i r C b] less.prems ni k E by blast
    qed
  qed
qed

end
