(* ===== verification/Validation.thy ===== *)
theory Validation
  imports Sizes
begin

text \<open>
  The checks \<open>compile_impl\<close> runs on the scheduled passes before a graph may reach the
  device: \<open>validate_history_layers\<close>, \<open>validate_cube_views\<close>,
  \<open>validate_access_ranges\<close> and \<open>validate_render_passes\<close> of
  webgpu/base/RenderGraph.cpp. None of them reads what reporting an error changes, so each is the
  list of its errors in the order the code pushes them.
\<close>

definition push_errors :: "rg_error list \<Rightarrow> graph \<Rightarrow> graph" where
  "push_errors es g = fold push_error es g"

lemma push_errors_state: "g_state (push_errors es g) = (if es = [] then g_state g else RG_Failed)"
proof -
  have "es \<noteq> [] \<Longrightarrow> g_state (fold push_error es g) = RG_Failed"
    by (induction es arbitrary: g rule: rev_induct) simp_all
  then show ?thesis by (simp add: push_errors_def)
qed

lemma push_errors_frame [simp]:
  "g_nodes (push_errors es g) = g_nodes g" "g_passes (push_errors es g) = g_passes g"
  "g_next_id (push_errors es g) = g_next_id g" "g_slots (push_errors es g) = g_slots g"
  "g_generation (push_errors es g) = g_generation g" "g_errors (push_errors es g) = g_errors g @ es"
  "g_pass_count (push_errors es g) = g_pass_count g" "g_transient_count (push_errors es g) = g_transient_count g"
  unfolding push_errors_def by (induction es arbitrary: g) simp_all

lemma find_node_push_errors [simp]: "find_node (push_errors es g) i = find_node g i"
  by (simp add: find_node_def)

lemma push_errors_Nil [simp]: "push_errors [] g = g"
  by (simp add: push_errors_def)

text \<open>\<open>s.byId[a.handle.id]\<close>, which the handle check made non-null.\<close>

definition on_node :: "graph \<Rightarrow> access \<Rightarrow> (res_node \<Rightarrow> 'e list) \<Rightarrow> 'e list" where
  "on_node g a f = (case find_node g (h_id (ac_handle a)) of None \<Rightarrow> [] | Some r \<Rightarrow> f r)"

definition all_accesses :: "graph \<Rightarrow> (pass_node \<Rightarrow> access \<Rightarrow> 'e list) \<Rightarrow> 'e list" where
  "all_accesses g f = concat (map (\<lambda>p. concat (map (f p) (pn_accesses p))) (g_passes g))"

subsection \<open>History pairs\<close>

fun history_errors :: "res_node list \<Rightarrow> rg_error list" where
  "history_errors [] = []"
| "history_errors (r # rs) =
     (if \<not> rn_history r \<or> rn_history_index r \<noteq> 0 then []
      else case rs of
             [] \<Rightarrow> [GraphError (HistoryNotAdjacent (node_name r))]
           | q # _ \<Rightarrow>
               if \<not> rn_history q \<or> rid_data (rn_id q) \<noteq> rid_data (rn_id r) \<or> rn_history_index q \<noteq> 1
               then [GraphError (HistoryNotAdjacent (node_name r))]
               else if pool_used r \<noteq> pool_used q
               then [GraphError (HistoryAsymmetric (node_name r) (pool_used r) (pool_used q))] else [])
     @ history_errors rs"

definition validate_history_layers :: "graph \<Rightarrow> graph" where
  "validate_history_layers g = push_errors (history_errors (g_nodes g)) g"

subsection \<open>Cube views\<close>

definition view_err :: "pass_node \<Rightarrow> res_node \<Rightarrow> view_error \<Rightarrow> rg_error" where
  "view_err p r e = ViewError (pass_name p) (node_name r) e"

definition cube_errors :: "graph \<Rightarrow> pass_node \<Rightarrow> access \<Rightarrow> rg_error list" where
  "cube_errors g p a =
     (if ac_view_dim a \<noteq> VD_Cube \<and> ac_view_dim a \<noteq> VD_CubeArray then []
      else on_node g a (\<lambda>r.
        if rn_kind r \<noteq> RK_Texture then []
        else if ac_type a = StorageRead \<or> ac_type a = StorageWrite then [view_err p r CubeStorage]
        else if rn_dimension r \<noteq> TD_2D then [view_err p r CubeNot2D]
        else if ext_width (rn_resolved r) \<noteq> ext_height (rn_resolved r) then
          [view_err p r (CubeNotSquare (ext_width (rn_resolved r)) (ext_height (rn_resolved r)))]
        else
          let layers = node_layers r; layerCount = ucast (ac_layer_count a) :: u32 in
          if ac_view_dim a = VD_Cube \<and> layerCount \<noteq> 6 then [view_err p r (CubeNeedsSix layerCount)]
          else if ac_view_dim a = VD_CubeArray \<and> (layerCount = 0 \<or> layerCount mod 6 \<noteq> 0)
            then [view_err p r (CubeArrayNeedsSixes layerCount)]
          else if ucast (ac_base_layer a) + layerCount > layers
            then [view_err p r (CubeExceeds (ucast (ac_base_layer a)) layerCount layers)]
          else []))"

definition validate_cube_views :: "graph \<Rightarrow> graph" where
  "validate_cube_views g = push_errors (all_accesses g (cube_errors g)) g"

subsection \<open>Subresource and byte ranges\<close>

definition texture_range_errors :: "pass_node \<Rightarrow> access \<Rightarrow> res_node \<Rightarrow> rg_error list" where
  "texture_range_errors p a r =
     (let mips = rn_mips r; layers = node_layers r;
          baseMip = ucast (ac_base_mip a) :: u32; mipCount = ucast (ac_mip_count a) :: u32;
          baseLayer = ucast (ac_base_layer a) :: u32; layerCount = ucast (ac_layer_count a) :: u32
      in if baseMip \<ge> mips then [view_err p r (MipPastEnd baseMip mips)]
         else if baseLayer \<ge> layers then [view_err p r (LayerPastEnd baseLayer layers)]
         else (if baseMip + mipCount > mips then [view_err p r (MipRange mipCount baseMip mips)] else []) @
              (if baseLayer + layerCount > layers then [view_err p r (LayerRange layerCount baseLayer layers)] else []))"

definition buffer_range_errors :: "pass_node \<Rightarrow> access \<Rightarrow> res_node \<Rightarrow> rg_error list" where
  "buffer_range_errors p a r =
     (if ac_buf_size a = 0 \<and> ac_buf_offset a = 0 then []
      else (if ac_buf_offset a + ac_buf_size a > rn_buffer_size r
            then [view_err p r (BufferRangePastEnd (ac_buf_offset a) (ac_buf_offset a + ac_buf_size a) (rn_buffer_size r))]
            else []) @
           (if is_bind_access (ac_type a) then
              (if ac_buf_size a = 0 then [view_err p r (BufferRangeEmpty (ac_buf_offset a) (rn_buffer_size r))] else []) @
              (if ac_buf_offset a mod 256 \<noteq> 0 then [view_err p r (BufferRangeMisaligned (ac_buf_offset a))] else [])
            else []))"

definition range_errors :: "graph \<Rightarrow> pass_node \<Rightarrow> access \<Rightarrow> rg_error list" where
  "range_errors g p a =
     on_node g a (\<lambda>r. if rn_kind r = RK_Texture then texture_range_errors p a r else buffer_range_errors p a r)"

definition validate_access_ranges :: "graph \<Rightarrow> graph" where
  "validate_access_ranges g = push_errors (all_accesses g (range_errors g)) g"

subsection \<open>Render passes\<close>

type_synonym attachment = "access \<times> res_node"

definition att_w :: "attachment \<Rightarrow> u32" where
  "att_w t = mip_dim (ext_width (rn_resolved (snd t))) (ucast (ac_base_mip (fst t)))"

definition att_h :: "attachment \<Rightarrow> u32" where
  "att_h t = mip_dim (ext_height (rn_resolved (snd t))) (ucast (ac_base_mip (fst t)))"

definition att_err :: "pass_node \<Rightarrow> attachment_error \<Rightarrow> rg_error" where
  "att_err p e = AttachmentError (pass_name p) e"

record gathered =
  ga_color :: "attachment list"
  ga_resolve :: "attachment list"
  ga_depth :: "attachment option"
  ga_errors :: "rg_error list"

definition gather_attachment :: "pass_node \<Rightarrow> attachment \<Rightarrow> gathered \<Rightarrow> gathered" where
  "gather_attachment p t s =
     (let a = fst t;
          check3d = (\<lambda>s. if rn_dimension (snd t) = TD_3D
                          then s\<lparr>ga_errors := ga_errors s @ [att_err p (Attachment3D (node_name (snd t)))]\<rparr> else s)
      in if ac_type a = ColorAttachment \<and> length (ga_color s) < kMaxColorAttachments
         then check3d (s\<lparr>ga_color := ga_color s @ [t]\<rparr>)
         else if ac_type a = ResolveAttachment \<and> length (ga_resolve s) < kMaxColorAttachments
         then check3d (s\<lparr>ga_resolve := ga_resolve s @ [t]\<rparr>)
         else if ac_type a = DepthStencilAttachment \<or> ac_type a = DepthStencilReadOnly
         then check3d (s\<lparr>ga_depth := Some t\<rparr>)
         else s)"

definition pass_attachments :: "graph \<Rightarrow> pass_node \<Rightarrow> attachment list" where
  "pass_attachments g p = concat (map (\<lambda>a. on_node g a (\<lambda>r. [(a, r)])) (pn_accesses p))"

definition gather :: "graph \<Rightarrow> pass_node \<Rightarrow> gathered" where
  "gather g p = fold (gather_attachment p) (pass_attachments g p)
     \<lparr>ga_color = [], ga_resolve = [], ga_depth = None, ga_errors = []\<rparr>"

definition ref_errors :: "pass_node \<Rightarrow> attachment \<Rightarrow> attachment \<Rightarrow> rg_error list" where
  "ref_errors p ref t =
     (if att_w t \<noteq> att_w ref \<or> att_h t \<noteq> att_h ref
      then [att_err p (AttachmentSize (node_name (snd t)) (att_w t) (att_h t) (node_name (snd ref)) (att_w ref) (att_h ref))]
      else []) @
     (if rn_samples (snd t) \<noteq> rn_samples (snd ref)
      then [att_err p (AttachmentSamples (node_name (snd t)) (rn_samples (snd t)) (node_name (snd ref)) (rn_samples (snd ref)))]
      else [])"

definition depth_errors :: "pass_node \<Rightarrow> attachment \<Rightarrow> rg_error list" where
  "depth_errors p t =
     (let a = fst t; r = snd t in
      if \<not> is_depth_format (rn_format r) then [att_err p (NotDepthFormat (node_name r))]
      else
        let stencilOps = (ac_stencil_load a \<noteq> LO_Undefined \<or> ac_stencil_store a \<noteq> SO_Undefined);
            hasStencil = format_has_stencil (rn_format r)
        in (if stencilOps \<and> \<not> hasStencil then [att_err p (StencilOpsWithoutStencil (node_name r))] else []) @
           (if \<not> stencilOps \<and> hasStencil \<and> ac_type a = DepthStencilAttachment
            then [att_err p (StencilOpsMissing (node_name r))] else []))"

definition resolve_errors :: "pass_node \<Rightarrow> attachment list \<Rightarrow> attachment \<Rightarrow> rg_error list" where
  "resolve_errors p colors t =
     (case find (\<lambda>c. ac_color_index (fst c) = ac_color_index (fst t)) colors of
        None \<Rightarrow> []
      | Some src \<Rightarrow>
          (if rn_samples (snd src) \<le> 1
           then [att_err p (ResolveSourceSingle (node_name (snd t)) (node_name (snd src)) (rn_samples (snd src)))] else []) @
          (if rn_samples (snd t) \<noteq> 1
           then [att_err p (ResolveTargetMulti (node_name (snd t)) (rn_samples (snd t)))] else []) @
          (if rn_format (snd t) \<noteq> rn_format (snd src)
           then [att_err p (ResolveFormat (node_name (snd t)) (node_name (snd src)))] else []) @
          (if att_w t \<noteq> att_w src \<or> att_h t \<noteq> att_h src
           then [att_err p (ResolveSize (node_name (snd t)) (att_w t) (att_h t) (node_name (snd src)) (att_w src) (att_h src))]
           else []))"

definition render_pass_errors :: "graph \<Rightarrow> pass_node \<Rightarrow> rg_error list" where
  "render_pass_errors g p =
     (if pn_kind p \<noteq> PK_Graphics then []
      else
        let s = gather g p; colors = ga_color s in
        ga_errors s @
        (case (colors, ga_depth s) of
           ([], None) \<Rightarrow> [att_err p NoAttachments]
         | _ \<Rightarrow>
             let ref = (if colors \<noteq> [] then hd colors else the (ga_depth s));
                 depth = (case ga_depth s of None \<Rightarrow> [] | Some t \<Rightarrow> [t])
             in concat (map (ref_errors p ref) colors) @ concat (map (ref_errors p ref) depth) @
                concat (map (depth_errors p) depth) @ concat (map (resolve_errors p colors) (ga_resolve s))))"

definition validate_render_passes :: "graph \<Rightarrow> graph" where
  "validate_render_passes g = push_errors (concat (map (render_pass_errors g) (g_passes g))) g"

end
