(* ===== verification/Device.thy ===== *)
theory Device
  imports Access Interner "HOL-Library.Multiset"
begin

text \<open>
  The GPU objects the pools create and release, and the cache of non-full texture views
  (\<open>ViewKey\<close>, \<open>Subview\<close>, \<open>SubviewPool\<close>, \<open>subview_for\<close> of
  webgpu/base/RenderGraph_internal.h and RenderGraph.cpp). The device is the parameter the C++
  reaches through webgpu.h: objects are numbered in creation order, and it records which are
  live and any release of one that is not. Cells of the free list only recycle memory, so a
  subview list is a list of keys and views.
\<close>

subsection \<open>Objects\<close>

record device =
  dv_next :: nat
  dv_live :: "nat set"
  dv_stray :: "nat list"

definition create_object :: "device \<Rightarrow> nat \<times> device" where
  "create_object d = (dv_next d, d\<lparr>dv_next := dv_next d + 1, dv_live := insert (dv_next d) (dv_live d)\<rparr>)"

definition release_object :: "nat \<Rightarrow> device \<Rightarrow> device" where
  "release_object x d =
     (if x \<in> dv_live d then d\<lparr>dv_live := dv_live d - {x}\<rparr> else d\<lparr>dv_stray := dv_stray d @ [x]\<rparr>)"

definition release_ref :: "gpu_ref \<Rightarrow> device \<Rightarrow> device" where
  "release_ref x d = (case x of None \<Rightarrow> d | Some v \<Rightarrow> release_object v d)"

subsection \<open>View keys and cached views\<close>

record view_key =
  vk_format :: texture_format
  vk_dim :: view_dimension
  vk_aspect :: texture_aspect
  vk_base_mip :: u32
  vk_mip_count :: u32
  vk_base_layer :: u32
  vk_layer_count :: u32

type_synonym subviews = "(view_key \<times> gpu_ref) list"

definition view_key_eq :: "view_key \<Rightarrow> view_key \<Rightarrow> bool" where
  "view_key_eq a b \<longleftrightarrow>
     vk_format a = vk_format b \<and> vk_dim a = vk_dim b \<and> vk_aspect a = vk_aspect b \<and>
     vk_base_mip a = vk_base_mip b \<and> vk_mip_count a = vk_mip_count b \<and>
     vk_base_layer a = vk_base_layer b \<and> vk_layer_count a = vk_layer_count b"

lemma view_key_eq_iff [simp]: "view_key_eq a b \<longleftrightarrow> a = b"
  by (auto simp: view_key_eq_def)

definition recycle_subviews :: "subviews \<Rightarrow> device \<Rightarrow> device" where
  "recycle_subviews vs d = fold (\<lambda>(k, v). release_ref v) vs d"

definition subview_for :: "subviews \<Rightarrow> view_key \<Rightarrow> device \<Rightarrow> gpu_ref \<times> subviews \<times> device" where
  "subview_for vs k d =
     (case find (\<lambda>(k', v). view_key_eq k' k) vs of
        Some (_, v) \<Rightarrow> (v, vs, d)
      | None \<Rightarrow> (let (v, d1) = create_object d in (Some v, (k, Some v) # vs, d1)))"

subsection \<open>Accounting for ownership\<close>

text \<open>
  \<open>accounts objs d\<close>: the objects of \<open>objs\<close> are live and each has one owner; new
  objects are fresh; nothing was released twice.
\<close>

definition refs :: "gpu_ref list \<Rightarrow> nat list" where
  "refs xs = concat (map (\<lambda>x. case x of None \<Rightarrow> [] | Some v \<Rightarrow> [v]) xs)"

definition accounts :: "nat list \<Rightarrow> device \<Rightarrow> bool" where
  "accounts objs d \<longleftrightarrow>
     distinct objs \<and> set objs \<subseteq> dv_live d \<and> (\<forall>x \<in> dv_live d. x < dv_next d) \<and> dv_stray d = []"

definition rest :: "nat list \<Rightarrow> device \<Rightarrow> nat set" where
  "rest objs d = dv_live d - set objs"

text \<open>
  \<open>hand_over xs ys d d'\<close>: the owner of \<open>xs\<close> comes to own \<open>ys\<close>, and everybody else's
  objects stay as they were.
\<close>

definition hand_over :: "nat list \<Rightarrow> nat list \<Rightarrow> device \<Rightarrow> device \<Rightarrow> bool" where
  "hand_over xs ys d d' \<longleftrightarrow>
     (\<forall>zs. accounts (xs @ zs) d \<longrightarrow> accounts (ys @ zs) d' \<and> rest ys d' = rest xs d)"

lemma refs_simps [simp]:
  "refs [] = []" "refs (None # xs) = refs xs" "refs (Some v # xs) = v # refs xs" "refs (xs @ ys) = refs xs @ refs ys"
  by (simp_all add: refs_def)

lemma accounts_perm: "accounts xs d \<Longrightarrow> mset xs = mset ys \<Longrightarrow> accounts ys d"
  unfolding accounts_def by (metis mset_eq_imp_distinct_iff mset_eq_setD)

lemma rest_perm: "mset xs = mset ys \<Longrightarrow> rest xs d = rest ys d"
  unfolding rest_def by (metis mset_eq_setD)

lemma hand_over_refl: "hand_over xs xs d d"
  by (simp add: hand_over_def)

lemma hand_over_trans: "hand_over xs ys d d' \<Longrightarrow> hand_over ys zs d' d'' \<Longrightarrow> hand_over xs zs d d''"
  unfolding hand_over_def by metis

lemma hand_over_perm:
  assumes "hand_over xs ys d d'" "mset xs' = mset xs" "mset ys' = mset ys"
  shows "hand_over xs' ys' d d'"
proof -
  have a: "accounts (xs' @ zs) d \<Longrightarrow> accounts (xs @ zs) d" "accounts (ys @ zs) d' \<Longrightarrow> accounts (ys' @ zs) d'" for zs
    using accounts_perm assms(2,3) by (metis mset_append)+
  show ?thesis
    unfolding hand_over_def using assms(1) [unfolded hand_over_def] a rest_perm assms(2,3) by metis
qed

lemma rest_append: "accounts (xs @ zs) d \<Longrightarrow> rest (xs @ zs) d = rest xs d - set zs"
  by (auto simp: rest_def)

text \<open>An owner inside a larger one.\<close>

lemma hand_over_frame:
  assumes h: "hand_over xs ys d d'"
  shows "hand_over (us @ xs @ vs) (us @ ys @ vs) d d'"
proof -
  have "accounts (us @ ys @ vs @ zs) d' \<and> rest (us @ ys @ vs) d' = rest (us @ xs @ vs) d"
    if a: "accounts (us @ xs @ vs @ zs) d" for zs
  proof -
    have p: "accounts (xs @ us @ vs @ zs) d" by (rule accounts_perm [OF a]) simp
    then have y: "accounts (ys @ us @ vs @ zs) d'" "rest ys d' = rest xs d"
      using h [unfolded hand_over_def] by blast+
    have "rest (us @ ys @ vs) d' = rest ys d' - set (us @ vs)" "rest (us @ xs @ vs) d = rest xs d - set (us @ vs)"
      by (auto simp: rest_def)
    then show ?thesis using accounts_perm [OF y(1), of "us @ ys @ vs @ zs"] y(2) by simp
  qed
  then show ?thesis by (simp add: hand_over_def)
qed

lemma create_hand_over: "create_object d = (v, d') \<Longrightarrow> hand_over [] [v] d d'"
  by (auto simp: create_object_def hand_over_def accounts_def rest_def less_Suc_eq)

lemma release_hand_over: "hand_over [v] [] d (release_object v d)"
  by (auto simp: release_object_def hand_over_def accounts_def rest_def)

lemma release_ref_hand_over: "hand_over (refs [x]) [] d (release_ref x d)"
  by (cases x) (simp_all add: release_ref_def hand_over_refl release_hand_over)

lemma recycle_hand_over: "hand_over (refs (map snd vs)) [] d (recycle_subviews vs d)"
proof (induction vs arbitrary: d)
  case Nil
  then show ?case by (simp add: recycle_subviews_def hand_over_refl)
next
  case (Cons kv vs)
  obtain k v where kv: "kv = (k, v)" by (cases kv)
  have "hand_over (refs [v] @ refs (map snd vs)) (refs (map snd vs)) d (release_ref v d)"
    using hand_over_frame [OF release_ref_hand_over [of v d], of "[]" "refs (map snd vs)"] by simp
  then have "hand_over (refs [v] @ refs (map snd vs)) [] d (recycle_subviews vs (release_ref v d))"
    using Cons hand_over_trans by blast
  moreover have "recycle_subviews (kv # vs) d = recycle_subviews vs (release_ref v d)"
    by (simp add: recycle_subviews_def kv)
  moreover have "refs (map snd (kv # vs)) = refs [v] @ refs (map snd vs)" by (cases v) (simp_all add: kv)
  ultimately show ?case by simp
qed

lemma subview_hand_over:
  assumes "subview_for vs k d = (v, vs', d')"
  shows "hand_over (refs (map snd vs)) (refs (map snd vs')) d d'"
proof (cases "find (\<lambda>(k', v). view_key_eq k' k) vs")
  case (Some kv)
  then show ?thesis using assms by (cases kv) (simp add: subview_for_def hand_over_refl)
next
  case None
  then obtain w where w: "create_object d = (w, d')" "vs' = (k, Some w) # vs"
    using assms by (auto simp: subview_for_def split: prod.splits)
  show ?thesis using hand_over_frame [OF create_hand_over [OF w(1)], of "[]" "refs (map snd vs)"] w(2) by simp
qed

text \<open>A view, once created for a key, is what every later request for the key gets.\<close>

lemma subview_for_cached:
  assumes "subview_for vs k d = (v, vs', d')"
  shows "subview_for vs' k e = (v, vs', e)"
proof (cases "find (\<lambda>(k', v). view_key_eq k' k) vs")
  case (Some kv)
  then show ?thesis using assms by (cases kv) (auto simp: subview_for_def)
next
  case None
  then show ?thesis using assms by (auto simp: subview_for_def split: prod.splits)
qed

subsection \<open>Owners\<close>

text \<open>A component that owns GPU objects: its operations hand its objects over to itself.\<close>

locale object_keeper =
  fixes owned :: "'p \<Rightarrow> nat list"
    and valid :: "'p \<Rightarrow> bool"
    and ops :: "('p \<times> device \<Rightarrow> 'p \<times> device) set"
  assumes op_hands: "f \<in> ops \<Longrightarrow> valid p \<Longrightarrow> f (p, d) = (p', d') \<Longrightarrow> valid p' \<and> hand_over (owned p) (owned p') d d'"
begin

lemma run_hands:
  assumes "set fs \<subseteq> ops" "valid p" "fold id fs (p, d) = (p', d')"
  shows "valid p' \<and> hand_over (owned p) (owned p') d d'"
  using assms
proof (induction fs arbitrary: p d)
  case Nil
  then show ?case by (simp add: hand_over_refl)
next
  case (Cons f fs)
  obtain p1 d1 where f: "f (p, d) = (p1, d1)" by fastforce
  then have 1: "valid p1 \<and> hand_over (owned p) (owned p1) d d1" using op_hands [of f p d p1 d1] Cons.prems by simp
  then have "valid p' \<and> hand_over (owned p1) (owned p') d1 d'" using Cons.IH [of p1 d1] Cons.prems f by simp
  then show ?case using 1 hand_over_trans by blast
qed

text \<open>No object is released twice, and the objects of others stay live.\<close>

lemma kept:
  assumes "set fs \<subseteq> ops" "valid p" "accounts (owned p) d" "fold id fs (p, d) = (p', d')"
  shows "valid p' \<and> accounts (owned p') d' \<and> dv_live d' - set (owned p') = dv_live d - set (owned p)"
proof -
  have "valid p'" "hand_over (owned p) (owned p') d d'" using run_hands [OF assms(1,2,4)] by auto
  then show ?thesis using assms(3) unfolding hand_over_def rest_def by (metis append_Nil2)
qed

end

text \<open>One that can be closed: closing releases everything.\<close>

locale object_owner = object_keeper owned valid ops
  for owned :: "'p \<Rightarrow> nat list" and valid :: "'p \<Rightarrow> bool" and ops :: "('p \<times> device \<Rightarrow> 'p \<times> device) set" +
  fixes close :: "'p \<times> device \<Rightarrow> 'p \<times> device"
  assumes close_empties: "valid p \<Longrightarrow> close (p, d) = (p', d') \<Longrightarrow> owned p' = [] \<and> hand_over (owned p) [] d d'"
begin

text \<open>No object is released twice, and after closing exactly the strangers' objects are live.\<close>

lemma balanced:
  assumes "set fs \<subseteq> ops" "valid p" "accounts (owned p) d" "close (fold id fs (p, d)) = (p', d')"
  shows "dv_stray d' = [] \<and> dv_live d' = dv_live d - set (owned p)"
proof -
  obtain p1 d1 where r: "fold id fs (p, d) = (p1, d1)" by fastforce
  have 1: "valid p1" "hand_over (owned p) (owned p1) d d1" using run_hands [OF assms(1,2) r] by auto
  have "hand_over (owned p1) [] d1 d'" using close_empties [OF 1(1)] assms(4) r by simp
  then have "hand_over (owned p) [] d d'" using 1(2) hand_over_trans by blast
  from this [unfolded hand_over_def, rule_format, of "[]"] assms(3) show ?thesis
    by (auto simp: accounts_def rest_def)
qed

end

end
