(* ===== verification/Persistent_Pool.thy ===== *)
theory Persistent_Pool
  imports Device Graph
begin

text \<open>
  \<open>PersistentResourcePool\<close> of webgpu/base/RenderGraph_internal.h and RenderGraph.cpp: one
  entry per logical resource, found by interned name, whose physical layers the frames rotate
  through. The arrays \<open>tex\<close>, \<open>view\<close>, \<open>subviews\<close> and \<open>buf\<close> over the
  layers are one list of records. \<open>alloc_entry\<close> returns a default-constructed cell, recycled or
  new, so the free list is not part of the value. Clocks and the rotation counter are
  \<open>nat\<close>: 64-bit counters of frames.
\<close>

definition kLayers :: nat where "kLayers = 2"
definition kRetain :: nat where "kRetain = 4"

record layer_objects =
  lo_tex :: gpu_ref
  lo_view :: gpu_ref
  lo_subviews :: subviews
  lo_buf :: gpu_ref

definition no_objects :: layer_objects where
  "no_objects = \<lparr>lo_tex = None, lo_view = None, lo_subviews = [], lo_buf = None\<rparr>"

record pentry =
  pe_id :: resource_id
  pe_frame :: nat
  pe_last :: nat
  pe_prev :: nat
  pe_layers :: nat
  pe_kind :: resource_kind
  pe_init_hash :: u64
  pe_baked :: bool
  pe_history_hash :: u64
  pe_objects :: "layer_objects list"
  pe_created :: bool
  pe_created_clock :: "nat option" \<comment> \<open>\<open>None\<close> is \<open>UINT64_MAX\<close>\<close>
  pe_sig :: tex_signature
  pe_usage :: texture_usage
  pe_usage_at_create :: texture_usage
  pe_buffer_size :: u64
  pe_buf_usage :: buffer_usage
  pe_buf_usage_at_create :: buffer_usage

record persistent_pool =
  pp_entries :: "pentry list"
  pp_clock :: nat

definition alloc_entry :: "resource_id \<Rightarrow> pentry" where
  "alloc_entry rid = \<lparr>pe_id = rid, pe_frame = 0, pe_last = 0, pe_prev = 0, pe_layers = kLayers,
     pe_kind = RK_Texture, pe_init_hash = 0, pe_baked = False, pe_history_hash = 0,
     pe_objects = replicate kLayers no_objects, pe_created = False, pe_created_clock = None,
     pe_sig = sig_default, pe_usage = {}, pe_usage_at_create = {}, pe_buffer_size = 0, pe_buf_usage = {},
     pe_buf_usage_at_create = {}\<rparr>"

definition is_entry_of :: "resource_id \<Rightarrow> pentry \<Rightarrow> bool" where
  "is_entry_of rid e \<longleftrightarrow> rid_value (pe_id e) = rid_value rid \<and> rid_data (pe_id e) = rid_data rid"

definition pool_find :: "resource_id \<Rightarrow> persistent_pool \<Rightarrow> pentry option" where
  "pool_find rid pool = find (is_entry_of rid) (pp_entries pool)"

text \<open>\<open>e->x = y\<close> through the pointer \<open>find\<close> returned.\<close>

fun upd_first :: "('a \<Rightarrow> bool) \<Rightarrow> ('a \<Rightarrow> 'a) \<Rightarrow> 'a list \<Rightarrow> 'a list" where
  "upd_first P f [] = []"
| "upd_first P f (x # xs) = (if P x then f x # xs else x # upd_first P f xs)"

definition upd_entry :: "resource_id \<Rightarrow> (pentry \<Rightarrow> pentry) \<Rightarrow> persistent_pool \<Rightarrow> persistent_pool" where
  "upd_entry rid f pool = pool\<lparr>pp_entries := upd_first (is_entry_of rid) f (pp_entries pool)\<rparr>"

subsection \<open>Recreation\<close>

definition tex_entry_would_recreate :: "pentry \<Rightarrow> tex_signature \<Rightarrow> texture_usage \<Rightarrow> bool" where
  "tex_entry_would_recreate e sig usage \<longleftrightarrow>
     \<not> pe_created e \<or> \<not> sig_eq (pe_sig e) sig \<or> usage - pe_usage_at_create e \<noteq> {}"

definition buf_entry_would_recreate :: "pentry \<Rightarrow> u64 \<Rightarrow> buffer_usage \<Rightarrow> bool" where
  "buf_entry_would_recreate e sz usage \<longleftrightarrow>
     \<not> pe_created e \<or> pe_buffer_size e \<noteq> sz \<or> usage - pe_buf_usage_at_create e \<noteq> {}"

definition history_hash_forces_destroy :: "pentry \<Rightarrow> u64 \<Rightarrow> bool" where
  "history_hash_forces_destroy e hash \<longleftrightarrow> hash \<noteq> 0 \<and> pe_history_hash e \<noteq> hash"

definition destroy_layer :: "layer_objects \<Rightarrow> device \<Rightarrow> device" where
  "destroy_layer l d = release_ref (lo_buf l) (release_ref (lo_tex l) (release_ref (lo_view l)
     (recycle_subviews (lo_subviews l) d)))"

definition destroy_entry :: "pentry \<Rightarrow> device \<Rightarrow> pentry \<times> device" where
  "destroy_entry e d =
     (e\<lparr>pe_objects := map (\<lambda>_. no_objects) (pe_objects e), pe_created := False, pe_baked := False\<rparr>,
      fold destroy_layer (pe_objects e) d)"

fun create_layers :: "(device \<Rightarrow> layer_objects \<times> device) \<Rightarrow> nat \<Rightarrow> layer_objects list \<Rightarrow> device \<Rightarrow> layer_objects list \<times> device" where
  "create_layers mk n [] d = ([], d)"
| "create_layers mk 0 ls d = (ls, d)"
| "create_layers mk (Suc n) (l # ls) d =
     (let (l', d1) = mk d; (ls', d2) = create_layers mk n ls d1 in (l' # ls', d2))"

definition create_texture_layer :: "device \<Rightarrow> layer_objects \<times> device" where
  "create_texture_layer d =
     (let (t, d1) = create_object d; (v, d2) = create_object d1
      in (no_objects\<lparr>lo_tex := Some t, lo_view := Some v\<rparr>, d2))"

definition create_buffer_layer :: "device \<Rightarrow> layer_objects \<times> device" where
  "create_buffer_layer d = (let (b, d1) = create_object d in (no_objects\<lparr>lo_buf := Some b\<rparr>, d1))"

definition realize_texture_entry :: "nat \<Rightarrow> tex_signature \<Rightarrow> pentry \<Rightarrow> device \<Rightarrow> pentry \<times> device" where
  "realize_texture_entry clock sig e d =
     (if \<not> tex_entry_would_recreate e sig (pe_usage e) then (e, d)
      else
        let (e1, d1) = destroy_entry e d;
            (ls, d2) = create_layers create_texture_layer (pe_layers e1) (pe_objects e1) d1
        in (e1\<lparr>pe_sig := sig, pe_usage_at_create := pe_usage e1, pe_objects := ls, pe_created := True,
               pe_created_clock := Some clock\<rparr>, d2))"

definition realize_buffer_entry :: "nat \<Rightarrow> u64 \<Rightarrow> pentry \<Rightarrow> device \<Rightarrow> pentry \<times> device" where
  "realize_buffer_entry clock sz e d =
     (if \<not> buf_entry_would_recreate e sz (pe_buf_usage e) then (e, d)
      else
        let (e1, d1) = destroy_entry e d;
            (ls, d2) = create_layers create_buffer_layer (pe_layers e1) (pe_objects e1) d1
        in (e1\<lparr>pe_buffer_size := sz, pe_buf_usage_at_create := pe_buf_usage e1, pe_objects := ls,
               pe_created := True, pe_created_clock := Some clock\<rparr>, d2))"

subsection \<open>Frames\<close>

text \<open>\<open>touch\<close> on an entry of an earlier frame.\<close>

definition touch_entry :: "nat \<Rightarrow> nat \<Rightarrow> u64 \<Rightarrow> resource_kind \<Rightarrow> pentry \<Rightarrow> device \<Rightarrow> pentry \<times> device" where
  "touch_entry clock layers hash kind e d =
     (let (e1, d1) = (if pe_kind e \<noteq> kind \<or> pe_layers e \<noteq> layers then destroy_entry e d else (e, d));
          e2 = e1\<lparr>pe_prev := pe_last e1, pe_frame := pe_frame e1 + 1, pe_last := clock, pe_layers := layers,
                  pe_kind := kind\<rparr>
      in if history_hash_forces_destroy e2 hash then
           let (e3, d2) = destroy_entry e2 d1 in (e3\<lparr>pe_history_hash := hash\<rparr>, d2)
         else (e2, d1))"

definition touch :: "resource_id \<Rightarrow> nat \<Rightarrow> u64 \<Rightarrow> resource_kind \<Rightarrow> persistent_pool \<times> device \<Rightarrow> persistent_pool \<times> device" where
  "touch rid layers hash kind st =
     (case st of (pool, d) \<Rightarrow>
        (case pool_find rid pool of
           Some e \<Rightarrow>
             if pe_last e = pp_clock pool then (pool, d)
             else
               let (e', d') = touch_entry (pp_clock pool) layers hash kind e d
               in (upd_entry rid (\<lambda>_. e') pool, d')
         | None \<Rightarrow>
             (pool\<lparr>pp_entries := (alloc_entry rid)\<lparr>pe_last := pp_clock pool, pe_prev := pp_clock pool,
                pe_layers := layers, pe_kind := kind, pe_history_hash := hash\<rparr> # pp_entries pool\<rparr>, d)))"

definition slot :: "pentry \<Rightarrow> nat \<Rightarrow> nat" where
  "slot e layerIndex = (pe_frame e + layerIndex) mod pe_layers e"

fun evict_entries :: "nat \<Rightarrow> pentry list \<Rightarrow> device \<Rightarrow> pentry list \<times> device" where
  "evict_entries clock [] d = ([], d)"
| "evict_entries clock (e # es) d =
     (if clock - pe_last e \<ge> kRetain then evict_entries clock es (snd (destroy_entry e d))
      else let (es', d') = evict_entries clock es d in (e # es', d'))"

definition persistent_end_frame :: "persistent_pool \<times> device \<Rightarrow> persistent_pool \<times> device" where
  "persistent_end_frame st =
     (case st of (pool, d) \<Rightarrow>
        let (es, d') = evict_entries (pp_clock pool) (pp_entries pool) d
        in (\<lparr>pp_entries = es, pp_clock = pp_clock pool + 1\<rparr>, d'))"

definition persistent_destroy_all :: "persistent_pool \<times> device \<Rightarrow> persistent_pool \<times> device" where
  "persistent_destroy_all st =
     (case st of (pool, d) \<Rightarrow> (pool\<lparr>pp_entries := []\<rparr>, fold (\<lambda>e d. snd (destroy_entry e d)) (pp_entries pool) d))"

definition empty_persistent_pool :: persistent_pool where
  "empty_persistent_pool = \<lparr>pp_entries = [], pp_clock = 0\<rparr>"

subsection \<open>Who owns what\<close>

definition layer_owned :: "layer_objects \<Rightarrow> nat list" where
  "layer_owned l = refs (map snd (lo_subviews l)) @ refs [lo_view l] @ refs [lo_tex l] @ refs [lo_buf l]"

definition layers_owned :: "layer_objects list \<Rightarrow> nat list" where
  "layers_owned ls = concat (map layer_owned ls)"

definition entry_owned :: "pentry \<Rightarrow> nat list" where
  "entry_owned e = layers_owned (pe_objects e)"

definition entries_owned :: "pentry list \<Rightarrow> nat list" where
  "entries_owned es = concat (map entry_owned es)"

definition persistent_owned :: "persistent_pool \<Rightarrow> nat list" where
  "persistent_owned pool = entries_owned (pp_entries pool)"

lemma owned_simps [simp]:
  "layers_owned [] = []" "layers_owned (l # ls) = layer_owned l @ layers_owned ls"
  "entries_owned [] = []" "entries_owned (e # es) = entry_owned e @ entries_owned es"
  "layer_owned no_objects = []"
  by (simp_all add: layers_owned_def entries_owned_def layer_owned_def no_objects_def)

lemma layers_owned_blank: "layers_owned (map (\<lambda>_. no_objects) ls) = []"
  by (induction ls) simp_all

lemma hand_over_front: "hand_over xs [] d d' \<Longrightarrow> hand_over (xs @ ys) ys d d'"
  using hand_over_frame [of xs "[]" d d' "[]" ys] by simp

lemma destroy_layer_hands: "hand_over (layer_owned l) [] d (destroy_layer l d)"
proof -
  let ?d1 = "recycle_subviews (lo_subviews l) d"
  let ?d2 = "release_ref (lo_view l) ?d1"
  let ?d3 = "release_ref (lo_tex l) ?d2"
  have "hand_over (layer_owned l) (refs [lo_view l] @ refs [lo_tex l] @ refs [lo_buf l]) d ?d1"
    unfolding layer_owned_def by (rule hand_over_front [OF recycle_hand_over])
  moreover have "hand_over (refs [lo_view l] @ refs [lo_tex l] @ refs [lo_buf l]) (refs [lo_tex l] @ refs [lo_buf l]) ?d1 ?d2"
    by (rule hand_over_front [OF release_ref_hand_over])
  moreover have "hand_over (refs [lo_tex l] @ refs [lo_buf l]) (refs [lo_buf l]) ?d2 ?d3"
    by (rule hand_over_front [OF release_ref_hand_over])
  moreover have "hand_over (refs [lo_buf l]) [] ?d3 (release_ref (lo_buf l) ?d3)"
    by (rule release_ref_hand_over)
  ultimately show ?thesis
    unfolding destroy_layer_def by (meson hand_over_trans)
qed

lemma destroy_layers_hands: "hand_over (layers_owned ls) [] d (fold destroy_layer ls d)"
proof (induction ls arbitrary: d)
  case (Cons l ls)
  have "hand_over (layer_owned l @ layers_owned ls) (layers_owned ls) d (destroy_layer l d)"
    by (rule hand_over_front [OF destroy_layer_hands])
  then show ?case using Cons hand_over_trans by fastforce
qed (simp add: hand_over_refl)

lemma destroy_entry_hands:
  "destroy_entry e d = (e', d') \<Longrightarrow> entry_owned e' = [] \<and> hand_over (entry_owned e) [] d d'"
  by (auto simp: destroy_entry_def entry_owned_def layers_owned_blank destroy_layers_hands)

lemma create_layers_hands:
  assumes mk: "\<And>d l d'. mk d = (l, d') \<Longrightarrow> hand_over [] (layer_owned l) d d'"
    and "layers_owned ls = []" "create_layers mk n ls d = (ls', d')"
  shows "hand_over [] (layers_owned ls') d d' \<and> length ls' = length ls"
  using assms(2,3)
proof (induction ls arbitrary: n d ls' d')
  case Nil
  then show ?case by (simp add: hand_over_refl)
next
  case (Cons l ls)
  show ?case
  proof (cases n)
    case 0
    then show ?thesis using Cons.prems by (auto simp: hand_over_refl)
  next
    case (Suc m)
    obtain l1 d1 ls2 d2 where 1: "mk d = (l1, d1)" "create_layers mk m ls d1 = (ls2, d2)" by (meson surj_pair)
    then have r: "ls' = l1 # ls2" "d' = d2" using Cons.prems(2) by (simp_all add: Suc)
    have "hand_over [] (layers_owned ls2) d1 d2 \<and> length ls2 = length ls"
      using Cons.IH [OF _ 1(2)] Cons.prems(1) by simp
    moreover have "hand_over (layer_owned l1 @ []) (layer_owned l1 @ layers_owned ls2) d1 d2"
      using hand_over_frame [of "[]" "layers_owned ls2" d1 d2 "layer_owned l1" "[]"] calculation by simp
    ultimately show ?thesis using mk [OF 1(1)] hand_over_trans by (fastforce simp: r)
  qed
qed

lemma create_texture_layer_hands: "create_texture_layer d = (l, d') \<Longrightarrow> hand_over [] (layer_owned l) d d'"
proof -
  assume c: "create_texture_layer d = (l, d')"
  obtain t d1 v d2 where o: "create_object d = (t, d1)" "create_object d1 = (v, d2)" by (meson surj_pair)
  have "hand_over [t] [v, t] d1 d2"
    using hand_over_frame [OF create_hand_over [OF o(2)], of "[]" "[t]"] by simp
  then have "hand_over [] [v, t] d d2" using create_hand_over [OF o(1)] hand_over_trans by blast
  then show ?thesis using c o by (auto simp: create_texture_layer_def layer_owned_def no_objects_def)
qed

lemma create_buffer_layer_hands: "create_buffer_layer d = (l, d') \<Longrightarrow> hand_over [] (layer_owned l) d d'"
  using create_hand_over [of d] by (cases "create_object d") (auto simp: create_buffer_layer_def layer_owned_def no_objects_def)

lemma destroy_entry_blank: "layers_owned (pe_objects (fst (destroy_entry e d))) = []"
  by (simp add: destroy_entry_def layers_owned_blank)

lemma realize_texture_hands:
  assumes "realize_texture_entry clock sig e d = (e', d')"
  shows "hand_over (entry_owned e) (entry_owned e') d d'"
proof (cases "tex_entry_would_recreate e sig (pe_usage e)")
  case True
  obtain e1 d1 ls d2 where 1: "destroy_entry e d = (e1, d1)"
    "create_layers create_texture_layer (pe_layers e1) (pe_objects e1) d1 = (ls, d2)" by (meson surj_pair)
  then have r: "entry_owned e' = layers_owned ls" "d' = d2"
    using assms True by (auto simp: realize_texture_entry_def entry_owned_def)
  have "layers_owned (pe_objects e1) = []" using destroy_entry_blank [of e d] 1(1) by simp
  then have "hand_over [] (layers_owned ls) d1 d2"
    using create_layers_hands [OF create_texture_layer_hands _ 1(2)] by blast
  then show ?thesis using destroy_entry_hands [OF 1(1)] hand_over_trans by (fastforce simp: r)
qed (use assms in \<open>simp add: realize_texture_entry_def hand_over_refl\<close>)

lemma realize_buffer_hands:
  assumes "realize_buffer_entry clock sz e d = (e', d')"
  shows "hand_over (entry_owned e) (entry_owned e') d d'"
proof (cases "buf_entry_would_recreate e sz (pe_buf_usage e)")
  case True
  obtain e1 d1 ls d2 where 1: "destroy_entry e d = (e1, d1)"
    "create_layers create_buffer_layer (pe_layers e1) (pe_objects e1) d1 = (ls, d2)" by (meson surj_pair)
  then have r: "entry_owned e' = layers_owned ls" "d' = d2"
    using assms True by (auto simp: realize_buffer_entry_def entry_owned_def)
  have "layers_owned (pe_objects e1) = []" using destroy_entry_blank [of e d] 1(1) by simp
  then have "hand_over [] (layers_owned ls) d1 d2"
    using create_layers_hands [OF create_buffer_layer_hands _ 1(2)] by blast
  then show ?thesis using destroy_entry_hands [OF 1(1)] hand_over_trans by (fastforce simp: r)
qed (use assms in \<open>simp add: realize_buffer_entry_def hand_over_refl\<close>)

lemma touch_entry_hands:
  assumes "touch_entry clock layers hash kind e d = (e', d')"
  shows "hand_over (entry_owned e) (entry_owned e') d d'"
proof -
  obtain e1 d1 where 1: "(if pe_kind e \<noteq> kind \<or> pe_layers e \<noteq> layers then destroy_entry e d else (e, d)) = (e1, d1)"
    by fastforce
  have h1: "hand_over (entry_owned e) (entry_owned e1) d d1"
    using 1 destroy_entry_hands [of e d e1 d1] by (auto simp: hand_over_refl split: if_splits)
  define e2 where "e2 = e1\<lparr>pe_prev := pe_last e1, pe_frame := pe_frame e1 + 1, pe_last := clock,
      pe_layers := layers, pe_kind := kind\<rparr>"
  have o2: "entry_owned e2 = entry_owned e1" by (simp add: e2_def entry_owned_def)
  have te: "touch_entry clock layers hash kind e d =
      (if history_hash_forces_destroy e2 hash then (let (e3, d2) = destroy_entry e2 d1 in (e3\<lparr>pe_history_hash := hash\<rparr>, d2))
       else (e2, d1))"
    unfolding touch_entry_def 1 e2_def by (simp add: Let_def)
  show ?thesis
  proof (cases "history_hash_forces_destroy e2 hash")
    case True
    obtain e3 d2 where 2: "destroy_entry e2 d1 = (e3, d2)" by fastforce
    then have "entry_owned e' = entry_owned e3" "d' = d2"
      using assms te True by (auto simp: entry_owned_def)
    then show ?thesis using h1 destroy_entry_hands [OF 2] o2 hand_over_trans by fastforce
  next
    case False
    then show ?thesis using assms te h1 o2 by auto
  qed
qed

lemma upd_first_split:
  "find P es = Some e \<Longrightarrow> \<exists>us vs. es = us @ e # vs \<and> P e \<and> upd_first P f es = us @ f e # vs"
proof (induction es)
  case (Cons x es)
  show ?case
  proof (cases "P x")
    case True
    then show ?thesis using Cons.prems by (intro exI [of _ "[]"] exI [of _ es]) simp
  next
    case False
    then obtain us vs where "es = us @ e # vs" "P e" "upd_first P f es = us @ f e # vs"
      using Cons by auto
    then show ?thesis using False by (intro exI [of _ "x # us"] exI [of _ vs]) auto
  qed
qed simp

lemma upd_entry_hands:
  assumes "pool_find rid pool = Some e" "hand_over (entry_owned e) (entry_owned e') d d'"
  shows "hand_over (persistent_owned pool) (persistent_owned (upd_entry rid (\<lambda>_. e') pool)) d d'"
proof -
  obtain us vs where "pp_entries pool = us @ e # vs"
    "upd_first (is_entry_of rid) (\<lambda>_. e') (pp_entries pool) = us @ e' # vs"
    using upd_first_split [of "is_entry_of rid" "pp_entries pool" e "\<lambda>_. e'"] assms(1) by (auto simp: pool_find_def)
  then show ?thesis
    using hand_over_frame [OF assms(2), of "entries_owned us" "entries_owned vs"]
    by (simp add: persistent_owned_def upd_entry_def entries_owned_def)
qed

lemma touch_hands:
  assumes "touch rid layers hash kind (pool, d) = (pool', d')"
  shows "hand_over (persistent_owned pool) (persistent_owned pool') d d'"
proof (cases "pool_find rid pool")
  case None
  then show ?thesis using assms
    by (auto simp: touch_def persistent_owned_def entry_owned_def alloc_entry_def numeral_2_eq_2 kLayers_def hand_over_refl)
next
  case (Some e)
  show ?thesis
  proof (cases "pe_last e = pp_clock pool")
    case True
    then show ?thesis using assms Some by (auto simp: touch_def hand_over_refl)
  next
    case False
    obtain e' d1 where t: "touch_entry (pp_clock pool) layers hash kind e d = (e', d1)" by fastforce
    then have "pool' = upd_entry rid (\<lambda>_. e') pool" "d' = d1" using assms Some False by (auto simp: touch_def)
    then show ?thesis using upd_entry_hands [OF Some touch_entry_hands [OF t]] by simp
  qed
qed

lemma evict_hands: "evict_entries clock es d = (es', d') \<Longrightarrow> hand_over (entries_owned es) (entries_owned es') d d'"
proof (induction es arbitrary: d es' d')
  case (Cons e es)
  obtain e1 d1 where 1: "destroy_entry e d = (e1, d1)" by fastforce
  have h: "hand_over (entry_owned e @ entries_owned es) (entries_owned es) d d1"
    using destroy_entry_hands [OF 1] hand_over_front by blast
  show ?case
  proof (cases "clock - pe_last e \<ge> kRetain")
    case True
    then have "hand_over (entries_owned es) (entries_owned es') d1 d'" using Cons 1 by simp
    then show ?thesis using h hand_over_trans by fastforce
  next
    case False
    obtain es2 d2 where 2: "evict_entries clock es d = (es2, d2)" by fastforce
    then have "hand_over (entries_owned es) (entries_owned es2) d d2" using Cons.IH by blast
    then have "hand_over (entry_owned e @ entries_owned es) (entry_owned e @ entries_owned es2) d d2"
      using hand_over_frame [of "entries_owned es" "entries_owned es2" d d2 "entry_owned e" "[]"] by simp
    then show ?thesis using Cons.prems False 2 by auto
  qed
qed (simp add: hand_over_refl)

lemma destroy_all_hands:
  "hand_over (entries_owned es) [] d (fold (\<lambda>e d. snd (destroy_entry e d)) es d)"
proof (induction es arbitrary: d)
  case (Cons e es)
  obtain e1 d1 where 1: "destroy_entry e d = (e1, d1)" by fastforce
  have "hand_over (entry_owned e @ entries_owned es) (entries_owned es) d d1"
    using destroy_entry_hands [OF 1] hand_over_front by blast
  then show ?case using Cons 1 hand_over_trans by fastforce
qed (simp add: hand_over_refl)

text \<open>The operations of the pool; \<open>realize\<close> stands for either arm on the entry of a name.\<close>

definition realize_entry_of :: "(pentry \<Rightarrow> device \<Rightarrow> pentry \<times> device) \<Rightarrow> resource_id \<Rightarrow> persistent_pool \<times> device \<Rightarrow> persistent_pool \<times> device" where
  "realize_entry_of f rid st =
     (case st of (pool, d) \<Rightarrow>
        (case pool_find rid pool of
           None \<Rightarrow> (pool, d)
         | Some e \<Rightarrow> (let (e', d') = f e d in (upd_entry rid (\<lambda>_. e') pool, d'))))"

definition persistent_ops :: "(persistent_pool \<times> device \<Rightarrow> persistent_pool \<times> device) set" where
  "persistent_ops =
     {touch rid layers hash kind | rid layers hash kind. True} \<union>
     {realize_entry_of (realize_texture_entry clock sig) rid | clock sig rid. True} \<union>
     {realize_entry_of (realize_buffer_entry clock sz) rid | clock sz rid. True} \<union>
     {persistent_end_frame}"

lemma realize_entry_of_hands:
  assumes "\<And>e d e' d'. f e d = (e', d') \<Longrightarrow> hand_over (entry_owned e) (entry_owned e') d d'"
    "realize_entry_of f rid (pool, d) = (pool', d')"
  shows "hand_over (persistent_owned pool) (persistent_owned pool') d d'"
proof (cases "pool_find rid pool")
  case None
  then show ?thesis using assms(2) by (auto simp: realize_entry_of_def hand_over_refl)
next
  case (Some e)
  obtain e' d1 where "f e d = (e', d1)" by fastforce
  then show ?thesis using assms Some upd_entry_hands [OF Some] by (auto simp: realize_entry_of_def)
qed

interpretation persistent: object_owner persistent_owned "\<lambda>_. True" persistent_ops persistent_destroy_all
proof
  fix f p d p' d' assume "f \<in> persistent_ops" "f (p, d) = (p', d')"
  then show "True \<and> hand_over (persistent_owned p) (persistent_owned p') d d'"
    using touch_hands realize_entry_of_hands [OF realize_texture_hands] realize_entry_of_hands [OF realize_buffer_hands]
      evict_hands [of "pp_clock p" "pp_entries p" d]
    by (auto simp: persistent_ops_def persistent_end_frame_def persistent_owned_def split: prod.splits)
next
  fix p d p' d' assume "persistent_destroy_all (p, d) = (p', d')"
  then show "persistent_owned p' = [] \<and> hand_over (persistent_owned p) [] d d'"
    using destroy_all_hands [of "pp_entries p" d] by (auto simp: persistent_destroy_all_def persistent_owned_def)
qed

end
