(* ===== verification/Compile.thy ===== *)
theory Compile
  imports Validation Persistent_Pool
begin

text \<open>
  \<open>compile_impl\<close> of webgpu/base/RenderGraph.cpp, phase by phase: the handle checks, the
  expansion of view ranges, phase 0 (skipping up-to-date bakes against the persistent pool),
  phases 1 and 2 (theories Hazards and Topo), the read-before-write check, phase 3 (usage,
  lifetimes, sizes), the validators, the memoryless attachments and phase 4 (aliasing). The
  arrays over resource ids are functions of the id.
\<close>

subsection \<open>Handles\<close>

definition foreign :: "graph \<Rightarrow> handle \<Rightarrow> bool" where
  "foreign g h \<longleftrightarrow> h_id h \<ge> g_next_id g \<or> h_generation h \<noteq> g_generation g"

definition pass_handle_error :: "graph \<Rightarrow> pass_node \<Rightarrow> rg_error option" where
  "pass_handle_error g p =
     (case find (\<lambda>a. h_id (ac_handle a) = 0 \<or> foreign g (ac_handle a)) (pn_accesses p) of
        Some a \<Rightarrow> Some (GraphError (InvalidHandle (pass_name p) (h_id (ac_handle a))))
      | None \<Rightarrow>
          (case find (\<lambda>t. foreign g (fst t)) (pn_init_targets p) of
             Some t \<Rightarrow> Some (GraphError (ForeignInitTarget (pass_name p) (h_id (fst t))))
           | None \<Rightarrow> None))"

fun check_passes :: "nat \<Rightarrow> graph \<Rightarrow> pass_node list \<Rightarrow> pass_node list \<times> rg_error option" where
  "check_passes k g [] = ([], None)"
| "check_passes k g (p # ps) =
     (case pass_handle_error g p of
        Some e \<Rightarrow> (p\<lparr>pn_index := k\<rparr> # ps, Some e)
      | None \<Rightarrow> (let (ps', e) = check_passes (Suc k) g ps in (p\<lparr>pn_index := k\<rparr> # ps', e)))"

definition phase_handles :: "graph \<Rightarrow> graph" where
  "phase_handles g =
     (let (ps, e) = check_passes 0 g (g_passes g); g1 = g\<lparr>g_passes := ps\<rparr> in
      case e of
        Some e \<Rightarrow> push_error e g1
      | None \<Rightarrow>
          let g2 = g1\<lparr>g_pass_count := length ps\<rparr> in
          (case find (\<lambda>r. h_id (rn_relative_to r) \<noteq> 0 \<and> foreign g2 (rn_relative_to r)) (g_nodes g2) of
             Some r \<Rightarrow> push_error (GraphError (ForeignRelativeTo (node_name r) (h_id (rn_relative_to r)))) g2
           | None \<Rightarrow> g2))"

subsection \<open>View ranges and predicted usage\<close>

definition expand_access :: "graph \<Rightarrow> access \<Rightarrow> access" where
  "expand_access g a =
     (case find_node g (h_id (ac_handle a)) of
        None \<Rightarrow> a
      | Some r \<Rightarrow>
          if rn_kind r \<noteq> RK_Texture then a
          else
            let a1 = (if ac_mip_count a = 0 \<and> ucast (ac_base_mip a) < rn_mips r
                      then a\<lparr>ac_mip_count := ucast (rn_mips r - ucast (ac_base_mip a))\<rparr> else a);
                layers = node_layers r
            in if ac_layer_count a1 = 0 \<and> ucast (ac_base_layer a1) < layers
               then a1\<lparr>ac_layer_count := ucast (layers - ucast (ac_base_layer a1))\<rparr> else a1)"

definition phase_expand :: "graph \<Rightarrow> graph" where
  "phase_expand g = g\<lparr>g_passes := map (\<lambda>p. p\<lparr>pn_accesses := map (expand_access g) (pn_accesses p)\<rparr>) (g_passes g)\<rparr>"

definition accesses_of :: "graph \<Rightarrow> nat \<Rightarrow> access list" where
  "accesses_of g i = filter (\<lambda>a. h_id (ac_handle a) = i) (concat (map pn_accesses (g_passes g)))"

definition pred_tex_usage :: "graph \<Rightarrow> nat \<Rightarrow> texture_usage" where
  "pred_tex_usage g i = fold (\<lambda>a u. u \<union> tex_usage_of (ac_type a)) (accesses_of g i) {}"

definition pred_buf_usage :: "graph \<Rightarrow> nat \<Rightarrow> buffer_usage" where
  "pred_buf_usage g i = fold (\<lambda>a u. u \<union> buf_usage_of (ac_type a)) (accesses_of g i) {}"

definition has_writer :: "graph \<Rightarrow> nat \<Rightarrow> bool" where
  "has_writer g i \<longleftrightarrow> list_ex (\<lambda>a. access_is_write (ac_type a)) (accesses_of g i)"

subsection \<open>Phase 0: bakes that are up to date\<close>

definition bake_up_to_date :: "pentry \<Rightarrow> u64 \<Rightarrow> bool" where
  "bake_up_to_date e hash \<longleftrightarrow> pe_created e \<and> pe_baked e \<and> pe_init_hash e = hash"

text \<open>One target: whether it is baked and will stay, and the graph with its size resolved.\<close>

definition target_baked :: "persistent_pool \<Rightarrow> handle \<times> u64 \<Rightarrow> graph \<Rightarrow> bool \<times> graph" where
  "target_baked pool t g =
     (let i = h_id (fst t) in
      case find_node g i of
        None \<Rightarrow> (False, g)
      | Some r \<Rightarrow>
          if \<not> rn_persistent r then (False, push_error (GraphError InitTargetNotPersistent) g)
          else
            (case pool_find (rn_id r) pool of
               None \<Rightarrow> (False, g)
             | Some e \<Rightarrow>
                 if \<not> pe_created e then (False, g)
                 else if rn_kind r = RK_Texture then
                   let g1 = snd (resolve_size i g);
                       r1 = (case find_node g1 i of None \<Rightarrow> r | Some r1 \<Rightarrow> r1)
                   in (bake_up_to_date e (snd t)
                       \<and> \<not> (tex_entry_would_recreate e (tex_signature_of r1) (pred_tex_usage g i)
                            \<or> history_hash_forces_destroy e (rn_history_hash r)), g1)
                 else
                   (bake_up_to_date e (snd t)
                    \<and> \<not> (buf_entry_would_recreate e (rn_buffer_size r) (pred_buf_usage g i)
                         \<or> history_hash_forces_destroy e (rn_history_hash r)), g)))"

fun targets_baked :: "persistent_pool \<Rightarrow> (handle \<times> u64) list \<Rightarrow> graph \<Rightarrow> bool \<times> graph" where
  "targets_baked pool [] g = (True, g)"
| "targets_baked pool (t # ts) g =
     (let (b, g1) = target_baked pool t g; (bs, g2) = targets_baked pool ts g1 in (b \<and> bs, g2))"

fun bake_passes :: "persistent_pool \<Rightarrow> pass_node list \<Rightarrow> graph \<Rightarrow> pass_node list \<times> graph" where
  "bake_passes pool [] g = ([], g)"
| "bake_passes pool (p # ps) g =
     (if pn_init_targets p = [] then
        let (ps', g1) = bake_passes pool ps g in (p\<lparr>pn_skip_init := False\<rparr> # ps', g1)
      else
        let (b, g1) = targets_baked pool (pn_init_targets p) g; (ps', g2) = bake_passes pool ps g1
        in (p\<lparr>pn_skip_init := b\<rparr> # ps', g2))"

definition phase_bake :: "persistent_pool \<Rightarrow> graph \<Rightarrow> graph" where
  "phase_bake pool g = (let (ps, g1) = bake_passes pool (g_passes g) g in g1\<lparr>g_passes := ps\<rparr>)"

subsection \<open>Reads before writes\<close>

definition external_id :: "graph \<Rightarrow> nat \<Rightarrow> bool" where
  "external_id g i \<longleftrightarrow> list_ex (\<lambda>r. h_id (rn_handle r) = i \<and> is_external r) (g_nodes g)"

definition prev_layer :: "graph \<Rightarrow> nat \<Rightarrow> bool" where
  "prev_layer g i \<longleftrightarrow>
     list_ex (\<lambda>r. h_id (rn_handle r) = i \<and> rn_persistent r \<and> rn_history_index r \<noteq> 0) (g_nodes g)"

definition same_pass_write :: "pass_node \<Rightarrow> nat \<Rightarrow> bool" where
  "same_pass_write p i \<longleftrightarrow>
     list_ex (\<lambda>a. h_id (ac_handle a) = i \<and> access_is_write (ac_type a)) (pn_accesses p)"

definition name_of :: "graph \<Rightarrow> nat \<Rightarrow> string" where
  "name_of g i = (case find_node g i of None \<Rightarrow> [] | Some r \<Rightarrow> node_name r)"

text \<open>\<open>w\<close> is \<open>hasWriter\<close>, filled before the cull; \<open>produced\<close> grows along the walk.\<close>

definition order_error :: "graph \<Rightarrow> (nat \<Rightarrow> bool) \<Rightarrow> nat set \<Rightarrow> pass_node \<Rightarrow> access \<Rightarrow> rg_error list" where
  "order_error g w produced p a =
     (let i = h_id (ac_handle a) in
      if access_is_write (ac_type a) then
        (if prev_layer g i then
           [GraphError (WritesHistoryLayer (pass_name p) (name_of g i)
              (case find_node g i of None \<Rightarrow> 0 | Some r \<Rightarrow> rn_history_index r))] else [])
      else if i = 0 \<or> external_id g i \<or> i \<in> produced then []
      else if \<not> w i then [GraphError (ReadNeverWritten (pass_name p) (name_of g i))]
      else if same_pass_write p i then [GraphError (ReadModifyWrite (pass_name p) (name_of g i))]
      else [GraphError (ReadBeforeWrite (pass_name p) (name_of g i))])"

definition produces :: "access \<Rightarrow> nat set \<Rightarrow> nat set" where
  "produces a S = (if access_is_write (ac_type a) then insert (h_id (ac_handle a)) S else S)"

fun access_order_errors :: "graph \<Rightarrow> (nat \<Rightarrow> bool) \<Rightarrow> pass_node \<Rightarrow> access list \<Rightarrow> nat set \<Rightarrow> rg_error list \<times> nat set" where
  "access_order_errors g w p [] S = ([], S)"
| "access_order_errors g w p (a # as) S =
     (let (es, S') = access_order_errors g w p as (produces a S) in (order_error g w S p a @ es, S'))"

fun pass_order_errors :: "graph \<Rightarrow> (nat \<Rightarrow> bool) \<Rightarrow> pass_node list \<Rightarrow> nat set \<Rightarrow> rg_error list" where
  "pass_order_errors g w [] S = []"
| "pass_order_errors g w (p # ps) S =
     (let (es, S') = access_order_errors g w p (pn_accesses p) S in es @ pass_order_errors g w ps S')"

definition phase_order :: "(nat \<Rightarrow> bool) \<Rightarrow> graph \<Rightarrow> graph" where
  "phase_order w g = push_errors (pass_order_errors g w (g_passes g) {}) g"

subsection \<open>Phase 3: usage, lifetimes, sizes\<close>

definition note_access :: "nat \<Rightarrow> access \<Rightarrow> res_node \<Rightarrow> res_node" where
  "note_access k a r =
     (let r1 = r\<lparr>rn_live_accesses := rn_live_accesses r + 1, rn_sole_access := Some a\<rparr>;
          r2 = (if is_external r1 then r1
                else
                  let r1 = (if rn_first_use r1 = None
                            then r1\<lparr>rn_first_use := Some k, rn_first_defines := access_defines a\<rparr> else r1);
                      r1 = r1\<lparr>rn_last_use := Some k\<rparr>
                  in if access_is_write (ac_type a) then r1\<lparr>rn_has_writer := True\<rparr> else r1)
      in if rn_kind r2 = RK_Texture then r2\<lparr>rn_tex_usage := rn_tex_usage r2 \<union> tex_usage_of (ac_type a)\<rparr>
         else r2\<lparr>rn_buf_usage := rn_buf_usage r2 \<union> buf_usage_of (ac_type a)\<rparr>)"

definition note_pass :: "nat \<times> pass_node \<Rightarrow> graph \<Rightarrow> graph" where
  "note_pass kp g = fold (\<lambda>a g. upd_node (h_id (ac_handle a)) (note_access (fst kp) a) g) (pn_accesses (snd kp)) g"

definition phase_usage :: "graph \<Rightarrow> graph" where
  "phase_usage g = fold note_pass (enumerate 0 (g_passes g)) g"

definition texture_ids :: "graph \<Rightarrow> nat list" where
  "texture_ids g = map (\<lambda>r. h_id (rn_handle r)) (filter (\<lambda>r. rn_kind r = RK_Texture) (g_nodes g))"

definition phase_sizes :: "graph \<Rightarrow> graph" where
  "phase_sizes g = resolve_all (texture_ids g) g"

definition zero_extent_errors :: "graph \<Rightarrow> rg_error list" where
  "zero_extent_errors g =
     concat (map (\<lambda>r.
       if rn_kind r \<noteq> RK_Texture \<or> rn_tex_usage r = {} then []
       else if ext_width (rn_resolved r) \<noteq> 0 \<and> ext_height (rn_resolved r) \<noteq> 0 then []
       else [GraphError (ZeroExtent (node_name r) (ext_width (rn_resolved r)) (ext_height (rn_resolved r)))])
     (g_nodes g))"

definition phase_extents :: "graph \<Rightarrow> graph" where
  "phase_extents g = push_errors (zero_extent_errors g) g"

subsection \<open>Memoryless attachments\<close>

definition is_transient_attachment :: "res_node \<Rightarrow> bool" where
  "is_transient_attachment r =
     (if is_external r \<or> rn_kind r \<noteq> RK_Texture then False
      else if rn_tex_usage r \<noteq> {TU_RenderAttachment} then False
      else if rn_dimension r \<noteq> TD_2D \<or> rn_mips r \<noteq> 1 \<or> ext_depth (rn_resolved r) > 1 then False
      else if rn_live_accesses r \<noteq> 1 then False
      else case rn_sole_access r of
             None \<Rightarrow> False
           | Some a \<Rightarrow>
               if ac_type a \<noteq> ColorAttachment \<and> ac_type a \<noteq> DepthStencilAttachment then False
               else if ac_load a \<noteq> LO_Clear \<or> ac_store a \<noteq> SO_Discard then False
               else if ac_type a = DepthStencilAttachment \<and> ac_stencil_load a \<noteq> LO_Undefined
                       \<and> (ac_stencil_load a \<noteq> LO_Clear \<or> ac_stencil_store a \<noteq> SO_Discard) then False
               else True)"

definition detect_transient_attachments :: "graph \<Rightarrow> graph" where
  "detect_transient_attachments g =
     g\<lparr>g_nodes := map (\<lambda>r. if is_transient_attachment r then r\<lparr>rn_transient_attachment := True\<rparr> else r) (g_nodes g),
       g_transient_count := g_transient_count g + length (filter is_transient_attachment (g_nodes g))\<rparr>"

subsection \<open>Phase 4: aliasing\<close>

definition alias_eligible :: "res_node \<Rightarrow> bool" where
  "alias_eligible r =
     (if is_external r \<or> rn_first_use r = None \<or> \<not> rn_has_writer r \<or> \<not> rn_first_defines r \<or> rn_transient_attachment r
      then False
      else if rn_kind r = RK_Texture \<and> (rn_mips r \<noteq> 1 \<or> rn_samples r \<noteq> 1 \<or> ext_depth (rn_resolved r) > 1) then False
      else True)"

definition eligible_nodes :: "graph \<Rightarrow> res_node list" where
  "eligible_nodes g = sort_key (\<lambda>r. the (rn_first_use r)) (filter alias_eligible (g_nodes g))"

definition slot_fits :: "res_node \<Rightarrow> phys \<Rightarrow> bool" where
  "slot_fits r ph \<longleftrightarrow>
     ph_kind ph = rn_kind r \<and>
     (if rn_kind r = RK_Buffer then ph_buffer_size ph = rn_buffer_size r else sig_eq (ph_sig ph) (tex_signature_of r)) \<and>
     ph_free_from ph < the (rn_first_use r)"

definition open_slot :: "res_node \<Rightarrow> phys" where
  "open_slot r =
     (let ph = empty_phys\<lparr>ph_kind := rn_kind r, ph_identity := rid_data (rn_id r)\<rparr>
      in if rn_kind r = RK_Buffer then ph\<lparr>ph_buffer_size := rn_buffer_size r\<rparr> else ph\<lparr>ph_sig := tex_signature_of r\<rparr>)"

definition join_slot :: "res_node \<Rightarrow> phys \<Rightarrow> phys" where
  "join_slot r ph =
     (let ph1 = (if rn_kind r = RK_Buffer then ph\<lparr>ph_buf_usage := ph_buf_usage ph \<union> rn_buf_usage r\<rparr>
                 else ph\<lparr>ph_tex_usage := ph_tex_usage ph \<union> rn_tex_usage r\<rparr>)
      in ph1\<lparr>ph_free_from := the (rn_last_use r)\<rparr>)"

definition first_fit :: "res_node \<Rightarrow> phys list \<Rightarrow> nat" where
  "first_fit r phs = length (takeWhile (\<lambda>ph. \<not> slot_fits r ph) phs)"

definition place_in_slot :: "res_node \<Rightarrow> phys list \<Rightarrow> phys list" where
  "place_in_slot r phs =
     (let k = first_fit r phs; phs1 = (if k < length phs then phs else phs @ [open_slot r])
      in phs1[k := join_slot r (phs1 ! k)])"

fun assign_slots :: "res_node list \<Rightarrow> graph \<Rightarrow> graph" where
  "assign_slots [] g = g"
| "assign_slots (r # rs) g =
     (if rn_kind r \<noteq> RK_Buffer \<and> (rn_mips r \<noteq> 1 \<or> rn_samples r \<noteq> 1)
      then push_error (GraphError (AliasIneligible (node_name r) (rn_mips r) (rn_samples r))) g
      else
        let k = first_fit r (g_slots g)
        in assign_slots rs (upd_node (h_id (rn_handle r)) (\<lambda>q. q\<lparr>rn_alias_slot := Some k\<rparr>)
             (g\<lparr>g_slots := place_in_slot r (g_slots g)\<rparr>)))"

definition phase_alias :: "bool \<Rightarrow> graph \<Rightarrow> graph" where
  "phase_alias enable g = (if enable then assign_slots (eligible_nodes g) g else g)"

subsection \<open>The whole\<close>

definition finish_compile :: "graph \<Rightarrow> graph" where
  "finish_compile g = g\<lparr>g_state := (if g_errors g = [] then RG_Compiled else RG_Failed)\<rparr>"

text \<open>From the culled schedule on; \<open>w\<close> is \<open>hasWriter\<close> of the graph before the cull.\<close>

definition compile_back :: "bool \<Rightarrow> (nat \<Rightarrow> bool) \<Rightarrow> graph \<Rightarrow> graph" where
  "compile_back enable w g =
     (let g1 = phase_order w g;
          g2 = unless_failed (\<lambda>g. phase_sizes (phase_usage g)) g1;
          g3 = unless_failed phase_extents g2;
          g4 = unless_failed validate_history_layers g3;
          g5 = unless_failed validate_cube_views g4;
          g6 = unless_failed validate_access_ranges g5;
          g7 = unless_failed validate_render_passes g6
      in unless_failed (\<lambda>g. finish_compile (phase_alias enable (detect_transient_attachments g))) g7)"

definition compile_impl :: "persistent_pool \<Rightarrow> bool \<Rightarrow> graph \<Rightarrow> graph option" where
  "compile_impl pool enable g =
     (if g_state g \<noteq> RG_Recording then Some (push_error (GraphError (CompileTwice (g_state g))) g)
      else
        let g1 = phase_handles g in
        if g_state g1 = RG_Failed then Some g1
        else
          let g2 = phase_expand g1; w = has_writer g2; g3 = phase_bake pool g2 in
          if g_state g3 = RG_Failed then Some g3
          else map_option (unless_failed (compile_back enable w)) (phase_cull (phase_link g3)))"

end
