(* ===== verification/Compile_Order.thy ===== *)
theory Compile_Order
  imports Compile
begin

text \<open>
  What a compile does to the schedule: it returns, conflicting passes keep their declaration
  order, exactly the passes a live root needs survive, satisfied bakes do not, and a surviving
  read of a transient has a write before it.
\<close>

subsection \<open>Which fields a phase touches\<close>

lemma resolve_size_passes [frame_simps]:
  "g_passes (snd (resolve_size i g)) = g_passes g" "g_next_id (snd (resolve_size i g)) = g_next_id g"
  using resolve_size_frame [of i g] by simp_all

lemma resolve_all_passes [frame_simps]: "g_passes (resolve_all ids g) = g_passes g"
proof (induction ids arbitrary: g)
  case (Cons i ids)
  have "resolve_all (i # ids) g = resolve_all ids (snd (resolve_size i g))" by (simp add: resolve_all_def)
  then show ?case using Cons by (simp add: frame_simps)
qed (simp add: resolve_all_def)

lemma note_pass_passes [frame_simps]: "g_passes (note_pass kp g) = g_passes g"
  unfolding note_pass_def by (rule fold_preserves) simp

lemma phase_usage_passes [frame_simps]: "g_passes (phase_usage g) = g_passes g"
  unfolding phase_usage_def by (rule fold_preserves) (simp add: frame_simps)

lemma assign_slots_passes [frame_simps]: "g_passes (assign_slots rs g) = g_passes g"
  by (induction rs g rule: assign_slots.induct) (simp_all add: Let_def)

lemma unless_failed_passes: "(\<And>g. g_passes (f g) = g_passes g) \<Longrightarrow> g_passes (unless_failed f g) = g_passes g"
  by (simp add: unless_failed_def)

lemma compile_back_passes [frame_simps]: "g_passes (compile_back enable w g) = g_passes g"
  by (simp add: compile_back_def Let_def unless_failed_def phase_order_def phase_sizes_def phase_extents_def
      validate_history_layers_def validate_cube_views_def validate_access_ranges_def validate_render_passes_def
      finish_compile_def phase_alias_def detect_transient_attachments_def frame_simps)

subsection \<open>The passes up to the cull are the declared ones, numbered\<close>

lemma check_passes_ok:
  "snd (check_passes k g ps) = None \<Longrightarrow>
     fst (check_passes k g ps) = map (\<lambda>(i, p). p\<lparr>pn_index := i\<rparr>) (enumerate k ps) \<and>
     list_all (\<lambda>p. pass_handle_error g p = None) ps"
proof (induction k g ps rule: check_passes.induct)
  case (2 k g p ps)
  show ?case
  proof (cases "pass_handle_error g p")
    case None
    then show ?thesis using 2 by (simp split: prod.splits)
  qed (use "2.prems" in simp)
qed simp

lemma phase_handles_ok:
  assumes "g_state (phase_handles g) \<noteq> RG_Failed"
  shows "phase_handles g = g\<lparr>g_passes := index_passes (g_passes g), g_pass_count := length (g_passes g)\<rparr>"
    "list_all (\<lambda>p. pass_handle_error g p = None) (g_passes g)"
    "list_all (\<lambda>r. h_id (rn_relative_to r) = 0 \<or> \<not> foreign g (rn_relative_to r)) (g_nodes g)"
proof -
  obtain ps e where c: "check_passes 0 g (g_passes g) = (ps, e)" by fastforce
  have e: "e = None" using assms c by (cases e) (simp_all add: phase_handles_def Let_def)
  have ps: "ps = index_passes (g_passes g)" "list_all (\<lambda>p. pass_handle_error g p = None) (g_passes g)"
    using check_passes_ok [of 0 g "g_passes g"] c e by (simp_all add: index_passes_def)
  let ?g = "g\<lparr>g_passes := ps, g_pass_count := length ps\<rparr>"
  have f: "foreign ?g = foreign g" by (simp add: foreign_def fun_eq_iff)
  have n: "find (\<lambda>r. h_id (rn_relative_to r) \<noteq> 0 \<and> foreign ?g (rn_relative_to r)) (g_nodes g) = None"
    using assms c e by (auto simp: phase_handles_def Let_def split: option.splits)
  show "phase_handles g = g\<lparr>g_passes := index_passes (g_passes g), g_pass_count := length (g_passes g)\<rparr>"
    using c e n ps(1) by (simp add: phase_handles_def Let_def)
  show "list_all (\<lambda>p. pass_handle_error g p = None) (g_passes g)" by (rule ps(2))
  show "list_all (\<lambda>r. h_id (rn_relative_to r) = 0 \<or> \<not> foreign g (rn_relative_to r)) (g_nodes g)"
    using n f by (auto simp: find_None_iff_ex list_all_iff)
qed

lemma target_baked_passes: "g_passes (snd (target_baked pool t g)) = g_passes g"
  by (auto simp: target_baked_def Let_def frame_simps split: option.split)

lemma targets_baked_passes: "g_passes (snd (targets_baked pool ts g)) = g_passes g"
proof (induction ts arbitrary: g)
  case (Cons t ts)
  show ?case using Cons [of "snd (target_baked pool t g)"] target_baked_passes [of pool t g]
    by (simp add: Let_def split_beta)
qed simp

lemma bake_passes_indices:
  "map (\<lambda>p. p\<lparr>pn_skip_init := b\<rparr>) (fst (bake_passes pool ps g)) = map (\<lambda>p. p\<lparr>pn_skip_init := b\<rparr>) ps"
proof (induction pool ps g rule: bake_passes.induct)
  case (2 pool p ps g)
  show ?case
  proof (cases "pn_init_targets p = []")
    case True
    then show ?thesis using 2(1) by (simp add: split_beta Let_def)
  next
    case False
    obtain c g1 where t: "targets_baked pool (pn_init_targets p) g = (c, g1)" by fastforce
    then show ?thesis using 2(2) [OF False t [symmetric]] False by (simp add: split_beta Let_def)
  qed
qed simp

lemma indexed_cong: "map pn_index ps = map pn_index qs \<Longrightarrow> indexed ps \<longleftrightarrow> indexed qs"
  unfolding indexed_def by (metis length_map nth_map)

text \<open>The graph at the cull, when compile gets there.\<close>

definition before_link :: "persistent_pool \<Rightarrow> graph \<Rightarrow> graph" where
  "before_link pool g = phase_bake pool (phase_expand (phase_handles g))"

definition writers :: "graph \<Rightarrow> nat \<Rightarrow> bool" where
  "writers g = has_writer (phase_expand (phase_handles g))"

lemma before_link_indexed:
  assumes "g_state (phase_handles g) \<noteq> RG_Failed"
  shows "indexed (g_passes (before_link pool g))" "length (g_passes (before_link pool g)) = length (g_passes g)"
proof -
  let ?g = "phase_expand (phase_handles g)"
  have "map (\<lambda>p. p\<lparr>pn_skip_init := False\<rparr>) (g_passes (before_link pool g)) =
      map (\<lambda>p. p\<lparr>pn_skip_init := False\<rparr>) (g_passes ?g)"
    using bake_passes_indices [of False pool "g_passes ?g" ?g]
    by (simp add: before_link_def phase_bake_def Let_def split_beta)
  then have "map pn_index (map (\<lambda>p. p\<lparr>pn_skip_init := False\<rparr>) (g_passes (before_link pool g))) =
      map pn_index (map (\<lambda>p. p\<lparr>pn_skip_init := False\<rparr>) (g_passes ?g))"
    by simp
  then have "map pn_index (g_passes (before_link pool g)) = map pn_index (g_passes ?g)" by (simp add: comp_def)
  then have i: "map pn_index (g_passes (before_link pool g)) = map pn_index (index_passes (g_passes g))"
    by (simp add: phase_expand_def phase_handles_ok(1) [OF assms] comp_def)
  then show "indexed (g_passes (before_link pool g))" using indexed_cong indexed_index_passes by blast
  from i show "length (g_passes (before_link pool g)) = length (g_passes g)"
    by (metis length_index_passes length_map)
qed

lemma cull_ok:
  assumes "g_state (phase_handles g) \<noteq> RG_Failed"
  obtains order where
    "phase_cull (phase_link (before_link pool g)) =
       Some ((phase_link (before_link pool g))\<lparr>g_passes := map ((!) (linked_passes (before_link pool g))) order\<rparr>)"
    "distinct order" "deps_first (hazard_adj (g_passes (before_link pool g))) order"
    "set order = reached (hazard_adj (g_passes (before_link pool g))) (set (root_indices (before_link pool g)))"
  using cull_linked [OF before_link_indexed(1) [OF assms, of pool]] by blast

text \<open>Compile always returns, whatever the graph.\<close>

lemma compile_returns: "\<exists>g'. compile_impl pool enable g = Some g'"
proof (cases "g_state g \<noteq> RG_Recording \<or> g_state (phase_handles g) = RG_Failed \<or> g_state (before_link pool g) = RG_Failed")
  case True
  then show ?thesis by (auto simp: compile_impl_def Let_def before_link_def)
next
  case False
  then obtain order where "phase_cull (phase_link (before_link pool g)) =
      Some ((phase_link (before_link pool g))\<lparr>g_passes := map ((!) (linked_passes (before_link pool g))) order\<rparr>)"
    using cull_ok [of g pool] by blast
  then show ?thesis using False by (simp add: compile_impl_def Let_def before_link_def)
qed

text \<open>A compiled graph is the back end's result on the culled schedule.\<close>

definition culled :: "persistent_pool \<Rightarrow> graph \<Rightarrow> nat list \<Rightarrow> graph" where
  "culled pool g order = (phase_link (before_link pool g))\<lparr>g_passes := map ((!) (linked_passes (before_link pool g))) order\<rparr>"

lemma compiled_shape:
  assumes c: "compile_impl pool enable g = Some g'" and s: "g_state g' = RG_Compiled"
  obtains order where "g_state g = RG_Recording" "g_state (phase_handles g) \<noteq> RG_Failed"
    "g_state (before_link pool g) \<noteq> RG_Failed"
    "g' = compile_back enable (writers g) (culled pool g order)"
    "distinct order" "deps_first (hazard_adj (g_passes (before_link pool g))) order"
    "set order = reached (hazard_adj (g_passes (before_link pool g))) (set (root_indices (before_link pool g)))"
proof -
  have 1: "g_state g = RG_Recording" using assms by (auto simp: compile_impl_def split: if_splits)
  have 2: "g_state (phase_handles g) \<noteq> RG_Failed" using assms 1 by (auto simp: compile_impl_def Let_def split: if_splits)
  have 3: "g_state (before_link pool g) \<noteq> RG_Failed"
    using assms 1 2 by (auto simp: compile_impl_def Let_def before_link_def split: if_splits)
  obtain order where o: "phase_cull (phase_link (before_link pool g)) = Some (culled pool g order)"
    "distinct order" "deps_first (hazard_adj (g_passes (before_link pool g))) order"
    "set order = reached (hazard_adj (g_passes (before_link pool g))) (set (root_indices (before_link pool g)))"
    using cull_ok [OF 2, of pool] unfolding culled_def by metis
  have "g' = unless_failed (compile_back enable (writers g)) (culled pool g order)"
    using c 1 2 3 o(1) by (simp add: compile_impl_def Let_def before_link_def writers_def)
  moreover have "g_state (culled pool g order) \<noteq> RG_Failed"
    using 3 by (simp add: culled_def phase_link_def Let_def)
  ultimately show ?thesis using that [of order] 1 2 3 o by (simp add: unless_failed_def)
qed

subsection \<open>Conflicts and the schedule\<close>

lemma deps_first_trancl:
  assumes "deps_first adj order" "distinct order" "y < length order" "(order ! y, v) \<in> (edges_of adj)\<^sup>+"
  shows "\<exists>x < y. order ! x = v"
  using assms(4)
proof (induction rule: trancl_induct)
  case (base v)
  then have "v \<in> set (take y order)" using assms(1,3) by (auto simp: deps_first_def edges_of_def)
  then show ?case using assms(3) by (auto simp: in_set_conv_nth)
next
  case (step u v)
  then obtain x where x: "x < y" "order ! x = u" by blast
  then have "v \<in> set (adj (order ! x))" "x < length order" using assms(3) step.hyps(2) by (auto simp: edges_of_def)
  then have "v \<in> set (take x order)" using assms(1) by (auto simp: deps_first_def)
  then obtain z where "z < x" "order ! z = v" using x assms(3) by (auto simp: in_set_conv_nth)
  then show ?case using x by (intro exI [of _ z]) simp
qed

lemma edges_eq: "indexed ps \<Longrightarrow> edges_of (hazard_adj ps) = edges (sweep_resource_versions ps)"
  by (simp add: hazard_adj_indexed edges_of_def edges_def)

text \<open>Positions \<open>x < y\<close> of conflicting passes carry declaration indices in the same order.\<close>

lemma conflicts_keep_order:
  assumes ix: "indexed ps" and o: "distinct order" "deps_first (hazard_adj ps) order" "set order \<subseteq> {..<length ps}"
    and xy: "x < length order" "y < length order" "order ! x < order ! y"
    and ns: "\<not> pn_skip_init (ps ! (order ! x))" "\<not> pn_skip_init (ps ! (order ! y))"
    and c: "pass_conflict (ps ! (order ! x)) (ps ! (order ! y))"
  shows "x < y"
proof -
  have "order ! y < length ps" using o(3) nth_mem [OF xy(2)] by blast
  then have "(order ! y, order ! x) \<in> (edges_of (hazard_adj ps))\<^sup>+"
    using conflicts_ordered [OF ix xy(3) _ ns c] edges_eq [OF ix] by simp
  from deps_first_trancl [OF o(2,1) xy(2) this] obtain z where "z < y" "order ! z = order ! x" by blast
  then show ?thesis using o(1) xy by (metis nth_eq_iff_index_eq order.strict_trans)
qed

subsection \<open>Satisfied bakes are not scheduled\<close>

lemma sweep_event_targets:
  assumes "\<forall>i. set_option (sw_producer s i) \<union> set (sw_readers s i) \<subseteq> V" "edges s \<subseteq> UNIV \<times> V" "fst e \<in> V"
    "sweep_ok (fst e) s"
  shows "(\<forall>i. set_option (sw_producer (sweep_event e s) i) \<union> set (sw_readers (sweep_event e s) i) \<subseteq> V) \<and>
     edges (sweep_event e s) \<subseteq> UNIV \<times> V"
proof -
  obtain k j w where e: "e = (k, j, w)" by (cases e)
  have ok: "sweep_ok k s" using assms(4) by (simp add: e)
  note E = sweep_event_ok [OF ok, of j w]
  show ?thesis
    unfolding e E(2-4) using assms(1,2,3) by (auto simp: e links_def split: if_splits)
qed

lemma fold_sweep_targets:
  assumes "sweep_ok k s" "\<forall>i. set_option (sw_producer s i) \<union> set (sw_readers s i) \<subseteq> V" "edges s \<subseteq> UNIV \<times> V"
    "sorted (map fst fs)" "\<forall>f \<in> set fs. k \<le> fst f \<and> fst f \<in> V"
  shows "edges (fold sweep_event fs s) \<subseteq> UNIV \<times> V"
  using assms
proof (induction fs arbitrary: k s)
  case (Cons f fs)
  obtain p i w where f: "f = (p, i, w)" by (cases f)
  have ok: "sweep_ok p s" using Cons.prems by (intro sweep_ok_mono [OF Cons.prems(1)]) (simp add: f)
  have t: "(\<forall>i. set_option (sw_producer (sweep_event f s) i) \<union> set (sw_readers (sweep_event f s) i) \<subseteq> V) \<and>
     edges (sweep_event f s) \<subseteq> UNIV \<times> V"
    by (rule sweep_event_targets) (use Cons.prems ok in \<open>auto simp: f\<close>)
  have "edges (fold sweep_event fs (sweep_event f s)) \<subseteq> UNIV \<times> V"
    using Cons.prems t sweep_event_ok(1) [OF ok, of i w]
    by (intro Cons.IH [of p]) (auto simp: f simp del: sweep_event.simps)
  then show ?case by simp
qed simp

lemma edges_into_events:
  assumes "indexed ps"
  shows "edges (sweep_resource_versions ps) \<subseteq> UNIV \<times> fst ` set (events ps)"
  unfolding sweep_events
  by (rule fold_sweep_targets [OF sweep_start_ok _ _ events_sorted [OF assms]])
     (auto simp: sweep_start_def edges_def)

lemma events_not_skipped:
  assumes "indexed ps" "v \<in> fst ` set (events ps)"
  shows "v < length ps \<and> \<not> pn_skip_init (ps ! v)"
proof -
  from assms(2) obtain p where p: "p \<in> set ps" "\<not> pn_skip_init p" "v = pn_index p"
    by (auto simp: events_def pass_events_def split: if_splits)
  then show ?thesis using assms(1) by (auto simp: in_set_conv_nth indexed_def)
qed

lemma scheduled_not_skipped:
  assumes ix: "indexed (g_passes g)" and v: "v \<in> reached (hazard_adj (g_passes g)) (set (root_indices g))"
  shows "v < length (g_passes g) \<and> \<not> pn_skip_init (g_passes g ! v)"
proof -
  obtain r where r: "r \<in> set (root_indices g)" "(r, v) \<in> (edges_of (hazard_adj (g_passes g)))\<^sup>*"
    using v by (auto simp: reached_def)
  from r(2) show ?thesis
  proof (cases rule: rtranclE)
    case base
    from r(1) obtain p where "p \<in> set (g_passes g)" "is_root g p" "r = pn_index p" by (auto simp: root_indices_def)
    then show ?thesis using base ix by (auto simp: in_set_conv_nth indexed_def is_root_def)
  next
    case (step u)
    then have "(u, v) \<in> edges (sweep_resource_versions (g_passes g))" using edges_eq [OF ix] by simp
    then have "v \<in> fst ` set (events (g_passes g))" using edges_into_events [OF ix] by blast
    then show ?thesis using events_not_skipped [OF ix] by blast
  qed
qed


subsection \<open>The schedule of a compiled graph\<close>

lemma linked_nth:
  assumes "i < length (g_passes g)"
  shows "pn_accesses (linked_passes g ! i) = pn_accesses (g_passes g ! i)"
    "pn_index (linked_passes g ! i) = pn_index (g_passes g ! i)"
    "pn_skip_init (linked_passes g ! i) = pn_skip_init (g_passes g ! i)"
    "pn_init_targets (linked_passes g ! i) = pn_init_targets (g_passes g ! i)"
    "pn_kind (linked_passes g ! i) = pn_kind (g_passes g ! i)"
  using assms by (simp_all add: linked_passes_def phase_link_def Let_def)

lemma length_linked [simp]: "length (linked_passes g) = length (g_passes g)"
  by (simp add: linked_passes_def phase_link_def Let_def)

text \<open>The passes of a compiled graph: \<open>order\<close> is their declaration indices.\<close>

definition schedule_of :: "graph \<Rightarrow> nat list" where
  "schedule_of g = map pn_index (g_passes g)"

lemma compiled_schedule:
  assumes c: "compile_impl pool enable g = Some g'" and s: "g_state g' = RG_Compiled"
  defines "b \<equiv> before_link pool g"
  shows "g_passes g' = map ((!) (linked_passes b)) (schedule_of g')" "distinct (schedule_of g')"
    "deps_first (hazard_adj (g_passes b)) (schedule_of g')"
    "set (schedule_of g') = reached (hazard_adj (g_passes b)) (set (root_indices b))"
    "set (schedule_of g') \<subseteq> {..<length (g_passes b)}" "indexed (g_passes b)"
proof -
  obtain order where h: "g_state (phase_handles g) \<noteq> RG_Failed"
    and g': "g' = compile_back enable (writers g) (culled pool g order)"
    and o: "distinct order" "deps_first (hazard_adj (g_passes b)) order"
      "set order = reached (hazard_adj (g_passes b)) (set (root_indices b))"
    using compiled_shape [OF c s] unfolding b_def by metis
  have ix: "indexed (g_passes b)" unfolding b_def by (rule before_link_indexed(1) [OF h])
  have sub: "set order \<subseteq> {..<length (g_passes b)}" using scheduled_not_skipped [OF ix] o(3) by auto
  have ps: "g_passes g' = map ((!) (linked_passes b)) order"
    unfolding g' by (simp add: compile_back_passes culled_def b_def)
  have "schedule_of g' = order"
    unfolding schedule_of_def ps using sub ix by (auto simp: linked_nth indexed_def subset_iff intro!: map_idI)
  then show "g_passes g' = map ((!) (linked_passes b)) (schedule_of g')" "distinct (schedule_of g')"
    "deps_first (hazard_adj (g_passes b)) (schedule_of g')"
    "set (schedule_of g') = reached (hazard_adj (g_passes b)) (set (root_indices b))"
    "set (schedule_of g') \<subseteq> {..<length (g_passes b)}" "indexed (g_passes b)"
    using ps o sub ix by simp_all
qed

lemma compiled_conflict_order:
  assumes c: "compile_impl pool enable g = Some g'" and s: "g_state g' = RG_Compiled"
    and xy: "x < length (g_passes g')" "y < length (g_passes g')"
      "pn_index (g_passes g' ! x) < pn_index (g_passes g' ! y)"
    and con: "pass_conflict (g_passes g' ! x) (g_passes g' ! y)"
  shows "x < y"
proof -
  let ?b = "before_link pool g" and ?o = "schedule_of g'"
  note S = compiled_schedule [OF c s]
  have len: "length ?o = length (g_passes g')" by (simp add: schedule_of_def)
  have o: "?o ! x < length (g_passes ?b)" "?o ! y < length (g_passes ?b)"
    using S(5) xy len by (simp_all add: subset_iff)
  have ns: "\<not> pn_skip_init (g_passes ?b ! (?o ! x))" "\<not> pn_skip_init (g_passes ?b ! (?o ! y))"
    using scheduled_not_skipped [OF S(6)] S(4) xy len nth_mem [of x ?o] nth_mem [of y ?o] by simp_all
  have at: "g_passes g' ! x = linked_passes ?b ! (?o ! x)" "g_passes g' ! y = linked_passes ?b ! (?o ! y)"
    using S(1) xy len by (metis nth_map)+
  have "pass_conflict (g_passes ?b ! (?o ! x)) (g_passes ?b ! (?o ! y))"
    using con o by (simp add: at pass_conflict_def linked_nth)
  moreover have "?o ! x < ?o ! y" using xy len by (simp add: schedule_of_def)
  ultimately show ?thesis using conflicts_keep_order [OF S(6,2,3,5)] xy len ns by simp
qed

end
