(* ===== verification/Compile_Back.thy ===== *)
theory Compile_Back
  imports Compile_Order
begin

text \<open>
  What the checks after the cull guarantee of a compiled graph: no uninitialised read, usage and
  lifetime records that cover every access, access ranges inside their resource, and alias slots
  whose members never live at the same time.
\<close>

subsection \<open>What it takes to reach the end\<close>

lemma unless_failed_state: "g_state (unless_failed f g) \<noteq> RG_Failed \<Longrightarrow> g_state g \<noteq> RG_Failed \<and> unless_failed f g = f g"
  by (auto simp: unless_failed_def split: if_splits)

lemma push_errors_ok: "g_state (push_errors es g) \<noteq> RG_Failed \<Longrightarrow> es = [] \<and> push_errors es g = g"
  by (auto simp: push_errors_state split: if_splits)

text \<open>The graph all checks after phase 3 see.\<close>

definition measured :: "graph \<Rightarrow> graph" where
  "measured g = phase_sizes (phase_usage g)"

lemma compile_back_compiled:
  assumes s: "g_state (compile_back enable w g) = RG_Compiled"
  shows "pass_order_errors g w (g_passes g) {} = []" "g_state (measured g) \<noteq> RG_Failed"
    "zero_extent_errors (measured g) = []" "history_errors (g_nodes (measured g)) = []"
    "all_accesses (measured g) (cube_errors (measured g)) = []"
    "all_accesses (measured g) (range_errors (measured g)) = []"
    "concat (map (render_pass_errors (measured g)) (g_passes (measured g))) = []"
    "compile_back enable w g = finish_compile (phase_alias enable (detect_transient_attachments (measured g)))"
    "g_errors (compile_back enable w g) = []"
proof -
  define g1 where "g1 = phase_order w g"
  define g2 where "g2 = unless_failed (\<lambda>g. phase_sizes (phase_usage g)) g1"
  define g3 where "g3 = unless_failed phase_extents g2"
  define g4 where "g4 = unless_failed validate_history_layers g3"
  define g5 where "g5 = unless_failed validate_cube_views g4"
  define g6 where "g6 = unless_failed validate_access_ranges g5"
  define g7 where "g7 = unless_failed validate_render_passes g6"
  have c: "compile_back enable w g =
      unless_failed (\<lambda>g. finish_compile (phase_alias enable (detect_transient_attachments g))) g7"
    by (simp add: compile_back_def g1_def g2_def g3_def g4_def g5_def g6_def g7_def Let_def)
  have nf: "g_state (compile_back enable w g) \<noteq> RG_Failed" using s by simp
  note 8 = unless_failed_state [OF nf [unfolded c]]
  note 7 = unless_failed_state [OF conjunct1 [OF 8, unfolded g7_def]]
  note 6 = unless_failed_state [OF conjunct1 [OF 7, unfolded g6_def]]
  note 5 = unless_failed_state [OF conjunct1 [OF 6, unfolded g5_def]]
  note 4 = unless_failed_state [OF conjunct1 [OF 5, unfolded g4_def]]
  note 3 = unless_failed_state [OF conjunct1 [OF 4, unfolded g3_def]]
  note 2 = unless_failed_state [OF conjunct1 [OF 3, unfolded g2_def]]
  note 1 = push_errors_ok [OF conjunct1 [OF 2, unfolded g1_def phase_order_def]]
  have e1: "g1 = g" using 1 by (simp add: g1_def phase_order_def)
  have e2: "g2 = measured g" using 2 e1 by (simp add: g2_def measured_def)
  have p3: "zero_extent_errors g2 = [] \<and> g3 = g2"
    using 3 4 push_errors_ok [of "zero_extent_errors g2" g2] by (simp add: g3_def phase_extents_def)
  have p4: "history_errors (g_nodes g3) = [] \<and> g4 = g3"
    using 4 5 push_errors_ok [of "history_errors (g_nodes g3)" g3] by (simp add: g4_def validate_history_layers_def)
  have p5: "all_accesses g4 (cube_errors g4) = [] \<and> g5 = g4"
    using 5 6 push_errors_ok [of "all_accesses g4 (cube_errors g4)" g4] by (simp add: g5_def validate_cube_views_def)
  have p6: "all_accesses g5 (range_errors g5) = [] \<and> g6 = g5"
    using 6 7 push_errors_ok [of "all_accesses g5 (range_errors g5)" g5] by (simp add: g6_def validate_access_ranges_def)
  have v7: "g7 = push_errors (concat (map (render_pass_errors g6) (g_passes g6))) g6"
    using 7 by (simp add: g7_def validate_render_passes_def)
  have p7: "concat (map (render_pass_errors g6) (g_passes g6)) = [] \<and> g7 = g6"
    using 8 push_errors_ok [of "concat (map (render_pass_errors g6) (g_passes g6))" g6] unfolding v7 by blast
  note eqs = p3 [THEN conjunct2] p4 [THEN conjunct2] p5 [THEN conjunct2] p6 [THEN conjunct2] p7 [THEN conjunct2]
  have g7: "g7 = measured g" using eqs e2 by simp
  show "pass_order_errors g w (g_passes g) {} = []" using 1 by simp
  show "g_state (measured g) \<noteq> RG_Failed" using 3 e2 by simp
  show "zero_extent_errors (measured g) = []" "history_errors (g_nodes (measured g)) = []"
    "all_accesses (measured g) (cube_errors (measured g)) = []"
    "all_accesses (measured g) (range_errors (measured g)) = []"
    "concat (map (render_pass_errors (measured g)) (g_passes (measured g))) = []"
    using p3 p4 p5 p6 p7 e2 by simp_all
  show e: "compile_back enable w g = finish_compile (phase_alias enable (detect_transient_attachments (measured g)))"
    using 8 c g7 by simp
  show "g_errors (compile_back enable w g) = []"
    using s unfolding e by (simp add: finish_compile_def split: if_splits)
qed

subsection \<open>No read before a write\<close>

definition written_ids :: "access list \<Rightarrow> nat set" where
  "written_ids as = (\<lambda>a. h_id (ac_handle a)) ` {a \<in> set as. access_is_write (ac_type a)}"

lemma written_ids_Nil [simp]: "written_ids [] = {}"
  by (simp add: written_ids_def)

lemma access_order_walk:
  "fst (access_order_errors g w p as S) = [] \<Longrightarrow>
     (\<forall>i < length as. order_error g w (S \<union> written_ids (take i as)) p (as ! i) = [])"
  and access_order_set: "snd (access_order_errors g w p as S) = S \<union> written_ids as"
proof (induction as arbitrary: S)
  case (Cons a as)
  have ins: "produces a S \<union> written_ids bs = S \<union> written_ids (a # bs)" for S bs
    by (auto simp: produces_def written_ids_def)
  {
    case 1
    then have a: "order_error g w S p a = []" and rest: "fst (access_order_errors g w p as (produces a S)) = []"
      by (simp_all add: split_beta Let_def)
    show ?case
    proof (intro allI impI)
      fix i assume i: "i < length (a # as)"
      show "order_error g w (S \<union> written_ids (take i (a # as))) p ((a # as) ! i) = []"
      proof (cases i)
        case (Suc j)
        then have "order_error g w (produces a S \<union> written_ids (take j as)) p (as ! j) = []"
          using Cons.IH(1) [OF rest] i by simp
        then show ?thesis unfolding ins using Suc by simp
      qed (use a in simp)
    qed
  next
    case 2
    show ?case using Cons.IH(2) [of "produces a S"] ins [of S as] by (simp add: split_beta Let_def)
  }
qed simp_all

lemma pass_order_walk:
  assumes "pass_order_errors g w ps S = []" "k < length ps" "i < length (pn_accesses (ps ! k))"
  shows "order_error g w (S \<union> written_ids (concat (map pn_accesses (take k ps)))
      \<union> written_ids (take i (pn_accesses (ps ! k)))) (ps ! k) (pn_accesses (ps ! k) ! i) = []"
  using assms
proof (induction ps arbitrary: S k)
  case (Cons p ps)
  have e: "fst (access_order_errors g w p (pn_accesses p) S) = []"
    "pass_order_errors g w ps (S \<union> written_ids (pn_accesses p)) = []"
    using Cons.prems(1) access_order_set [of g w p "pn_accesses p" S] by (simp_all add: split_beta Let_def)
  show ?case
  proof (cases k)
    case 0
    then show ?thesis using access_order_walk [OF e(1)] Cons.prems(3) by (simp add: written_ids_def)
  next
    case (Suc j)
    have "S \<union> written_ids (pn_accesses p) \<union> written_ids bs = S \<union> written_ids (pn_accesses p @ bs)" for bs
      by (auto simp: written_ids_def)
    then show ?thesis using Cons.IH [OF e(2), of j] Cons.prems Suc by simp
  qed
qed simp

text \<open>
  A read of a resource the graph owns for this frame sees a write: of an earlier pass, or an
  earlier declaration of its own pass.
\<close>

lemma compiled_read_written:
  assumes s: "g_state (compile_back enable w g) = RG_Compiled"
    and k: "k < length (g_passes g)" "i < length (pn_accesses (g_passes g ! k))"
    and a: "a = pn_accesses (g_passes g ! k) ! i" "\<not> access_is_write (ac_type a)" "h_id (ac_handle a) \<noteq> 0"
      "\<not> external_id g (h_id (ac_handle a))"
  shows "(\<exists>j < k. \<exists>b \<in> set (pn_accesses (g_passes g ! j)).
             access_is_write (ac_type b) \<and> h_id (ac_handle b) = h_id (ac_handle a)) \<or>
         (\<exists>j < i. access_is_write (ac_type (pn_accesses (g_passes g ! k) ! j)) \<and>
             h_id (ac_handle (pn_accesses (g_passes g ! k) ! j)) = h_id (ac_handle a))"
proof -
  let ?ps = "g_passes g" and ?as = "pn_accesses (g_passes g ! k)"
  have "order_error g w ({} \<union> written_ids (concat (map pn_accesses (take k ?ps))) \<union> written_ids (take i ?as)) (?ps ! k) a = []"
    unfolding a(1) by (rule pass_order_walk [OF compile_back_compiled(1) [OF s] k])
  then have "h_id (ac_handle a) \<in> written_ids (concat (map pn_accesses (take k ?ps))) \<union> written_ids (take i ?as)"
    using a(2-4) by (auto simp: order_error_def Let_def split: if_splits)
  then show ?thesis
  proof
    assume "h_id (ac_handle a) \<in> written_ids (concat (map pn_accesses (take k ?ps)))"
    then obtain p b where "p \<in> set (take k ?ps)" "b \<in> set (pn_accesses p)" "access_is_write (ac_type b)"
      "h_id (ac_handle b) = h_id (ac_handle a)" by (auto simp: written_ids_def)
    moreover from this(1) k(1) obtain j where "j < k" "p = ?ps ! j" by (auto simp: in_set_conv_nth)
    ultimately show ?thesis by blast
  next
    assume "h_id (ac_handle a) \<in> written_ids (take i ?as)"
    then obtain b where "b \<in> set (take i ?as)" "access_is_write (ac_type b)" "h_id (ac_handle b) = h_id (ac_handle a)"
      by (auto simp: written_ids_def)
    then show ?thesis using k(2) by (auto simp: in_set_conv_nth)
  qed
qed

end
