(* ===== verification/Lifetimes.thy ===== *)
theory Lifetimes
  imports Compile_Back
begin

text \<open>
  What phase 3 records of every resource: the passes between which it lives, the usage bits its
  physical object must have, and that none of it is lost between the recording and the compiled
  graph.
\<close>

subsection \<open>A node without its size\<close>

definition unsized :: "res_node \<Rightarrow> res_node" where
  "unsized r = r\<lparr>rn_resolving := False, rn_resolved_done := False, rn_resolved := extent_zero\<rparr>"

text \<open>What resolving sizes leaves alone.\<close>

definition outline :: "graph \<Rightarrow> res_node list \<times> phys list" where
  "outline g = (map unsized (g_nodes g), g_slots g)"

lemma unsized_upd [simp]:
  "unsized (r\<lparr>rn_resolving := b\<rparr>) = unsized r"
  "unsized (r\<lparr>rn_resolved_done := b, rn_resolved := e\<rparr>) = unsized r"
  by (simp_all add: unsized_def)

lemma declared_upd: "(\<And>r. unsized (f r) = unsized r) \<Longrightarrow> outline (upd_node i f g) = outline g"
  unfolding outline_def upd_node_simps by (simp add: map_upd_where_frame)

lemma declared_push [simp]: "outline (push_error e g) = outline g"
  by (simp add: outline_def)

lemma declared_memo: "outline (snd (memo_size i e g)) = outline g"
  by (simp add: memo_size_def declared_upd)

lemma declared_resolve: "outline (snd (resolve_size i g)) = outline g"
proof (induction i g rule: resolve_size.induct)
  case (1 i g)
  show ?case
    using 1 by (subst resolve_size.simps)
      (auto simp: declared_memo declared_upd split: option.split prod.split)
qed

lemma declared_resolve_all: "outline (resolve_all ids g) = outline g"
  unfolding resolve_all_def by (rule fold_preserves) (rule declared_resolve)

lemma declared_target: "outline (snd (target_baked pool t g)) = outline g"
  by (auto simp: target_baked_def Let_def declared_resolve split: option.split)

lemma declared_targets: "outline (snd (targets_baked pool ts g)) = outline g"
  by (induction ts arbitrary: g) (simp_all add: split_beta Let_def declared_target)

lemma declared_bake_passes: "outline (snd (bake_passes pool ps g)) = outline g"
proof (induction pool ps g rule: bake_passes.induct)
  case (2 pool p ps g)
  show ?case
  proof (cases "pn_init_targets p = []")
    case True
    then show ?thesis using 2(1) by (simp add: split_beta Let_def)
  next
    case False
    obtain c g1 where t: "targets_baked pool (pn_init_targets p) g = (c, g1)" by fastforce
    then have "outline g1 = outline g" using declared_targets [of pool "pn_init_targets p" g] by simp
    then show ?thesis using 2(2) [OF False t [symmetric]] False t by (simp add: split_beta Let_def)
  qed
qed simp

lemma declared_fields [simp]:
  "outline (g\<lparr>g_passes := ps\<rparr>) = outline g"
  "outline (g\<lparr>g_pass_count := n\<rparr>) = outline g"
  by (simp_all add: outline_def)

lemma declared_before_link:
  assumes "g_state (phase_handles g) \<noteq> RG_Failed"
  shows "outline (before_link pool g) = outline g"
  by (simp add: before_link_def phase_bake_def phase_expand_def phase_handles_ok(1) [OF assms] split_beta Let_def
      declared_bake_passes)

lemma unsized_sel [simp]:
  "rn_handle (unsized r) = rn_handle r" "rn_id (unsized r) = rn_id r" "rn_kind (unsized r) = rn_kind r"
  "is_external (unsized r) = is_external r" "rn_tex_usage (unsized r) = rn_tex_usage r"
  "rn_buf_usage (unsized r) = rn_buf_usage r" "rn_first_use (unsized r) = rn_first_use r"
  "rn_last_use (unsized r) = rn_last_use r" "rn_alias_slot (unsized r) = rn_alias_slot r"
  "rn_buffer_size (unsized r) = rn_buffer_size r" "rn_mips (unsized r) = rn_mips r"
  "rn_has_writer (unsized r) = rn_has_writer r" "rn_first_defines (unsized r) = rn_first_defines r"
  "rn_live_accesses (unsized r) = rn_live_accesses r" "rn_sole_access (unsized r) = rn_sole_access r"
  "node_layers (unsized r) = node_layers r"
  by (simp_all add: unsized_def is_external_def node_layers_def)

lemma unsized_fields:
  assumes "unsized r = unsized q"
  shows "rn_handle r = rn_handle q" "rn_id r = rn_id q" "rn_kind r = rn_kind q" "is_external r = is_external q"
    "rn_tex_usage r = rn_tex_usage q" "rn_buf_usage r = rn_buf_usage q" "rn_first_use r = rn_first_use q"
    "rn_last_use r = rn_last_use q" "rn_alias_slot r = rn_alias_slot q" "rn_buffer_size r = rn_buffer_size q"
    "rn_mips r = rn_mips q" "rn_has_writer r = rn_has_writer q" "rn_first_defines r = rn_first_defines q"
    "rn_live_accesses r = rn_live_accesses q" "rn_sole_access r = rn_sole_access q" "node_layers r = node_layers q"
  by (metis assms unsized_sel)+

subsection \<open>The access walk, resource by resource\<close>

type_synonym touched = "nat \<times> access"

definition touches :: "pass_node list \<Rightarrow> touched list" where
  "touches ps = concat (map (\<lambda>(k, p). map (Pair k) (pn_accesses p)) (enumerate 0 ps))"

definition touches_of :: "pass_node list \<Rightarrow> nat \<Rightarrow> touched list" where
  "touches_of ps i = filter (\<lambda>t. h_id (ac_handle (snd t)) = i) (touches ps)"

definition mark_touch :: "touched \<Rightarrow> res_node \<Rightarrow> res_node" where
  "mark_touch t r = note_access (fst t) (snd t) r"

lemma fold_upd_node:
  assumes "\<And>t r. rn_handle (h t r) = rn_handle r"
  shows "fold (\<lambda>t g. upd_node (f t) (h t) g) ts g =
     g\<lparr>g_nodes := map (\<lambda>r. fold h (filter (\<lambda>t. f t = h_id (rn_handle r)) ts) r) (g_nodes g)\<rparr>"
proof (induction ts arbitrary: g)
  case (Cons t ts)
  show ?case
    using Cons by (auto simp: upd_node_def upd_where_def assms intro!: arg_cong [where f = "\<lambda>x. g\<lparr>g_nodes := x\<rparr>"])
qed (simp add: upd_node_def)

lemma note_access_handle [simp]: "rn_handle (note_access k a r) = rn_handle r"
  by (simp add: note_access_def Let_def)

lemma phase_usage_nodes:
  "phase_usage g = g\<lparr>g_nodes := map (\<lambda>r. fold mark_touch (touches_of (g_passes g) (h_id (rn_handle r))) r) (g_nodes g)\<rparr>"
proof -
  have "phase_usage g = fold (\<lambda>t g. upd_node (h_id (ac_handle (snd t))) (mark_touch t) g) (touches (g_passes g)) g"
    unfolding phase_usage_def touches_def fold_concat_map [symmetric]
    by (rule fold_cong) (auto simp: note_pass_def fold_map comp_def mark_touch_def [abs_def])
  then show ?thesis
    by (simp add: fold_upd_node [of mark_touch] mark_touch_def touches_of_def)
qed

text \<open>The record of a resource nobody touched yet, after the touches \<open>ts\<close>.\<close>

definition noted :: "touched list \<Rightarrow> res_node \<Rightarrow> res_node" where
  "noted ts r =
     r\<lparr>rn_live_accesses := length ts, rn_sole_access := (if ts = [] then None else Some (snd (last ts))),
       rn_first_use := (if is_external r \<or> ts = [] then None else Some (fst (hd ts))),
       rn_first_defines := (\<not> is_external r \<and> ts \<noteq> [] \<and> access_defines (snd (hd ts))),
       rn_last_use := (if is_external r \<or> ts = [] then None else Some (fst (last ts))),
       rn_has_writer := (\<not> is_external r \<and> (\<exists>t \<in> set ts. access_is_write (ac_type (snd t)))),
       rn_tex_usage := (if rn_kind r = RK_Texture then \<Union>t \<in> set ts. tex_usage_of (ac_type (snd t)) else {}),
       rn_buf_usage := (if rn_kind r = RK_Texture then {} else \<Union>t \<in> set ts. buf_usage_of (ac_type (snd t)))\<rparr>"

definition unnoted :: "res_node \<Rightarrow> bool" where
  "unnoted r \<longleftrightarrow> rn_live_accesses r = 0 \<and> rn_sole_access r = None \<and> rn_first_use r = None \<and>
     rn_last_use r = None \<and> \<not> rn_has_writer r \<and> \<not> rn_first_defines r \<and> rn_tex_usage r = {} \<and> rn_buf_usage r = {}"

lemma mark_noted: "mark_touch t (noted ts r) = noted (ts @ [t]) r"
proof -
  have e: "is_external (noted ts r) = is_external r" "rn_kind (noted ts r) = rn_kind r"
    by (simp_all add: noted_def is_external_def)
  let ?f = "\<lambda>q. q\<lparr>rn_live_accesses := rn_live_accesses q + 1, rn_sole_access := Some (snd t)\<rparr>"
  have u: "rn_tex_usage (noted ts r) \<union> tex_usage_of (ac_type (snd t)) = rn_tex_usage (noted (ts @ [t]) r)"
    if "rn_kind r = RK_Texture" using that by (auto simp: noted_def)
  have v: "rn_buf_usage (noted ts r) \<union> buf_usage_of (ac_type (snd t)) = rn_buf_usage (noted (ts @ [t]) r)"
    if "rn_kind r \<noteq> RK_Texture" using that by (auto simp: noted_def)
  show ?thesis
  proof (rule res_node.equality)
  qed (use e u v in \<open>simp_all add: mark_touch_def note_access_def Let_def noted_def is_external_def\<close>)
qed

lemma fold_mark: "unnoted r \<Longrightarrow> fold mark_touch ts r = noted ts r"
proof (induction ts rule: rev_induct)
  case Nil
  then show ?case by (simp add: noted_def unnoted_def)
next
  case (snoc t ts)
  then show ?case by (simp add: mark_noted)
qed


subsection \<open>The nodes of a compiled graph\<close>

lemma unsized_unnoted:
  assumes "unsized r = unsized q"
  shows "unnoted r \<longleftrightarrow> unnoted q"
  using unsized_fields [OF assms] by (simp add: unnoted_def)

lemma noted_sel [simp]:
  "rn_handle (noted ts r) = rn_handle r" "rn_kind (noted ts r) = rn_kind r" "is_external (noted ts r) = is_external r"
  "rn_id (noted ts r) = rn_id r" "rn_alias_slot (noted ts r) = rn_alias_slot r"
  "rn_buffer_size (noted ts r) = rn_buffer_size r" "rn_mips (noted ts r) = rn_mips r"
  "node_layers (noted ts r) = node_layers r"
  by (simp_all add: noted_def is_external_def node_layers_def)

lemma noted_records:
  "rn_first_use (noted ts r) = (if is_external r \<or> ts = [] then None else Some (fst (hd ts)))"
  "rn_last_use (noted ts r) = (if is_external r \<or> ts = [] then None else Some (fst (last ts)))"
  "rn_tex_usage (noted ts r) = (if rn_kind r = RK_Texture then \<Union>t \<in> set ts. tex_usage_of (ac_type (snd t)) else {})"
  "rn_buf_usage (noted ts r) = (if rn_kind r = RK_Texture then {} else \<Union>t \<in> set ts. buf_usage_of (ac_type (snd t)))"
  "rn_live_accesses (noted ts r) = length ts" "rn_sole_access (noted ts r) = (if ts = [] then None else Some (snd (last ts)))"
  by (simp_all add: noted_def)

lemma declared_nth: "n < length (g_nodes g) \<Longrightarrow> fst (outline g) ! n = unsized (g_nodes g ! n)"
  by (simp add: outline_def)

lemma declared_length: "outline g = outline h \<Longrightarrow> length (g_nodes g) = length (g_nodes h)"
  unfolding outline_def by (metis length_map fst_conv)

text \<open>After phase 3 the node at position \<open>n\<close> is the declared one, noted and with its size.\<close>

lemma measured_nth:
  assumes "n < length (g_nodes g)" "unnoted (g_nodes g ! n)"
  shows "length (g_nodes (measured g)) = length (g_nodes g)"
    "unsized (g_nodes (measured g) ! n) =
       unsized (noted (touches_of (g_passes g) (h_id (rn_handle (g_nodes g ! n)))) (g_nodes g ! n))"
proof -
  have d: "outline (measured g) = outline (phase_usage g)"
    by (simp add: measured_def phase_sizes_def declared_resolve_all)
  have l: "length (g_nodes (phase_usage g)) = length (g_nodes g)" by (simp add: phase_usage_nodes)
  then show L: "length (g_nodes (measured g)) = length (g_nodes g)" using declared_length [OF d] by simp
  have "unsized (g_nodes (measured g) ! n) = unsized (g_nodes (phase_usage g) ! n)"
    using d declared_nth [of n "measured g"] declared_nth [of n "phase_usage g"] assms(1) L l by simp
  then show "unsized (g_nodes (measured g) ! n) =
       unsized (noted (touches_of (g_passes g) (h_id (rn_handle (g_nodes g ! n)))) (g_nodes g ! n))"
    using assms by (simp add: phase_usage_nodes fold_mark)
qed

lemma touches_cons_sorted:
  "sorted (map fst (concat (map (\<lambda>(k, p). map (Pair k) (pn_accesses p)) (enumerate m ps)))) \<and>
   (\<forall>t \<in> set (concat (map (\<lambda>(k, p). map (Pair k) (pn_accesses p)) (enumerate m ps))). m \<le> fst t)"
proof (induction ps arbitrary: m)
  case (Cons p ps)
  let ?rest = "concat (map (\<lambda>(k, p). map (Pair k) (pn_accesses p)) (enumerate (Suc m) ps))"
  have "map fst (map (Pair m) (pn_accesses p)) = replicate (length (pn_accesses p)) m"
    by (simp add: comp_def map_replicate_const)
  moreover have "sorted (map fst ?rest)" "\<forall>t \<in> set ?rest. Suc m \<le> fst t" using Cons [of "Suc m"] by blast+
  moreover from this(2) have "\<forall>t \<in> set ?rest. m \<le> fst t" using Suc_leD by blast
  ultimately show ?case unfolding enumerate_simps by (auto simp only: list.map concat.simps prod.case map_append sorted_append
        sorted_replicate set_append set_map set_replicate_conv_if fst_conv Un_iff image_iff split: if_splits)
qed simp

lemma touches_sorted: "sorted (map fst (touches_of ps i))"
  unfolding touches_of_def touches_def by (rule sorted_filter) (rule conjunct1 [OF touches_cons_sorted])

lemma in_touches: "(k, a) \<in> set (touches_of ps i) \<longleftrightarrow>
    k < length ps \<and> a \<in> set (pn_accesses (ps ! k)) \<and> h_id (ac_handle a) = i"
proof -
  have "(k, a) \<in> set (touches ps) \<longleftrightarrow> (\<exists>p. (k, p) \<in> set (enumerate 0 ps) \<and> a \<in> set (pn_accesses p))"
    by (force simp: touches_def)
  then show ?thesis by (auto simp: touches_of_def in_set_enumerate_eq)
qed

text \<open>A lifetime covers every access, and the usage bits allow it.\<close>

definition covered :: "res_node \<Rightarrow> nat \<Rightarrow> access \<Rightarrow> bool" where
  "covered r k a \<longleftrightarrow>
     (\<not> is_external r \<longrightarrow> (\<exists>f l. rn_first_use r = Some f \<and> rn_last_use r = Some l \<and> f \<le> k \<and> k \<le> l)) \<and>
     (if rn_kind r = RK_Texture then tex_usage_of (ac_type a) \<subseteq> rn_tex_usage r
      else buf_usage_of (ac_type a) \<subseteq> rn_buf_usage r)"

lemma sorted_hd_last:
  assumes "sorted (map fst ts)" "t \<in> set ts"
  shows "fst (hd ts) \<le> fst t \<and> fst t \<le> fst (last ts)"
proof -
  obtain us vs where ts: "ts = us @ t # vs" using split_list [OF assms(2)] by blast
  show ?thesis
    using assms(1) unfolding ts by (cases us; cases "vs = []") (simp_all add: sorted_append)
qed

lemma noted_covered:
  assumes "unsized q = unsized (noted (touches_of ps (h_id (rn_handle r))) r)" "k < length ps" "a \<in> set (pn_accesses (ps ! k))"
    "h_id (ac_handle a) = h_id (rn_handle r)"
  shows "covered q k a"
proof -
  let ?ts = "touches_of ps (h_id (rn_handle r))"
  have t: "(k, a) \<in> set ?ts" using assms(2-4) by (simp add: in_touches)
  then have ne: "?ts \<noteq> []" by auto
  have o: "fst (hd ?ts) \<le> k \<and> k \<le> fst (last ?ts)" using sorted_hd_last [OF touches_sorted t] by simp
  note F = unsized_fields [OF assms(1), unfolded noted_sel noted_records]
  have "\<not> is_external q \<Longrightarrow> rn_first_use q = Some (fst (hd ?ts)) \<and> rn_last_use q = Some (fst (last ?ts))"
    using F(4,7,8) ne by simp
  moreover have "rn_kind q = RK_Texture \<Longrightarrow> tex_usage_of (ac_type a) \<subseteq> rn_tex_usage q"
    using F(3,5) t by auto
  moreover have "rn_kind q \<noteq> RK_Texture \<Longrightarrow> buf_usage_of (ac_type a) \<subseteq> rn_buf_usage q"
    using F(3,6) t by auto
  ultimately show ?thesis using o by (auto simp: covered_def)
qed

end
