(* ===== verification/Aliasing.thy ===== *)
theory Aliasing
  imports Lifetimes "HOL-Library.Multiset"
begin

text \<open>
  Phase 4: the members of one alias slot never live at the same time, agree on what they are, and
  the slot's object may be used the way each of them is.
\<close>

subsection \<open>First fit as a run over the eligible nodes\<close>

fun slot_run :: "res_node list \<Rightarrow> phys list \<Rightarrow> nat list \<times> phys list" where
  "slot_run [] phs = ([], phs)"
| "slot_run (r # rs) phs =
     (let (ks, phs') = slot_run rs (place_in_slot r phs) in (first_fit r phs # ks, phs'))"

definition single :: "res_node \<Rightarrow> bool" where
  "single r \<longleftrightarrow> rn_kind r = RK_Buffer \<or> (rn_mips r = 1 \<and> rn_samples r = 1)"

definition set_alias :: "res_node \<times> nat \<Rightarrow> res_node \<Rightarrow> res_node" where
  "set_alias t r = r\<lparr>rn_alias_slot := Some (snd t)\<rparr>"

lemma assign_slots_run:
  assumes "list_all single rs"
  shows "assign_slots rs g =
     (fold (\<lambda>t g. upd_node (h_id (rn_handle (fst t))) (set_alias t) g) (zip rs (fst (slot_run rs (g_slots g)))) g)
       \<lparr>g_slots := snd (slot_run rs (g_slots g))\<rparr>"
  using assms
proof (induction rs arbitrary: g)
  case (Cons r rs)
  have s: "single r" "list_all single rs" using Cons.prems by simp_all
  let ?g = "upd_node (h_id (rn_handle r)) (\<lambda>q. q\<lparr>rn_alias_slot := Some (first_fit r (g_slots g))\<rparr>)
             (g\<lparr>g_slots := place_in_slot r (g_slots g)\<rparr>)"
  have step: "assign_slots (r # rs) g = assign_slots rs ?g"
    using s(1) by (auto simp: single_def Let_def)
  have c1: "upd_node i f (g\<lparr>g_slots := s\<rparr>) = (upd_node i f g)\<lparr>g_slots := s\<rparr>" for i f s and g :: graph
    by (simp add: upd_node_def)
  have comm: "(fold (\<lambda>t g. upd_node (f t) (h t) g) ts (g\<lparr>g_slots := s\<rparr>))\<lparr>g_slots := s'\<rparr> =
      (fold (\<lambda>t g. upd_node (f t) (h t) g) ts g)\<lparr>g_slots := s'\<rparr>" for f h ts s s' and g :: graph
    by (induction ts arbitrary: g) (simp_all add: c1)
  show ?case
    unfolding step Cons.IH [OF s(2)] by (simp add: split_beta Let_def set_alias_def [abs_def] c1 comm)
qed simp

subsection \<open>What a slot promises its members\<close>

definition slot_holds :: "res_node \<Rightarrow> phys \<Rightarrow> bool" where
  "slot_holds r ph \<longleftrightarrow> ph_kind ph = rn_kind r \<and>
     (if rn_kind r = RK_Buffer then ph_buffer_size ph = rn_buffer_size r \<and> rn_buf_usage r \<subseteq> ph_buf_usage ph
      else ph_sig ph = tex_signature_of r \<and> rn_tex_usage r \<subseteq> ph_tex_usage ph)"

definition lives :: "res_node \<Rightarrow> nat \<Rightarrow> nat \<Rightarrow> bool" where
  "lives r f l \<longleftrightarrow> rn_first_use r = Some f \<and> rn_last_use r = Some l \<and> f \<le> l"

definition slots_inv :: "res_node list \<Rightarrow> nat list \<Rightarrow> phys list \<Rightarrow> bool" where
  "slots_inv rs ks phs \<longleftrightarrow> length ks = length rs \<and>
     (\<forall>m < length rs. ks ! m < length phs \<and> slot_holds (rs ! m) (phs ! (ks ! m)) \<and>
        the (rn_last_use (rs ! m)) \<le> ph_free_from (phs ! (ks ! m))) \<and>
     (\<forall>m n. m < n \<longrightarrow> n < length rs \<longrightarrow> ks ! m = ks ! n \<longrightarrow> the (rn_last_use (rs ! m)) < the (rn_first_use (rs ! n)))"

lemma slots_invD:
  assumes "slots_inv rs ks phs"
  shows "m < length rs \<Longrightarrow> ks ! m < length phs" "m < length rs \<Longrightarrow> slot_holds (rs ! m) (phs ! (ks ! m))"
    "m < n \<Longrightarrow> n < length rs \<Longrightarrow> ks ! m = ks ! n \<Longrightarrow> the (rn_last_use (rs ! m)) < the (rn_first_use (rs ! n))"
  using assms by (simp_all add: slots_inv_def)

lemma first_fit_hit:
  assumes "first_fit r phs < length phs"
  shows "slot_fits r (phs ! first_fit r phs)"
  using nth_length_takeWhile [of "\<lambda>ph. \<not> slot_fits r ph" phs] assms by (simp add: first_fit_def)

lemma first_fit_le: "first_fit r phs \<le> length phs"
  unfolding first_fit_def by (rule length_takeWhile_le)

lemma join_slot_simps:
  "ph_kind (join_slot r ph) = ph_kind ph" "ph_sig (join_slot r ph) = ph_sig ph"
  "ph_buffer_size (join_slot r ph) = ph_buffer_size ph" "ph_free_from (join_slot r ph) = the (rn_last_use r)"
  "ph_tex_usage ph \<subseteq> ph_tex_usage (join_slot r ph)" "ph_buf_usage ph \<subseteq> ph_buf_usage (join_slot r ph)"
  "rn_kind r = RK_Buffer \<Longrightarrow> rn_buf_usage r \<subseteq> ph_buf_usage (join_slot r ph)"
  "rn_kind r \<noteq> RK_Buffer \<Longrightarrow> rn_tex_usage r \<subseteq> ph_tex_usage (join_slot r ph)"
  by (auto simp: join_slot_def Let_def)

lemma join_slot_keeps: "slot_holds q ph \<Longrightarrow> slot_holds q (join_slot r ph)"
  using join_slot_simps [where r = r and ph = ph] by (auto simp: slot_holds_def split: if_splits)

lemma join_slot_new:
  "ph_kind ph = rn_kind r \<Longrightarrow>
   (if rn_kind r = RK_Buffer then ph_buffer_size ph = rn_buffer_size r else ph_sig ph = tex_signature_of r) \<Longrightarrow>
   slot_holds r (join_slot r ph)"
  using join_slot_simps [where r = r and ph = ph] by (auto simp: slot_holds_def split: if_splits)

lemma slots_step:
  assumes inv: "slots_inv rs ks phs" and l: "lives r f l"
  shows "slots_inv (rs @ [r]) (ks @ [first_fit r phs]) (place_in_slot r phs)"
proof -
  let ?k = "first_fit r phs"
  define base where "base = (if ?k < length phs then phs else phs @ [open_slot r])"
  define J where "J = join_slot r (base ! ?k)"
  have P: "place_in_slot r phs = base[?k := J]" by (simp add: place_in_slot_def Let_def base_def J_def)
  have kb: "?k < length base" using first_fit_le [of r phs] by (auto simp: base_def)
  have old: "base ! j = phs ! j" "j < length base" if "j < length phs" for j using that by (auto simp: base_def nth_append)
  have L: "length ks = length rs" using inv by (simp add: slots_inv_def)
  then have at: "(ks @ [?k]) ! length rs = ?k" by (metis nth_append_length)
  have new: "base ! ?k = open_slot r" if "\<not> ?k < length phs"
    using that first_fit_le [of r phs] by (simp add: base_def nth_append)
  have mine: "slot_holds r J"
    unfolding J_def
  proof (rule join_slot_new)
    show "ph_kind (base ! ?k) = rn_kind r"
      using first_fit_hit [of r phs] new old(1) by (cases "?k < length phs") (auto simp: slot_fits_def open_slot_def Let_def)
    show "if rn_kind r = RK_Buffer then ph_buffer_size (base ! ?k) = rn_buffer_size r else ph_sig (base ! ?k) = tex_signature_of r"
      using first_fit_hit [of r phs] new old(1)
      by (cases "?k < length phs") (auto simp: slot_fits_def open_slot_def Let_def split: if_splits)
  qed
  have lt: "the (rn_last_use (rs ! m)) < the (rn_first_use r)" if "m < length rs" "ks ! m = ?k" for m
  proof -
    have "?k < length phs" "the (rn_last_use (rs ! m)) \<le> ph_free_from (phs ! ?k)"
      using inv that by (auto simp: slots_inv_def)
    then show ?thesis using first_fit_hit [of r phs] by (auto simp: slot_fits_def)
  qed
  have fl: "the (rn_first_use r) \<le> the (rn_last_use r)" using l by (simp add: lives_def)
  have free: "ph_free_from J = the (rn_last_use r)" by (simp add: J_def join_slot_simps)
  have each: "(ks @ [?k]) ! m < length (base[?k := J]) \<and> slot_holds ((rs @ [r]) ! m) (base[?k := J] ! ((ks @ [?k]) ! m)) \<and>
      the (rn_last_use ((rs @ [r]) ! m)) \<le> ph_free_from (base[?k := J] ! ((ks @ [?k]) ! m))"
    if m: "m < length (rs @ [r])" for m
  proof (cases "m = length rs")
    case True
    then show ?thesis using at kb mine free by simp
  next
    case False
    then have m': "m < length rs" "m < length ks" using m L by auto
    then have o: "ks ! m < length phs" "slot_holds (rs ! m) (phs ! (ks ! m))"
      "the (rn_last_use (rs ! m)) \<le> ph_free_from (phs ! (ks ! m))"
      using inv by (auto simp: slots_inv_def)
    have nth: "(ks @ [?k]) ! m = ks ! m" "(rs @ [r]) ! m = rs ! m" using m' by (simp_all add: nth_append)
    show ?thesis
    proof (cases "ks ! m = ?k")
      case True
      have "slot_holds (rs ! m) J" unfolding J_def using o(1,2) old(1) True by (simp add: join_slot_keeps)
      then show ?thesis using nth kb lt [OF m'(1) True] fl free True by simp
    next
      case neq: False
      then show ?thesis using nth o old [OF o(1)] by simp
    qed
  qed
  moreover have "the (rn_last_use ((rs @ [r]) ! m)) < the (rn_first_use ((rs @ [r]) ! n))"
    if mn: "m < n" "n < length (rs @ [r])" "(ks @ [?k]) ! m = (ks @ [?k]) ! n" for m n
  proof (cases "n = length rs")
    case True
    then show ?thesis using mn lt [of m] at L by (simp add: nth_append)
  next
    case False
    then show ?thesis using mn inv L by (simp add: slots_inv_def nth_append)
  qed
  ultimately show ?thesis using L by (simp add: slots_inv_def P)
qed

lemma slot_run_inv:
  assumes "slots_inv ds js phs" "\<forall>r \<in> set rs. \<exists>f l. lives r f l"
  shows "slots_inv (ds @ rs) (js @ fst (slot_run rs phs)) (snd (slot_run rs phs))"
  using assms
proof (induction rs arbitrary: ds js phs)
  case (Cons r rs)
  obtain f l where "lives r f l" using Cons.prems(2) by auto
  from Cons.IH [OF slots_step [OF Cons.prems(1) this]] Cons.prems(2)
  show ?case by (simp add: split_beta Let_def)
qed simp


subsection \<open>The nodes of a compiled graph\<close>

text \<open>A node without what the memoryless check and phase 4 set.\<close>

definition bare :: "res_node \<Rightarrow> res_node" where
  "bare r = r\<lparr>rn_transient_attachment := False, rn_alias_slot := None\<rparr>"

lemma bare_sel [simp]:
  "rn_handle (bare r) = rn_handle r" "rn_kind (bare r) = rn_kind r" "is_external (bare r) = is_external r"
  "rn_first_use (bare r) = rn_first_use r" "rn_last_use (bare r) = rn_last_use r"
  "rn_tex_usage (bare r) = rn_tex_usage r" "rn_buf_usage (bare r) = rn_buf_usage r"
  "rn_buffer_size (bare r) = rn_buffer_size r" "tex_signature_of (bare r) = tex_signature_of r"
  "rn_mips (bare r) = rn_mips r" "node_layers (bare r) = node_layers r" "rn_resolved (bare r) = rn_resolved r"
  "rn_id (bare r) = rn_id r" "rn_format (bare r) = rn_format r" "rn_samples (bare r) = rn_samples r"
  by (simp_all add: bare_def is_external_def tex_signature_of_def node_layers_def)

lemma bare_set_alias [simp]: "bare (set_alias t r) = bare r" "bare (fold set_alias ts r) = bare r"
proof -
  show one: "bare (set_alias t r) = bare r" for t r by (simp add: bare_def set_alias_def)
  show "bare (fold set_alias ts r) = bare r" by (rule fold_preserves) (rule one)
qed

lemma bare_flag [simp]: "bare (r\<lparr>rn_transient_attachment := b\<rparr>) = bare r"
  by (simp add: bare_def)

lemma bareD:
  assumes "bare r = bare q"
  shows "rn_handle r = rn_handle q" "rn_kind r = rn_kind q" "is_external r = is_external q"
  "rn_first_use r = rn_first_use q" "rn_last_use r = rn_last_use q"
  "rn_tex_usage r = rn_tex_usage q" "rn_buf_usage r = rn_buf_usage q"
  "rn_buffer_size r = rn_buffer_size q" "tex_signature_of r = tex_signature_of q"
  "rn_mips r = rn_mips q" "node_layers r = node_layers q" "rn_resolved r = rn_resolved q"
  "rn_id r = rn_id q" "rn_format r = rn_format q" "rn_samples r = rn_samples q"
  by (metis assms bare_sel)+

lemma eligible_single: "list_all single (eligible_nodes g)"
proof -
  have "single r" if "alias_eligible r" for r
    using that by (cases "rn_kind r") (auto simp: alias_eligible_def single_def split: if_splits)
  then show ?thesis by (auto simp: eligible_nodes_def list_all_iff)
qed

lemma aliased_nodes:
  "g_nodes (finish_compile (phase_alias enable g)) =
     (if enable then map (\<lambda>r. fold set_alias
        (filter (\<lambda>t. h_id (rn_handle (fst t)) = h_id (rn_handle r)) (zip (eligible_nodes g) (fst (slot_run (eligible_nodes g) (g_slots g))))) r)
        (g_nodes g) else g_nodes g)"
  "g_slots (finish_compile (phase_alias enable g)) = (if enable then snd (slot_run (eligible_nodes g) (g_slots g)) else g_slots g)"
proof -
  have h: "rn_handle (set_alias t r) = rn_handle r" for t r by (simp add: set_alias_def)
  note A = assign_slots_run [OF eligible_single, of g, unfolded fold_upd_node [of set_alias, OF h]]
  show "g_nodes (finish_compile (phase_alias enable g)) =
     (if enable then map (\<lambda>r. fold set_alias
        (filter (\<lambda>t. h_id (rn_handle (fst t)) = h_id (rn_handle r)) (zip (eligible_nodes g) (fst (slot_run (eligible_nodes g) (g_slots g))))) r)
        (g_nodes g) else g_nodes g)"
    by (simp add: finish_compile_def phase_alias_def A)
  show "g_slots (finish_compile (phase_alias enable g)) = (if enable then snd (slot_run (eligible_nodes g) (g_slots g)) else g_slots g)"
    by (simp add: finish_compile_def phase_alias_def A)
qed

lemma aliased_bare: "map bare (g_nodes (finish_compile (phase_alias enable (detect_transient_attachments g)))) = map bare (g_nodes g)"
  by (simp add: aliased_nodes detect_transient_attachments_def comp_def if_distrib [of bare] cong: if_cong)

text \<open>The chain from the recording to the compiled graph.\<close>

lemma compiled_back_end:
  assumes c: "compile_impl pool enable g = Some g'" and s: "g_state g' = RG_Compiled"
  obtains c where "g' = finish_compile (phase_alias enable (detect_transient_attachments (measured c)))"
    "g_passes g' = g_passes c" "outline c = outline g"
    "length (g_nodes g') = length (g_nodes g)" "length (g_nodes c) = length (g_nodes g)"
    "g_slots (measured c) = g_slots g"
proof -
  obtain order where h: "g_state (phase_handles g) \<noteq> RG_Failed"
    and g': "g' = compile_back enable (writers g) (culled pool g order)"
    using compiled_shape [OF c s] by metis
  let ?c = "culled pool g order"
  have e: "g' = finish_compile (phase_alias enable (detect_transient_attachments (measured ?c)))"
    using compile_back_compiled(8) s unfolding g' by blast
  have ps: "g_passes g' = g_passes ?c" unfolding g' by (rule compile_back_passes)
  have d: "outline ?c = outline g"
    using declared_before_link [OF h, of pool] by (simp add: culled_def phase_link_def Let_def)
  have m: "outline (measured ?c) = outline (phase_usage ?c)"
    by (simp add: measured_def phase_sizes_def declared_resolve_all)
  have "length (g_nodes (phase_usage ?c)) = length (g_nodes ?c)" by (simp add: phase_usage_nodes)
  then have "length (g_nodes (measured ?c)) = length (g_nodes g)"
    using declared_length [OF m] declared_length [OF d] by simp
  then have l: "length (g_nodes g') = length (g_nodes g)"
    unfolding e using arg_cong [OF aliased_bare, of length] by (metis length_map)
  have sl: "g_slots (measured ?c) = g_slots g"
    using m d by (simp add: outline_def phase_usage_nodes)
  show thesis by (rule that [OF e ps d l declared_length [OF d] sl])
qed

lemma compiled_node:
  assumes c: "compile_impl pool enable g = Some g'" and s: "g_state g' = RG_Compiled"
    and n: "n < length (g_nodes g)" and u: "unnoted (g_nodes g ! n)"
  shows "\<exists>q. bare (g_nodes g' ! n) = bare q \<and>
         unsized q = unsized (noted (touches_of (g_passes g') (h_id (rn_handle (g_nodes g ! n)))) (g_nodes g ! n))"
proof -
  obtain c where e: "g' = finish_compile (phase_alias enable (detect_transient_attachments (measured c)))"
    and ps: "g_passes g' = g_passes c" and d: "outline c = outline g"
    and L: "length (g_nodes g') = length (g_nodes g)" and l: "length (g_nodes c) = length (g_nodes g)"
    using compiled_back_end [OF c s] by metis
  have r: "unsized (g_nodes c ! n) = unsized (g_nodes g ! n)"
    using d declared_nth [of n c] declared_nth [of n g] n l by simp
  have uc: "unnoted (g_nodes c ! n)" using unsized_unnoted [OF r] u by simp
  note M = measured_nth [OF n [folded l] uc]
  have b: "map bare (g_nodes g') = map bare (g_nodes (measured c))" unfolding e by (rule aliased_bare)
  have "bare (g_nodes g' ! n) = bare (g_nodes (measured c) ! n)"
    using arg_cong [OF b, of "\<lambda>xs. xs ! n"] n L M(1) l by simp
  moreover have "unsized (noted ts (g_nodes c ! n)) = unsized (noted ts (g_nodes g ! n))" for ts
  proof -
    have x: "unsized (noted ts p) = noted ts (unsized p)" for p by (simp add: unsized_def noted_def is_external_def)
    show ?thesis unfolding x r ..
  qed
  ultimately show ?thesis
    using M(2) unsized_fields(1) [OF r] ps by (intro exI [of _ "g_nodes (measured c) ! n"]) simp
qed

lemma recorded_unnoted:
  "recorded_ok (it, g) \<Longrightarrow> r \<in> set (g_nodes g) \<Longrightarrow> unnoted r \<and> rn_alias_slot r = None"
  using recorded_okD(7) [of it g] by (auto simp: list_all_iff node_declared_def untouched_def unnoted_def)

lemma compiled_ids:
  assumes ok: "recorded_ok (it, g)" and c: "compile_impl pool enable g = Some g'" and s: "g_state g' = RG_Compiled"
    and n: "n < length (g_nodes g')"
  shows "n < length (g_nodes g)" "rn_handle (g_nodes g' ! n) = rn_handle (g_nodes g ! n)"
    "is_external (g_nodes g' ! n) = is_external (g_nodes g ! n)" "h_id (rn_handle (g_nodes g' ! n)) = Suc n"
proof -
  have "length (g_nodes g') = length (g_nodes g)" using compiled_back_end [OF c s] by metis
  then show n': "n < length (g_nodes g)" using n by simp
  have "unnoted (g_nodes g ! n)" using recorded_unnoted [OF ok nth_mem [OF n']] by blast
  from compiled_node [OF c s n' this] obtain q where q: "bare (g_nodes g' ! n) = bare q"
    "unsized q = unsized (noted (touches_of (g_passes g') (h_id (rn_handle (g_nodes g ! n)))) (g_nodes g ! n))" by blast
  show h: "rn_handle (g_nodes g' ! n) = rn_handle (g_nodes g ! n)"
    using bareD(1) [OF q(1)] unsized_fields(1) [OF q(2)] by simp
  show "is_external (g_nodes g' ! n) = is_external (g_nodes g ! n)"
    using bareD(3) [OF q(1)] unsized_fields(4) [OF q(2)] by simp
  have ids: "map (\<lambda>r. h_id (rn_handle r)) (g_nodes g) = [1..<g_next_id g]"
    using recorded_okD(2) [OF ok] by (simp add: ids_ok_def)
  moreover have "length (g_nodes g) = g_next_id g - 1" using arg_cong [OF ids, of length] by simp
  ultimately have "h_id (rn_handle (g_nodes g ! n)) = 1 + n"
    using n' nth_map [of n "g_nodes g" "\<lambda>r. h_id (rn_handle r)"] by simp
  then show "h_id (rn_handle (g_nodes g' ! n)) = Suc n" using h by simp
qed

lemma compiled_covered:
  assumes ok: "recorded_ok (it, g)" and c: "compile_impl pool enable g = Some g'" and s: "g_state g' = RG_Compiled"
    and r: "r \<in> set (g_nodes g')" and k: "k < length (g_passes g')" "a \<in> set (pn_accesses (g_passes g' ! k))"
    "h_id (ac_handle a) = h_id (rn_handle r)"
  shows "covered r k a"
proof -
  obtain n where n: "n < length (g_nodes g')" "r = g_nodes g' ! n" using r by (auto simp: in_set_conv_nth)
  note I = compiled_ids [OF ok c s n(1)]
  have "unnoted (g_nodes g ! n)" using recorded_unnoted [OF ok nth_mem [OF I(1)]] by blast
  from compiled_node [OF c s I(1) this] obtain q where q: "bare r = bare q"
    "unsized q = unsized (noted (touches_of (g_passes g') (h_id (rn_handle (g_nodes g ! n)))) (g_nodes g ! n))"
    using n(2) by blast
  have "covered q k a" by (rule noted_covered [OF q(2) k(1,2)]) (use k(3) n(2) I(2) in simp)
  then show ?thesis using bareD(2-7) [OF q(1)] by (simp add: covered_def)
qed

lemma bare_lives: assumes "bare r = bare q" shows "lives r f l \<longleftrightarrow> lives q f l"
  using bareD(4,5) [OF assms] by (simp add: lives_def)

lemma bare_holds: assumes "bare r = bare q" shows "slot_holds r ph \<longleftrightarrow> slot_holds q ph"
  using bareD(2,6-9) [OF assms] by (simp add: slot_holds_def)


subsection \<open>The members of a slot\<close>

lemma fold_set_alias: "rn_alias_slot (fold set_alias ts r) = (if ts = [] then rn_alias_slot r else Some (snd (last ts)))"
  by (induction ts rule: rev_induct) (simp_all add: set_alias_def)

lemma eligible_lives:
  assumes "r \<in> set (eligible_nodes g)" "unsized q = unsized (noted (touches_of ps i) p)" "bare r = bare q"
  shows "\<exists>f l. lives r f l"
proof -
  let ?ts = "touches_of ps i"
  have e: "\<not> is_external r" "rn_first_use r \<noteq> None"
    using assms(1) by (auto simp: eligible_nodes_def alias_eligible_def split: if_splits)
  note B = bareD(3-5) [OF assms(3)] and U = unsized_fields(4,7,8) [OF assms(2), unfolded noted_sel noted_records]
  have "\<not> is_external p" "?ts \<noteq> []" using e B U by (auto split: if_splits)
  then have "rn_first_use r = Some (fst (hd ?ts))" "rn_last_use r = Some (fst (last ?ts))" using B U by simp_all
  moreover have "fst (hd ?ts) \<le> fst (last ?ts)"
    using sorted_hd_last [OF touches_sorted, of "hd ?ts" ps i] \<open>?ts \<noteq> []\<close> by simp
  ultimately show ?thesis by (simp add: lives_def)
qed

lemma detect_nodes:
  "map bare (g_nodes (detect_transient_attachments g)) = map bare (g_nodes g)"
  "map rn_alias_slot (g_nodes (detect_transient_attachments g)) = map rn_alias_slot (g_nodes g)"
  "g_slots (detect_transient_attachments g) = g_slots g"
  by (auto simp: detect_transient_attachments_def)

lemma compiled_slots:
  assumes ok: "recorded_ok (it, g)" and c: "compile_impl pool enable g = Some g'" and s: "g_state g' = RG_Compiled"
  obtains rs ks where "slots_inv rs ks (g_slots g')"
    "\<forall>r \<in> set rs. \<exists>f l. lives r f l" "distinct (map (\<lambda>r. h_id (rn_handle r)) rs)"
    "\<forall>r k. r \<in> set (g_nodes g') \<longrightarrow> rn_alias_slot r = Some k \<longrightarrow> (\<exists>m < length rs. ks ! m = k \<and> bare (rs ! m) = bare r)"
proof -
  obtain c where e: "g' = finish_compile (phase_alias enable (detect_transient_attachments (measured c)))"
    and ps: "g_passes g' = g_passes c" and d: "outline c = outline g"
    and L: "length (g_nodes g') = length (g_nodes g)" and l: "length (g_nodes c) = length (g_nodes g)"
    and sl: "g_slots (measured c) = g_slots g"
    using compiled_back_end [OF c s] by metis
  let ?d = "detect_transient_attachments (measured c)"
  define rs where "rs = (if enable then eligible_nodes ?d else [])"
  define ks where "ks = fst (slot_run rs (g_slots g))"
  have nil: "g_slots g = []" using recorded_okD(5) [OF ok] .
  have bd: "map bare (g_nodes ?d) = map bare (g_nodes (measured c))" by (rule detect_nodes)
  have ld: "length (g_nodes ?d) = length (g_nodes g)"
    using L arg_cong [OF aliased_bare [of enable "measured c", folded e], of length] arg_cong [OF bd, of length] by simp
  have bg: "map bare (g_nodes g') = map bare (g_nodes ?d)"
    using aliased_bare [of enable "measured c", folded e] bd by simp
  have ids: "map (\<lambda>r. h_id (rn_handle r)) (g_nodes ?d) = map (\<lambda>r. h_id (rn_handle r)) (g_nodes g)"
  proof (rule nth_equalityI)
    fix n assume "n < length (map (\<lambda>r. h_id (rn_handle r)) (g_nodes ?d))"
    then have n: "n < length (g_nodes g')" using ld L by simp
    have "bare (g_nodes g' ! n) = bare (g_nodes ?d ! n)" using arg_cong [OF bg, of "\<lambda>xs. xs ! n"] n ld L by simp
    from bareD(1) [OF this] show "map (\<lambda>r. h_id (rn_handle r)) (g_nodes ?d) ! n = map (\<lambda>r. h_id (rn_handle r)) (g_nodes g) ! n"
      using compiled_ids(2) [OF ok c s n] n ld L by simp
  qed (use ld in simp)
  have di: "distinct (map (\<lambda>r. h_id (rn_handle r)) (g_nodes ?d))"
    unfolding ids using recorded_okD(2) [OF ok] by (rule ids_ok_distinct)
  have sub: "set rs \<subseteq> set (g_nodes ?d)" by (auto simp: rs_def eligible_nodes_def)
  have drs: "distinct (map (\<lambda>r. h_id (rn_handle r)) rs)"
  proof -
    have "distinct (map (\<lambda>r. h_id (rn_handle r)) (eligible_nodes ?d))"
    proof -
      have "mset (map (\<lambda>r. h_id (rn_handle r)) (eligible_nodes ?d)) =
          mset (map (\<lambda>r. h_id (rn_handle r)) (filter alias_eligible (g_nodes ?d)))"
        by (simp add: eligible_nodes_def)
      then show ?thesis using di distinct_map_filter mset_eq_imp_distinct_iff by metis
    qed
    then show ?thesis by (simp add: rs_def)
  qed
  have live: "\<exists>f l. lives r f l" if r: "r \<in> set rs" for r
  proof -
    have en: "enable" "r \<in> set (eligible_nodes ?d)" using r by (auto simp: rs_def split: if_splits)
    obtain n where n: "n < length (g_nodes ?d)" "r = g_nodes ?d ! n" using sub r by (metis in_set_conv_nth subset_iff)
    have n': "n < length (g_nodes g)" using n ld by simp
    have "unnoted (g_nodes g ! n)" using recorded_unnoted [OF ok nth_mem [OF n']] by blast
    from compiled_node [OF c s n' this] obtain q where q: "bare (g_nodes g' ! n) = bare q"
      "unsized q = unsized (noted (touches_of (g_passes g') (h_id (rn_handle (g_nodes g ! n)))) (g_nodes g ! n))" by blast
    have "bare r = bare q" using arg_cong [OF bg, of "\<lambda>xs. xs ! n"] n n' L q(1) by simp
    from eligible_lives [OF en(2) q(2) this] show ?thesis .
  qed
  have inv: "slots_inv rs ks (g_slots g')"
  proof -
    have "slots_inv ([] @ rs) ([] @ fst (slot_run rs [])) (snd (slot_run rs []))"
      by (rule slot_run_inv) (use live in \<open>auto simp: slots_inv_def\<close>)
    moreover have "g_slots g' = snd (slot_run rs [])"
      unfolding e aliased_nodes(2) using sl nil by (simp add: rs_def detect_nodes)
    ultimately show ?thesis using nil by (simp add: ks_def)
  qed
  have mem: "\<exists>m < length rs. ks ! m = k \<and> bare (rs ! m) = bare r"
    if r: "r \<in> set (g_nodes g')" "rn_alias_slot r = Some k" for r k
  proof -
    obtain n where n: "n < length (g_nodes g')" "r = g_nodes g' ! n" using r(1) by (auto simp: in_set_conv_nth)
    let ?p = "g_nodes ?d ! n"
    have nd: "n < length (g_nodes ?d)" using n ld L by simp
    have al: "rn_alias_slot ?p = None"
    proof -
      have "rn_alias_slot ?p = rn_alias_slot (g_nodes (measured c) ! n)"
        using arg_cong [OF detect_nodes(2) [of "measured c"], of "\<lambda>xs. xs ! n"] nd
        by (simp add: detect_transient_attachments_def)
      moreover have "n < length (g_nodes c)" using n L l by simp
      moreover have "unsized (g_nodes c ! n) = unsized (g_nodes g ! n)"
        using d declared_nth [of n c] declared_nth [of n g] n l L by simp
      moreover have "unnoted (g_nodes g ! n) \<and> rn_alias_slot (g_nodes g ! n) = None"
        using recorded_unnoted [OF ok nth_mem] n L by simp
      ultimately show ?thesis
        using measured_nth(2) [of n c] unsized_unnoted unsized_fields(9) noted_sel(5) by metis
    qed
    show ?thesis
    proof (cases enable)
      case False
      then have "r = ?p" using n e by (simp add: aliased_nodes)
      then show ?thesis using al r(2) by simp
    next
      case True
      let ?ts = "filter (\<lambda>t. h_id (rn_handle (fst t)) = h_id (rn_handle ?p)) (zip rs ks)"
      have rr: "r = fold set_alias ?ts ?p"
        using n nd True unfolding e aliased_nodes(1) by (simp add: rs_def ks_def sl detect_nodes)
      then have ne: "?ts \<noteq> []" and k: "k = snd (last ?ts)" using r(2) al by (auto simp: fold_set_alias split: if_splits)
      have "last ?ts \<in> set ?ts" using ne by (rule last_in_set)
      then obtain m where m: "m < length rs" "m < length ks" "last ?ts = (rs ! m, ks ! m)"
        "h_id (rn_handle (rs ! m)) = h_id (rn_handle ?p)"
        by (auto simp: set_zip)
      have "rs ! m = ?p"
        using di sub nth_mem [OF m(1)] nth_mem [OF nd] m(4) unfolding distinct_map by (meson inj_onD subset_iff)
      then have "bare (rs ! m) = bare r" using rr by simp
      then show ?thesis using m k by auto
    qed
  qed
  show thesis using that [OF inv _ drs] live mem by blast
qed

lemma compiled_alias:
  assumes ok: "recorded_ok (it, g)" and c: "compile_impl pool enable g = Some g'" and s: "g_state g' = RG_Compiled"
    and r: "r \<in> set (g_nodes g')" "q \<in> set (g_nodes g')" "h_id (rn_handle r) \<noteq> h_id (rn_handle q)"
    and k: "rn_alias_slot r = Some k" "rn_alias_slot q = Some k"
  shows "k < length (g_slots g') \<and> slot_holds r (g_slots g' ! k) \<and> slot_holds q (g_slots g' ! k) \<and>
    (\<exists>f l f' l'. lives r f l \<and> lives q f' l' \<and> (l < f' \<or> l' < f))"
proof -
  obtain rs ks where inv: "slots_inv rs ks (g_slots g')" and live: "\<forall>r \<in> set rs. \<exists>f l. lives r f l"
    and mem: "\<forall>r k. r \<in> set (g_nodes g') \<longrightarrow> rn_alias_slot r = Some k \<longrightarrow> (\<exists>m < length rs. ks ! m = k \<and> bare (rs ! m) = bare r)"
    using compiled_slots [OF ok c s] by metis
  obtain m where m: "m < length rs" "ks ! m = k" "bare (rs ! m) = bare r" using mem r(1) k(1) by blast
  obtain n where n: "n < length rs" "ks ! n = k" "bare (rs ! n) = bare q" using mem r(2) k(2) by blast
  have ne: "m \<noteq> n" using m(3) n(3) r(3) bareD(1) by metis
  obtain f l where fl: "lives (rs ! m) f l" using live nth_mem [OF m(1)] by blast
  obtain f' l' where fl': "lives (rs ! n) f' l'" using live nth_mem [OF n(1)] by blast
  have v: "the (rn_first_use (rs ! m)) = f" "the (rn_last_use (rs ! m)) = l"
    "the (rn_first_use (rs ! n)) = f'" "the (rn_last_use (rs ! n)) = l'"
    using fl fl' by (simp_all add: lives_def)
  have "l < f' \<or> l' < f"
  proof (cases "m < n")
    case True
    then show ?thesis using slots_invD(3) [OF inv True n(1)] m(2) n(2) v by simp
  next
    case False
    then have nm: "n < m" using ne by simp
    show ?thesis using slots_invD(3) [OF inv nm m(1)] m(2) n(2) v by simp
  qed
  moreover have "k < length (g_slots g')" "slot_holds (rs ! m) (g_slots g' ! k)" "slot_holds (rs ! n) (g_slots g' ! k)"
    using slots_invD(1,2) [OF inv m(1)] slots_invD(2) [OF inv n(1)] m(2) n(2) by simp_all
  ultimately show ?thesis
    using bare_lives [OF m(3)] bare_lives [OF n(3)] bare_holds [OF m(3)] bare_holds [OF n(3)] fl fl' by metis
qed

end
