(* ===== verification/Access_Bounds.thy ===== *)
theory Access_Bounds
  imports Aliasing
begin

text \<open>
  The accesses of a compiled graph stay inside their resource, and every read of a resource the
  frame owns sees a write.
\<close>

subsection \<open>The checks seen from the compiled graph\<close>

lemma all_accesses_nil:
  "all_accesses g f = [] \<Longrightarrow> p \<in> set (g_passes g) \<Longrightarrow> a \<in> set (pn_accesses p) \<Longrightarrow> f p a = []"
  by (auto simp: all_accesses_def)

lemma measured_passes: "g_passes (measured g) = g_passes g"
  by (simp add: measured_def phase_sizes_def frame_simps)

lemma unat_ucast_u8 [simp]: "unat (ucast (x :: u8) :: u32) = unat x"
  using unat_u8 [of x] by (simp add: unsigned_ucast_eq take_bit_nat_eq_self)

lemma unat_ucast_u16 [simp]: "unat (ucast (x :: u16) :: u32) = unat x"
  using unat_u16 [of x] by (simp add: unsigned_ucast_eq take_bit_nat_eq_self)

lemma small_sums:
  "unat (ucast (x :: u8) + ucast (y :: u8) :: u32) = unat x + unat y"
  "unat (ucast (v :: u16) + ucast (w :: u16) :: u32) = unat v + unat w"
  using unat_u8 [of x] unat_u8 [of y] unat_u16 [of v] unat_u16 [of w]
  by (simp_all add: unat_word_ariths)

definition in_bounds :: "res_node \<Rightarrow> access \<Rightarrow> bool" where
  "in_bounds r a \<longleftrightarrow>
     (if rn_kind r = RK_Texture then
        unat (ac_base_mip a) < unat (rn_mips r) \<and> unat (ac_base_mip a) + unat (ac_mip_count a) \<le> unat (rn_mips r) \<and>
        unat (ac_base_layer a) < unat (node_layers r) \<and>
        unat (ac_base_layer a) + unat (ac_layer_count a) \<le> unat (node_layers r)
      else
        (ac_buf_offset a \<noteq> 0 \<or> ac_buf_size a \<noteq> 0) \<and> unat (ac_buf_offset a) + unat (ac_buf_size a) < 2 ^ 64 \<longrightarrow>
          unat (ac_buf_offset a) + unat (ac_buf_size a) \<le> unat (rn_buffer_size r) \<and>
          (is_bind_access (ac_type a) \<longrightarrow> ac_buf_size a \<noteq> 0 \<and> ac_buf_offset a mod 256 = 0))"

lemma texture_in_bounds:
  assumes "texture_range_errors p a r = []" "rn_kind r = RK_Texture"
  shows "in_bounds r a"
  using assms small_sums(1) [of "ac_base_mip a" "ac_mip_count a"] small_sums(2) [of "ac_base_layer a" "ac_layer_count a"]
  by (auto simp: texture_range_errors_def in_bounds_def Let_def not_le not_less word_less_nat_alt word_le_nat_alt
      split: if_splits)

lemma buffer_in_bounds:
  assumes "buffer_range_errors p a r = []" "rn_kind r \<noteq> RK_Texture"
  shows "in_bounds r a"
proof -
  have "unat (ac_buf_offset a + ac_buf_size a) = unat (ac_buf_offset a) + unat (ac_buf_size a)"
    if "unat (ac_buf_offset a) + unat (ac_buf_size a) < 2 ^ 64"
    using that by (simp add: unat_word_ariths)
  then show ?thesis
    using assms by (auto simp: buffer_range_errors_def in_bounds_def not_less word_le_nat_alt split: if_splits)
qed

lemma compiled_at:
  assumes ok: "recorded_ok (it, g)" and c: "compile_impl pool enable g = Some g'" and s: "g_state g' = RG_Compiled"
  obtains c where "g_passes c = g_passes g'" "g_state (compile_back enable (writers g) c) = RG_Compiled"
    "\<forall>r \<in> set (g_nodes g'). \<exists>q. find_node (measured c) (h_id (rn_handle r)) = Some q \<and> bare q = bare r"
    "\<forall>i. external_id c i \<longleftrightarrow> (\<exists>r \<in> set (g_nodes g'). h_id (rn_handle r) = i \<and> is_external r)"
proof -
  obtain order where h: "g_state (phase_handles g) \<noteq> RG_Failed"
    and g': "g' = compile_back enable (writers g) (culled pool g order)"
    using compiled_shape [OF c s] by metis
  let ?c = "culled pool g order"
  have e: "g' = finish_compile (phase_alias enable (detect_transient_attachments (measured ?c)))"
    using compile_back_compiled(8) s unfolding g' by blast
  have ps: "g_passes ?c = g_passes g'" unfolding g' by (rule compile_back_passes [symmetric])
  have b: "map bare (g_nodes g') = map bare (g_nodes (measured ?c))" unfolding e by (rule aliased_bare)
  have len: "length (g_nodes g') = length (g_nodes (measured ?c))" using arg_cong [OF b, of length] by simp
  have nth: "bare (g_nodes g' ! n) = bare (g_nodes (measured ?c) ! n)" if "n < length (g_nodes g')" for n
    using arg_cong [OF b, of "\<lambda>xs. xs ! n"] that len by simp
  have di: "distinct (map (\<lambda>r. h_id (rn_handle r)) (g_nodes (measured ?c)))"
  proof -
    have "map (\<lambda>r. h_id (rn_handle r)) (g_nodes (measured ?c)) = map Suc [0..<length (g_nodes g')]"
    proof (rule nth_equalityI)
      fix n assume "n < length (map (\<lambda>r. h_id (rn_handle r)) (g_nodes (measured ?c)))"
      then have n: "n < length (g_nodes g')" using len by simp
      show "map (\<lambda>r. h_id (rn_handle r)) (g_nodes (measured ?c)) ! n = map Suc [0..<length (g_nodes g')] ! n"
        using compiled_ids(4) [OF ok c s n] bareD(1) [OF nth [OF n]] n len by simp
    qed (use len in simp)
    then show ?thesis by (simp add: distinct_map)
  qed
  have 1: "\<exists>q. find_node (measured ?c) (h_id (rn_handle r)) = Some q \<and> bare q = bare r" if "r \<in> set (g_nodes g')" for r
  proof -
    obtain n where n: "n < length (g_nodes g')" "r = g_nodes g' ! n" using \<open>r \<in> set (g_nodes g')\<close> by (auto simp: in_set_conv_nth)
    have "find_node (measured ?c) (h_id (rn_handle (g_nodes (measured ?c) ! n))) = Some (g_nodes (measured ?c) ! n)"
      unfolding find_node_def using find_distinct_key [OF di nth_mem] n len by simp
    then show ?thesis using nth [OF n(1)] bareD(1) [OF nth [OF n(1)]] n(2) by auto
  qed
  have o: "outline ?c = outline g"
    using declared_before_link [OF h, of pool] by (simp add: culled_def phase_link_def Let_def)
  have lc: "length (g_nodes ?c) = length (g_nodes g')"
    using declared_length [OF o] compiled_back_end [OF c s] by metis
  have ext: "h_id (rn_handle (g_nodes ?c ! n)) = h_id (rn_handle (g_nodes g' ! n)) \<and>
      is_external (g_nodes ?c ! n) = is_external (g_nodes g' ! n)" if n: "n < length (g_nodes g')" for n
  proof -
    have "unsized (g_nodes ?c ! n) = unsized (g_nodes g ! n)"
      using o declared_nth [of n ?c] declared_nth [of n g] n lc compiled_ids(1) [OF ok c s n] by simp
    from unsized_fields(1,4) [OF this] show ?thesis using compiled_ids(2,3) [OF ok c s n] by simp
  qed
  have 2: "external_id ?c i \<longleftrightarrow> (\<exists>r \<in> set (g_nodes g'). h_id (rn_handle r) = i \<and> is_external r)" for i
  proof -
    have "external_id ?c i \<longleftrightarrow> (\<exists>n < length (g_nodes ?c). h_id (rn_handle (g_nodes ?c ! n)) = i \<and> is_external (g_nodes ?c ! n))"
      by (simp add: external_id_def list_ex_length)
    also have "\<dots> \<longleftrightarrow> (\<exists>n < length (g_nodes g'). h_id (rn_handle (g_nodes g' ! n)) = i \<and> is_external (g_nodes g' ! n))"
      unfolding lc by (rule ex_cong1) (use ext in metis)
    also have "\<dots> \<longleftrightarrow> (\<exists>r \<in> set (g_nodes g'). h_id (rn_handle r) = i \<and> is_external r)"
      by (auto simp: in_set_conv_nth) (metis nth_mem)
    finally show ?thesis .
  qed
  show thesis using that [OF ps] s g' 1 2 by simp
qed

lemma compiled_in_bounds:
  assumes ok: "recorded_ok (it, g)" and c: "compile_impl pool enable g = Some g'" and s: "g_state g' = RG_Compiled"
    and r: "r \<in> set (g_nodes g')" and a: "p \<in> set (g_passes g')" "a \<in> set (pn_accesses p)"
    "h_id (ac_handle a) = h_id (rn_handle r)"
  shows "in_bounds r a"
proof -
  obtain c where c: "g_passes c = g_passes g'" "g_state (compile_back enable (writers g) c) = RG_Compiled"
    "\<forall>r \<in> set (g_nodes g'). \<exists>q. find_node (measured c) (h_id (rn_handle r)) = Some q \<and> bare q = bare r"
    using compiled_at [OF ok c s] by metis
  obtain q where q: "find_node (measured c) (h_id (ac_handle a)) = Some q" "bare q = bare r" using c(3) r a(3) by auto
  have "range_errors (measured c) p a = []"
    by (rule all_accesses_nil [OF compile_back_compiled(6) [OF c(2)]]) (use a c(1) in \<open>simp_all add: measured_passes\<close>)
  then have "in_bounds q a"
    using texture_in_bounds buffer_in_bounds q(1) by (auto simp: range_errors_def on_node_def split: if_splits)
  then show ?thesis using bareD(2,8,10,11) [OF q(2)] by (simp only: in_bounds_def)
qed

lemma compiled_no_uninitialised_read:
  assumes ok: "recorded_ok (it, g)" and c: "compile_impl pool enable g = Some g'" and s: "g_state g' = RG_Compiled"
    and r: "r \<in> set (g_nodes g')" "\<not> is_external r" and k: "k < length (g_passes g')" "i < length (pn_accesses (g_passes g' ! k))"
    and a: "a = pn_accesses (g_passes g' ! k) ! i" "\<not> access_is_write (ac_type a)" "h_id (ac_handle a) = h_id (rn_handle r)"
  shows "(\<exists>j < k. \<exists>b \<in> set (pn_accesses (g_passes g' ! j)).
             access_is_write (ac_type b) \<and> h_id (ac_handle b) = h_id (ac_handle a)) \<or>
         (\<exists>j < i. access_is_write (ac_type (pn_accesses (g_passes g' ! k) ! j)) \<and>
             h_id (ac_handle (pn_accesses (g_passes g' ! k) ! j)) = h_id (ac_handle a))"
proof -
  obtain d where d: "g_passes d = g_passes g'" "g_state (compile_back enable (writers g) d) = RG_Compiled"
    "\<forall>i. external_id d i \<longleftrightarrow> (\<exists>r \<in> set (g_nodes g'). h_id (rn_handle r) = i \<and> is_external r)"
    using compiled_at [OF ok c s] by metis
  obtain n where n: "n < length (g_nodes g')" "r = g_nodes g' ! n" using r(1) by (auto simp: in_set_conv_nth)
  have uniq: "q = r" if q: "q \<in> set (g_nodes g')" "h_id (rn_handle q) = h_id (rn_handle r)" for q
  proof -
    obtain m where m: "m < length (g_nodes g')" "q = g_nodes g' ! m" using q(1) by (auto simp: in_set_conv_nth)
    then show ?thesis using compiled_ids(4) [OF ok c s m(1)] compiled_ids(4) [OF ok c s n(1)] q(2) n(2) by simp
  qed
  have "h_id (ac_handle a) \<noteq> 0" using a(3) compiled_ids(4) [OF ok c s n(1)] n(2) by simp
  moreover have "\<not> external_id d (h_id (ac_handle a))" using d(3) uniq r(2) a(3) by auto
  ultimately show ?thesis
    using compiled_read_written [OF d(2), of k i a] k a d(1) by simp
qed

end
