(* ===== verification/Transient_Pool.thy ===== *)
theory Transient_Pool
  imports Persistent_Pool
begin

text \<open>
  \<open>TransientResourcePool\<close> of webgpu/base/RenderGraph_internal.h and RenderGraph.cpp: the
  per-frame textures and buffers, cached across frames by descriptor, claimed for one frame at a
  time and evicted when idle or superseded by a resize. The locale \<open>claim_provider\<close> states
  what \<open>realize_graph\<close> needs of an acquire: the object was free, and now it is taken.
\<close>

record tentry =
  te_kind :: resource_kind
  te_sig :: tex_signature
  te_usage :: texture_usage
  te_tex :: gpu_ref
  te_view :: gpu_ref
  te_subviews :: subviews
  te_buffer_size :: u64
  te_buf_usage :: buffer_usage
  te_buf :: gpu_ref
  te_in_use :: bool
  te_last :: nat
  te_created :: nat
  te_identity :: "addr option"

definition default_tentry :: tentry where
  "default_tentry = \<lparr>te_kind = RK_Texture, te_sig = sig_default, te_usage = {}, te_tex = None, te_view = None,
     te_subviews = [], te_buffer_size = 0, te_buf_usage = {}, te_buf = None, te_in_use = False, te_last = 0,
     te_created = 0, te_identity = None\<rparr>"

datatype pool_event = Create | Evict

record log_rec =
  lr_frame :: nat
  lr_event :: pool_event
  lr_kind :: resource_kind
  lr_size :: extent3d
  lr_format :: texture_format
  lr_buffer_size :: u64

definition kLog :: nat where "kLog = 128"

record transient_pool =
  tr_entries :: "tentry list"
  tr_frame :: nat
  tr_created_this_frame :: nat
  tr_log :: "nat \<Rightarrow> log_rec option"
  tr_event_count :: nat

definition empty_transient_pool :: transient_pool where
  "empty_transient_pool = \<lparr>tr_entries = [], tr_frame = 0, tr_created_this_frame = 0, tr_log = (\<lambda>_. None), tr_event_count = 0\<rparr>"

definition log_event :: "pool_event \<Rightarrow> tentry \<Rightarrow> transient_pool \<Rightarrow> transient_pool" where
  "log_event ev e pool =
     pool\<lparr>tr_log := (tr_log pool)(tr_event_count pool mod kLog := Some
            \<lparr>lr_frame = tr_frame pool, lr_event = ev, lr_kind = te_kind e, lr_size = sig_size (te_sig e),
             lr_format = sig_format (te_sig e), lr_buffer_size = te_buffer_size e\<rparr>),
          tr_event_count := tr_event_count pool + 1\<rparr>"

definition log_reset :: "transient_pool \<Rightarrow> transient_pool" where
  "log_reset pool = pool\<lparr>tr_event_count := 0\<rparr>"

definition transient_usage_satisfies :: "'u set \<Rightarrow> 'u set \<Rightarrow> 'u set \<Rightarrow> bool" where
  "transient_usage_satisfies have want exact \<longleftrightarrow> have \<inter> want = want \<and> have \<inter> exact = want \<inter> exact"

subsection \<open>Acquire\<close>

definition free_texture :: "tex_signature \<Rightarrow> texture_usage \<Rightarrow> tentry \<Rightarrow> bool" where
  "free_texture sig usage e \<longleftrightarrow>
     te_kind e = RK_Texture \<and> \<not> te_in_use e \<and> sig_eq (te_sig e) sig \<and>
     transient_usage_satisfies (te_usage e) usage {TU_TransientAttachment}"

definition free_buffer :: "u64 \<Rightarrow> buffer_usage \<Rightarrow> tentry \<Rightarrow> bool" where
  "free_buffer sz usage e \<longleftrightarrow>
     te_kind e = RK_Buffer \<and> \<not> te_in_use e \<and> te_buffer_size e = sz \<and>
     transient_usage_satisfies (te_buf_usage e) usage {}"

definition claim :: "nat \<Rightarrow> addr option \<Rightarrow> tentry \<Rightarrow> tentry" where
  "claim frame who e = e\<lparr>te_in_use := True, te_last := frame, te_identity := who\<rparr>"

definition add_entry :: "tentry \<Rightarrow> transient_pool \<Rightarrow> transient_pool" where
  "add_entry e pool =
     log_event Create e (pool\<lparr>tr_entries := e # tr_entries pool, tr_created_this_frame := tr_created_this_frame pool + 1\<rparr>)"

definition acquire_texture ::
  "tex_signature \<Rightarrow> texture_usage \<Rightarrow> addr option \<Rightarrow> transient_pool \<times> device \<Rightarrow> (gpu_ref \<times> gpu_ref) \<times> transient_pool \<times> device" where
  "acquire_texture sig usage who st =
     (case st of (pool, d) \<Rightarrow>
        (case find (free_texture sig usage) (tr_entries pool) of
           Some e \<Rightarrow> ((te_tex e, te_view e),
              pool\<lparr>tr_entries := upd_first (free_texture sig usage) (claim (tr_frame pool) who) (tr_entries pool)\<rparr>, d)
         | None \<Rightarrow>
             (let (t, d1) = create_object d; (v, d2) = create_object d1;
                  e = default_tentry\<lparr>te_kind := RK_Texture, te_sig := sig, te_usage := usage, te_identity := who,
                        te_tex := Some t, te_view := Some v, te_in_use := True, te_last := tr_frame pool,
                        te_created := tr_frame pool\<rparr>
              in ((Some t, Some v), add_entry e pool, d2))))"

definition acquire_buffer ::
  "u64 \<Rightarrow> buffer_usage \<Rightarrow> addr option \<Rightarrow> transient_pool \<times> device \<Rightarrow> gpu_ref \<times> transient_pool \<times> device" where
  "acquire_buffer sz usage who st =
     (case st of (pool, d) \<Rightarrow>
        (case find (free_buffer sz usage) (tr_entries pool) of
           Some e \<Rightarrow> (te_buf e,
              pool\<lparr>tr_entries := upd_first (free_buffer sz usage) (claim (tr_frame pool) who) (tr_entries pool)\<rparr>, d)
         | None \<Rightarrow>
             (let (b, d1) = create_object d;
                  e = default_tentry\<lparr>te_kind := RK_Buffer, te_buffer_size := sz, te_buf_usage := usage, te_identity := who,
                        te_buf := Some b, te_in_use := True, te_last := tr_frame pool, te_created := tr_frame pool\<rparr>
              in (Some b, add_entry e pool, d1))))"

definition release_claims :: "transient_pool \<Rightarrow> transient_pool" where
  "release_claims pool = pool\<lparr>tr_entries := map (\<lambda>e. e\<lparr>te_in_use := False\<rparr>) (tr_entries pool)\<rparr>"

subsection \<open>Eviction\<close>

definition superseded_by :: "tentry \<Rightarrow> tentry \<Rightarrow> nat \<Rightarrow> bool" where
  "superseded_by e s frame =
     (if te_kind e \<noteq> te_kind s then False
      else if te_last e \<ge> frame then False
      else if te_created s \<noteq> frame then False
      else if te_identity e = None \<or> te_identity e \<noteq> te_identity s then False
      else if te_kind e = RK_Texture then
        (if \<not> transient_usage_satisfies (te_usage s) (te_usage e) {TU_TransientAttachment} then False
         else if sig_format (te_sig s) \<noteq> sig_format (te_sig e) \<or> sig_dim (te_sig s) \<noteq> sig_dim (te_sig e)
           \<or> sig_mips (te_sig s) \<noteq> sig_mips (te_sig e) \<or> sig_samples (te_sig s) \<noteq> sig_samples (te_sig e) then False
         else \<not> extent_eq (sig_size (te_sig s)) (sig_size (te_sig e)))
      else if \<not> transient_usage_satisfies (te_buf_usage s) (te_buf_usage e) {} then False
      else te_buffer_size s \<noteq> te_buffer_size e)"

definition destroy_tentry :: "tentry \<Rightarrow> device \<Rightarrow> device" where
  "destroy_tentry e d =
     release_ref (te_buf e) (release_ref (te_tex e) (release_ref (te_view e) (recycle_subviews (te_subviews e) d)))"

definition evictable :: "transient_pool \<Rightarrow> tentry list \<Rightarrow> tentry \<Rightarrow> bool" where
  "evictable pool live e \<longleftrightarrow>
     (tr_created_this_frame pool \<noteq> 0 \<and> \<not> te_in_use e \<and> list_ex (\<lambda>s. superseded_by e s (tr_frame pool)) live)
     \<or> tr_frame pool - te_last e \<ge> kRetain"

text \<open>The walk over the live list: \<open>tr_entries\<close> is what is kept so far, the argument what is left.\<close>

fun evict_transients :: "tentry list \<Rightarrow> transient_pool \<times> device \<Rightarrow> transient_pool \<times> device" where
  "evict_transients [] st = st"
| "evict_transients (e # es) (pool, d) =
     (if evictable pool (tr_entries pool @ e # es) e
      then evict_transients es (log_event Evict e pool, destroy_tentry e d)
      else evict_transients es (pool\<lparr>tr_entries := tr_entries pool @ [e]\<rparr>, d))"

definition transient_end_frame :: "transient_pool \<times> device \<Rightarrow> transient_pool \<times> device" where
  "transient_end_frame st =
     (case st of (pool, d) \<Rightarrow>
        let (pool1, d1) = evict_transients (tr_entries pool) (pool\<lparr>tr_entries := []\<rparr>, d)
        in (pool1\<lparr>tr_created_this_frame := 0, tr_frame := tr_frame pool1 + 1\<rparr>, d1))"

definition transient_destroy_all :: "transient_pool \<times> device \<Rightarrow> transient_pool \<times> device" where
  "transient_destroy_all st =
     (case st of (pool, d) \<Rightarrow> (pool\<lparr>tr_entries := []\<rparr>, fold destroy_tentry (tr_entries pool) d))"

subsection \<open>Ownership\<close>

definition tentry_owned :: "tentry \<Rightarrow> nat list" where
  "tentry_owned e = refs (map snd (te_subviews e)) @ refs [te_view e] @ refs [te_tex e] @ refs [te_buf e]"

definition tentries_owned :: "tentry list \<Rightarrow> nat list" where
  "tentries_owned es = concat (map tentry_owned es)"

definition transient_owned :: "transient_pool \<Rightarrow> nat list" where
  "transient_owned pool = tentries_owned (tr_entries pool)"

text \<open>An entry holds the objects of its kind.\<close>

definition tentry_ok :: "tentry \<Rightarrow> bool" where
  "tentry_ok e \<longleftrightarrow>
     (case te_kind e of
        RK_Texture \<Rightarrow> te_tex e \<noteq> None \<and> te_view e \<noteq> None \<and> te_buf e = None
      | RK_Buffer \<Rightarrow> te_buf e \<noteq> None \<and> te_tex e = None \<and> te_view e = None)"

definition transient_ok :: "transient_pool \<Rightarrow> bool" where
  "transient_ok pool \<longleftrightarrow> list_all tentry_ok (tr_entries pool)"

lemma tentries_owned_simps [simp]:
  "tentries_owned [] = []" "tentries_owned (e # es) = tentry_owned e @ tentries_owned es"
  "tentries_owned (es @ fs) = tentries_owned es @ tentries_owned fs"
  by (simp_all add: tentries_owned_def)

lemma log_event_simps [simp]:
  "tr_entries (log_event ev e pool) = tr_entries pool" "tr_frame (log_event ev e pool) = tr_frame pool"
  "tr_created_this_frame (log_event ev e pool) = tr_created_this_frame pool"
  by (simp_all add: log_event_def)

lemma claim_owned [simp]: "tentry_owned (claim fr who e) = tentry_owned e" "tentry_ok (claim fr who e) = tentry_ok e"
  "te_in_use (claim fr who e)" "te_tex (claim fr who e) = te_tex e" "te_view (claim fr who e) = te_view e"
  "te_buf (claim fr who e) = te_buf e"
  by (simp_all add: claim_def tentry_owned_def tentry_ok_def split: resource_kind.split)

lemma unclaim_owned [simp]:
  "tentry_owned (e\<lparr>te_in_use := b\<rparr>) = tentry_owned e" "tentry_ok (e\<lparr>te_in_use := b\<rparr>) = tentry_ok e"
  by (simp_all add: tentry_owned_def tentry_ok_def split: resource_kind.split)

lemma upd_first_owned:
  "(\<And>e. tentry_owned (f e) = tentry_owned e) \<Longrightarrow> tentries_owned (upd_first P f es) = tentries_owned es"
  by (induction es) auto

lemma upd_first_all: "(\<And>e. Q e \<Longrightarrow> Q (f e)) \<Longrightarrow> list_all Q es \<Longrightarrow> list_all Q (upd_first P f es)"
  by (induction es) auto

lemma destroy_tentry_hands: "hand_over (tentry_owned e) [] d (destroy_tentry e d)"
  using destroy_layer_hands [of "\<lparr>lo_tex = te_tex e, lo_view = te_view e, lo_subviews = te_subviews e, lo_buf = te_buf e\<rparr>" d]
  by (simp add: destroy_tentry_def destroy_layer_def tentry_owned_def layer_owned_def)

lemma acquire_texture_hands:
  assumes "acquire_texture sig usage who (pool, d) = (out, pool', d')" "transient_ok pool"
  shows "transient_ok pool' \<and> hand_over (transient_owned pool) (transient_owned pool') d d'"
proof (cases "find (free_texture sig usage) (tr_entries pool)")
  case (Some e)
  then have "pool' = pool\<lparr>tr_entries := upd_first (free_texture sig usage) (claim (tr_frame pool) who) (tr_entries pool)\<rparr>" "d' = d"
    using assms(1) by (auto simp: acquire_texture_def)
  then show ?thesis using assms(2)
    by (simp add: transient_ok_def transient_owned_def upd_first_owned upd_first_all hand_over_refl)
next
  case None
  obtain t d1 v d2 where o: "create_object d = (t, d1)" "create_object d1 = (v, d2)" by (meson surj_pair)
  have "hand_over [t] [v, t] d1 d2"
    using hand_over_frame [OF create_hand_over [OF o(2)], of "[]" "[t]"] by simp
  then have "hand_over [] [v, t] d d2" using create_hand_over [OF o(1)] hand_over_trans by blast
  from hand_over_frame [OF this, of "[]" "tentries_owned (tr_entries pool)"] show ?thesis
    using assms None o
    by (auto simp: acquire_texture_def Let_def add_entry_def transient_ok_def transient_owned_def tentry_ok_def tentry_owned_def default_tentry_def)
qed

lemma acquire_buffer_hands:
  assumes "acquire_buffer sz usage who (pool, d) = (out, pool', d')" "transient_ok pool"
  shows "transient_ok pool' \<and> hand_over (transient_owned pool) (transient_owned pool') d d'"
proof (cases "find (free_buffer sz usage) (tr_entries pool)")
  case (Some e)
  then have "pool' = pool\<lparr>tr_entries := upd_first (free_buffer sz usage) (claim (tr_frame pool) who) (tr_entries pool)\<rparr>" "d' = d"
    using assms(1) by (auto simp: acquire_buffer_def)
  then show ?thesis using assms(2)
    by (simp add: transient_ok_def transient_owned_def upd_first_owned upd_first_all hand_over_refl)
next
  case None
  obtain b d1 where o: "create_object d = (b, d1)" by fastforce
  from hand_over_frame [OF create_hand_over [OF o], of "[]" "tentries_owned (tr_entries pool)"] show ?thesis
    using assms None o
    by (auto simp: acquire_buffer_def Let_def add_entry_def transient_ok_def transient_owned_def tentry_ok_def tentry_owned_def default_tentry_def)
qed

lemma release_claims_hands:
  "transient_ok pool \<Longrightarrow> transient_ok (release_claims pool) \<and> transient_owned (release_claims pool) = transient_owned pool"
  by (simp add: transient_ok_def transient_owned_def release_claims_def tentries_owned_def comp_def list_all_iff)

lemma evict_transients_hands:
  assumes "evict_transients es (pool, d) = (pool', d')" "list_all tentry_ok es" "transient_ok pool"
  shows "transient_ok pool' \<and> hand_over (transient_owned pool @ tentries_owned es) (transient_owned pool') d d'"
  using assms
proof (induction es arbitrary: pool d)
  case Nil
  then show ?case by (simp add: hand_over_refl)
next
  case (Cons e es)
  show ?case
  proof (cases "evictable pool (tr_entries pool @ e # es) e")
    case True
    have ok: "transient_ok (log_event Evict e pool)" using Cons.prems(3) by (simp add: transient_ok_def)
    have "transient_ok pool' \<and> hand_over (transient_owned pool @ tentries_owned es) (transient_owned pool') (destroy_tentry e d) d'"
      using Cons.IH [OF _ _ ok, of "destroy_tentry e d"] Cons.prems(1,2) True by (simp add: transient_owned_def)
    then show ?thesis
      using hand_over_frame [OF destroy_tentry_hands [of e d], of "transient_owned pool" "tentries_owned es"] hand_over_trans
      by fastforce
  next
    case False
    then show ?thesis
      using Cons.IH [of "pool\<lparr>tr_entries := tr_entries pool @ [e]\<rparr>" d] Cons.prems
      by (simp add: transient_ok_def transient_owned_def)
  qed
qed

lemma destroy_transients_hands: "hand_over (tentries_owned es) [] d (fold destroy_tentry es d)"
proof (induction es arbitrary: d)
  case (Cons e es)
  show ?case using hand_over_front [OF destroy_tentry_hands [of e d], of "tentries_owned es"] Cons hand_over_trans by fastforce
qed (simp add: hand_over_refl)

definition transient_ops :: "(transient_pool \<times> device \<Rightarrow> transient_pool \<times> device) set" where
  "transient_ops =
     {\<lambda>st. snd (acquire_texture sig usage who st) | sig usage who. True} \<union>
     {\<lambda>st. snd (acquire_buffer sz usage who st) | sz usage who. True} \<union>
     {\<lambda>(pool, d). (release_claims pool, d), transient_end_frame}"

interpretation transient: object_owner transient_owned transient_ok transient_ops transient_destroy_all
proof
  fix f p d p' d' assume f: "f \<in> transient_ops" and ok: "transient_ok p" and r: "f (p, d) = (p', d')"
  from f consider (tex) sig usage who where "f = (\<lambda>st. snd (acquire_texture sig usage who st))"
    | (buf) sz usage who where "f = (\<lambda>st. snd (acquire_buffer sz usage who st))"
    | (rel) "f = (\<lambda>(pool, d). (release_claims pool, d))" | (ef) "f = transient_end_frame"
    by (auto simp: transient_ops_def)
  then show "transient_ok p' \<and> hand_over (transient_owned p) (transient_owned p') d d'"
  proof cases
    case tex
    then show ?thesis using r acquire_texture_hands [of sig usage who p d _ p' d'] ok
      by (cases "acquire_texture sig usage who (p, d)") simp
  next
    case buf
    then show ?thesis using r acquire_buffer_hands [of sz usage who p d _ p' d'] ok
      by (cases "acquire_buffer sz usage who (p, d)") simp
  next
    case rel
    then show ?thesis using r release_claims_hands [OF ok] by (auto simp: hand_over_refl)
  next
    case ef
    obtain p1 d1 where e: "evict_transients (tr_entries p) (p\<lparr>tr_entries := []\<rparr>, d) = (p1, d1)" by fastforce
    have "transient_ok p1 \<and> hand_over (transient_owned p) (transient_owned p1) d d1"
      using evict_transients_hands [OF e] ok by (simp add: transient_ok_def transient_owned_def)
    then show ?thesis using r e ef
      by (auto simp: transient_end_frame_def transient_ok_def transient_owned_def)
  qed
next
  fix p d p' d' assume "transient_destroy_all (p, d) = (p', d')"
  then show "transient_owned p' = [] \<and> hand_over (transient_owned p) [] d d'"
    using destroy_transients_hands [of "tr_entries p" d] by (auto simp: transient_destroy_all_def transient_owned_def)
qed

subsection \<open>Claims\<close>

fun acquire_all :: "('r \<Rightarrow> 's \<Rightarrow> gpu_ref \<times> 's) \<Rightarrow> 'r list \<Rightarrow> 's \<Rightarrow> gpu_ref list \<times> 's" where
  "acquire_all acq [] s = ([], s)"
| "acquire_all acq (r # rs) s =
     (let (x, s1) = acq r s; (xs, s2) = acquire_all acq rs s1 in (x # xs, s2))"

locale claim_provider =
  fixes claimed :: "'s \<Rightarrow> nat set"
    and good :: "'s \<Rightarrow> bool"
    and acquire :: "'r \<Rightarrow> 's \<Rightarrow> gpu_ref \<times> 's"
  assumes acquire_claims: "good s \<Longrightarrow> acquire r s = (out, s') \<Longrightarrow>
      good s' \<and> (\<exists>x. out = Some x \<and> x \<notin> claimed s \<and> claimed s' = insert x (claimed s))"
begin

text \<open>However many are acquired, no object is handed out twice or while someone holds it.\<close>

lemma acquire_all_distinct:
  assumes "good s" "acquire_all acquire rs s = (outs, s')"
  shows "good s' \<and> (\<exists>xs. outs = map Some xs \<and> length xs = length rs \<and> distinct xs \<and> set xs \<inter> claimed s = {} \<and>
           claimed s' = claimed s \<union> set xs)"
  using assms
proof (induction rs arbitrary: s outs s')
  case (Cons r rs)
  obtain x s1 where 1: "acquire r s = (x, s1)" by fastforce
  obtain ys s2 where 2: "acquire_all acquire rs s1 = (ys, s2)" by fastforce
  obtain v where v: "good s1" "x = Some v" "v \<notin> claimed s" "claimed s1 = insert v (claimed s)"
    using acquire_claims [OF Cons.prems(1) 1] by blast
  obtain xs where "good s2" "ys = map Some xs" "length xs = length rs" "distinct xs" "set xs \<inter> claimed s1 = {}"
    "claimed s2 = claimed s1 \<union> set xs"
    using Cons.IH [OF v(1) 2] by blast
  then show ?case using Cons.prems(2) 1 2 v by (auto intro!: exI [of _ "v # xs"])
qed simp

end

definition claimed_entries :: "tentry list \<Rightarrow> nat set" where
  "claimed_entries es = {x. \<exists>e \<in> set es. te_in_use e \<and> x \<in> set (refs [te_tex e, te_buf e])}"

definition claimed_objects :: "transient_pool \<times> device \<Rightarrow> nat set" where
  "claimed_objects st = claimed_entries (tr_entries (fst st))"

definition pool_good :: "transient_pool \<times> device \<Rightarrow> bool" where
  "pool_good st \<longleftrightarrow> transient_ok (fst st) \<and> accounts (transient_owned (fst st)) (snd st)"

definition acquire_tex :: "tex_signature \<times> texture_usage \<times> addr option \<Rightarrow> transient_pool \<times> device \<Rightarrow> gpu_ref \<times> transient_pool \<times> device" where
  "acquire_tex r st = (case r of (sig, usage, who) \<Rightarrow> let ((t, v), st') = acquire_texture sig usage who st in (t, st'))"

definition acquire_buf :: "u64 \<times> buffer_usage \<times> addr option \<Rightarrow> transient_pool \<times> device \<Rightarrow> gpu_ref \<times> transient_pool \<times> device" where
  "acquire_buf r st = (case r of (sz, usage, who) \<Rightarrow> acquire_buffer sz usage who st)"

lemma claimed_simps [simp]:
  "claimed_entries [] = {}"
  "claimed_entries (e # es) = (if te_in_use e then set (refs [te_tex e, te_buf e]) else {}) \<union> claimed_entries es"
  "claimed_entries (es @ fs) = claimed_entries es \<union> claimed_entries fs"
  by (auto simp: claimed_entries_def)

lemma claimed_owned: "claimed_entries es \<subseteq> set (tentries_owned es)"
  by (induction es) (auto simp: tentry_owned_def refs_def split: option.splits)

lemma claim_free_entry:
  assumes "find P es = Some e" "\<And>e. P e \<Longrightarrow> \<not> te_in_use e" "distinct (tentries_owned es)"
    "set (refs [te_tex e, te_buf e]) = {x}"
  shows "x \<notin> claimed_entries es \<and>
         claimed_entries (upd_first P (claim fr who) es) = insert x (claimed_entries es)"
proof -
  obtain us vs where s: "es = us @ e # vs" "P e" "upd_first P (claim fr who) es = us @ claim fr who e # vs"
    using upd_first_split [OF assms(1)] by metis
  have "x \<in> set (tentry_owned e)"
    using assms(4) by (auto simp: tentry_owned_def refs_def split: option.splits)
  then have "x \<notin> set (tentries_owned us)" "x \<notin> set (tentries_owned vs)" using assms(3) s(1) by auto
  then have "x \<notin> claimed_entries us" "x \<notin> claimed_entries vs" using claimed_owned by blast+
  then show ?thesis unfolding s(3) unfolding s(1) using assms(2) [OF s(2)] assms(4) by simp
qed

lemma fresh_not_claimed:
  assumes "pool_good (pool, d)" "dv_next d \<le> x"
  shows "x \<notin> claimed_entries (tr_entries pool)"
proof
  assume "x \<in> claimed_entries (tr_entries pool)"
  then have "x \<in> dv_live d" using claimed_owned assms(1) by (fastforce simp: pool_good_def accounts_def transient_owned_def)
  then show False using assms by (auto simp: pool_good_def accounts_def)
qed

lemma hands_good:
  assumes "pool_good (pool, d)" "transient_ok pool' \<and> hand_over (transient_owned pool) (transient_owned pool') d d'"
  shows "pool_good (pool', d')"
proof -
  have "accounts (transient_owned pool @ []) d" using assms(1) by (simp add: pool_good_def)
  then have "accounts (transient_owned pool' @ []) d'" using assms(2) [unfolded hand_over_def] by blast
  then show ?thesis using assms(2) by (simp add: pool_good_def)
qed

lemma find_tentry_ok: "find P (tr_entries pool) = Some e \<Longrightarrow> transient_ok pool \<Longrightarrow> P e \<and> tentry_ok e"
  using find_Some_in [of P "tr_entries pool" e] by (simp add: transient_ok_def list_all_iff)

interpretation textures: claim_provider claimed_objects pool_good acquire_tex
proof
  fix st :: "transient_pool \<times> device" and r out st' assume g: "pool_good st" and a: "acquire_tex r st = (out, st')"
  obtain pool d where st: "st = (pool, d)" by (cases st)
  obtain sig usage who where r: "r = (sig, usage, who)" by (cases r)
  obtain v pool' d' where q: "acquire_texture sig usage who (pool, d) = ((out, v), pool', d')" "st' = (pool', d')"
    using a by (auto simp: acquire_tex_def r st split: prod.splits)
  have ok: "transient_ok pool" "distinct (tentries_owned (tr_entries pool))"
    using g by (simp_all add: pool_good_def st accounts_def transient_owned_def)
  have good: "pool_good st'" using hands_good [OF g [unfolded st] acquire_texture_hands [OF q(1) ok(1)]] q(2) by simp
  show "pool_good st' \<and> (\<exists>x. out = Some x \<and> x \<notin> claimed_objects st \<and> claimed_objects st' = insert x (claimed_objects st))"
  proof (cases "find (free_texture sig usage) (tr_entries pool)")
    case (Some e)
    then obtain x where x: "te_tex e = Some x" "te_buf e = None" "out = Some x"
      using find_tentry_ok [OF Some ok(1)] q(1) by (auto simp: acquire_texture_def free_texture_def tentry_ok_def)
    have "pool' = pool\<lparr>tr_entries := upd_first (free_texture sig usage) (claim (tr_frame pool) who) (tr_entries pool)\<rparr>"
      using q(1) Some by (auto simp: acquire_texture_def)
    then show ?thesis using claim_free_entry [OF Some _ ok(2), of x] x good
      by (auto simp: claimed_objects_def st q(2) free_texture_def)
  next
    case None
    then have "out = Some (dv_next d)" "claimed_entries (tr_entries pool') = insert (dv_next d) (claimed_entries (tr_entries pool))"
      using q(1) by (auto simp: acquire_texture_def create_object_def add_entry_def default_tentry_def Let_def)
    then show ?thesis using good fresh_not_claimed [OF g [unfolded st], of "dv_next d"] by (simp add: claimed_objects_def st q(2))
  qed
qed

interpretation buffers: claim_provider claimed_objects pool_good acquire_buf
proof
  fix st :: "transient_pool \<times> device" and r out st' assume g: "pool_good st" and a: "acquire_buf r st = (out, st')"
  obtain pool d where st: "st = (pool, d)" by (cases st)
  obtain sz usage who where r: "r = (sz, usage, who)" by (cases r)
  obtain pool' d' where q: "acquire_buffer sz usage who (pool, d) = (out, pool', d')" "st' = (pool', d')"
    using a by (cases st') (auto simp: acquire_buf_def r st)
  have ok: "transient_ok pool" "distinct (tentries_owned (tr_entries pool))"
    using g by (simp_all add: pool_good_def st accounts_def transient_owned_def)
  have good: "pool_good st'" using hands_good [OF g [unfolded st] acquire_buffer_hands [OF q(1) ok(1)]] q(2) by simp
  show "pool_good st' \<and> (\<exists>x. out = Some x \<and> x \<notin> claimed_objects st \<and> claimed_objects st' = insert x (claimed_objects st))"
  proof (cases "find (free_buffer sz usage) (tr_entries pool)")
    case (Some e)
    then obtain x where x: "te_buf e = Some x" "te_tex e = None" "out = Some x"
      using find_tentry_ok [OF Some ok(1)] q(1) by (auto simp: acquire_buffer_def free_buffer_def tentry_ok_def)
    have "pool' = pool\<lparr>tr_entries := upd_first (free_buffer sz usage) (claim (tr_frame pool) who) (tr_entries pool)\<rparr>"
      using q(1) Some by (auto simp: acquire_buffer_def)
    then show ?thesis using claim_free_entry [OF Some _ ok(2), of x] x good
      by (auto simp: claimed_objects_def st q(2) free_buffer_def)
  next
    case None
    then have "out = Some (dv_next d)" "claimed_entries (tr_entries pool') = insert (dv_next d) (claimed_entries (tr_entries pool))"
      using q(1) by (auto simp: acquire_buffer_def create_object_def add_entry_def default_tentry_def Let_def)
    then show ?thesis using good fresh_not_claimed [OF g [unfolded st], of "dv_next d"] by (simp add: claimed_objects_def st q(2))
  qed
qed

end
