(* ===== verification/Profiler.thy ===== *)
theory Profiler
  imports Device Float32
begin

text \<open>
  \<open>GpuProfiler\<close> of webgpu/base/RenderGraph_internal.h and RenderGraph.cpp: the ring of
  read-back slots, the asynchronous map of the slot a frame filled, and the history of timings.
  An array with its count is the list of its live prefix; an index of -1 is \<open>None\<close>. A string
  view is its data pointer and its characters. What the GPU wrote into a mapped buffer is an
  argument of the callback.
\<close>

type_synonym name_view = "addr option \<times> string"

definition kMaxPasses :: nat where "kMaxPasses = 64"
definition kRing :: nat where "kRing = 3"
definition kHistory :: nat where "kHistory = 256"

record prof_slot =
  sl_buf :: gpu_ref
  sl_pending :: bool
  sl_count :: nat
  sl_names :: "name_view list"

record series =
  se_name :: name_view
  se_enabled :: bool
  se_v :: "f32 list"

record profiler =
  pr_query_set :: gpu_ref
  pr_resolve_buf :: gpu_ref
  pr_ring :: "prof_slot list"
  pr_pending_slot :: "nat option"
  pr_results :: "(name_view \<times> f32) list"
  pr_initialized :: bool
  pr_recording :: bool
  pr_result_id :: u32
  pr_series :: "series list"
  pr_head :: nat
  pr_len :: nat
  pr_last_sampled :: u32

definition empty_slot :: prof_slot where
  "empty_slot = \<lparr>sl_buf = None, sl_pending = False, sl_count = 0, sl_names = replicate kMaxPasses (None, [])\<rparr>"

definition empty_profiler :: profiler where
  "empty_profiler = \<lparr>pr_query_set = None, pr_resolve_buf = None, pr_ring = replicate kRing empty_slot,
     pr_pending_slot = None, pr_results = [], pr_initialized = False, pr_recording = False, pr_result_id = 0,
     pr_series = [], pr_head = 0, pr_len = 0, pr_last_sampled = 0\<rparr>"

subsection \<open>The history of timings\<close>

definition clear_history :: "profiler \<Rightarrow> profiler" where
  "clear_history p = p\<lparr>pr_series := [], pr_head := 0, pr_len := 0, pr_last_sampled := 0\<rparr>"

text \<open>The row of the \<open>occ\<close>-th series of a name; the number of series when there is none.\<close>

fun find_series :: "addr option \<Rightarrow> nat \<Rightarrow> series list \<Rightarrow> nat" where
  "find_series x occ [] = 0"
| "find_series x occ (s # ss) =
     (if fst (se_name s) = x then (if occ = 0 then 0 else Suc (find_series x (occ - 1) ss))
      else Suc (find_series x occ ss))"

definition occurrence :: "(name_view \<times> f32) list \<Rightarrow> nat \<Rightarrow> nat" where
  "occurrence rs i = length (filter (\<lambda>r. fst (fst r) = fst (fst (rs ! i))) (take i rs))"

definition new_series :: "name_view \<Rightarrow> series" where
  "new_series nm = \<lparr>se_name = nm, se_enabled = True, se_v = replicate kHistory 0\<rparr>"

definition set_column :: "nat \<Rightarrow> f32 \<Rightarrow> series \<Rightarrow> series" where
  "set_column c x s = s\<lparr>se_v := (se_v s)[c := x]\<rparr>"

definition row_of :: "(name_view \<times> f32) list \<Rightarrow> nat \<Rightarrow> series list \<Rightarrow> nat" where
  "row_of rs i ss = find_series (fst (fst (rs ! i))) (occurrence rs i) ss"

definition sample_result :: "(name_view \<times> f32) list \<Rightarrow> nat \<Rightarrow> nat \<Rightarrow> series list \<Rightarrow> series list" where
  "sample_result rs head i ss =
     (let s = row_of rs i ss in
      if s = length ss then
        (if length ss \<ge> kMaxPasses then ss else ss @ [set_column head (snd (rs ! i)) (new_series (fst (rs ! i)))])
      else ss[s := set_column head (snd (rs ! i)) (ss ! s)])"

definition sample_history :: "profiler \<Rightarrow> profiler" where
  "sample_history p =
     (if \<not> pr_recording p \<or> pr_result_id p = pr_last_sampled p then p
      else p\<lparr>pr_last_sampled := pr_result_id p,
             pr_series := fold (sample_result (pr_results p) (pr_head p)) [0..<length (pr_results p)]
                            (map (set_column (pr_head p) 0) (pr_series p)),
             pr_head := (pr_head p + 1) mod kHistory,
             pr_len := (if pr_len p < kHistory then pr_len p + 1 else pr_len p)\<rparr>)"

subsection \<open>The ring\<close>

fun init_slots :: "prof_slot list \<Rightarrow> device \<Rightarrow> prof_slot list \<times> device" where
  "init_slots [] d = ([], d)"
| "init_slots (s # ss) d =
     (let (b, d1) = create_object d; (ss', d2) = init_slots ss d1 in (s\<lparr>sl_buf := Some b\<rparr> # ss', d2))"

definition profiler_init :: "profiler \<times> device \<Rightarrow> profiler \<times> device" where
  "profiler_init st =
     (case st of (p, d) \<Rightarrow>
        if pr_initialized p then (p, d)
        else
          let (q, d1) = create_object d; (r, d2) = create_object d1; (ring, d3) = init_slots (pr_ring p) d2
          in (p\<lparr>pr_query_set := Some q, pr_resolve_buf := Some r, pr_ring := ring, pr_initialized := True\<rparr>, d3))"

definition free_slot :: "profiler \<Rightarrow> nat option" where
  "free_slot p = find (\<lambda>i. \<not> sl_pending (pr_ring p ! i)) [0..<kRing]"

definition upd_slot :: "nat \<Rightarrow> (prof_slot \<Rightarrow> prof_slot) \<Rightarrow> profiler \<Rightarrow> profiler" where
  "upd_slot i f p = p\<lparr>pr_ring := (pr_ring p)[i := f (pr_ring p ! i)]\<rparr>"

text \<open>\<open>execute\<close> names the timed passes as they run, and hands the slot over at the end.\<close>

definition name_query :: "nat \<Rightarrow> nat \<Rightarrow> name_view \<Rightarrow> profiler \<Rightarrow> profiler" where
  "name_query i k nm = upd_slot i (\<lambda>s. s\<lparr>sl_names := (sl_names s)[k := nm]\<rparr>)"

definition hand_slot :: "nat \<Rightarrow> nat \<Rightarrow> profiler \<Rightarrow> profiler" where
  "hand_slot i n p = (upd_slot i (\<lambda>s. s\<lparr>sl_count := n\<rparr>) p)\<lparr>pr_pending_slot := Some i\<rparr>"

text \<open>The request \<open>collect_gpu_timings\<close> makes: the slot whose buffer is being mapped.\<close>

definition collect_gpu_timings :: "profiler \<Rightarrow> nat option \<times> profiler" where
  "collect_gpu_timings p =
     (case pr_pending_slot p of
        None \<Rightarrow> (None, p)
      | Some i \<Rightarrow> (Some i, upd_slot i (\<lambda>s. s\<lparr>sl_pending := True\<rparr>) (p\<lparr>pr_pending_slot := None\<rparr>)))"

definition round64 :: "rat \<Rightarrow> rat" where
  "round64 x =
     (if x = 0 then 0
      else let e = max (flog2 \<bar>x\<bar>) (- 1022); u = pow2 (e - 52)
           in of_int (round_half_even (x / u)) * u)"

text \<open>\<open>float((e - b) / 1000.0)\<close>: converted to \<open>double\<close>, divided, narrowed.\<close>

definition timing_us :: "u64 \<Rightarrow> u64 \<Rightarrow> f32" where
  "timing_us b e = (if e > b then round32 (round64 (round64 (of_int (uint (e - b))) / 1000)) else 0)"

definition slot_results :: "prof_slot \<Rightarrow> u64 list \<Rightarrow> (name_view \<times> f32) list" where
  "slot_results s t = map (\<lambda>i. (sl_names s ! i, timing_us (t ! (2 * i)) (t ! (2 * i + 1)))) [0..<sl_count s]"

text \<open>The callback: \<open>None\<close> is a failed map, \<open>Some None\<close> a mapped range that is null.\<close>

definition map_callback :: "nat \<Rightarrow> u64 list option option \<Rightarrow> profiler \<Rightarrow> profiler" where
  "map_callback i status p =
     upd_slot i (\<lambda>s. s\<lparr>sl_pending := False\<rparr>)
       (case status of
          Some (Some t) \<Rightarrow> p\<lparr>pr_results := slot_results (pr_ring p ! i) t, pr_result_id := pr_result_id p + 1\<rparr>
        | _ \<Rightarrow> p)"

subsection \<open>Life of the ring\<close>

text \<open>
  One event of the profiler: a profiled graph fills a free slot, the frame's end starts its map,
  the map completes, the user interface samples or clears the history or toggles the recording.
\<close>

inductive profiler_step :: "profiler \<Rightarrow> profiler \<Rightarrow> bool" where
  fill: "pr_pending_slot p = None \<Longrightarrow> profiler_init (p, d) = (q, d') \<Longrightarrow> free_slot q = Some i \<Longrightarrow>
     length names = n \<Longrightarrow> 0 < n \<Longrightarrow> n \<le> kMaxPasses \<Longrightarrow>
     profiler_step p (hand_slot i n (fold (\<lambda>(k, nm). name_query i k nm) (enumerate 0 names) q))"
| collect: "profiler_step p (snd (collect_gpu_timings p))"
| callback: "i < kRing \<Longrightarrow> sl_pending (pr_ring p ! i) \<Longrightarrow> profiler_step p (map_callback i status p)"
| sample: "profiler_step p (sample_history p)"
| clear: "profiler_step p (clear_history p)"
| toggle: "profiler_step p (p\<lparr>pr_recording := b\<rparr>)"

inductive_cases profiler_stepE: "profiler_step p q"

definition series_ok :: "series list \<Rightarrow> bool" where
  "series_ok ss \<longleftrightarrow> length ss \<le> kMaxPasses \<and> list_all (\<lambda>s. length (se_v s) = kHistory) ss"

definition slot_ok :: "prof_slot \<Rightarrow> bool" where
  "slot_ok s \<longleftrightarrow> length (sl_names s) = kMaxPasses \<and> sl_count s \<le> kMaxPasses"

definition profiler_ok :: "profiler \<Rightarrow> bool" where
  "profiler_ok p \<longleftrightarrow>
     length (pr_ring p) = kRing \<and> list_all slot_ok (pr_ring p) \<and> length (pr_results p) \<le> kMaxPasses \<and>
     (\<forall>i. pr_pending_slot p = Some i \<longrightarrow> i < kRing \<and> \<not> sl_pending (pr_ring p ! i) \<and> 0 < sl_count (pr_ring p ! i)) \<and>
     (\<forall>i < kRing. sl_pending (pr_ring p ! i) \<longrightarrow> 0 < sl_count (pr_ring p ! i)) \<and>
     series_ok (pr_series p) \<and> pr_head p < kHistory \<and> pr_len p \<le> kHistory"

lemma find_series_le: "find_series x occ ss \<le> length ss"
  by (induction ss arbitrary: occ) auto

lemma set_column_length [simp]: "length (se_v (set_column h x s)) = length (se_v s)"
  by (simp add: set_column_def)

lemma sample_result_ok: "series_ok ss \<Longrightarrow> series_ok (sample_result rs h i ss)"
  using find_series_le [of "fst (fst (rs ! i))" "occurrence rs i" ss]
    set_update_subset_insert [of ss "row_of rs i ss"]
  by (fastforce simp: series_ok_def sample_result_def Let_def row_of_def new_series_def list_all_iff)

lemma sample_series_ok: "series_ok ss \<Longrightarrow> series_ok (fold (sample_result rs h) is ss)"
  by (induction "is" arbitrary: ss) (simp_all add: sample_result_ok)

lemma clear_column_ok: "series_ok ss \<Longrightarrow> series_ok (map (set_column h x) ss)"
  by (simp add: series_ok_def list_all_iff set_column_def)

lemma init_slots_same:
  "init_slots ss d = (ss', d') \<Longrightarrow>
   length ss' = length ss \<and> (\<forall>i < length ss. ss' ! i = (ss ! i)\<lparr>sl_buf := sl_buf (ss' ! i)\<rparr>)"
proof (induction ss arbitrary: d ss' d')
  case (Cons s ss)
  obtain b d1 where b: "create_object d = (b, d1)" by fastforce
  obtain ss1 d2 where r: "init_slots ss d1 = (ss1, d2)" by fastforce
  have e: "ss' = s\<lparr>sl_buf := Some b\<rparr> # ss1" using Cons.prems b r by simp
  show ?case using Cons.IH [OF r] unfolding e by (auto simp: nth_Cons split: nat.split)
qed simp

lemma upd_slot_ok:
  assumes "profiler_ok p" "i < kRing" "slot_ok (f (pr_ring p ! i))"
    "sl_pending (f (pr_ring p ! i)) \<longrightarrow> 0 < sl_count (f (pr_ring p ! i))"
    "pr_pending_slot p = Some i \<Longrightarrow> \<not> sl_pending (f (pr_ring p ! i)) \<and> 0 < sl_count (f (pr_ring p ! i))"
  shows "profiler_ok (upd_slot i f p)"
  using assms unfolding profiler_ok_def upd_slot_def
  by (auto simp: nth_list_update list_all_length)

lemma ring_slot_ok: "profiler_ok p \<Longrightarrow> i < kRing \<Longrightarrow> slot_ok (pr_ring p ! i)"
  by (simp add: profiler_ok_def list_all_length)

lemma init_ok:
  assumes "profiler_init (p, d) = (q, d')" "profiler_ok p"
  shows "profiler_ok q \<and> pr_pending_slot q = pr_pending_slot p"
proof (cases "pr_initialized p")
  case False
  obtain ring d3 where r: "init_slots (pr_ring p) (snd (create_object (snd (create_object d)))) = (ring, d3)" by fastforce
  have q: "q = p\<lparr>pr_query_set := pr_query_set q, pr_resolve_buf := pr_resolve_buf q, pr_ring := ring, pr_initialized := True\<rparr>"
    using assms(1) False r by (auto simp: profiler_init_def split_beta Let_def)
  have n: "length ring = length (pr_ring p)" "\<And>i. i < length (pr_ring p) \<Longrightarrow> ring ! i = (pr_ring p ! i)\<lparr>sl_buf := sl_buf (ring ! i)\<rparr>"
    using init_slots_same [OF r] by auto
  have same: "sl_pending (ring ! i) = sl_pending (pr_ring p ! i)" "sl_count (ring ! i) = sl_count (pr_ring p ! i)"
    "sl_names (ring ! i) = sl_names (pr_ring p ! i)" if "i < length (pr_ring p)" for i
    by (subst n(2) [OF that], simp)+
  show ?thesis
    using assms(2) n(1) same by (subst q, subst q) (auto simp: profiler_ok_def list_all_length slot_ok_def)
qed (use assms in \<open>simp add: profiler_init_def\<close>)

lemma free_slot_Some: "free_slot p = Some i \<Longrightarrow> i < kRing \<and> \<not> sl_pending (pr_ring p ! i)"
  unfolding free_slot_def using find_Some_in [of _ "[0..<kRing]" i] by auto

lemma free_slot_None: "free_slot p = None \<longleftrightarrow> (\<forall>i < kRing. sl_pending (pr_ring p ! i))"
  unfolding free_slot_def by (auto simp: find_None_iff_ex)

text \<open>Naming the queries of a slot that is not in flight, and handing it over.\<close>

lemma name_queries:
  assumes "i < kRing" "profiler_ok p" "\<not> sl_pending (pr_ring p ! i)" "pr_pending_slot p = None"
  shows "profiler_ok (fold (\<lambda>(k, nm). name_query i k nm) ks p)
    \<and> \<not> sl_pending (pr_ring (fold (\<lambda>(k, nm). name_query i k nm) ks p) ! i)
    \<and> pr_pending_slot (fold (\<lambda>(k, nm). name_query i k nm) ks p) = None"
  using assms(2-)
proof (induction ks arbitrary: p)
  case (Cons kn ks)
  obtain k nm where kn: "kn = (k, nm)" by (cases kn)
  have so: "slot_ok (pr_ring p ! i)" by (rule ring_slot_ok [OF Cons.prems(1) assms(1)])
  have "profiler_ok (name_query i k nm p)"
    unfolding name_query_def
    by (rule upd_slot_ok [OF Cons.prems(1) assms(1)]) (use Cons.prems so in \<open>simp_all add: slot_ok_def\<close>)
  moreover have "\<not> sl_pending (pr_ring (name_query i k nm p) ! i)" "pr_pending_slot (name_query i k nm p) = None"
    using Cons.prems assms(1) by (simp_all add: name_query_def upd_slot_def profiler_ok_def)
  ultimately show ?case using Cons.IH [of "name_query i k nm p"] by (simp add: kn)
qed simp

lemma hand_slot_ok:
  assumes "profiler_ok p" "i < kRing" "\<not> sl_pending (pr_ring p ! i)" "0 < n" "n \<le> kMaxPasses"
  shows "profiler_ok (hand_slot i n p)"
  using assms ring_slot_ok [OF assms(1,2)] unfolding hand_slot_def upd_slot_def profiler_ok_def
  by (auto simp: nth_list_update list_all_length slot_ok_def)

lemma sample_history_ok: "profiler_ok p \<Longrightarrow> profiler_ok (sample_history p)"
  by (simp add: profiler_ok_def sample_history_def sample_series_ok clear_column_ok kHistory_def)

lemma profiler_step_ok: "profiler_step p q \<Longrightarrow> profiler_ok p \<Longrightarrow> profiler_ok q"
proof (induction rule: profiler_step.induct)
  case (fill p d q d' i names n)
  have q: "profiler_ok q" "pr_pending_slot q = None"
    using init_ok [OF fill.hyps(2) fill.prems] fill.hyps(1) by simp_all
  have i: "i < kRing" "\<not> sl_pending (pr_ring q ! i)" using free_slot_Some [OF fill.hyps(3)] by simp_all
  from name_queries [OF i(1) q(1) i(2) q(2)] show ?case
    using hand_slot_ok [OF _ i(1) _ fill.hyps(5,6)] by blast
next
  case (collect p)
  show ?case
  proof (cases "pr_pending_slot p")
    case (Some i)
    then have i: "i < kRing" "0 < sl_count (pr_ring p ! i)" using collect by (simp_all add: profiler_ok_def)
    have ok: "profiler_ok (p\<lparr>pr_pending_slot := None\<rparr>)" using collect by (simp add: profiler_ok_def)
    show ?thesis unfolding collect_gpu_timings_def Some
      using upd_slot_ok [OF ok i(1)] ring_slot_ok [OF collect i(1)] i(2) by (simp add: slot_ok_def)
  qed (use collect in \<open>simp add: collect_gpu_timings_def\<close>)
next
  case (callback i p status)
  have so: "slot_ok (pr_ring p ! i)" by (rule ring_slot_ok [OF callback.prems callback.hyps(1)])
  have "profiler_ok (case status of Some (Some t) \<Rightarrow>
      p\<lparr>pr_results := slot_results (pr_ring p ! i) t, pr_result_id := pr_result_id p + 1\<rparr> | _ \<Rightarrow> p)" (is "profiler_ok ?p")
    using callback.prems so by (simp add: profiler_ok_def slot_results_def slot_ok_def split: option.split)
  moreover have "pr_ring ?p = pr_ring p" "pr_pending_slot ?p = pr_pending_slot p" by (simp_all split: option.split)
  moreover have "pr_pending_slot p \<noteq> Some i" "0 < sl_count (pr_ring p ! i)"
    using callback by (auto simp: profiler_ok_def)
  ultimately show ?case unfolding map_callback_def
    by (intro upd_slot_ok) (use callback.hyps(1) so in \<open>simp_all add: slot_ok_def\<close>)
next
  case (sample p)
  then show ?case by (rule sample_history_ok)
next
  case (clear p)
  then show ?case by (simp add: profiler_ok_def clear_history_def series_ok_def kHistory_def)
next
  case (toggle p b)
  then show ?case by (simp add: profiler_ok_def)
qed

lemma empty_profiler_ok: "profiler_ok empty_profiler"
  by (simp add: profiler_ok_def empty_profiler_def list_all_iff slot_ok_def empty_slot_def series_ok_def kHistory_def kRing_def)

lemma profiler_run_ok: "profiler_step\<^sup>*\<^sup>* empty_profiler p \<Longrightarrow> profiler_ok p"
  by (induction rule: rtranclp_induct) (simp_all add: empty_profiler_ok profiler_step_ok)

subsection \<open>What a sample stores\<close>

lemma find_series_append:
  "find_series x occ (ss @ ts) =
     (if find_series x occ ss < length ss then find_series x occ ss
      else length ss + find_series x (occ - length (filter (\<lambda>s. fst (se_name s) = x) ss)) ts)"
proof (induction ss arbitrary: occ)
  case (Cons s ss)
  then show ?case by (cases occ) auto
qed simp

lemma find_series_names: "map (fst \<circ> se_name) ss = map (fst \<circ> se_name) ts \<Longrightarrow> find_series x occ ss = find_series x occ ts"
proof (induction ss arbitrary: ts occ)
  case (Cons s ss)
  then obtain t ts' where t: "ts = t # ts'" by (cases ts) simp_all
  then have "fst (se_name s) = fst (se_name t)" "\<And>occ. find_series x occ ss = find_series x occ ts'"
    using Cons.IH [of ts'] Cons.prems by simp_all
  then show ?case by (simp add: t)
qed simp

lemma find_series_named: "find_series x occ ss < length ss \<Longrightarrow> fst (se_name (ss ! find_series x occ ss)) = x"
  by (induction ss arbitrary: occ) (auto split: if_splits)

lemma find_series_inj:
  "find_series x o1 ss = find_series y o2 ss \<Longrightarrow> find_series x o1 ss < length ss \<Longrightarrow> x = y \<and> o1 = o2"
proof (induction ss arbitrary: o1 o2)
  case (Cons s ss)
  show ?case
  proof (cases "find_series x o1 (s # ss)")
    case 0
    then show ?thesis using Cons.prems(1) by (auto split: if_splits)
  next
    case (Suc m)
    have "x = y \<and> (if fst (se_name s) = x then o1 - 1 else o1) = (if fst (se_name s) = y then o2 - 1 else o2)"
      by (rule Cons.IH) (use Suc Cons.prems in \<open>auto split: if_splits\<close>)
    then show ?thesis using Suc Cons.prems by (auto split: if_splits)
  qed
qed simp

lemma occurrence_less:
  assumes "i < j" "j < length rs" "fst (fst (rs ! i)) = fst (fst (rs ! j))"
  shows "occurrence rs i < occurrence rs j"
proof -
  define k where "k = j - Suc i"
  have j: "j = Suc i + k" using assms(1) by (simp add: k_def)
  have "take j rs = take (Suc i) rs @ take k (drop (Suc i) rs)" unfolding j by (rule take_add)
  also have "take (Suc i) rs = take i rs @ [rs ! i]" using assms by (intro take_Suc_conv_app_nth) simp
  finally have "take j rs = take i rs @ (rs ! i) # take k (drop (Suc i) rs)" by simp
  then show ?thesis unfolding occurrence_def using assms(3) by simp
qed

lemma row_of_inj:
  assumes "i < length rs" "j < length rs" "row_of rs i ss = row_of rs j ss" "row_of rs i ss < length ss"
  shows "i = j"
proof -
  have "fst (fst (rs ! i)) = fst (fst (rs ! j))" "occurrence rs i = occurrence rs j"
    using find_series_inj assms(3,4) by (auto simp: row_of_def)
  then show ?thesis using occurrence_less [of i j rs] occurrence_less [of j i rs] assms(1,2)
    by (metis less_irrefl nat_neq_iff)
qed

lemma set_column_named [simp]: "se_name (set_column h x s) = se_name s"
  by (simp add: set_column_def)

lemma update_column_names: "s < length ss \<Longrightarrow> map (fst \<circ> se_name) (ss[s := set_column h x (ss ! s)]) = map (fst \<circ> se_name) ss"
  by (auto intro!: nth_equalityI simp: nth_list_update)

lemma row_of_sample:
  assumes "row_of rs j ss < length ss"
  shows "row_of rs j (sample_result rs h i ss) = row_of rs j ss"
  using assms find_series_names [OF update_column_names, of "row_of rs i ss" ss]
    find_series_le [of "fst (fst (rs ! i))" "occurrence rs i" ss]
  by (auto simp: sample_result_def Let_def row_of_def find_series_append)

lemma sample_result_length: "length ss \<le> length (sample_result rs h i ss)"
  by (auto simp: sample_result_def Let_def)

text \<open>\<open>stored rs h k ss\<close>: of the first \<open>k\<close> results, each that has a row has its value in column \<open>h\<close> of it.\<close>

definition stored :: "(name_view \<times> f32) list \<Rightarrow> nat \<Rightarrow> nat \<Rightarrow> series list \<Rightarrow> bool" where
  "stored rs h k ss \<longleftrightarrow>
     (\<forall>i < k. row_of rs i ss < length ss \<longrightarrow> se_v (ss ! row_of rs i ss) ! h = snd (rs ! i)) \<and>
     (\<forall>s < length ss. (\<forall>i < k. row_of rs i ss \<noteq> s) \<longrightarrow> se_v (ss ! s) ! h = 0)"

lemma find_series_less: "find_series x occ ss < length ss \<longleftrightarrow> occ < length (filter (\<lambda>s. fst (se_name s) = x) ss)"
proof (induction ss arbitrary: occ)
  case (Cons s ss)
  then show ?case by (cases occ) auto
qed simp

definition has_rows :: "(name_view \<times> f32) list \<Rightarrow> nat \<Rightarrow> series list \<Rightarrow> bool" where
  "has_rows rs k ss \<longleftrightarrow>
     length ss = kMaxPasses \<or>
     (\<forall>x. length (filter (\<lambda>r. fst (fst r) = x) (take k rs)) \<le> length (filter (\<lambda>s. fst (se_name s) = x) ss))"

lemma has_rows_step:
  assumes "has_rows rs k ss" "k < length rs" "length ss \<le> kMaxPasses"
  shows "has_rows rs (Suc k) (sample_result rs h k ss)"
proof (cases "row_of rs k ss = length ss")
  case True
  then show ?thesis using assms
    by (auto simp: has_rows_def sample_result_def Let_def take_Suc_conv_app_nth new_series_def)
next
  case False
  then have r: "row_of rs k ss < length ss" using find_series_le [of "fst (fst (rs ! k))" "occurrence rs k" ss] by (simp add: row_of_def)
  then have c: "occurrence rs k < length (filter (\<lambda>s. fst (se_name s) = fst (fst (rs ! k))) ss)"
    unfolding row_of_def by (simp only: find_series_less)
  have e: "length (filter (\<lambda>s. fst (se_name s) = x) (sample_result rs h k ss)) = length (filter (\<lambda>s. fst (se_name s) = x) ss)" for x
  proof -
    have c: "length (filter (\<lambda>s. fst (se_name s) = x) ts) = length (filter ((=) x) (map (fst \<circ> se_name) ts))" for ts :: "series list"
      by (simp add: filter_map comp_def eq_commute)
    have s: "sample_result rs h k ss = ss[row_of rs k ss := set_column h (snd (rs ! k)) (ss ! row_of rs k ss)]"
      using False by (simp add: sample_result_def Let_def)
    show ?thesis unfolding c s update_column_names [OF r] ..
  qed
  have l: "length (sample_result rs h k ss) = length ss" using False by (simp add: sample_result_def Let_def)
  show ?thesis unfolding has_rows_def e l using assms c
    by (auto simp: has_rows_def take_Suc_conv_app_nth occurrence_def)
qed

lemma stored_step:
  assumes st: "stored rs h k ss" and k: "k < length rs" and ok: "series_ok ss" and h: "h < kHistory"
    and rows: "has_rows rs k ss"
  shows "stored rs h (Suc k) (sample_result rs h k ss)"
proof (cases "row_of rs k ss = length ss")
  case full: True
  show ?thesis
  proof (cases "length ss \<ge> kMaxPasses")
    case True
    then have "sample_result rs h k ss = ss" using full by (simp add: sample_result_def)
    then show ?thesis using st full by (auto simp: stored_def less_Suc_eq)
  next
    case False
    define s where "s = set_column h (snd (rs ! k)) (new_series (fst (rs ! k)))"
    have e: "sample_result rs h k ss = ss @ [s]" using False full by (simp add: sample_result_def s_def)
    have old: "row_of rs i (ss @ [s]) = row_of rs i ss \<and> row_of rs i ss < length ss" if "i < k" for i
    proof -
      have "occurrence rs i < length (filter (\<lambda>r. fst (fst r) = fst (fst (rs ! i))) (take k rs))"
        using occurrence_less [of i k "take k rs @ [rs ! i]"] that k
        by (simp add: occurrence_def nth_append min_def)
      also have "\<dots> \<le> length (filter (\<lambda>s. fst (se_name s) = fst (fst (rs ! i))) ss)"
        using rows False by (simp add: has_rows_def)
      finally show ?thesis by (simp add: row_of_def find_series_append find_series_less [symmetric])
    qed
    have "occurrence rs k \<le> length (filter (\<lambda>s. fst (se_name s) = fst (fst (rs ! k))) ss)"
      using rows False by (simp add: has_rows_def occurrence_def)
    then have new: "row_of rs k (ss @ [s]) = length ss"
      using full by (simp add: row_of_def find_series_append s_def new_series_def)
    have "se_v s ! h = snd (rs ! k)" using h by (simp add: s_def set_column_def new_series_def)
    then show ?thesis unfolding e using st old new
      by (fastforce simp: stored_def less_Suc_eq nth_append)
  qed
next
  case False
  then have r: "row_of rs k ss < length ss" using find_series_le [of "fst (fst (rs ! k))" "occurrence rs k" ss] by (simp add: row_of_def)
  define s where "s = set_column h (snd (rs ! k)) (ss ! row_of rs k ss)"
  have e: "sample_result rs h k ss = ss[row_of rs k ss := s]" using False by (simp add: sample_result_def s_def Let_def)
  have n: "row_of rs i (ss[row_of rs k ss := s]) = row_of rs i ss" for i
    unfolding row_of_def using find_series_names [OF update_column_names [OF r]] by (simp add: s_def row_of_def)
  have "length (se_v (ss ! row_of rs k ss)) = kHistory" using ok r by (simp add: series_ok_def list_all_length)
  then have v: "se_v s ! h = snd (rs ! k)" using h by (simp add: s_def set_column_def)
  have d: "row_of rs k ss \<noteq> row_of rs i ss" if "i < k" for i
    using row_of_inj [of k rs i ss] that k r by auto
  show ?thesis unfolding e stored_def n using st v d d [symmetric] r
    by (auto simp: stored_def less_Suc_eq nth_list_update)
qed

lemma stored_fold:
  assumes "series_ok ss" "h < kHistory" "\<forall>s < length ss. se_v (ss ! s) ! h = 0" "k \<le> length rs"
  shows "stored rs h k (fold (sample_result rs h) [0..<k] ss) \<and> has_rows rs k (fold (sample_result rs h) [0..<k] ss)
    \<and> series_ok (fold (sample_result rs h) [0..<k] ss)"
  using assms(4)
proof (induction k)
  case 0
  then show ?case using assms by (simp add: stored_def has_rows_def)
next
  case (Suc k)
  then show ?case
    using stored_step [OF _ _ _ assms(2), of rs k "fold (sample_result rs h) [0..<k] ss"]
      has_rows_step [of rs k "fold (sample_result rs h) [0..<k] ss" h]
      sample_result_ok [of "fold (sample_result rs h) [0..<k] ss" rs h k]
    by (simp add: series_ok_def)
qed

text \<open>Every result of the read-back is in the written column of its own row, every other row has 0 there.\<close>

lemma sample_column:
  assumes "profiler_ok p" "pr_recording p" "pr_result_id p \<noteq> pr_last_sampled p"
  shows "stored (pr_results p) (pr_head p) (length (pr_results p)) (pr_series (sample_history p))"
    and "has_rows (pr_results p) (length (pr_results p)) (pr_series (sample_history p))"
proof -
  have "series_ok (map (set_column (pr_head p) 0) (pr_series p))" "pr_head p < kHistory"
    "\<forall>s < length (map (set_column (pr_head p) 0) (pr_series p)). se_v (map (set_column (pr_head p) 0) (pr_series p) ! s) ! pr_head p = 0"
    using assms(1) by (auto simp: profiler_ok_def series_ok_def list_all_length set_column_def)
  from stored_fold [OF this order_refl, of "pr_results p"]
  show "stored (pr_results p) (pr_head p) (length (pr_results p)) (pr_series (sample_history p))"
    "has_rows (pr_results p) (length (pr_results p)) (pr_series (sample_history p))"
    using assms(2,3) by (simp_all add: sample_history_def)
qed

end
