(* ===== verification/Allocator.thy ===== *)
theory Allocator
  imports Transient_Pool Profiler
begin

text \<open>
  \<open>GraphAllocator\<close> of webgpu/base/RenderGraph_internal.h and the frame-level calls of
  webgpu/base/RenderGraph.cpp: what outlives a graph. The persistent arena is the one inside the
  interner. The two pools are the owners of GPU objects: together they satisfy the contract of
  \<open>object_owner\<close>, with \<open>destroy_allocator\<close> as the closing operation.
\<close>

record allocator =
  al_front :: arena
  al_scratch :: arena
  al_names :: interner
  al_pool :: persistent_pool
  al_transient :: transient_pool
  al_profiler :: profiler
  al_transient_feature :: bool
  al_frame_id :: nat

definition arena_default_block_size :: nat where "arena_default_block_size = 16 * 1024"
definition arena_scratch_default_block_size :: nat where "arena_scratch_default_block_size = 2 * 1024"

text \<open>\<open>sizeof\<close> and \<open>alignof\<close> of an interner node are arguments.\<close>

definition create_allocator :: "(nat \<Rightarrow> bool) \<Rightarrow> nat \<Rightarrow> nat \<Rightarrow> allocator" where
  "create_allocator mal nsz nal =
     \<lparr>al_front = reserve mal (empty_arena arena_default_block_size),
      al_scratch = reserve mal (empty_arena arena_scratch_default_block_size),
      al_names = empty_interner nsz nal (reserve mal (empty_arena arena_scratch_default_block_size)),
      al_pool = empty_persistent_pool, al_transient = empty_transient_pool, al_profiler = empty_profiler,
      al_transient_feature = False, al_frame_id = 1\<rparr>"

definition destroy_allocator :: "allocator \<times> device \<Rightarrow> allocator \<times> device" where
  "destroy_allocator st =
     (case st of (al, d) \<Rightarrow>
        let (pool, d1) = persistent_destroy_all (al_pool al, d);
            (tr, d2) = transient_destroy_all (al_transient al, d1)
        in (al\<lparr>al_pool := pool, al_transient := tr, al_front := free_all (al_front al),
               al_scratch := free_all (al_scratch al),
               al_names := (al_names al)\<lparr>it_arena := free_all (it_arena (al_names al))\<rparr>\<rparr>, d2))"

definition reset_allocator :: "allocator \<Rightarrow> allocator" where
  "reset_allocator al =
     al\<lparr>al_front := reset_arena (al_front al), al_scratch := reset_arena (al_scratch al),
        al_frame_id := al_frame_id al + 1\<rparr>"

definition begin_frame :: "allocator \<times> device \<Rightarrow> allocator \<times> device" where
  "begin_frame st = (reset_allocator (fst st), snd st)"

definition end_frame :: "allocator \<times> device \<Rightarrow> allocator \<times> device" where
  "end_frame st =
     (case st of (al, d) \<Rightarrow>
        let (pool, d1) = persistent_end_frame (al_pool al, d); (tr, d2) = transient_end_frame (al_transient al, d1)
        in (al\<lparr>al_pool := pool, al_transient := tr\<rparr>, d2))"

text \<open>A \<open>ScopedScratch\<close>: what the body allocates is rewound when the scope ends.\<close>

definition scoped_scratch :: "(arena \<Rightarrow> 'a \<times> arena) \<Rightarrow> arena \<Rightarrow> 'a \<times> arena" where
  "scoped_scratch body ar = (let (x, ar') = body ar in (x, rewind (mark_arena ar) ar'))"

subsection \<open>Ownership\<close>

definition allocator_owned :: "allocator \<Rightarrow> nat list" where
  "allocator_owned al = persistent_owned (al_pool al) @ transient_owned (al_transient al)"

definition allocator_ok :: "allocator \<Rightarrow> bool" where
  "allocator_ok al \<longleftrightarrow> transient_ok (al_transient al)"

lemma hand_over_pool:
  assumes "hand_over (persistent_owned pool) (persistent_owned pool') d d'"
  shows "hand_over (persistent_owned pool @ xs) (persistent_owned pool' @ xs) d d'"
  using hand_over_frame [OF assms, of "[]" xs] by simp

lemma hand_over_transients:
  assumes "hand_over (transient_owned tr) (transient_owned tr') d d'"
  shows "hand_over (xs @ transient_owned tr) (xs @ transient_owned tr') d d'"
  using hand_over_frame [OF assms, of xs "[]"] by simp

lemma end_frame_hands:
  assumes "end_frame (al, d) = (al', d')" "allocator_ok al"
  shows "allocator_ok al' \<and> hand_over (allocator_owned al) (allocator_owned al') d d'"
proof -
  obtain pool d1 where p: "persistent_end_frame (al_pool al, d) = (pool, d1)" by fastforce
  obtain tr d2 where t: "transient_end_frame (al_transient al, d1) = (tr, d2)" by fastforce
  have e: "al' = al\<lparr>al_pool := pool, al_transient := tr\<rparr>" "d' = d2" using assms(1) p t by (auto simp: end_frame_def)
  have "hand_over (persistent_owned (al_pool al)) (persistent_owned pool) d d1"
    using persistent.op_hands [of persistent_end_frame, OF _ TrueI p] by (simp add: persistent_ops_def)
  moreover have "transient_ok tr \<and> hand_over (transient_owned (al_transient al)) (transient_owned tr) d1 d2"
    using transient.op_hands [of transient_end_frame, OF _ _ t] assms(2) by (simp add: transient_ops_def allocator_ok_def)
  ultimately show ?thesis unfolding allocator_owned_def allocator_ok_def e
    using hand_over_trans [OF hand_over_pool hand_over_transients] by simp
qed

lemma destroy_allocator_hands:
  assumes "destroy_allocator (al, d) = (al', d')" "allocator_ok al"
  shows "allocator_owned al' = [] \<and> hand_over (allocator_owned al) [] d d'"
proof -
  obtain pool d1 where p: "persistent_destroy_all (al_pool al, d) = (pool, d1)" by fastforce
  obtain tr d2 where t: "transient_destroy_all (al_transient al, d1) = (tr, d2)" by fastforce
  have e: "al_pool al' = pool" "al_transient al' = tr" "d' = d2" using assms(1) p t by (auto simp: destroy_allocator_def)
  have 1: "persistent_owned pool = []" "hand_over (persistent_owned (al_pool al)) [] d d1"
    using persistent.close_empties [OF TrueI p] by simp_all
  have 2: "transient_owned tr = []" "hand_over (transient_owned (al_transient al)) [] d1 d2"
    using transient.close_empties [OF _ t] assms(2) by (simp_all add: allocator_ok_def)
  have "hand_over (allocator_owned al) (transient_owned (al_transient al)) d d1"
    unfolding allocator_owned_def by (rule hand_over_front [OF 1(2)])
  then show ?thesis using 1(1) 2 e hand_over_trans by (fastforce simp: allocator_owned_def)
qed

end
