(* ===== verification/Realize.thy ===== *)
theory Realize
  imports Allocator
begin

text \<open>
  \<open>realize_graph\<close> and \<open>release_resources\<close> of webgpu/base/RenderGraph.cpp: the GPU
  objects behind a compiled graph, taken from the two pools of the allocator. The clock reads
  around it are not modelled; whether the device supports memoryless attachments is an argument.
\<close>

subsection \<open>Walks that may stop\<close>

text \<open>A loop over a list that rewrites its elements, threads a state and may return early.\<close>

fun walk :: "('a \<Rightarrow> 's \<Rightarrow> 'e + ('a \<times> 's)) \<Rightarrow> 'a list \<Rightarrow> 's \<Rightarrow> 'a list \<times> 's \<times> 'e option" where
  "walk f [] s = ([], s, None)"
| "walk f (x # xs) s =
     (case f x s of
        Inl e \<Rightarrow> (x # xs, s, Some e)
      | Inr (y, s1) \<Rightarrow> (let (ys, s2, e) = walk f xs s1 in (y # ys, s2, e)))"

lemma walk_None_Cons:
  "walk f (x # xs) s = (zs, s2, None) \<longleftrightarrow>
     (\<exists>y s1 ys. f x s = Inr (y, s1) \<and> walk f xs s1 = (ys, s2, None) \<and> zs = y # ys)"
  by (auto split: sum.split prod.split)

lemma walk_length: "walk f xs s = (ys, s', e) \<Longrightarrow> length ys = length xs"
  by (induction xs arbitrary: s ys) (auto split: sum.splits prod.splits)

lemma walk_state:
  assumes "walk f xs s = (ys, s', e)" "P s" "\<And>x s y s'. x \<in> set xs \<Longrightarrow> P s \<Longrightarrow> f x s = Inr (y, s') \<Longrightarrow> P s'"
  shows "P s'"
  using assms
proof (induction xs arbitrary: s ys)
  case (Cons x xs)
  show ?case
  proof (cases "f x s")
    case (Inr yt)
    obtain y t where yt: "yt = (y, t)" by (cases yt)
    obtain zs t' e' where r: "walk f xs t = (zs, t', e')" by (metis prod_cases3)
    then have e: "t' = s'" "e' = e" using Cons.prems(1) Inr yt by auto
    show ?thesis by (rule Cons.IH [of t zs]) (use Cons.prems Inr yt r e in auto)
  qed (use Cons.prems in auto)
qed simp

text \<open>A completed walk, from what is done so far: \<open>us\<close> became \<open>ys\<close>.\<close>

lemma walk_invariant:
  assumes "walk f xs s = (zs, s', None)" "P 0 [] s"
    "\<And>k ys s y s'. k < length xs \<Longrightarrow> length ys = k \<Longrightarrow> P k ys s \<Longrightarrow> f (xs ! k) s = Inr (y, s') \<Longrightarrow> P (Suc k) (ys @ [y]) s'"
  shows "P (length xs) zs s'"
proof -
  have "P (length us + length vs) (ys @ zs) s'"
    if "xs = us @ vs" "walk f vs t = (zs, s', None)" "P (length us) ys t" "length ys = length us" for us vs ys zs t
    using that
  proof (induction vs arbitrary: us ys zs t)
    case (Cons x vs)
    then obtain y t1 zs1 where w: "f x t = Inr (y, t1)" "walk f vs t1 = (zs1, s', None)" "zs = y # zs1"
      unfolding walk_None_Cons by blast
    have "P (length (us @ [x])) (ys @ [y]) t1"
      using assms(3) [of "length us" ys t y t1] Cons.prems w(1) by (simp add: nth_append)
    then show ?case using Cons.IH [of "us @ [x]" t1 zs1 "ys @ [y]"] Cons.prems w by simp
  qed simp
  from this [of "[]" xs s zs "[]"] assms(1,2) show ?thesis by simp
qed

lemma walk_total:
  assumes "\<And>x s. x \<in> set xs \<Longrightarrow> P s \<Longrightarrow> \<exists>y s'. f x s = Inr (y, s') \<and> P s'" "P s"
  shows "\<exists>ys s'. walk f xs s = (ys, s', None) \<and> P s'"
  using assms
proof (induction xs arbitrary: s)
  case (Cons x xs)
  obtain y s1 where 1: "f x s = Inr (y, s1)" "P s1" using Cons.prems(1) [of x s] Cons.prems(2) by auto
  obtain ys s2 where "walk f xs s1 = (ys, s2, None)" "P s2"
    using Cons.IH [of s1] Cons.prems(1) 1(2) by auto
  then show ?case using 1 by simp
qed simp

subsection \<open>The persistent pool\<close>

definition touch_node :: "res_node \<Rightarrow> persistent_pool \<times> device \<Rightarrow> persistent_pool \<times> device" where
  "touch_node r st =
     (if \<not> rn_persistent r \<or> \<not> pool_used r then st
      else
        let (pool, d) = touch (rn_id r) (if rn_history r then kLayers else 1) (rn_history_hash r) (rn_kind r) st
        in (upd_entry (rn_id r)
              (\<lambda>e. if rn_kind r = RK_Texture then e\<lparr>pe_usage := pe_usage e \<union> rn_tex_usage r\<rparr>
                   else e\<lparr>pe_buf_usage := pe_buf_usage e \<union> rn_buf_usage r\<rparr>) pool, d))"

definition usage_grew_only :: "res_node \<Rightarrow> pentry \<Rightarrow> bool" where
  "usage_grew_only r e \<longleftrightarrow>
     (if rn_kind r = RK_Texture then pe_usage_at_create e - pe_usage e = {}
      else pe_buf_usage_at_create e - pe_buf_usage e = {})"

definition would_recreate :: "res_node \<Rightarrow> pentry \<Rightarrow> bool" where
  "would_recreate r e \<longleftrightarrow>
     (if rn_kind r = RK_Texture then tex_entry_would_recreate e (tex_signature_of r) (pe_usage e)
      else buf_entry_would_recreate e (rn_buffer_size r) (pe_buf_usage e))"

definition realize_entry :: "nat \<Rightarrow> res_node \<Rightarrow> pentry \<Rightarrow> device \<Rightarrow> pentry \<times> device" where
  "realize_entry clock r e d =
     (if rn_kind r = RK_Texture then realize_texture_entry clock (tex_signature_of r) e d
      else realize_buffer_entry clock (rn_buffer_size r) e d)"

text \<open>The node pointed at its rotated slot; a texture node leaves \<open>buffer\<close> alone and vice versa.\<close>

definition point_at_layer :: "nat \<Rightarrow> pentry \<Rightarrow> res_node \<Rightarrow> res_node" where
  "point_at_layer clock e r =
     (let l = pe_objects e ! slot e (rn_history_index r);
          r1 = (if rn_kind r = RK_Texture then r\<lparr>rn_texture := lo_tex l, rn_view := lo_view l\<rparr>
                else r\<lparr>rn_buffer := lo_buf l\<rparr>)
      in r1\<lparr>rn_history_valid := rn_history r \<and> pe_created_clock e \<noteq> Some clock \<and> Suc (pe_prev e) = clock\<rparr>)"

definition realize_persistent ::
  "res_node \<Rightarrow> persistent_pool \<times> device \<Rightarrow> realize_error + (res_node \<times> persistent_pool \<times> device)" where
  "realize_persistent r st =
     (if \<not> rn_persistent r \<or> \<not> pool_used r then Inr (r, st)
      else
        case st of (pool, d) \<Rightarrow>
          (case pool_find (rn_id r) pool of
             None \<Rightarrow> Inl (NoPoolEntry (node_name r))
           | Some e \<Rightarrow>
               if \<not> usage_grew_only r e then Inl (UsageShrank (node_name r))
               else if would_recreate r e \<and> pe_created_clock e = Some (pp_clock pool) then
                 Inl (RecreatedTwice (node_name r))
               else
                 let (e', d') = realize_entry (pp_clock pool) r e d
                 in Inr (point_at_layer (pp_clock pool) e' r, upd_entry (rn_id r) (\<lambda>_. e') pool, d')))"

subsection \<open>Aliased and single transients\<close>

definition realize_slot ::
  "nat \<times> phys \<Rightarrow> transient_pool \<times> device \<Rightarrow> realize_error + ((nat \<times> phys) \<times> transient_pool \<times> device)" where
  "realize_slot iph st =
     (case iph of (i, ph) \<Rightarrow>
        if ph_kind ph = RK_Texture then
          let ((t, v), st') = acquire_texture (ph_sig ph) (ph_tex_usage ph) (ph_identity ph) st
          in Inr ((i, ph\<lparr>ph_texture := t, ph_view := v\<rparr>), st')
        else if is_mappable (ph_buf_usage ph) then Inl (MappableSlot i)
        else
          let (b, st') = acquire_buffer (ph_buffer_size ph) (ph_buf_usage ph) (ph_identity ph) st
          in Inr ((i, ph\<lparr>ph_buffer := b\<rparr>), st'))"

definition point_at_slot :: "phys list \<Rightarrow> res_node \<Rightarrow> res_node" where
  "point_at_slot phs r =
     (case rn_alias_slot r of
        None \<Rightarrow> r
      | Some k \<Rightarrow> r\<lparr>rn_texture := ph_texture (phs ! k), rn_view := ph_view (phs ! k), rn_buffer := ph_buffer (phs ! k)\<rparr>)"

definition realize_texture ::
  "bool \<Rightarrow> res_node \<Rightarrow> transient_pool \<times> device \<Rightarrow> realize_error + (res_node \<times> transient_pool \<times> device)" where
  "realize_texture transientOK r st =
     (if is_external r \<or> rn_kind r \<noteq> RK_Texture \<or> rn_tex_usage r = {} \<or> rn_alias_slot r \<noteq> None then Inr (r, st)
      else
        let usage = (if transientOK \<and> rn_transient_attachment r
                     then rn_tex_usage r \<union> {TU_TransientAttachment} else rn_tex_usage r);
            ((t, v), st') = acquire_texture (tex_signature_of r) usage (rid_data (rn_id r)) st
        in Inr (r\<lparr>rn_texture := t, rn_view := v\<rparr>, st'))"

definition realize_buffer ::
  "res_node \<Rightarrow> transient_pool \<times> device \<Rightarrow> realize_error + (res_node \<times> transient_pool \<times> device)" where
  "realize_buffer r st =
     (if is_external r \<or> rn_kind r \<noteq> RK_Buffer \<or> rn_buf_usage r = {} \<or> rn_alias_slot r \<noteq> None then Inr (r, st)
      else if is_mappable (rn_buf_usage r) then Inl (MappableBuffer (node_name r))
      else
        let (b, st') = acquire_buffer (rn_buffer_size r) (rn_buf_usage r) (rid_data (rn_id r)) st
        in Inr (r\<lparr>rn_buffer := b\<rparr>, st'))"

subsection \<open>Cached views of the realized textures\<close>

text \<open>The head slot of a subview list: an entry of the transient pool, or a layer of a persistent one.\<close>

datatype subview_loc = In_Transient nat | In_Persistent nat nat

definition transient_owner :: "nat \<Rightarrow> transient_pool \<Rightarrow> nat option" where
  "transient_owner t tr =
     map_option fst (find (\<lambda>(i, e). te_kind e = RK_Texture \<and> te_tex e = Some t) (enumerate 0 (tr_entries tr)))"

definition persistent_owner :: "nat \<Rightarrow> persistent_pool \<Rightarrow> (nat \<times> nat) option" where
  "persistent_owner t pool =
     map_option fst (find (\<lambda>(ij, l). lo_tex l = Some t)
       (concat (map (\<lambda>(i, e). map (\<lambda>(j, l). ((i, j), l)) (enumerate 0 (pe_objects e))) (enumerate 0 (pp_entries pool)))))"

definition find_subview_list :: "allocator \<Rightarrow> gpu_ref \<Rightarrow> subview_loc option" where
  "find_subview_list al tex =
     (case tex of
        None \<Rightarrow> None
      | Some t \<Rightarrow>
          (case transient_owner t (al_transient al) of
             Some i \<Rightarrow> Some (In_Transient i)
           | None \<Rightarrow> map_option (\<lambda>(i, j). In_Persistent i j) (persistent_owner t (al_pool al))))"

subsection \<open>The whole\<close>

text \<open>One graph being executed: the allocator, the graph, \<open>r->subviews\<close> by node id, the device.\<close>

record exec =
  ex_alloc :: allocator
  ex_graph :: graph
  ex_subviews :: "nat \<Rightarrow> subview_loc option"
  ex_device :: device

definition fail_realize :: "realize_error \<Rightarrow> exec \<Rightarrow> exec" where
  "fail_realize e x = x\<lparr>ex_graph := push_error (RealizeError e) (ex_graph x)\<rparr>"

definition put_nodes :: "res_node list \<Rightarrow> exec \<Rightarrow> exec" where
  "put_nodes rs x = x\<lparr>ex_graph := (ex_graph x)\<lparr>g_nodes := rs\<rparr>\<rparr>"

definition put_pool :: "persistent_pool \<times> device \<Rightarrow> exec \<Rightarrow> exec" where
  "put_pool st x = x\<lparr>ex_alloc := (ex_alloc x)\<lparr>al_pool := fst st\<rparr>, ex_device := snd st\<rparr>"

definition put_transients :: "transient_pool \<times> device \<Rightarrow> exec \<Rightarrow> exec" where
  "put_transients st x = x\<lparr>ex_alloc := (ex_alloc x)\<lparr>al_transient := fst st\<rparr>, ex_device := snd st\<rparr>"

definition pool_state :: "exec \<Rightarrow> persistent_pool \<times> device" where
  "pool_state x = (al_pool (ex_alloc x), ex_device x)"

definition transient_state :: "exec \<Rightarrow> transient_pool \<times> device" where
  "transient_state x = (al_transient (ex_alloc x), ex_device x)"

definition stop_on :: "realize_error option \<Rightarrow> exec \<Rightarrow> exec" where
  "stop_on e x = (case e of None \<Rightarrow> x | Some e \<Rightarrow> fail_realize e x)"

text \<open>The loops of \<open>realize_graph\<close>, in order; a failed one ends the function.\<close>

definition rz_touch :: "exec \<Rightarrow> exec" where
  "rz_touch x = put_pool (fold touch_node (g_nodes (ex_graph x)) (pool_state x)) x"

definition rz_persistent :: "exec \<Rightarrow> exec" where
  "rz_persistent x =
     (let (rs, st, e) = walk realize_persistent (g_nodes (ex_graph x)) (pool_state x)
      in stop_on e (put_pool st (put_nodes rs x)))"

definition rz_slots :: "exec \<Rightarrow> exec" where
  "rz_slots x =
     (let (phs, st, e) = walk realize_slot (enumerate 0 (g_slots (ex_graph x))) (transient_state x);
          x1 = x\<lparr>ex_graph := (ex_graph x)\<lparr>g_slots := map snd phs\<rparr>\<rparr>
      in stop_on e (put_transients st x1))"

definition rz_members :: "exec \<Rightarrow> exec" where
  "rz_members x = put_nodes (map (point_at_slot (g_slots (ex_graph x))) (g_nodes (ex_graph x))) x"

definition rz_textures :: "bool \<Rightarrow> exec \<Rightarrow> exec" where
  "rz_textures transientOK x =
     (let (rs, st, e) = walk (realize_texture transientOK) (g_nodes (ex_graph x)) (transient_state x)
      in stop_on e (put_transients st (put_nodes rs x)))"

definition rz_buffers :: "exec \<Rightarrow> exec" where
  "rz_buffers x =
     (let (rs, st, e) = walk realize_buffer (g_nodes (ex_graph x)) (transient_state x)
      in stop_on e (put_transients st (put_nodes rs x)))"

definition rz_subviews :: "exec \<Rightarrow> exec" where
  "rz_subviews x =
     x\<lparr>ex_subviews := fold (\<lambda>r m. if rn_kind r = RK_Texture \<and> rn_texture r \<noteq> None
          then m(h_id (rn_handle r) := find_subview_list (ex_alloc x) (rn_texture r)) else m)
        (g_nodes (ex_graph x)) (ex_subviews x)\<rparr>"

definition unless_stopped :: "(exec \<Rightarrow> exec) \<Rightarrow> exec \<Rightarrow> exec" where
  "unless_stopped f x = (if g_state (ex_graph x) = RG_Failed then x else f x)"

definition realize_graph :: "bool \<Rightarrow> exec \<Rightarrow> exec" where
  "realize_graph transientOK x =
     (if g_state (ex_graph x) = RG_Failed then x
      else if g_state (ex_graph x) \<noteq> RG_Compiled then fail_realize NeverCompiled x
      else
        let x1 = rz_persistent (rz_touch (x\<lparr>ex_alloc := (ex_alloc x)\<lparr>al_transient_feature := transientOK\<rparr>\<rparr>));
            x2 = unless_stopped rz_slots x1;
            x3 = unless_stopped (\<lambda>x. rz_buffers (rz_textures transientOK (rz_members x))) x2
        in unless_stopped rz_subviews x3)"

definition release_node :: "res_node \<Rightarrow> res_node" where
  "release_node r = (if is_external r then r else r\<lparr>rn_texture := None, rn_view := None, rn_buffer := None\<rparr>)"

definition release_phys :: "phys \<Rightarrow> phys" where
  "release_phys ph = ph\<lparr>ph_texture := None, ph_view := None, ph_buffer := None\<rparr>"

definition release_resources :: "exec \<Rightarrow> exec" where
  "release_resources x =
     x\<lparr>ex_graph := (ex_graph x)\<lparr>g_nodes := map release_node (g_nodes (ex_graph x)),
                               g_slots := map release_phys (g_slots (ex_graph x))\<rparr>,
       ex_alloc := (ex_alloc x)\<lparr>al_transient := release_claims (al_transient (ex_alloc x))\<rparr>\<rparr>"

end
