(* ===== verification/Realize_Owner.thy ===== *)
theory Realize_Owner
  imports Realize
begin

text \<open>
  Realizing a graph hands the objects of the allocator over to the allocator: whatever the loops
  of \<open>realize_graph\<close> create is owned by an entry of one of the pools, and nothing is released
  that a pool did not own, whether the realization succeeds or stops half way.
\<close>

definition exec_hands :: "exec \<Rightarrow> exec \<Rightarrow> bool" where
  "exec_hands x y \<longleftrightarrow>
     (allocator_ok (ex_alloc x) \<longrightarrow>
        allocator_ok (ex_alloc y) \<and>
        hand_over (allocator_owned (ex_alloc x)) (allocator_owned (ex_alloc y)) (ex_device x) (ex_device y))"

lemma exec_hands_refl: "exec_hands x x"
  by (simp add: exec_hands_def hand_over_refl)

lemma exec_hands_trans: "exec_hands x y \<Longrightarrow> exec_hands y z \<Longrightarrow> exec_hands x z"
  unfolding exec_hands_def using hand_over_trans by blast

lemma exec_hands_same:
  "al_pool (ex_alloc y) = al_pool (ex_alloc x) \<Longrightarrow> al_transient (ex_alloc y) = al_transient (ex_alloc x) \<Longrightarrow>
   ex_device y = ex_device x \<Longrightarrow> exec_hands x y"
  by (simp add: exec_hands_def allocator_ok_def allocator_owned_def hand_over_refl)

lemma put_pool_hands:
  assumes "hand_over (persistent_owned (al_pool (ex_alloc x))) (persistent_owned pool) (ex_device x) d"
  shows "exec_hands x (put_pool (pool, d) x)"
  using hand_over_pool [OF assms] by (simp add: exec_hands_def put_pool_def allocator_ok_def allocator_owned_def)

lemma put_transients_hands:
  assumes "transient_ok (al_transient (ex_alloc x)) \<Longrightarrow>
     transient_ok tr \<and> hand_over (transient_owned (al_transient (ex_alloc x))) (transient_owned tr) (ex_device x) d"
  shows "exec_hands x (put_transients (tr, d) x)"
  unfolding exec_hands_def
proof
  assume "allocator_ok (ex_alloc x)"
  then have "transient_ok tr" "hand_over (transient_owned (al_transient (ex_alloc x))) (transient_owned tr) (ex_device x) d"
    using assms by (simp_all add: allocator_ok_def)
  then show "allocator_ok (ex_alloc (put_transients (tr, d) x)) \<and>
      hand_over (allocator_owned (ex_alloc x)) (allocator_owned (ex_alloc (put_transients (tr, d) x))) (ex_device x)
        (ex_device (put_transients (tr, d) x))"
    using hand_over_transients by (simp add: put_transients_def allocator_ok_def allocator_owned_def)
qed

lemma put_simps [simp]:
  "ex_alloc (put_nodes rs x) = ex_alloc x" "ex_device (put_nodes rs x) = ex_device x"
  "ex_graph (put_pool pd x) = ex_graph x" "ex_graph (put_transients td x) = ex_graph x"
  "g_state (ex_graph (put_nodes rs x)) = g_state (ex_graph x)"
  "g_nodes (ex_graph (put_nodes rs x)) = rs" "g_slots (ex_graph (put_nodes rs x)) = g_slots (ex_graph x)"
  "pool_state (put_nodes rs x) = pool_state x" "transient_state (put_nodes rs x) = transient_state x"
  "transient_state (put_transients td x) = td" "pool_state (put_pool pd x) = pd"
  by (simp_all add: put_nodes_def put_pool_def put_transients_def pool_state_def transient_state_def)

lemma put_nodes_hands: "exec_hands x (put_nodes rs x)"
  by (rule exec_hands_same) simp_all

lemma stop_on_hands: "exec_hands x y \<Longrightarrow> exec_hands x (stop_on e y)"
  using exec_hands_trans [OF _ exec_hands_same, of x y "stop_on e y"]
  by (cases e) (simp_all add: stop_on_def fail_realize_def)

subsection \<open>The persistent loops\<close>

lemma upd_entry_owned:
  "(\<And>e. entry_owned (f e) = entry_owned e) \<Longrightarrow> persistent_owned (upd_entry rid f pool) = persistent_owned pool"
proof -
  assume f: "\<And>e. entry_owned (f e) = entry_owned e"
  have "map entry_owned (upd_first P f es) = map entry_owned es" for P es by (induction es) (auto simp: f)
  then show ?thesis by (simp add: persistent_owned_def upd_entry_def entries_owned_def)
qed

lemma touch_node_hands:
  assumes "touch_node r (pool, d) = (pool', d')"
  shows "hand_over (persistent_owned pool) (persistent_owned pool') d d'"
proof (cases "\<not> rn_persistent r \<or> \<not> pool_used r")
  case False
  obtain pool1 d1 where t: "touch (rn_id r) (if rn_history r then kLayers else 1) (rn_history_hash r) (rn_kind r) (pool, d) = (pool1, d1)"
    by fastforce
  have "persistent_owned pool' = persistent_owned pool1" "d' = d1"
    using assms False t upd_entry_owned by (auto simp: touch_node_def entry_owned_def split: if_splits)
  then show ?thesis using touch_hands [OF t] by simp
qed (use assms in \<open>simp add: touch_node_def hand_over_refl\<close>)

lemma fold_touch_hands:
  "fold touch_node rs (pool, d) = (pool', d') \<Longrightarrow> hand_over (persistent_owned pool) (persistent_owned pool') d d'"
proof (induction rs arbitrary: pool d)
  case (Cons r rs)
  obtain pool1 d1 where t: "touch_node r (pool, d) = (pool1, d1)" by fastforce
  then show ?case using Cons touch_node_hands [OF t] hand_over_trans by fastforce
qed (simp add: hand_over_refl)

lemma realize_entry_hands:
  "realize_entry clock r e d = (e', d') \<Longrightarrow> hand_over (entry_owned e) (entry_owned e') d d'"
  unfolding realize_entry_def using realize_texture_hands realize_buffer_hands by (auto split: if_splits)

lemma realize_persistent_hands:
  assumes "realize_persistent r (pool, d) = Inr (r', pool', d')"
  shows "hand_over (persistent_owned pool) (persistent_owned pool') d d'"
proof (cases "\<not> rn_persistent r \<or> \<not> pool_used r")
  case False
  then obtain e where e: "pool_find (rn_id r) pool = Some e" using assms by (auto simp: realize_persistent_def split: option.splits)
  obtain e' d1 where r: "realize_entry (pp_clock pool) r e d = (e', d1)" by fastforce
  have "pool' = upd_entry (rn_id r) (\<lambda>_. e') pool" "d' = d1"
    using assms False e r by (auto simp: realize_persistent_def split: if_splits)
  then show ?thesis using upd_entry_hands [OF e realize_entry_hands [OF r]] by simp
qed (use assms in \<open>simp add: realize_persistent_def hand_over_refl\<close>)

lemma walk_hands:
  assumes "walk f xs (p, d) = (ys, (p', d'), e)" "ok p"
    "\<And>x p d y p' d'. f x (p, d) = Inr (y, p', d') \<Longrightarrow> ok p \<Longrightarrow> ok p' \<and> hand_over (owned p) (owned p') d d'"
  shows "ok p' \<and> hand_over (owned p) (owned p') d d'"
  using walk_state [OF assms(1), of "\<lambda>(q, c). ok q \<and> hand_over (owned p) (owned q) d c"] assms(2,3)
    hand_over_refl hand_over_trans by fast

lemma rz_touch_hands: "exec_hands x (rz_touch x)"
proof -
  obtain pool d where f: "fold touch_node (g_nodes (ex_graph x)) (pool_state x) = (pool, d)" by fastforce
  then have "fold touch_node (g_nodes (ex_graph x)) (al_pool (ex_alloc x), ex_device x) = (pool, d)" by (simp add: pool_state_def)
  then show ?thesis unfolding rz_touch_def f by (intro put_pool_hands fold_touch_hands)
qed

lemma rz_persistent_hands: "exec_hands x (rz_persistent x)"
proof -
  obtain rs st e where w0: "walk realize_persistent (g_nodes (ex_graph x)) (pool_state x) = (rs, st, e)"
    by (metis prod_cases3)
  obtain pool d where st: "st = (pool, d)" by (cases st)
  note w = w0 [unfolded st]
  have "hand_over (persistent_owned (al_pool (ex_alloc x))) (persistent_owned pool) (ex_device x) d"
    using walk_hands [of realize_persistent "g_nodes (ex_graph x)" "al_pool (ex_alloc x)" "ex_device x" rs pool d e "\<lambda>_. True"]
      w realize_persistent_hands by (auto simp: pool_state_def)
  then have "exec_hands (put_nodes rs x) (put_pool (pool, d) (put_nodes rs x))"
    by (intro put_pool_hands) simp
  then have "exec_hands x (put_pool (pool, d) (put_nodes rs x))"
    by (rule exec_hands_trans [OF put_nodes_hands])
  then show ?thesis unfolding rz_persistent_def w by (simp add: stop_on_hands)
qed

subsection \<open>The transient loops\<close>

definition transient_walk :: "('a \<Rightarrow> transient_pool \<times> device \<Rightarrow> realize_error + ('a \<times> transient_pool \<times> device)) \<Rightarrow> bool" where
  "transient_walk f \<longleftrightarrow>
     (\<forall>x p d y p' d'. f x (p, d) = Inr (y, p', d') \<longrightarrow> transient_ok p \<longrightarrow>
        transient_ok p' \<and> hand_over (transient_owned p) (transient_owned p') d d')"

lemma acquire_cases:
  "fst (snd (acquire_texture sig usage who (p, d))) = p' \<Longrightarrow> snd (snd (acquire_texture sig usage who (p, d))) = d' \<Longrightarrow>
     transient_ok p \<Longrightarrow> transient_ok p' \<and> hand_over (transient_owned p) (transient_owned p') d d'"
  "fst (snd (acquire_buffer sz busage who (p, d))) = p' \<Longrightarrow> snd (snd (acquire_buffer sz busage who (p, d))) = d' \<Longrightarrow>
     transient_ok p \<Longrightarrow> transient_ok p' \<and> hand_over (transient_owned p) (transient_owned p') d d'"
  using acquire_texture_hands [of sig usage who p d "fst (acquire_texture sig usage who (p, d))" p' d']
    acquire_buffer_hands [of sz busage who p d "fst (acquire_buffer sz busage who (p, d))" p' d'] by (auto simp: prod_eq_iff)

lemma realize_slot_walk: "transient_walk realize_slot"
  unfolding transient_walk_def
  by (auto simp: realize_slot_def split_beta Let_def acquire_cases prod_eq_iff split: if_splits)

lemma realize_texture_walk: "transient_walk (realize_texture b)"
  unfolding transient_walk_def
  by (auto simp: realize_texture_def split_beta Let_def acquire_cases hand_over_refl prod_eq_iff split: if_splits)

lemma realize_buffer_walk: "transient_walk realize_buffer"
  unfolding transient_walk_def
  by (auto simp: realize_buffer_def split_beta Let_def acquire_cases hand_over_refl prod_eq_iff split: if_splits)

lemma transient_walk_hands:
  assumes "transient_walk f" "walk f xs (transient_state x) = (ys, st, e)"
  shows "exec_hands x (put_transients st x)"
proof -
  obtain tr d where st: "st = (tr, d)" by (cases st)
  show ?thesis unfolding st
    by (rule put_transients_hands, rule walk_hands [of f xs _ _ ys _ _ e])
      (use assms in \<open>auto simp: transient_walk_def transient_state_def st\<close>)
qed

lemma rz_slots_hands: "exec_hands x (rz_slots x)"
proof -
  obtain phs st e where w: "walk realize_slot (enumerate 0 (g_slots (ex_graph x))) (transient_state x) = (phs, st, e)"
    by (metis prod_cases3)
  define y where "y = x\<lparr>ex_graph := (ex_graph x)\<lparr>g_slots := map snd phs\<rparr>\<rparr>"
  have s: "transient_state y = transient_state x" by (simp add: y_def transient_state_def)
  have "exec_hands y (put_transients st y)"
    by (rule transient_walk_hands [OF realize_slot_walk w [folded s]])
  then have "exec_hands x (put_transients st y)"
    using exec_hands_trans [OF exec_hands_same, of y x] by (simp add: y_def)
  then show ?thesis unfolding rz_slots_def w by (simp add: stop_on_hands y_def)
qed

lemma rz_textures_hands: "exec_hands x (rz_textures b x)"
proof -
  obtain rs st e where w: "walk (realize_texture b) (g_nodes (ex_graph x)) (transient_state x) = (rs, st, e)"
    by (metis prod_cases3)
  then have "walk (realize_texture b) (g_nodes (ex_graph x)) (transient_state (put_nodes rs x)) = (rs, st, e)" by simp
  then have "exec_hands (put_nodes rs x) (put_transients st (put_nodes rs x))"
    by (rule transient_walk_hands [OF realize_texture_walk])
  then show ?thesis unfolding rz_textures_def w by (simp add: stop_on_hands exec_hands_trans [OF put_nodes_hands])
qed

lemma rz_buffers_hands: "exec_hands x (rz_buffers x)"
proof -
  obtain rs st e where w: "walk realize_buffer (g_nodes (ex_graph x)) (transient_state x) = (rs, st, e)"
    by (metis prod_cases3)
  then have "walk (realize_buffer) (g_nodes (ex_graph x)) (transient_state (put_nodes rs x)) = (rs, st, e)" by simp
  then have "exec_hands (put_nodes rs x) (put_transients st (put_nodes rs x))"
    by (rule transient_walk_hands [OF realize_buffer_walk])
  then show ?thesis unfolding rz_buffers_def w by (simp add: stop_on_hands exec_hands_trans [OF put_nodes_hands])
qed

lemma unless_stopped_hands: "(\<And>x. exec_hands x (f x)) \<Longrightarrow> exec_hands x (unless_stopped f x)"
  by (simp add: unless_stopped_def exec_hands_refl)

lemma realize_hands: "exec_hands x (realize_graph b x)"
proof -
  define x0 where "x0 = x\<lparr>ex_alloc := (ex_alloc x)\<lparr>al_transient_feature := b\<rparr>\<rparr>"
  have "exec_hands x x0" by (rule exec_hands_same) (simp_all add: x0_def)
  then have 1: "exec_hands x (rz_persistent (rz_touch x0))"
    using exec_hands_trans rz_touch_hands rz_persistent_hands by blast
  have 2: "exec_hands y (rz_buffers (rz_textures b (rz_members y)))" for y
    unfolding rz_members_def using exec_hands_trans put_nodes_hands rz_textures_hands rz_buffers_hands by blast
  have 3: "exec_hands y (rz_subviews y)" for y by (rule exec_hands_same) (simp_all add: rz_subviews_def)
  have 4: "exec_hands y (fail_realize e y)" for e y by (rule exec_hands_same) (simp_all add: fail_realize_def)
  show ?thesis unfolding realize_graph_def x0_def [symmetric] Let_def
    using exec_hands_refl 4 exec_hands_trans [OF exec_hands_trans [OF exec_hands_trans [OF 1
        unless_stopped_hands [OF rz_slots_hands]] unless_stopped_hands [OF 2]] unless_stopped_hands [OF 3]]
    by simp
qed

lemma release_hands: "exec_hands x (release_resources x)"
  unfolding exec_hands_def release_resources_def allocator_ok_def allocator_owned_def
  using release_claims_hands hand_over_refl by simp

end
