(* ===== verification/Pass_Context.thy ===== *)
theory Pass_Context
  imports Realize_Owner Pass_Builder
begin

text \<open>
  \<open>PassContext\<close> of webgpu/base/RenderGraph.cpp: what the body of a pass gets for its
  handles. Views that are not whole textures come from the cache of the pooled texture, or live
  in the scratch list of the pass. A resolver that fails an assertion is an \<open>Inl\<close>; the
  growth of the scratch array in the arena is not modelled. \<open>webgpu::bind\<close> is the
  constructor of its result.
\<close>

text \<open>\<open>run\<close>: the state a pass body works on; \<open>ru_views\<close> is \<open>viewScratch\<close>.\<close>

record pass_run =
  ru_exec :: exec
  ru_views :: "gpu_ref list"

definition run_graph :: "pass_run \<Rightarrow> graph" where
  "run_graph u = ex_graph (ru_exec u)"

subsection \<open>Views\<close>

definition default_view_dim :: "res_node \<Rightarrow> u32 \<Rightarrow> view_dimension" where
  "default_view_dim r layerCount =
     (if rn_dimension r = TD_3D then VD_3D else if layerCount > 1 then VD_2DArray else VD_2D)"

definition view_signature_for :: "res_node \<Rightarrow> access \<Rightarrow> view_key" where
  "view_signature_for r a =
     (let layerCount = ucast (ac_layer_count a);
          dim = (if ac_view_dim a = VD_Undefined then default_view_dim r layerCount else ac_view_dim a)
      in \<lparr>vk_format = rn_format r, vk_dim = dim, vk_aspect = ac_view_aspect a, vk_base_mip = ucast (ac_base_mip a),
          vk_mip_count = ucast (ac_mip_count a), vk_base_layer = ucast (ac_base_layer a), vk_layer_count = layerCount\<rparr>)"

definition is_full_view :: "res_node \<Rightarrow> view_key \<Rightarrow> bool" where
  "is_full_view r k \<longleftrightarrow>
     vk_base_mip k = 0 \<and> vk_mip_count k = rn_mips r \<and> vk_base_layer k = 0 \<and> vk_layer_count k = node_layers r \<and>
     vk_aspect k = TA_All \<and> vk_format k = rn_format r \<and> vk_dim k = default_view_dim r (node_layers r)"

text \<open>The subview list behind \<open>r->subviews\<close>.\<close>

definition get_subviews :: "allocator \<Rightarrow> subview_loc \<Rightarrow> subviews" where
  "get_subviews al loc =
     (case loc of
        In_Transient i \<Rightarrow> te_subviews (tr_entries (al_transient al) ! i)
      | In_Persistent i j \<Rightarrow> lo_subviews (pe_objects (pp_entries (al_pool al) ! i) ! j))"

definition put_subviews :: "subview_loc \<Rightarrow> subviews \<Rightarrow> allocator \<Rightarrow> allocator" where
  "put_subviews loc vs al =
     (case loc of
        In_Transient i \<Rightarrow>
          let es = tr_entries (al_transient al)
          in al\<lparr>al_transient := (al_transient al)\<lparr>tr_entries := es[i := (es ! i)\<lparr>te_subviews := vs\<rparr>]\<rparr>\<rparr>
      | In_Persistent i j \<Rightarrow>
          let es = pp_entries (al_pool al); ls = pe_objects (es ! i)
          in al\<lparr>al_pool := (al_pool al)\<lparr>pp_entries := es[i := (es ! i)\<lparr>pe_objects := ls[j := (ls ! j)\<lparr>lo_subviews := vs\<rparr>]\<rparr>]\<rparr>\<rparr>)"

definition resolve_view :: "res_node \<Rightarrow> view_key \<Rightarrow> pass_run \<Rightarrow> (gpu_ref \<times> pass_run) checked" where
  "resolve_view r key u =
     (let x = ru_exec u in
      if rn_texture r = None then
        require (vk_base_mip key = 0 \<and> vk_base_layer key = 0)
          ''subresource selection on an imported texture is ignored (caller owns the view)''
       (require (vk_aspect key = TA_All \<and> vk_format key = rn_format r)
          ''aspect/format reinterpretation on an imported texture is ignored (caller owns the view)''
          (Inr (rn_view r, u)))
      else if is_full_view r key then Inr (rn_view r, u)
      else
        case ex_subviews x (h_id (rn_handle r)) of
          Some loc \<Rightarrow>
            let (v, vs, d) = subview_for (get_subviews (ex_alloc x) loc) key (ex_device x)
            in Inr (v, u\<lparr>ru_exec := x\<lparr>ex_alloc := put_subviews loc vs (ex_alloc x), ex_device := d\<rparr>\<rparr>)
        | None \<Rightarrow>
            let (v, d) = create_object (ex_device x)
            in Inr (Some v, u\<lparr>ru_exec := x\<lparr>ex_device := d\<rparr>, ru_views := ru_views u @ [Some v]\<rparr>))"

subsection \<open>Declarations of the pass\<close>

definition accesses_to :: "pass_node \<Rightarrow> handle \<Rightarrow> access list" where
  "accesses_to p h = filter (\<lambda>a. h_id (ac_handle a) = h_id h) (pn_accesses p)"

definition find_pass_access :: "pass_node \<Rightarrow> handle \<Rightarrow> access option" where
  "find_pass_access p h = find (\<lambda>a. h_id (ac_handle a) = h_id h) (pn_accesses p)"

definition find_copy_access :: "pass_node \<Rightarrow> handle \<Rightarrow> bool \<Rightarrow> string \<Rightarrow> access checked" where
  "find_copy_access p h wantDst who =
     (let as = filter (\<lambda>a. ac_type a = (if wantDst then CopyDst else CopySrc)) (accesses_to p h) in
      require (length as \<le> 1) ''ctx: two copy declarations pair the same handle+direction in this pass; ambiguous subresource''
       (case as of [] \<Rightarrow> Inl (Assert who) | a # _ \<Rightarrow> Inr a))"

text \<open>Each bind must give the same range as the one before it; the last one is the result.\<close>

fun scan_binds :: "access option \<Rightarrow> access list \<Rightarrow> access option checked" where
  "scan_binds found [] = Inr found"
| "scan_binds found (a # as) =
     require (case found of None \<Rightarrow> True | Some f \<Rightarrow> ac_buf_offset f = ac_buf_offset a \<and> ac_buf_size f = ac_buf_size a)
       ''ctx.bind: two bind declarations give the same buffer different ranges in this pass; ambiguous bind''
       (scan_binds (Some a) as)"

definition find_bind_access :: "pass_node \<Rightarrow> handle \<Rightarrow> access option checked" where
  "find_bind_access p h = scan_binds None (filter (\<lambda>a. is_bind_access (ac_type a)) (accesses_to p h))"

definition node_for :: "graph \<Rightarrow> handle \<Rightarrow> resource_kind \<Rightarrow> res_node checked" where
  "node_for g h kind =
     require (h_id h \<noteq> 0) ''h.id != 0''
    (require (h_kind h = kind) ''ctx: handle kind disagrees with the resolver; a handle was converted across kinds''
      (and_then (find_node_checked g h) (\<lambda>r.
         case r of None \<Rightarrow> Inl (Assert ''failed to find node! Handle is 0 or from another graph'') | Some r \<Rightarrow> Inr r)))"

subsection \<open>Textures\<close>

text \<open>A read decides the view, else the last write; no access at all is the whole view.\<close>

definition view_access :: "pass_node \<Rightarrow> handle \<Rightarrow> access option checked" where
  "view_access p h =
     (let as = accesses_to p h; rd = filter (\<lambda>a. \<not> access_is_write (ac_type a)) as;
          wr = filter (\<lambda>a. access_is_write (ac_type a)) as in
      require (length rd \<le> 1) ''ctx.view: two reads of one handle in a pass; ambiguous subresource; use ctx.texture''
       (Inr (case rd of a # _ \<Rightarrow> Some a | [] \<Rightarrow> (if wr = [] then None else Some (last wr)))))"

definition ctx_view :: "pass_node \<Rightarrow> handle \<Rightarrow> pass_run \<Rightarrow> (gpu_ref \<times> pass_run) checked" where
  "ctx_view p h u =
     and_then (node_for (run_graph u) h RK_Texture) (\<lambda>r.
       require (find_pass_access p h \<noteq> None) ''ctx.view: resource not declared as an access in this pass's setup''
        (if rn_texture r = None then Inr (rn_view r, u)
         else and_then (view_access p h) (\<lambda>acc.
           case acc of None \<Rightarrow> Inr (rn_view r, u) | Some a \<Rightarrow> resolve_view r (view_signature_for r a) u)))"

definition subres_declared :: "pass_node \<Rightarrow> handle \<Rightarrow> u32 \<Rightarrow> u32 \<Rightarrow> bool" where
  "subres_declared p h mip layer \<longleftrightarrow>
     list_ex (\<lambda>a. mip \<ge> ucast (ac_base_mip a) \<and> mip < ucast (ac_base_mip a) + ucast (ac_mip_count a) \<and>
                  layer \<ge> ucast (ac_base_layer a) \<and> layer < ucast (ac_base_layer a) + ucast (ac_layer_count a))
       (accesses_to p h)"

definition single_view_key :: "res_node \<Rightarrow> u32 \<Rightarrow> u32 \<Rightarrow> view_key" where
  "single_view_key r mip layer =
     \<lparr>vk_format = rn_format r, vk_dim = default_view_dim r 1, vk_aspect = TA_All, vk_base_mip = mip,
      vk_mip_count = 1, vk_base_layer = layer, vk_layer_count = 1\<rparr>"

definition ctx_view_at :: "pass_node \<Rightarrow> handle \<Rightarrow> u32 \<Rightarrow> u32 \<Rightarrow> pass_run \<Rightarrow> (gpu_ref \<times> pass_run) checked" where
  "ctx_view_at p h mip layer u =
     and_then (node_for (run_graph u) h RK_Texture) (\<lambda>r.
       require (find_pass_access p h \<noteq> None) ''ctx.view: resource not declared as an access in this pass's setup''
        (if rn_texture r = None then
           require (mip = 0 \<and> layer = 0) ''subresource selection on an imported texture is ignored (caller owns the view)''
             (Inr (rn_view r, u))
         else
           require (mip < rn_mips r) ''ctx.view: mip past the texture's mip count''
          (require (layer < node_layers r) ''ctx.view: layer past the texture's layer count''
          (require (subres_declared p h mip layer) ''ctx.view: mip/layer outside every range this pass declared on the resource''
             (resolve_view r (single_view_key r mip layer) u)))))"

definition ctx_texture :: "graph \<Rightarrow> pass_node \<Rightarrow> handle \<Rightarrow> gpu_ref checked" where
  "ctx_texture g p h =
     and_then (node_for g h RK_Texture) (\<lambda>r.
       require (find_pass_access p h \<noteq> None) ''ctx.texture: resource not declared as an access in this pass's setup''
         (Inr (rn_texture r)))"

definition ctx_texture_size :: "graph \<Rightarrow> handle \<Rightarrow> extent3d checked" where
  "ctx_texture_size g h = and_then (node_for g h RK_Texture) (\<lambda>r. Inr (rn_resolved r))"

definition ctx_texture_size_at :: "graph \<Rightarrow> handle \<Rightarrow> u32 \<Rightarrow> extent3d checked" where
  "ctx_texture_size_at g h mip =
     and_then (node_for g h RK_Texture) (\<lambda>r.
       require (mip < (if rn_mips r \<noteq> 0 then rn_mips r else 1)) ''ctx.texture_size: mip past the texture's mip count''
         (let d = (if ext_depth (rn_resolved r) \<noteq> 0 then ext_depth (rn_resolved r) else 1);
              d' = (if rn_dimension r = TD_3D then mip_dim d mip else d)
          in Inr (mk_extent (mip_dim (ext_width (rn_resolved r)) mip) (mip_dim (ext_height (rn_resolved r)) mip) d')))"

definition ctx_format :: "graph \<Rightarrow> handle \<Rightarrow> texture_format checked" where
  "ctx_format g h =
     and_then (node_for g h RK_Texture) (\<lambda>r.
       require (rn_format r \<noteq> TF_Undefined) ''ctx.format: imported texture without a format; pass it to import_texture''
         (Inr (rn_format r)))"

definition ctx_mip_count :: "graph \<Rightarrow> handle \<Rightarrow> u32 checked" where
  "ctx_mip_count g h =
     and_then (node_for g h RK_Texture) (\<lambda>r. require (rn_mips r \<noteq> 0) ''ctx.mip_count: mip count is 0'' (Inr (rn_mips r)))"

definition ctx_sample_count :: "graph \<Rightarrow> handle \<Rightarrow> u32 checked" where
  "ctx_sample_count g h =
     and_then (node_for g h RK_Texture) (\<lambda>r. require (rn_samples r \<noteq> 0) ''ctx.sample_count: sample count is 0'' (Inr (rn_samples r)))"

definition ctx_history_valid :: "graph \<Rightarrow> handle \<Rightarrow> bool checked" where
  "ctx_history_valid g h =
     and_then (find_node_checked g h) (\<lambda>r.
       case r of
         None \<Rightarrow> Inl (Assert ''ctx: failed to find node! Handle is 0 or from another graph'')
       | Some r \<Rightarrow> require (rn_persistent r) ''ctx: can only be called on persistent resources'' (Inr (rn_history_valid r)))"

subsection \<open>Buffers and bind group entries\<close>

definition ctx_buffer :: "graph \<Rightarrow> pass_node \<Rightarrow> handle \<Rightarrow> gpu_ref checked" where
  "ctx_buffer g p h =
     and_then (node_for g h RK_Buffer) (\<lambda>r.
       require (find_pass_access p h \<noteq> None) ''ctx.buffer: resource not declared as an access in this pass's setup''
      (require (rn_buffer r \<noteq> None) ''ctx.buffer(): resource declared but never realized (no live writer)''
         (Inr (rn_buffer r))))"

definition ctx_buffer_size :: "graph \<Rightarrow> handle \<Rightarrow> u64 checked" where
  "ctx_buffer_size g h = and_then (node_for g h RK_Buffer) (\<lambda>r. Inr (rn_buffer_size r))"

datatype bind_entry = Bind_View u32 gpu_ref | Bind_Buffer u32 gpu_ref u64 u64

definition ctx_bind :: "u32 \<Rightarrow> pass_node \<Rightarrow> handle \<Rightarrow> pass_run \<Rightarrow> (bind_entry \<times> pass_run) checked" where
  "ctx_bind binding p h u =
     (if h_kind h = RK_Texture then and_then (ctx_view p h u) (\<lambda>(v, u'). Inr (Bind_View binding v, u'))
      else
        and_then (node_for (run_graph u) h RK_Buffer) (\<lambda>r.
        and_then (find_bind_access p h) (\<lambda>acc.
        and_then (ctx_buffer (run_graph u) p h) (\<lambda>b.
          case acc of
            Some a \<Rightarrow>
              if ac_buf_size a \<noteq> 0 then Inr (Bind_Buffer binding b (ac_buf_offset a) (ac_buf_size a), u)
              else Inr (Bind_Buffer binding b 0 (rn_buffer_size r), u)
          | None \<Rightarrow> Inr (Bind_Buffer binding b 0 (rn_buffer_size r), u)))))"

definition ctx_bind_at :: "u32 \<Rightarrow> pass_node \<Rightarrow> handle \<Rightarrow> u32 \<Rightarrow> u32 \<Rightarrow> pass_run \<Rightarrow> (bind_entry \<times> pass_run) checked" where
  "ctx_bind_at binding p h mip layer u = and_then (ctx_view_at p h mip layer u) (\<lambda>(v, u'). Inr (Bind_View binding v, u'))"

subsection \<open>Copies\<close>

definition copy_extent_for :: "graph \<Rightarrow> pass_node \<Rightarrow> handle \<Rightarrow> bool \<Rightarrow> extent3d checked" where
  "copy_extent_for g p h wantDst =
     and_then (node_for g h RK_Texture) (\<lambda>r.
     and_then (find_copy_access p h wantDst ''copy_extent: no matching copy declared with this handle in this pass'') (\<lambda>a.
       let mip = ucast (ac_base_mip a);
           depth = (if rn_dimension r = TD_3D then mip_dim (ext_depth (rn_resolved r)) mip else ucast (ac_layer_count a))
       in Inr (mk_extent (mip_dim (ext_width (rn_resolved r)) mip) (mip_dim (ext_height (rn_resolved r)) mip) depth)))"

record buffer_copy =
  bc_src :: gpu_ref
  bc_src_offset :: u64
  bc_dst :: gpu_ref
  bc_dst_offset :: u64
  bc_size :: u64

definition buffer_copy_info :: "graph \<Rightarrow> pass_node \<Rightarrow> handle \<Rightarrow> handle \<Rightarrow> buffer_copy checked" where
  "buffer_copy_info g p src dst =
     require (h_id src \<noteq> 0 \<and> h_id dst \<noteq> 0) ''src.id != 0 && dst.id != 0''
    (require (h_kind src = RK_Buffer \<and> h_kind dst = RK_Buffer) ''buffer_copy_info: both handles must be buffers''
      (and_then (find_copy_access p src False ''buffer_copy_info: no copy_buffer() with this handle as src declared in this pass'') (\<lambda>sa.
       and_then (find_copy_access p dst True ''buffer_copy_info: no copy_buffer() with this handle as dst declared in this pass'') (\<lambda>da.
       and_then (find_node_checked g src) (\<lambda>sn.
       and_then (find_node_checked g dst) (\<lambda>dn.
         case (sn, dn) of
           (Some s, Some t) \<Rightarrow>
             require (rn_buffer s \<noteq> None \<and> rn_buffer t \<noteq> None) ''buffer_copy_info: buffer declared but never realized''
               (Inr \<lparr>bc_src = rn_buffer s, bc_src_offset = ac_buf_offset sa, bc_dst = rn_buffer t,
                     bc_dst_offset = ac_buf_offset da, bc_size = ac_buf_size sa\<rparr>)
         | _ \<Rightarrow> Inl (Assert ''buffer_copy_info: handle is 0 or from another graph'')))))))"

record origin3d =
  or_x :: u32
  or_y :: u32
  or_z :: u32

record texel_copy_texture =
  tc_texture :: gpu_ref
  tc_mip :: u32
  tc_origin :: origin3d
  tc_aspect :: texture_aspect

definition copy_texture_info ::
  "graph \<Rightarrow> pass_node \<Rightarrow> handle \<Rightarrow> bool \<Rightarrow> origin3d \<Rightarrow> texture_aspect \<Rightarrow> texel_copy_texture checked" where
  "copy_texture_info g p h wantDst origin asp =
     and_then (node_for g h RK_Texture) (\<lambda>r.
       require (rn_texture r \<noteq> None) ''copy_*_info: imported texture has no backing WGPUTexture''
        (and_then (find_copy_access p h wantDst
            (if wantDst then ''copy_dst_info: no copy with this handle as dst declared in this pass''
             else ''copy_src_info: no copy with this handle as src declared in this pass'')) (\<lambda>a.
          Inr \<lparr>tc_texture = rn_texture r, tc_mip = ucast (ac_base_mip a),
               tc_origin = origin\<lparr>or_z := or_z origin + ucast (ac_base_layer a)\<rparr>, tc_aspect = asp\<rparr>)))"

text \<open>The buffer side of a copy; the layout the caller passes is not looked at.\<close>

definition copy_buffer_side :: "graph \<Rightarrow> pass_node \<Rightarrow> handle \<Rightarrow> bool \<Rightarrow> 'l \<Rightarrow> ('l \<times> gpu_ref) checked" where
  "copy_buffer_side g p h wantDst layout =
     require (h_id h \<noteq> 0) ''h.id != 0''
    (require (h_kind h = RK_Buffer) ''h.kind == ResourceKind::Buffer''
      (and_then (find_copy_access p h wantDst
          (if wantDst then ''copy_dst_buffer: no copy with this handle as dst declared in this pass''
           else ''copy_src_buffer: no copy with this handle as src declared in this pass'')) (\<lambda>_.
       and_then (ctx_buffer g p h) (\<lambda>b. Inr (layout, b)))))"

end
