(* ===== verification/Execute.thy ===== *)
theory Execute
  imports Pass_Context
begin

text \<open>
  \<open>RenderGraph::execute\<close> of webgpu/base/RenderGraph.cpp: realize, then every pass in schedule
  order, then the query read-back and the release. The command encoder is the list of commands
  recorded on it. The body of a pass is an argument: the list of resolver calls it makes on its
  context; what it encodes besides is the single command \<open>Body\<close>. Transfer passes are not
  timed, as without \<open>RG_TIME_TRANSFER_PASSES\<close>.
\<close>

subsection \<open>What is encoded\<close>

record color_target =
  ct_view :: gpu_ref
  ct_resolve :: gpu_ref
  ct_load :: load_op
  ct_store :: store_op
  ct_clear :: color

record depth_target =
  dt_view :: gpu_ref
  dt_load :: load_op
  dt_store :: store_op
  dt_clear :: f32
  dt_read_only :: bool
  dt_stencil_load :: load_op
  dt_stencil_store :: store_op
  dt_stencil_clear :: u8

record targets =
  tg_colors :: "color_target list"
  tg_max :: nat
  tg_any :: bool
  tg_depth :: "depth_target option"

datatype encoder_cmd =
    Push_Group string
  | Pop_Group
  | Begin_Compute string "nat option" \<comment> \<open>label and timestamp pair\<close>
  | End_Compute
  | Begin_Render string targets "nat option"
  | End_Render
  | Body nat \<comment> \<open>declaration index of the pass\<close>
  | Resolve_Queries nat
  | Copy_Queries nat nat \<comment> \<open>ring slot and count\<close>

subsection \<open>Pass bodies\<close>

datatype ctx_call =
    Call_View handle
  | Call_View_At handle u32 u32
  | Call_Bind u32 handle
  | Call_Bind_At u32 handle u32 u32
  | Call_Texture handle
  | Call_Buffer handle
  | Call_Texture_Size handle
  | Call_Texture_Size_At handle u32
  | Call_Format handle
  | Call_Mip_Count handle
  | Call_Sample_Count handle
  | Call_Buffer_Size handle
  | Call_History_Valid handle
  | Call_Copy_Extent handle bool
  | Call_Buffer_Copy handle handle
  | Call_Copy_Texture handle bool origin3d texture_aspect
  | Call_Copy_Buffer handle bool

definition same_run :: "pass_run \<Rightarrow> 'a checked \<Rightarrow> pass_run checked" where
  "same_run u r = and_then r (\<lambda>_. Inr u)"

fun run_call :: "pass_node \<Rightarrow> ctx_call \<Rightarrow> pass_run \<Rightarrow> pass_run checked" where
  "run_call p (Call_View h) u = and_then (ctx_view p h u) (\<lambda>(_, u'). Inr u')"
| "run_call p (Call_View_At h m l) u = and_then (ctx_view_at p h m l u) (\<lambda>(_, u'). Inr u')"
| "run_call p (Call_Bind b h) u = and_then (ctx_bind b p h u) (\<lambda>(_, u'). Inr u')"
| "run_call p (Call_Bind_At b h m l) u = and_then (ctx_bind_at b p h m l u) (\<lambda>(_, u'). Inr u')"
| "run_call p (Call_Texture h) u = same_run u (ctx_texture (run_graph u) p h)"
| "run_call p (Call_Buffer h) u = same_run u (ctx_buffer (run_graph u) p h)"
| "run_call p (Call_Texture_Size h) u = same_run u (ctx_texture_size (run_graph u) h)"
| "run_call p (Call_Texture_Size_At h m) u = same_run u (ctx_texture_size_at (run_graph u) h m)"
| "run_call p (Call_Format h) u = same_run u (ctx_format (run_graph u) h)"
| "run_call p (Call_Mip_Count h) u = same_run u (ctx_mip_count (run_graph u) h)"
| "run_call p (Call_Sample_Count h) u = same_run u (ctx_sample_count (run_graph u) h)"
| "run_call p (Call_Buffer_Size h) u = same_run u (ctx_buffer_size (run_graph u) h)"
| "run_call p (Call_History_Valid h) u = same_run u (ctx_history_valid (run_graph u) h)"
| "run_call p (Call_Copy_Extent h d) u = same_run u (copy_extent_for (run_graph u) p h d)"
| "run_call p (Call_Buffer_Copy s d) u = same_run u (buffer_copy_info (run_graph u) p s d)"
| "run_call p (Call_Copy_Texture h d o3 asp) u = same_run u (copy_texture_info (run_graph u) p h d o3 asp)"
| "run_call p (Call_Copy_Buffer h d) u = same_run u (copy_buffer_side (run_graph u) p h d ())"

fun run_body :: "pass_node \<Rightarrow> ctx_call list \<Rightarrow> pass_run \<Rightarrow> pass_run checked" where
  "run_body p [] u = Inr u"
| "run_body p (c # cs) u = and_then (run_call p c u) (run_body p cs)"

subsection \<open>Attachments\<close>

definition null_target :: color_target where
  "null_target = \<lparr>ct_view = None, ct_resolve = None, ct_load = LO_Undefined, ct_store = SO_Undefined, ct_clear = mk_color 0 0 0 0\<rparr>"

definition no_targets :: targets where
  "no_targets = \<lparr>tg_colors = replicate kMaxColorAttachments null_target, tg_max = 0, tg_any = False, tg_depth = None\<rparr>"

definition attach_view :: "res_node \<Rightarrow> access \<Rightarrow> pass_run \<Rightarrow> (gpu_ref \<times> pass_run) checked" where
  "attach_view r a u =
     require (ucast (ac_base_mip a) < rn_mips r) ''attachment baseMip past the texture's mip count''
    (require (rn_texture r = None \<or> ucast (ac_base_layer a) < node_layers r) ''attachment baseLayer past the texture's layer count''
      (resolve_view r (view_signature_for r a) u))"

definition set_color :: "access \<Rightarrow> gpu_ref \<Rightarrow> targets \<Rightarrow> targets" where
  "set_color a v t =
     (let i = unat (ac_color_index a) in
      t\<lparr>tg_colors := (tg_colors t)[i := \<lparr>ct_view = v, ct_resolve = None, ct_load = ac_load a, ct_store = ac_store a,
                                       ct_clear = ac_clear_color a\<rparr>],
        tg_max := (if \<not> tg_any t \<or> i > tg_max t then i else tg_max t), tg_any := True\<rparr>)"

definition set_resolve :: "access \<Rightarrow> gpu_ref \<Rightarrow> targets \<Rightarrow> targets" where
  "set_resolve a v t =
     (let i = unat (ac_color_index a) in t\<lparr>tg_colors := (tg_colors t)[i := (tg_colors t ! i)\<lparr>ct_resolve := v\<rparr>]\<rparr>)"

definition set_depth :: "access \<Rightarrow> gpu_ref \<Rightarrow> targets \<Rightarrow> targets" where
  "set_depth a v t =
     t\<lparr>tg_depth := Some \<lparr>dt_view = v, dt_load = ac_load a, dt_store = ac_store a, dt_clear = ac_clear_depth a,
         dt_read_only = (ac_type a = DepthStencilReadOnly), dt_stencil_load = ac_stencil_load a,
         dt_stencil_store = ac_stencil_store a, dt_stencil_clear = ac_stencil_clear a\<rparr>\<rparr>"

definition gather_target :: "access \<Rightarrow> targets \<times> pass_run \<Rightarrow> (targets \<times> pass_run) checked" where
  "gather_target a tu =
     (case tu of (t, u) \<Rightarrow>
      and_then (find_node_checked (run_graph u) (ac_handle a)) (\<lambda>r.
        case r of
          None \<Rightarrow> Inl (Assert ''null node'')
        | Some r \<Rightarrow>
            if ac_type a = ColorAttachment \<and> unat (ac_color_index a) < kMaxColorAttachments then
              and_then (attach_view r a u) (\<lambda>(v, u'). Inr (set_color a v t, u'))
            else if ac_type a = ResolveAttachment \<and> unat (ac_color_index a) < kMaxColorAttachments then
              and_then (attach_view r a u) (\<lambda>(v, u'). Inr (set_resolve a v t, u'))
            else if ac_type a = DepthStencilAttachment \<or> ac_type a = DepthStencilReadOnly then
              and_then (attach_view r a u) (\<lambda>(v, u'). Inr (set_depth a v t, u'))
            else Inr (t, u)))"

fun gather_targets :: "access list \<Rightarrow> targets \<times> pass_run \<Rightarrow> (targets \<times> pass_run) checked" where
  "gather_targets [] tu = Inr tu"
| "gather_targets (a # as) tu = and_then (gather_target a tu) (gather_targets as)"

subsection \<open>One pass\<close>

text \<open>The locals of \<open>execute\<close>: \<open>openGroup\<close>, \<open>slotIdx\<close> (none: not profiling), \<open>pi\<close>.\<close>

record frame_run =
  fr_run :: pass_run
  fr_commands :: "encoder_cmd list"
  fr_group :: string
  fr_slot :: "nat option"
  fr_pairs :: nat

definition emit :: "encoder_cmd list \<Rightarrow> frame_run \<Rightarrow> frame_run" where
  "emit cs f = f\<lparr>fr_commands := fr_commands f @ cs\<rparr>"

definition switch_group :: "string \<Rightarrow> frame_run \<Rightarrow> frame_run" where
  "switch_group grp f =
     (if grp = fr_group f then f
      else (emit ((if fr_group f \<noteq> [] then [Pop_Group] else []) @ (if grp \<noteq> [] then [Push_Group grp] else [])) f)\<lparr>fr_group := grp\<rparr>)"

fun stamp_bakes :: "(handle \<times> u64) list \<Rightarrow> exec \<Rightarrow> exec checked" where
  "stamp_bakes [] x = Inr x"
| "stamp_bakes (t # ts) x =
     and_then (find_node_checked (ex_graph x) (fst t)) (\<lambda>r.
       case r of
         None \<Rightarrow> stamp_bakes ts x
       | Some r \<Rightarrow>
           stamp_bakes ts (x\<lparr>ex_alloc := (ex_alloc x)\<lparr>al_pool :=
             upd_entry (rn_id r) (\<lambda>e. e\<lparr>pe_init_hash := snd t, pe_baked := True\<rparr>) (al_pool (ex_alloc x))\<rparr>\<rparr>))"

definition bake_targets :: "pass_node \<Rightarrow> (handle \<times> u64) list" where
  "bake_targets p = (if pn_has_exec p then pn_init_targets p else [])"

definition time_this :: "pass_node \<Rightarrow> frame_run \<Rightarrow> bool" where
  "time_this p f \<longleftrightarrow> fr_slot f \<noteq> None \<and> pn_has_exec p \<and> fr_pairs f < kMaxPasses \<and> pn_kind p \<noteq> PK_Transfer"

definition pair_of :: "pass_node \<Rightarrow> frame_run \<Rightarrow> nat option" where
  "pair_of p f = (if time_this p f then Some (fr_pairs f) else None)"

definition note_timing :: "pass_node \<Rightarrow> frame_run \<Rightarrow> frame_run" where
  "note_timing p f =
     (if time_this p f then
        let u = fr_run f; x = ru_exec u; al = ex_alloc x
        in f\<lparr>fr_run := u\<lparr>ru_exec := x\<lparr>ex_alloc := al\<lparr>al_profiler :=
               name_query (the (fr_slot f)) (fr_pairs f) (rid_data (pn_id p), rid_chars (pn_id p)) (al_profiler al)\<rparr>\<rparr>\<rparr>\<rparr>
      else f)"

definition call_body :: "(pass_node \<Rightarrow> ctx_call list) \<Rightarrow> pass_node \<Rightarrow> pass_run \<Rightarrow> pass_run checked" where
  "call_body bodies p u = (if pn_has_exec p then run_body p (bodies p) u else Inr u)"

definition body_cmd :: "pass_node \<Rightarrow> encoder_cmd list" where
  "body_cmd p = (if pn_has_exec p then [Body (pn_index p)] else [])"

definition encode_pass :: "(pass_node \<Rightarrow> ctx_call list) \<Rightarrow> pass_node \<Rightarrow> nat option \<Rightarrow> pass_run \<Rightarrow> (encoder_cmd list \<times> pass_run) checked" where
  "encode_pass bodies p pair u =
     (if pn_kind p = PK_Compute \<and> pn_has_exec p then
        and_then (call_body bodies p u) (\<lambda>u'.
          Inr (Begin_Compute (pass_name p) pair # body_cmd p @ [End_Compute], u'))
      else if pn_kind p = PK_Graphics then
        and_then (gather_targets (pn_accesses p) (no_targets, u)) (\<lambda>(t, u1).
        and_then (call_body bodies p u1) (\<lambda>u2.
          Inr (Begin_Render (pass_name p) t pair # body_cmd p @ [End_Render], u2)))
      else and_then (call_body bodies p u) (\<lambda>u'. Inr (body_cmd p, u')))"

definition release_views :: "pass_run \<Rightarrow> pass_run" where
  "release_views u =
     u\<lparr>ru_exec := (ru_exec u)\<lparr>ex_device := fold release_ref (ru_views u) (ex_device (ru_exec u))\<rparr>\<rparr>"

definition execute_pass :: "(pass_node \<Rightarrow> ctx_call list) \<Rightarrow> pass_node \<Rightarrow> frame_run \<Rightarrow> frame_run checked" where
  "execute_pass bodies p f =
     require (pn_kind p \<noteq> PK_None) ''a pass of kind None is not allowed''
      (let f1 = switch_group (group_prefix (rid_chars (pn_id p))) f in
       and_then (stamp_bakes (bake_targets p) (ru_exec (fr_run f1))) (\<lambda>x.
         let f2 = note_timing p (f1\<lparr>fr_run := \<lparr>ru_exec = x, ru_views = []\<rparr>\<rparr>) in
         and_then (encode_pass bodies p (pair_of p f2) (fr_run f2)) (\<lambda>(cs, u).
           Inr ((emit cs f2)\<lparr>fr_run := release_views u,
                             fr_pairs := (if time_this p f2 then fr_pairs f2 + 1 else fr_pairs f2)\<rparr>))))"

fun execute_passes :: "(pass_node \<Rightarrow> ctx_call list) \<Rightarrow> pass_node list \<Rightarrow> frame_run \<Rightarrow> frame_run checked" where
  "execute_passes bodies [] f = Inr f"
| "execute_passes bodies (p # ps) f = and_then (execute_pass bodies p f) (execute_passes bodies ps)"

subsection \<open>The whole\<close>

text \<open>Which ring slot this graph is profiled into, if any.\<close>

definition begin_profiling :: "bool \<Rightarrow> exec \<Rightarrow> nat option \<times> exec" where
  "begin_profiling enable x =
     (let al = ex_alloc x in
      if \<not> enable \<or> pr_pending_slot (al_profiler al) \<noteq> None then (None, x)
      else
        let (p, d) = profiler_init (al_profiler al, ex_device x)
        in (free_slot p, x\<lparr>ex_alloc := al\<lparr>al_profiler := p\<rparr>, ex_device := d\<rparr>))"

definition close_group :: "frame_run \<Rightarrow> frame_run" where
  "close_group f = (if fr_group f \<noteq> [] then emit [Pop_Group] f else f)"

definition finish_profiling :: "frame_run \<Rightarrow> frame_run" where
  "finish_profiling f =
     (case fr_slot f of
        None \<Rightarrow> f
      | Some i \<Rightarrow>
          if fr_pairs f = 0 then f
          else
            let u = fr_run f; x = ru_exec u; al = ex_alloc x
            in (emit [Resolve_Queries (fr_pairs f), Copy_Queries i (fr_pairs f)] f)
                 \<lparr>fr_run := u\<lparr>ru_exec := x\<lparr>ex_alloc := al\<lparr>al_profiler := hand_slot i (fr_pairs f) (al_profiler al)\<rparr>\<rparr>\<rparr>\<rparr>)"

definition finish_graph :: "exec \<Rightarrow> exec" where
  "finish_graph x = release_resources (x\<lparr>ex_graph := (ex_graph x)\<lparr>g_state := RG_Finished\<rparr>\<rparr>)"

definition start_run :: "nat option \<times> exec \<Rightarrow> frame_run" where
  "start_run sx = \<lparr>fr_run = \<lparr>ru_exec = snd sx, ru_views = []\<rparr>, fr_commands = [], fr_group = [], fr_slot = fst sx, fr_pairs = 0\<rparr>"

definition execute :: "bool \<Rightarrow> bool \<Rightarrow> (pass_node \<Rightarrow> ctx_call list) \<Rightarrow> exec \<Rightarrow> (encoder_cmd list \<times> exec) checked" where
  "execute transientOK profiling bodies x =
     (if g_state (ex_graph x) \<noteq> RG_Compiled then
        require (g_state (ex_graph x) = RG_Failed) ''execute(): graph not compiled; compile() missing, or execute() called twice''
          (Inr ([], x))
      else
        let x1 = realize_graph transientOK x in
        if g_state (ex_graph x1) \<noteq> RG_Compiled then Inr ([], x1)
        else
          and_then (execute_passes bodies (g_passes (ex_graph x1)) (start_run (begin_profiling profiling x1))) (\<lambda>f.
            let f' = finish_profiling (close_group f)
            in Inr (fr_commands f', finish_graph (ru_exec (fr_run f')))))"

end
