(* ===== verification/Realized.thy ===== *)
theory Realized
  imports Realize_Owner Aliasing
begin

text \<open>
  What a compiled graph looks like to \<open>realize_graph\<close>, and the objects it gets: every used
  transient has an object that nobody else held, and two of them share one only when phase 4 put
  them into one slot, where their lifetimes are disjoint.
\<close>

subsection \<open>The slots and nodes handed to the realization\<close>

definition fresh_slot :: "phys \<Rightarrow> bool" where
  "fresh_slot ph \<longleftrightarrow> ph_texture ph = None \<and> ph_view ph = None \<and> ph_buffer ph = None \<and> \<not> is_mappable (ph_buf_usage ph)"

definition unmappable :: "res_node \<Rightarrow> bool" where
  "unmappable r \<longleftrightarrow> \<not> is_mappable (rn_buf_usage r)"

lemma mappable_Un: "is_mappable (u \<union> v) \<longleftrightarrow> is_mappable u \<or> is_mappable v"
  by (auto simp: is_mappable_def)

lemma place_fresh:
  assumes "unmappable r" "list_all fresh_slot phs"
  shows "list_all fresh_slot (place_in_slot r phs)"
proof -
  have j: "fresh_slot ph \<Longrightarrow> fresh_slot (join_slot r ph)" for ph
    using assms(1) by (simp add: fresh_slot_def join_slot_def Let_def mappable_Un unmappable_def)
  have o: "fresh_slot (open_slot r)"
    by (simp add: fresh_slot_def open_slot_def Let_def empty_phys_def is_mappable_def)
  have "list_all fresh_slot (xs[k := join_slot r (xs ! k)])" if "list_all fresh_slot xs" "k < length xs" for xs k
    using that j by (simp add: list_all_length nth_list_update)
  moreover have "first_fit r phs \<le> length phs" by (rule first_fit_le)
  ultimately show ?thesis using assms(2) o by (simp add: place_in_slot_def Let_def)
qed

lemma slot_run_fresh:
  "list_all unmappable rs \<Longrightarrow> list_all fresh_slot phs \<Longrightarrow> list_all fresh_slot (snd (slot_run rs phs))"
  by (induction rs arbitrary: phs) (simp_all add: split_beta Let_def place_fresh)

lemma accumulated_unmappable:
  assumes "u \<subseteq> (\<Union>t \<in> T. buf_usage_of (f t))"
  shows "\<not> is_mappable u"
proof -
  have "BU_MapRead \<notin> buf_usage_of t" "BU_MapWrite \<notin> buf_usage_of t" for t
    using buf_usage_not_mappable [of t] by (simp_all add: is_mappable_def)
  then show ?thesis using assms by (auto simp: is_mappable_def)
qed

lemma compiled_usage:
  assumes ok: "recorded_ok (it, g)" and c: "compile_impl pool enable g = Some g'" and s: "g_state g' = RG_Compiled"
    and r: "r \<in> set (g_nodes g')"
  shows "unmappable r" and "TU_TransientAttachment \<notin> rn_tex_usage r"
proof -
  obtain n where n: "n < length (g_nodes g')" "r = g_nodes g' ! n" using r by (auto simp: in_set_conv_nth)
  note I = compiled_ids [OF ok c s n(1)]
  have "unnoted (g_nodes g ! n)" using recorded_unnoted [OF ok nth_mem [OF I(1)]] by blast
  from compiled_node [OF c s I(1) this] obtain q where q: "bare r = bare q"
    "unsized q = unsized (noted (touches_of (g_passes g') (h_id (rn_handle (g_nodes g ! n)))) (g_nodes g ! n))"
    using n(2) by blast
  let ?ts = "touches_of (g_passes g') (h_id (rn_handle (g_nodes g ! n)))"
  note F = unsized_fields(5,6) [OF q(2), unfolded noted_records]
  have b: "rn_buf_usage r \<subseteq> (\<Union>t \<in> set ?ts. buf_usage_of (ac_type (snd t)))"
    unfolding bareD(7) [OF q(1)] F(2) by simp
  have t: "rn_tex_usage r \<subseteq> (\<Union>t \<in> set ?ts. tex_usage_of (ac_type (snd t)))"
    unfolding bareD(6) [OF q(1)] F(1) by simp
  show "unmappable r" unfolding unmappable_def by (rule accumulated_unmappable [OF b])
  show "TU_TransientAttachment \<notin> rn_tex_usage r" using t tex_usage_not_transient by blast
qed

lemma compiled_fresh_slots:
  assumes ok: "recorded_ok (it, g)" and c: "compile_impl pool enable g = Some g'" and s: "g_state g' = RG_Compiled"
  shows "list_all fresh_slot (g_slots g')"
proof -
  obtain c where e: "g' = finish_compile (phase_alias enable (detect_transient_attachments (measured c)))"
    and sl: "g_slots (measured c) = g_slots g"
    using compiled_back_end [OF c s] by metis
  let ?d = "detect_transient_attachments (measured c)"
  have nil: "g_slots ?d = []" using recorded_okD(5) [OF ok] sl by (simp add: detect_nodes)
  have u: "list_all unmappable (eligible_nodes ?d)"
    unfolding list_all_iff
  proof
    fix r assume "r \<in> set (eligible_nodes ?d)"
    then have "r \<in> set (g_nodes ?d)" by (simp add: eligible_nodes_def)
    then have "bare r \<in> set (map bare (g_nodes ?d))" by simp
    then have "bare r \<in> set (map bare (g_nodes g'))"
      using aliased_bare [of enable "measured c", folded e] by (simp add: detect_nodes(1) del: set_map)
    then obtain q where "q \<in> set (g_nodes g')" "bare r = bare q" by auto
    then show "unmappable r" using compiled_usage(1) [OF ok c s] bareD(7) by (metis unmappable_def)
  qed
  show ?thesis unfolding e aliased_nodes(2) using slot_run_fresh [OF u] nil by simp
qed

lemma compiled_member:
  assumes ok: "recorded_ok (it, g)" and c: "compile_impl pool enable g = Some g'" and s: "g_state g' = RG_Compiled"
    and r: "r \<in> set (g_nodes g')" "rn_alias_slot r = Some k"
  shows "k < length (g_slots g') \<and> slot_holds r (g_slots g' ! k)"
proof -
  obtain rs ks where inv: "slots_inv rs ks (g_slots g')"
    and mem: "\<forall>r k. r \<in> set (g_nodes g') \<longrightarrow> rn_alias_slot r = Some k \<longrightarrow> (\<exists>m < length rs. ks ! m = k \<and> bare (rs ! m) = bare r)"
    using compiled_slots [OF ok c s] by metis
  obtain m where m: "m < length rs" "ks ! m = k" "bare (rs ! m) = bare r" using mem r by blast
  show ?thesis using slots_invD(1,2) [OF inv m(1)] m(2) bare_holds [OF m(3)] by simp
qed

subsection \<open>Objects taken from the transient pool\<close>

text \<open>\<open>takes st xs st'\<close>: from \<open>st\<close> to \<open>st'\<close> the free objects \<open>xs\<close> were claimed, each once.\<close>

definition takes :: "transient_pool \<times> device \<Rightarrow> nat list \<Rightarrow> transient_pool \<times> device \<Rightarrow> bool" where
  "takes st xs st' \<longleftrightarrow>
     (pool_good st \<longrightarrow>
        pool_good st' \<and> distinct xs \<and> set xs \<inter> claimed_objects st = {} \<and>
        claimed_objects st' = claimed_objects st \<union> set xs)"

lemma takes_none: "takes st [] st"
  by (simp add: takes_def)

lemma takes_trans:
  assumes "takes st xs st'" "takes st' ys st''"
  shows "takes st (xs @ ys) st''"
  unfolding takes_def
proof
  assume g: "pool_good st"
  then have 1: "pool_good st'" "distinct xs" "set xs \<inter> claimed_objects st = {}" "claimed_objects st' = claimed_objects st \<union> set xs"
    using assms(1) by (auto simp: takes_def)
  then have 2: "pool_good st''" "distinct ys" "set ys \<inter> claimed_objects st' = {}" "claimed_objects st'' = claimed_objects st' \<union> set ys"
    using assms(2) by (auto simp: takes_def)
  then show "pool_good st'' \<and> distinct (xs @ ys) \<and> set (xs @ ys) \<inter> claimed_objects st = {} \<and>
      claimed_objects st'' = claimed_objects st \<union> set (xs @ ys)"
    using 1 by auto
qed

lemma takes_texture:
  assumes "pool_good st" "acquire_texture sig usage who st = ((t, v), st')"
  shows "\<exists>x. t = Some x \<and> takes st [x] st'"
proof -
  have "acquire_tex (sig, usage, who) st = (t, st')" using assms(2) by (simp add: acquire_tex_def)
  from textures.acquire_claims [OF assms(1) this] show ?thesis by (auto simp: takes_def)
qed

lemma takes_buffer:
  assumes "pool_good st" "acquire_buffer sz usage who st = (b, st')"
  shows "\<exists>x. b = Some x \<and> takes st [x] st'"
proof -
  have "acquire_buf (sz, usage, who) st = (b, st')" using assms(2) by (simp add: acquire_buf_def)
  from buffers.acquire_claims [OF assms(1) this] show ?thesis by (auto simp: takes_def)
qed

text \<open>A walk each of whose steps takes at most one object, the one \<open>obj\<close> reads off its result.\<close>

definition taken :: "('a \<Rightarrow> gpu_ref) \<Rightarrow> ('a \<Rightarrow> bool) \<Rightarrow> 'a list \<Rightarrow> nat list" where
  "taken obj sel ys = refs (map (\<lambda>y. if sel y then obj y else None) ys)"

lemma walk_takes:
  assumes w: "walk f xs st = (ys, st', None)" and g: "pool_good st"
    and step: "\<And>x st y st'. x \<in> set xs \<Longrightarrow> pool_good st \<Longrightarrow> f x st = Inr (y, st') \<Longrightarrow>
       sel y = sel x \<and> (if sel x then \<exists>v. obj y = Some v \<and> takes st [v] st' else y = x \<and> st' = st)"
  shows "takes st (taken obj sel ys) st' \<and> length ys = length xs \<and>
    (\<forall>k < length xs. sel (ys ! k) = sel (xs ! k) \<and> (if sel (xs ! k) then obj (ys ! k) \<noteq> None else ys ! k = xs ! k))"
proof -
  let ?P = "\<lambda>k us t. pool_good t \<and> takes st (taken obj sel us) t \<and> length us = k \<and>
    (\<forall>j < k. sel (us ! j) = sel (xs ! j) \<and> (if sel (xs ! j) then obj (us ! j) \<noteq> None else us ! j = xs ! j))"
  have "?P (length xs) ys st'"
  proof (rule walk_invariant [OF w, of ?P])
    show "?P 0 [] st" using g by (simp add: takes_none taken_def)
  next
    fix k us t y t' assume k: "k < length xs" "length us = k" and P: "?P k us t" and f: "f (xs ! k) t = Inr (y, t')"
    have S: "sel y = sel (xs ! k)" "if sel (xs ! k) then \<exists>v. obj y = Some v \<and> takes t [v] t' else y = xs ! k \<and> t' = t"
      using step [OF nth_mem [OF k(1)] _ f] P by auto
    have T: "takes st (taken obj sel (us @ [y])) t' \<and> pool_good t' \<and> (if sel (xs ! k) then obj y \<noteq> None else y = xs ! k)"
    proof (cases "sel (xs ! k)")
      case True
      then obtain v where v: "obj y = Some v" "takes t [v] t'" using S(2) by auto
      have "taken obj sel (us @ [y]) = taken obj sel us @ [v]" using True S(1) v(1) by (simp add: taken_def)
      then show ?thesis using takes_trans [OF _ v(2), of st "taken obj sel us"] P v True by (simp add: takes_def)
    next
      case False
      then have "taken obj sel (us @ [y]) = taken obj sel us" using S(1) by (simp add: taken_def)
      then show ?thesis using P S(2) False by simp
    qed
    have "sel ((us @ [y]) ! j) = sel (xs ! j) \<and> (if sel (xs ! j) then obj ((us @ [y]) ! j) \<noteq> None else (us @ [y]) ! j = xs ! j)"
      if "j < Suc k" for j
    proof (cases "j = k")
      case True
      have n: "(us @ [y]) ! k = y" using nth_append_length [of us y "[]"] k(2) by simp
      show ?thesis unfolding True n using T S(1) by simp
    next
      case False
      then have "j < k" using that by simp
      then show ?thesis using P k(2) by (simp add: nth_append)
    qed
    then show "?P (Suc k) (us @ [y]) t'" using T k(2) by simp
  qed
  then show ?thesis by blast
qed

lemma taken_append: "taken obj sel (xs @ ys) = taken obj sel xs @ taken obj sel ys"
  by (simp add: taken_def)

lemma taken_nth: "k < length ys \<Longrightarrow> sel (ys ! k) \<Longrightarrow> obj (ys ! k) = Some v \<Longrightarrow> v \<in> set (taken obj sel ys)"
  by (force simp: taken_def refs_def in_set_conv_nth)

lemma taken_distinct:
  assumes "distinct (taken obj sel ys)" "j < length ys" "k < length ys" "sel (ys ! j)" "sel (ys ! k)"
    "obj (ys ! j) = Some v" "obj (ys ! k) = Some v"
  shows "j = k"
proof (rule ccontr)
  have split: False if "a < b" "b < length ys" "sel (ys ! a)" "sel (ys ! b)" "obj (ys ! a) = Some v" "obj (ys ! b) = Some v" for a b
  proof -
    have "taken obj sel ys = taken obj sel (take b ys) @ taken obj sel (drop b ys)"
      using taken_append [of obj sel "take b ys" "drop b ys"] by simp
    moreover have "v \<in> set (taken obj sel (take b ys))" using taken_nth [of a "take b ys" sel obj v] that by simp
    moreover have "v \<in> set (taken obj sel (drop b ys))" using taken_nth [of 0 "drop b ys" sel obj v] that by simp
    ultimately show False using assms(1) by auto
  qed
  assume "j \<noteq> k"
  then consider "j < k" | "k < j" by linarith
  then show False using split [OF _ assms(3-7)] split [OF _ assms(2,5,4,7,6)] by cases
qed

end
