(* ===== verification/Compiled_Sizes.thy ===== *)
theory Compiled_Sizes
  imports Aliasing
begin

text \<open>
  A compiled graph has resolved every texture to its declared size: the memo that phase 0 and
  phase 3 share stays right through the phases between them, and a chain of relative sizes that
  is a cycle or dangles fails the compile.
\<close>

subsection \<open>Sizes depend on the size declarations only\<close>

definition size_part :: "res_node \<Rightarrow> bool \<times> size_kind \<times> handle \<times> u32 \<times> u32 \<times> u32 \<times> f32 \<times> f32 \<times> extent3d" where
  "size_part r = (rn_imported r, rn_size_kind r, rn_relative_to r, rn_width r, rn_height r, rn_depth_or_layers r,
     rn_scale_x r, rn_scale_y r, (if rn_imported r then rn_resolved r else extent_zero))"

lemma size_part_static [simp]: "size_part (static r) = size_part r"
  by (simp add: size_part_def static_def)

lemma size_part_eqD:
  assumes "size_part r = size_part q"
  shows "rn_imported r = rn_imported q" "rn_size_kind r = rn_size_kind q" "rn_relative_to r = rn_relative_to q"
    "mk_extent (rn_width r) (rn_height r) (rn_depth_or_layers r) = mk_extent (rn_width q) (rn_height q) (rn_depth_or_layers q)"
    "scaled_size r b = scaled_size q b" "rn_imported r \<Longrightarrow> rn_resolved r = rn_resolved q"
  using assms by (simp_all add: size_part_def scaled_size_def)

lemma sized_cong:
  assumes "\<And>i. map_option size_part (L i) = map_option size_part (M i)" "sized L i C e"
  shows "sized M i C e"
proof -
  have get: "\<exists>q. M i = Some q \<and> size_part r = size_part q" if "L i = Some r" for i r
    using assms(1) [of i] that by (cases "M i") auto
  from assms(2) show ?thesis
  proof (induction rule: sized.induct)
    case (sized_imported i r)
    then obtain q where q: "M i = Some q" "size_part r = size_part q" using get by blast
    note E = size_part_eqD [OF q(2)]
    show ?case using sized.sized_imported [of M i q] q(1) E(1,6) sized_imported by simp
  next
    case (sized_absolute i r)
    then obtain q where q: "M i = Some q" "size_part r = size_part q" using get by blast
    note E = size_part_eqD [OF q(2)]
    show ?case using sized.sized_absolute [of M i q] q(1) E(1,2) sized_absolute unfolding E(4) by simp
  next
    case (sized_relative i r C b)
    then obtain q where q: "M i = Some q" "size_part r = size_part q" using get by blast
    note E = size_part_eqD [OF q(2)]
    show ?case using sized.sized_relative [of M i q C b] q(1) E(1,2,3) sized_relative unfolding E(5) by simp
  qed
qed

subsection \<open>The memo through the phases\<close>

definition sizes_ok :: "(nat \<Rightarrow> res_node option) \<Rightarrow> graph \<Rightarrow> bool" where
  "sizes_ok L g \<longleftrightarrow> memo_ok L g \<and> (\<forall>j. \<not> resolving_at g j)"

text \<open>A step keeps the memo right unless it fails, and does not repair a failed graph.\<close>

definition keeps_sizes :: "(nat \<Rightarrow> res_node option) \<Rightarrow> (graph \<Rightarrow> graph) \<Rightarrow> bool" where
  "keeps_sizes L f \<longleftrightarrow>
     (\<forall>g. (g_state g = RG_Failed \<longrightarrow> g_state (f g) = RG_Failed) \<and>
          (sizes_ok L g \<longrightarrow> g_state (f g) \<noteq> RG_Failed \<longrightarrow> sizes_ok L (f g)))"

lemma keeps_sizesD:
  "keeps_sizes L f \<Longrightarrow> g_state (f g) \<noteq> RG_Failed \<Longrightarrow> g_state g \<noteq> RG_Failed"
  "keeps_sizes L f \<Longrightarrow> sizes_ok L g \<Longrightarrow> g_state (f g) \<noteq> RG_Failed \<Longrightarrow> sizes_ok L (f g)"
  by (auto simp: keeps_sizes_def)

lemma keeps_sizes_comp: "keeps_sizes L f \<Longrightarrow> keeps_sizes L h \<Longrightarrow> keeps_sizes L (\<lambda>g. h (f g))"
  unfolding keeps_sizes_def by metis

lemma keeps_sizes_id: "keeps_sizes L (\<lambda>g. g)"
  by (simp add: keeps_sizes_def)

lemma keeps_resolve: "keeps_sizes L (\<lambda>g. snd (resolve_size i g))"
  unfolding keeps_sizes_def
proof (intro allI conjI impI)
  fix g :: graph assume "g_state g = RG_Failed"
  then show "g_state (snd (resolve_size i g)) = RG_Failed" using resolve_size_frame by blast
next
  fix g :: graph assume ok: "sizes_ok L g" and nf: "g_state (snd (resolve_size i g)) \<noteq> RG_Failed"
  show "sizes_ok L (snd (resolve_size i g))"
  proof (cases "find_node g i")
    case None
    then show ?thesis using ok by (subst resolve_size.simps) simp
  next
    case (Some r)
    obtain C where "sized L i C (fst (resolve_size i g))"
      using resolve_unsized [of L g i] ok nf Some by (auto simp: sizes_ok_def)
    from resolve_sized [OF this, of g] obtain h where "resolve_size i g = (fst (resolve_size i g), h)" "memo_ok L h"
      "\<forall>j. resolving_at h j = resolving_at g j"
      using ok by (auto simp: sizes_ok_def)
    then show ?thesis using ok by (metis sizes_ok_def snd_conv)
  qed
qed

lemma keeps_target: "keeps_sizes L (\<lambda>g. snd (target_baked pool t g))"
proof -
  have "g_state (snd (target_baked pool t g)) = RG_Failed \<or>
      snd (target_baked pool t g) = g \<or> snd (target_baked pool t g) = snd (resolve_size (h_id (fst t)) g)" for g
    by (auto simp: target_baked_def Let_def split: option.split)
  moreover have "g_state g = RG_Failed \<Longrightarrow> g_state (snd (target_baked pool t g)) = RG_Failed" for g
    using resolve_size_frame [of "h_id (fst t)" g] by (auto simp: target_baked_def Let_def split: option.split)
  ultimately show ?thesis
    unfolding keeps_sizes_def using keeps_sizesD(2) [OF keeps_resolve [of L "h_id (fst t)"]] by metis
qed

lemma keeps_targets: "keeps_sizes L (\<lambda>g. snd (targets_baked pool ts g))"
proof (induction ts)
  case (Cons t ts)
  then show ?case using keeps_sizes_comp [OF keeps_target [of L pool t] Cons] by (simp add: split_beta Let_def)
qed (simp add: keeps_sizes_id)

lemma keeps_bake: "keeps_sizes L (\<lambda>g. snd (bake_passes pool ps g))"
proof (induction ps)
  case (Cons p ps)
  show ?case
  proof (cases "pn_init_targets p = []")
    case True
    then show ?thesis using Cons by (simp add: split_beta Let_def)
  next
    case False
    then show ?thesis using keeps_sizes_comp [OF keeps_targets [of L pool "pn_init_targets p"] Cons] by (simp add: split_beta Let_def)
  qed
qed (simp add: keeps_sizes_id)

lemma find_node_same_nodes: "g_nodes g = g_nodes h \<Longrightarrow> find_node g i = find_node h i"
  by (simp add: find_node_def)

lemma sizes_ok_same_nodes: "g_nodes g = g_nodes h \<Longrightarrow> sizes_ok L g = sizes_ok L h"
  using find_node_same_nodes [of g h]
  by (simp add: sizes_ok_def memo_ok_def agrees_def resolving_at_def)

lemma recorded_sizes_ok:
  assumes "recorded_ok (it, g)"
  shows "sizes_ok (\<lambda>i. map_option static (find_node g i)) g"
proof -
  have "\<not> rn_resolving r \<and> \<not> rn_resolved_done r" if "find_node g i = Some r" for i r
    using recorded_okD(7) [OF assms] find_node_Some [OF that]
    by (auto simp: list_all_iff node_declared_def untouched_def)
  then show ?thesis by (auto simp: sizes_ok_def memo_ok_def agrees_def resolving_at_def)
qed

lemma resolve_all_ok:
  assumes "sizes_ok L g" "g_state (resolve_all ids g) \<noteq> RG_Failed" "\<forall>i \<in> set ids. find_node g i \<noteq> None"
  shows "sizes_ok L (resolve_all ids g) \<and> (\<forall>i. settled g i \<or> i \<in> set ids \<longrightarrow> settled (resolve_all ids g) i)"
  using assms
proof (induction ids arbitrary: g)
  case Nil
  then show ?case by (simp add: resolve_all_def)
next
  case (Cons i ids)
  define g1 where "g1 = snd (resolve_size i g)"
  have e: "resolve_all (i # ids) g = resolve_all ids g1" by (simp add: resolve_all_def g1_def)
  have mono: "g_state h = RG_Failed \<Longrightarrow> g_state (resolve_all is h) = RG_Failed" for "is" h
    unfolding resolve_all_def by (induction "is" arbitrary: h) (simp_all add: resolve_size_frame)
  have nf: "g_state g1 \<noteq> RG_Failed" using mono [of g1 ids] Cons.prems(2) e by auto
  have ok: "sizes_ok L g1" using keeps_sizesD(2) [OF keeps_resolve Cons.prems(1)] nf by (simp add: g1_def)
  have nodes: "find_node g1 j = None \<longleftrightarrow> find_node g j = None" for j by (simp add: g1_def resolve_size_nodes)
  have "settled g1 i" unfolding g1_def by (rule resolve_size_settles) (use Cons.prems(3) nf in \<open>auto simp: g1_def\<close>)
  moreover have "settled g j \<Longrightarrow> settled g1 j" for j by (simp add: g1_def resolve_size_settled)
  moreover have "sizes_ok L (resolve_all ids g1) \<and> (\<forall>i. settled g1 i \<or> i \<in> set ids \<longrightarrow> settled (resolve_all ids g1) i)"
    using Cons.IH [OF ok] Cons.prems(2,3) e nodes by simp
  ultimately show ?case unfolding e by auto
qed

subsection \<open>The accesses leave the sizes alone\<close>

lemma mark_size_part:
  "size_part (mark_touch t r) = size_part r" "rn_handle (mark_touch t r) = rn_handle r"
  "rn_resolved_done (mark_touch t r) = rn_resolved_done r" "rn_resolving (mark_touch t r) = rn_resolving r"
  "rn_resolved (mark_touch t r) = rn_resolved r"
  by (simp_all add: mark_touch_def note_access_def Let_def size_part_def)

lemma fold_mark_size_part:
  "size_part (fold mark_touch ts r) = size_part r" "rn_handle (fold mark_touch ts r) = rn_handle r"
  "rn_resolved_done (fold mark_touch ts r) = rn_resolved_done r" "rn_resolving (fold mark_touch ts r) = rn_resolving r"
  "rn_resolved (fold mark_touch ts r) = rn_resolved r"
  by (rule fold_preserves, rule mark_size_part)+

lemma find_map_handle:
  "(\<And>r. rn_handle (f r) = rn_handle r) \<Longrightarrow> g_nodes h = map f (g_nodes g) \<Longrightarrow> find_node h i = map_option f (find_node g i)"
proof -
  assume f: "\<And>r. rn_handle (f r) = rn_handle r" and h: "g_nodes h = map f (g_nodes g)"
  have "find P (map f xs) = map_option f (find P xs)" if "\<And>r. P (f r) = P r" for P xs
    by (induction xs) (simp_all add: that)
  then show ?thesis unfolding find_node_def h using f by simp
qed

lemma usage_sizes_ok:
  assumes "sizes_ok L c"
  shows "sizes_ok (\<lambda>i. map_option static (find_node (phase_usage c) i)) (phase_usage c)"
    "map_option size_part (find_node (phase_usage c) i) = map_option size_part (L i)"
proof -
  let ?f = "\<lambda>r. fold mark_touch (touches_of (g_passes c) (h_id (rn_handle r))) r"
  have n: "find_node (phase_usage c) i = map_option ?f (find_node c i)" for i
    by (rule find_map_handle) (simp_all add: fold_mark_size_part phase_usage_nodes)
  have Li: "L i = map_option static (find_node c i)" for i
    using assms by (simp add: sizes_ok_def memo_ok_def agrees_def)
  have L: "map_option size_part (find_node (phase_usage c) i) = map_option size_part (L i)" for i
    unfolding n Li by (simp add: option.map_comp comp_def fold_mark_size_part)
  then show "map_option size_part (find_node (phase_usage c) i) = map_option size_part (L i)" .
  have "\<exists>C. sized (\<lambda>i. map_option static (find_node (phase_usage c) i)) i C (rn_resolved r)"
    if r: "find_node (phase_usage c) i = Some r" "rn_resolved_done r" for i r
  proof -
    obtain q where q: "find_node c i = Some q" "r = ?f q" using r(1) n [of i] by auto
    have "rn_resolved_done q" using r(2) q(2) by (simp add: fold_mark_size_part)
    then obtain C where "sized L i C (rn_resolved q)"
      using assms q(1) unfolding sizes_ok_def memo_ok_def by blast
    from sized_cong [OF _ this, of "\<lambda>i. map_option static (find_node (phase_usage c) i)"]
    have "sized (\<lambda>i. map_option static (find_node (phase_usage c) i)) i C (rn_resolved q)"
      by (simp add: option.map_comp comp_def L)
    then show ?thesis by (auto simp: q(2) fold_mark_size_part)
  qed
  moreover have "\<not> resolving_at (phase_usage c) j" for j
    using assms n [of j] by (auto simp: sizes_ok_def resolving_at_def fold_mark_size_part)
  ultimately show "sizes_ok (\<lambda>i. map_option static (find_node (phase_usage c) i)) (phase_usage c)"
    by (auto simp: sizes_ok_def memo_ok_def agrees_def)
qed

subsection \<open>The compiled graph\<close>

lemma culled_sizes_ok:
  assumes ok: "recorded_ok (it, g)" and h: "g_state (phase_handles g) \<noteq> RG_Failed"
    and b: "g_state (before_link pool g) \<noteq> RG_Failed"
  shows "sizes_ok (\<lambda>i. map_option static (find_node g i)) (culled pool g order)"
proof -
  let ?L = "\<lambda>i. map_option static (find_node g i)"
  define g0 where "g0 = phase_expand (phase_handles g)"
  define g1 where "g1 = snd (bake_passes pool (g_passes g0) g0)"
  have n0: "g_nodes g0 = g_nodes g" by (simp add: g0_def phase_expand_def phase_handles_ok(1) [OF h])
  have b1: "before_link pool g = g1\<lparr>g_passes := fst (bake_passes pool (g_passes g0) g0)\<rparr>"
    by (simp add: before_link_def phase_bake_def g0_def g1_def split_beta Let_def)
  have "sizes_ok ?L g0" using recorded_sizes_ok [OF ok] sizes_ok_same_nodes [OF n0] by simp
  moreover have "g_state g1 \<noteq> RG_Failed" using b b1 by simp
  ultimately have "sizes_ok ?L g1" unfolding g1_def by (rule keeps_sizesD(2) [OF keeps_bake])
  moreover have "g_nodes (culled pool g order) = g_nodes g1"
    by (simp add: culled_def phase_link_def Let_def b1)
  ultimately show ?thesis using sizes_ok_same_nodes [of "culled pool g order" g1] by simp
qed

lemma settled_sized:
  assumes "memo_ok L g" "settled g i" "find_node g i = Some r"
  shows "\<exists>C. sized L i C (rn_resolved r)"
proof (cases "rn_imported r")
  case True
  have "L i = Some (static r)" using assms(1) agreesD [OF _ assms(3)] by (simp add: memo_ok_def)
  then show ?thesis using sized_imported [of L i "static r"] True by auto
next
  case False
  then show ?thesis using assms by (auto simp: settled_def memo_ok_def)
qed

lemma compiled_sizes:
  assumes ok: "recorded_ok (it, g)" and c: "compile_impl pool enable g = Some g'" and s: "g_state g' = RG_Compiled"
    and r: "r \<in> set (g_nodes g')" "rn_kind r = RK_Texture"
  shows "\<exists>C. sized (find_node g) (h_id (rn_handle r)) C (rn_resolved r)"
proof -
  obtain order where h: "g_state (phase_handles g) \<noteq> RG_Failed" and b: "g_state (before_link pool g) \<noteq> RG_Failed"
    and g': "g' = compile_back enable (writers g) (culled pool g order)"
    using compiled_shape [OF c s] by metis
  define c where "c = culled pool g order"
  define u where "u = phase_usage c"
  define L where "L = (\<lambda>i. map_option static (find_node u i))"
  note B = compile_back_compiled [OF s [unfolded g', folded c_def]]
  have m: "measured c = resolve_all (texture_ids u) u" by (simp add: measured_def phase_sizes_def u_def)
  have c_ok: "sizes_ok (\<lambda>i. map_option static (find_node g i)) c" unfolding c_def by (rule culled_sizes_ok [OF ok h b])
  note U = usage_sizes_ok [OF c_ok, folded u_def, folded L_def]
  have ids: "find_node u i \<noteq> None" if "i \<in> set (texture_ids u)" for i
    using that by (auto simp: texture_ids_def find_node_def find_None_iff_ex)
  have R: "sizes_ok L (measured c) \<and> (\<forall>i. settled u i \<or> i \<in> set (texture_ids u) \<longrightarrow> settled (measured c) i)"
    unfolding m by (rule resolve_all_ok) (use U(1) B(2) ids m in auto)
  have o: "outline (measured c) = outline u" by (simp add: m declared_resolve_all)
  have oc: "outline c = outline g"
    using declared_before_link [OF h, of pool] by (simp add: c_def culled_def phase_link_def Let_def)
  have hu: "map rn_handle (g_nodes u) = map rn_handle (g_nodes c)"
    by (simp add: u_def phase_usage_nodes fold_mark_size_part)
  have un: "map rn_handle (g_nodes x) = map rn_handle (g_nodes y)" if "outline x = outline y" for x y :: graph
    using arg_cong [OF that, of "\<lambda>p. map rn_handle (fst p)"] by (simp add: outline_def comp_def)
  have hm: "map rn_handle (g_nodes (measured c)) = map rn_handle (g_nodes g)" using un [OF o] un [OF oc] hu by simp
  have "bare r \<in> bare ` set (g_nodes g')" using r(1) by simp
  also have "\<dots> = set (map bare (g_nodes (measured c)))"
    using aliased_bare [of enable "measured c"] unfolding g' c_def [symmetric] B(8) by (metis set_map)
  finally obtain q where q: "q \<in> set (g_nodes (measured c))" "bare r = bare q" by auto
  have ku: "map rn_kind (g_nodes (measured c)) = map rn_kind (g_nodes u)"
    using arg_cong [OF o, of "\<lambda>p. map rn_kind (fst p)"] by (simp add: outline_def comp_def)
  have hq: "map rn_handle (g_nodes (measured c)) = map rn_handle (g_nodes u)" by (rule un [OF o])
  let ?i = "h_id (rn_handle q)"
  obtain n where n: "n < length (g_nodes (measured c))" "q = g_nodes (measured c) ! n" using q(1) by (auto simp: in_set_conv_nth)
  have lu: "length (g_nodes (measured c)) = length (g_nodes u)" using arg_cong [OF ku, of length] by simp
  have "rn_kind (g_nodes u ! n) = RK_Texture" "h_id (rn_handle (g_nodes u ! n)) = ?i"
    using arg_cong [OF ku, of "\<lambda>xs. xs ! n"] arg_cong [OF hq, of "\<lambda>xs. xs ! n"] n lu r(2) bareD(2) [OF q(2)] by simp_all
  moreover have "g_nodes u ! n \<in> set (g_nodes u)" using n(1) lu by simp
  ultimately have "?i \<in> set (texture_ids u)" unfolding texture_ids_def set_map set_filter by (intro image_eqI [of _ _ "g_nodes u ! n"]) simp_all
  then have st: "settled (measured c) ?i" using R by blast
  have "distinct (map (\<lambda>r. h_id (rn_handle r)) (g_nodes (measured c)))"
    using ids_ok_distinct [OF recorded_okD(2) [OF ok]] arg_cong [OF hm, of "map h_id"] by (simp add: comp_def)
  then have f: "find_node (measured c) ?i = Some q"
    unfolding find_node_def using find_distinct_key [of "\<lambda>r. h_id (rn_handle r)"] q(1) by blast
  have "memo_ok L (measured c)" using R by (simp add: sizes_ok_def)
  from settled_sized [OF this st f] obtain C where C: "sized L ?i C (rn_resolved q)" by blast
  have "map_option size_part (L i) = map_option size_part (find_node g i)" for i
    using U(2) [of i] by (simp add: L_def option.map_comp comp_def)
  from sized_cong [OF this C] show ?thesis using bareD(1,12) [OF q(2)] by metis
qed

end
