(* ===== verification/Pool_State.thy ===== *)
theory Pool_State
  imports Realized Compiled_Sizes
begin

text \<open>
  The state the persistent pool is in between frames, and that touching and realizing the
  resources of a graph keeps it: usage only grows, a created entry has an object for each of its
  layers, and no entry is recreated twice in one frame.
\<close>

definition layer_filled :: "resource_kind \<Rightarrow> layer_objects \<Rightarrow> bool" where
  "layer_filled k l \<longleftrightarrow> (if k = RK_Texture then lo_tex l \<noteq> None \<and> lo_view l \<noteq> None else lo_buf l \<noteq> None)"

text \<open>\<open>pentry_ok a b e\<close>: \<open>e\<close> was touched before clock \<open>a\<close> and created before clock \<open>b\<close>.\<close>

definition pentry_ok :: "nat \<Rightarrow> nat \<Rightarrow> pentry \<Rightarrow> bool" where
  "pentry_ok a b e \<longleftrightarrow>
     pe_last e < a \<and> (\<forall>k. pe_created_clock e = Some k \<longrightarrow> k < b) \<and>
     pe_usage_at_create e \<subseteq> pe_usage e \<and> pe_buf_usage_at_create e \<subseteq> pe_buf_usage e \<and>
     length (pe_objects e) = kLayers \<and> 0 < pe_layers e \<and> pe_layers e \<le> kLayers \<and>
     (pe_created e \<longrightarrow> (\<forall>j < pe_layers e. layer_filled (pe_kind e) (pe_objects e ! j)))"

definition entries_ok :: "nat \<Rightarrow> nat \<Rightarrow> persistent_pool \<Rightarrow> bool" where
  "entries_ok a b pool \<longleftrightarrow> list_all (pentry_ok a b) (pp_entries pool)"

text \<open>Between frames nothing carries the current clock; within a frame entries may.\<close>

definition persistent_ok :: "persistent_pool \<Rightarrow> bool" where
  "persistent_ok pool \<longleftrightarrow> entries_ok (pp_clock pool) (pp_clock pool) pool"

definition persistent_mid :: "persistent_pool \<Rightarrow> bool" where
  "persistent_mid pool \<longleftrightarrow> entries_ok (Suc (pp_clock pool)) (Suc (pp_clock pool)) pool"

lemma pentry_ok_later: "pentry_ok a b e \<Longrightarrow> a \<le> a' \<Longrightarrow> b \<le> b' \<Longrightarrow> pentry_ok a' b' e"
  by (auto simp: pentry_ok_def)

lemma entries_ok_later: "entries_ok a b pool \<Longrightarrow> a \<le> a' \<Longrightarrow> b \<le> b' \<Longrightarrow> entries_ok a' b' pool"
  unfolding entries_ok_def list_all_iff using pentry_ok_later by blast

lemma entries_okD: "entries_ok a b pool \<Longrightarrow> e \<in> set (pp_entries pool) \<Longrightarrow> pentry_ok a b e"
  by (simp add: entries_ok_def list_all_iff)

lemma end_frame_persistent_ok:
  assumes "persistent_mid pool" "persistent_end_frame (pool, d) = (pool', d')"
  shows "persistent_ok pool'"
proof -
  have "list_all P es \<Longrightarrow> list_all P es'" if "evict_entries c es d = (es', d')" for P c es d es' d'
    using that by (induction es arbitrary: d es' d') (auto split: if_splits prod.splits)
  then show ?thesis using assms
    by (auto simp: persistent_end_frame_def persistent_mid_def persistent_ok_def entries_ok_def split: prod.splits)
qed

lemma empty_persistent_ok: "persistent_ok empty_persistent_pool"
  by (simp add: persistent_ok_def entries_ok_def empty_persistent_pool_def)

subsection \<open>Finding and updating entries\<close>

lemma upd_first_list_all:
  "list_all Q es \<Longrightarrow> (\<And>e. find P es = Some e \<Longrightarrow> Q e \<Longrightarrow> Q (f e)) \<Longrightarrow> list_all Q (upd_first P f es)"
  by (induction es) (auto split: if_splits)

text \<open>The entry a name finds after the entry of a name was replaced by one of the same name.\<close>

lemma pool_find_upd_entry:
  assumes f: "\<And>e. pe_id (f e) = pe_id e"
  shows "pool_find rid' (upd_entry rid f pool) =
     (if rid_value rid' = rid_value rid \<and> rid_data rid' = rid_data rid then map_option f (pool_find rid' pool)
      else pool_find rid' pool)"
proof -
  have P: "is_entry_of r (f e) = is_entry_of r e" for r e by (simp add: is_entry_of_def f)
  have "find (is_entry_of rid') (upd_first (is_entry_of rid) f es) =
     (if rid_value rid' = rid_value rid \<and> rid_data rid' = rid_data rid then map_option f (find (is_entry_of rid') es)
      else find (is_entry_of rid') es)" for es
    by (induction es) (auto simp: P, auto simp: is_entry_of_def)
  then show ?thesis by (simp add: pool_find_def upd_entry_def)
qed

lemma pp_clock_upd [simp]: "pp_clock (upd_entry rid f pool) = pp_clock pool"
  by (simp add: upd_entry_def)

lemma pool_find_id: "pool_find rid pool = Some e \<Longrightarrow> e \<in> set (pp_entries pool) \<and> is_entry_of rid e"
  unfolding pool_find_def using find_Some_in by fast

subsection \<open>Touching\<close>

lemma destroy_entry_simps:
  "destroy_entry e d = (e', d') \<Longrightarrow>
   e' = e\<lparr>pe_objects := map (\<lambda>_. no_objects) (pe_objects e), pe_created := False, pe_baked := False\<rparr>"
  by (simp add: destroy_entry_def)

text \<open>An entry after \<open>touch\<close> in a new frame: rotated once, of the requested kind and layers.\<close>

definition touched_entry :: "nat \<Rightarrow> nat \<Rightarrow> resource_kind \<Rightarrow> pentry \<Rightarrow> pentry \<Rightarrow> bool" where
  "touched_entry clock layers kind e e' \<longleftrightarrow>
     pe_id e' = pe_id e \<and> pe_frame e' = Suc (pe_frame e) \<and> pe_last e' = clock \<and> pe_prev e' = pe_last e \<and>
     pe_layers e' = layers \<and> pe_kind e' = kind \<and> pe_created_clock e' = pe_created_clock e \<and>
     pe_usage e' = pe_usage e \<and> pe_buf_usage e' = pe_buf_usage e \<and>
     pe_usage_at_create e' = pe_usage_at_create e \<and> pe_buf_usage_at_create e' = pe_buf_usage_at_create e \<and>
     length (pe_objects e') = length (pe_objects e) \<and>
     (pe_created e' \<longrightarrow> pe_created e \<and> pe_kind e = kind \<and> pe_layers e = layers \<and> pe_objects e' = pe_objects e)"

lemma touch_entry_touched:
  "touch_entry clock layers hash kind e d = (e', d') \<Longrightarrow> touched_entry clock layers kind e e'"
  by (auto simp: touch_entry_def touched_entry_def Let_def destroy_entry_def split: if_splits prod.splits)

lemma touched_entry_ok:
  assumes "touched_entry clock layers kind e e'" "pentry_ok (Suc clock) b e" "0 < layers" "layers \<le> kLayers"
  shows "pentry_ok (Suc clock) b e'"
  using assms by (auto simp: touched_entry_def pentry_ok_def)

lemma alloc_entry_ok:
  "0 < layers \<Longrightarrow> layers \<le> kLayers \<Longrightarrow>
   pentry_ok (Suc c) b ((alloc_entry rid)\<lparr>pe_last := c, pe_prev := c, pe_layers := layers, pe_kind := kind, pe_history_hash := hash\<rparr>)"
  by (simp add: pentry_ok_def alloc_entry_def)

lemma upd_entry_ok:
  assumes "entries_ok a b pool" "\<And>e. pool_find rid pool = Some e \<Longrightarrow> pentry_ok a b (f e)"
  shows "entries_ok a b (upd_entry rid f pool)"
  using upd_first_list_all [of "pentry_ok a b" "pp_entries pool" "is_entry_of rid" f] assms
  by (simp add: entries_ok_def upd_entry_def pool_find_def)

definition layers_of :: "res_node \<Rightarrow> nat" where
  "layers_of r = (if rn_history r then kLayers else 1)"

definition pooled :: "res_node \<Rightarrow> bool" where
  "pooled r \<longleftrightarrow> rn_persistent r \<and> pool_used r"

definition same_name :: "resource_id \<Rightarrow> resource_id \<Rightarrow> bool" where
  "same_name a b \<longleftrightarrow> rid_value a = rid_value b \<and> rid_data a = rid_data b"

lemma is_entry_same_name: "is_entry_of a e \<longleftrightarrow> same_name (pe_id e) a"
  by (simp add: is_entry_of_def same_name_def)

text \<open>One name, one descriptor.\<close>

definition pool_part :: "res_node \<Rightarrow> resource_kind \<times> nat \<times> (tex_signature + u64)" where
  "pool_part r = (rn_kind r, layers_of r, if rn_kind r = RK_Texture then Inl (tex_signature_of r) else Inr (rn_buffer_size r))"

definition coherent :: "res_node list \<Rightarrow> bool" where
  "coherent rs \<longleftrightarrow>
     (\<forall>i < length rs. \<forall>j < length rs. pooled (rs ! i) \<longrightarrow> pooled (rs ! j) \<longrightarrow>
        same_name (rn_id (rs ! i)) (rn_id (rs ! j)) \<longrightarrow> pool_part (rs ! i) = pool_part (rs ! j))"

definition fits :: "nat \<Rightarrow> res_node \<Rightarrow> pentry \<Rightarrow> bool" where
  "fits clock r e \<longleftrightarrow>
     is_entry_of (rn_id r) e \<and> pe_last e = clock \<and> pe_kind e = rn_kind r \<and> pe_layers e = layers_of r"

text \<open>The entry's union covers what the node needs.\<close>

definition grants :: "res_node \<Rightarrow> pentry \<Rightarrow> bool" where
  "grants r e \<longleftrightarrow> (if rn_kind r = RK_Texture then rn_tex_usage r \<subseteq> pe_usage e else rn_buf_usage r \<subseteq> pe_buf_usage e)"

text \<open>After touching the first \<open>k\<close> nodes.\<close>

definition touched_upto :: "nat \<Rightarrow> res_node list \<Rightarrow> nat \<Rightarrow> persistent_pool \<Rightarrow> bool" where
  "touched_upto clock rs k pool \<longleftrightarrow>
     pp_clock pool = clock \<and> entries_ok (Suc clock) clock pool \<and>
     (\<forall>e \<in> set (pp_entries pool). pe_last e = clock \<longrightarrow> (\<exists>j < k. pooled (rs ! j) \<and> fits clock (rs ! j) e)) \<and>
     (\<forall>j < k. pooled (rs ! j) \<longrightarrow> (\<exists>e. pool_find (rn_id (rs ! j)) pool = Some e \<and> pe_last e = clock \<and> grants (rs ! j) e))"

lemma layers_of_bounds: "0 < layers_of r" "layers_of r \<le> kLayers"
  by (simp_all add: layers_of_def kLayers_def)

definition add_usage :: "res_node \<Rightarrow> pentry \<Rightarrow> pentry" where
  "add_usage r e = (if rn_kind r = RK_Texture then e\<lparr>pe_usage := pe_usage e \<union> rn_tex_usage r\<rparr>
     else e\<lparr>pe_buf_usage := pe_buf_usage e \<union> rn_buf_usage r\<rparr>)"

lemma add_usage_simps [simp]:
  "pe_id (add_usage r e) = pe_id e" "pe_last (add_usage r e) = pe_last e" "pe_kind (add_usage r e) = pe_kind e"
  "pe_layers (add_usage r e) = pe_layers e" "is_entry_of rid (add_usage r e) = is_entry_of rid e"
  "pentry_ok a b e \<Longrightarrow> pentry_ok a b (add_usage r e)" "fits c q (add_usage r e) = fits c q e"
  by (auto simp: add_usage_def is_entry_of_def pentry_ok_def fits_def)

lemma touch_node_pooled:
  "pooled r \<Longrightarrow> touch_node r (pool, d) =
     (let (pool', d') = touch (rn_id r) (layers_of r) (rn_history_hash r) (rn_kind r) (pool, d)
      in (upd_entry (rn_id r) (add_usage r) pool', d'))"
  by (simp add: touch_node_def pooled_def layers_of_def add_usage_def [abs_def])

lemma upd_first_id: "(\<And>e. find P es = Some e \<Longrightarrow> f e = e) \<Longrightarrow> upd_first P f es = es"
  by (induction es) auto

lemma set_upd_first: "e' \<in> set (upd_first P f es) \<Longrightarrow> e' \<in> set es \<or> (\<exists>e. find P es = Some e \<and> e' = f e)"
  by (induction es) (auto split: if_splits)

lemma find_replaced:
  assumes e: "is_entry_of rid0 e1"
  shows "find (is_entry_of rid) (upd_first (is_entry_of rid0) (\<lambda>_. e1) es) =
     (if same_name rid rid0 then map_option (\<lambda>_. e1) (find (is_entry_of rid0) es) else find (is_entry_of rid) es)"
proof (cases "same_name rid rid0")
  case True
  then have "is_entry_of rid = is_entry_of rid0" by (auto simp: is_entry_of_def same_name_def)
  then show ?thesis using True e by (induction es) simp_all
next
  case False
  then have "\<not> is_entry_of rid x" if "is_entry_of rid0 x" for x using that by (auto simp: is_entry_of_def same_name_def)
  then show ?thesis using False e by (induction es) auto
qed

text \<open>One \<open>touch\<close>: the entry of the name is there and fits, every other is as it was.\<close>

lemma touch_result:
  assumes t: "touch (rn_id r) (layers_of r) hash (rn_kind r) (pool, d) = (pool', d')"
    and ok: "entries_ok (Suc (pp_clock pool)) (pp_clock pool) pool"
    and cur: "\<And>e. pool_find (rn_id r) pool = Some e \<Longrightarrow> pe_last e = pp_clock pool \<Longrightarrow> fits (pp_clock pool) r e"
  obtains e1 where "pool_find (rn_id r) pool' = Some e1" "fits (pp_clock pool) r e1" "pp_clock pool' = pp_clock pool"
    "entries_ok (Suc (pp_clock pool)) (pp_clock pool) pool'" "set (pp_entries pool') \<subseteq> insert e1 (set (pp_entries pool))"
    "\<And>rid. \<not> same_name rid (rn_id r) \<Longrightarrow> pool_find rid pool' = pool_find rid pool"
    "\<And>e. pool_find (rn_id r) pool = Some e \<Longrightarrow> pe_last e = pp_clock pool \<Longrightarrow> e1 = e"
proof (cases "pool_find (rn_id r) pool")
  case None
  define e1 where "e1 = (alloc_entry (rn_id r))\<lparr>pe_last := pp_clock pool, pe_prev := pp_clock pool,
      pe_layers := layers_of r, pe_kind := rn_kind r, pe_history_hash := hash\<rparr>"
  have p: "pool' = pool\<lparr>pp_entries := e1 # pp_entries pool\<rparr>" using t None by (simp add: touch_def e1_def)
  have id: "pe_id e1 = rn_id r" by (simp add: e1_def alloc_entry_def)
  have f: "fits (pp_clock pool) r e1" by (simp add: fits_def is_entry_same_name id same_name_def) (simp add: e1_def)
  have a: "pentry_ok (Suc (pp_clock pool)) (pp_clock pool) e1"
    unfolding e1_def by (rule alloc_entry_ok) (rule layers_of_bounds)+
  have k: "pool_find rid pool' = (if same_name rid (rn_id r) then Some e1 else pool_find rid pool)" for rid
    by (auto simp: p pool_find_def is_entry_same_name id same_name_def)
  show thesis
    by (rule that [of e1]) (use ok a f k None in \<open>auto simp: p entries_ok_def same_name_def\<close>)
next
  case (Some e)
  show thesis
  proof (cases "pe_last e = pp_clock pool")
    case True
    then have "pool' = pool" using t Some by (simp add: touch_def)
    then show thesis by (intro that [of e]) (use Some ok cur [OF Some True] in auto)
  next
    case False
    obtain e1 d1 where te: "touch_entry (pp_clock pool) (layers_of r) hash (rn_kind r) e d = (e1, d1)" by fastforce
    have p: "pool' = upd_entry (rn_id r) (\<lambda>_. e1) pool" using t Some False te by (simp add: touch_def)
    note T = touch_entry_touched [OF te]
    have E: "e \<in> set (pp_entries pool)" "is_entry_of (rn_id r) e" using pool_find_id [OF Some] by auto
    have e1: "pe_id e1 = pe_id e" "fits (pp_clock pool) r e1"
      using T E(2) by (auto simp: touched_entry_def fits_def is_entry_of_def)
    have ok1: "pentry_ok (Suc (pp_clock pool)) (pp_clock pool) e1"
      by (rule touched_entry_ok [OF T entries_okD [OF ok E(1)] layers_of_bounds])
    have "is_entry_of (rn_id r) e1" using e1(1) E(2) by (simp add: is_entry_of_def)
    note find = find_replaced [OF this]
    have k: "pool_find rid pool' = (if same_name rid (rn_id r) then Some e1 else pool_find rid pool)" for rid
      using find Some by (simp add: p pool_find_def upd_entry_def)
    show thesis
    proof (rule that [of e1])
      show "entries_ok (Suc (pp_clock pool)) (pp_clock pool) pool'" unfolding p by (rule upd_entry_ok [OF ok ok1])
      show "set (pp_entries pool') \<subseteq> insert e1 (set (pp_entries pool))"
        using set_upd_first by (fastforce simp: p upd_entry_def)
    qed (use e1 k Some False in \<open>auto simp: p same_name_def\<close>)
  qed
qed

lemma fits_coherent:
  assumes "coherent rs" "i < length rs" "j < length rs" "pooled (rs ! i)" "pooled (rs ! j)"
    "fits clock (rs ! i) e" "is_entry_of (rn_id (rs ! j)) e"
  shows "fits clock (rs ! j) e"
proof -
  have "same_name (rn_id (rs ! i)) (rn_id (rs ! j))"
    using assms(6,7) by (auto simp: fits_def is_entry_same_name same_name_def)
  then have "pool_part (rs ! i) = pool_part (rs ! j)" using assms(1-5) unfolding coherent_def by blast
  then show ?thesis using assms(6,7) by (simp add: fits_def pool_part_def)
qed

lemma touched_upto_step:
  assumes T: "touched_upto clock rs k pool" and c: "coherent rs" and k: "k < length rs"
    and t: "touch_node (rs ! k) (pool, d) = (pool', d')"
  shows "touched_upto clock rs (Suc k) pool'"
proof (cases "pooled (rs ! k)")
  case False
  then have "pool' = pool" using t by (auto simp: touch_node_def pooled_def)
  then show ?thesis using T False by (auto simp: touched_upto_def less_Suc_eq)
next
  case True
  let ?r = "rs ! k"
  have clk: "pp_clock pool = clock" and ok: "entries_ok (Suc clock) clock pool"
    and src: "\<And>e. e \<in> set (pp_entries pool) \<Longrightarrow> pe_last e = clock \<Longrightarrow> \<exists>j < k. pooled (rs ! j) \<and> fits clock (rs ! j) e"
    and fin: "\<And>j. j < k \<Longrightarrow> pooled (rs ! j) \<Longrightarrow> \<exists>e. pool_find (rn_id (rs ! j)) pool = Some e \<and> pe_last e = clock \<and> grants (rs ! j) e"
    using T by (auto simp: touched_upto_def)
  obtain pool1 d1 where t1: "touch (rn_id ?r) (layers_of ?r) (rn_history_hash ?r) (rn_kind ?r) (pool, d) = (pool1, d1)" by fastforce
  have p: "pool' = upd_entry (rn_id ?r) (add_usage ?r) pool1" using t t1 touch_node_pooled [OF True] by simp
  have cur: "fits clock ?r e" if f: "pool_find (rn_id ?r) pool = Some e" and l: "pe_last e = clock" for e
  proof -
    have e: "e \<in> set (pp_entries pool)" "is_entry_of (rn_id ?r) e" using pool_find_id [OF f] by auto
    obtain j where "j < k" "pooled (rs ! j)" "fits clock (rs ! j) e" using src [OF e(1) l] by blast
    then show ?thesis using fits_coherent [OF c, of j k clock e] k True e(2) by simp
  qed
  obtain e1 where e1: "pool_find (rn_id ?r) pool1 = Some e1" "fits clock ?r e1" "pp_clock pool1 = clock"
    "entries_ok (Suc clock) clock pool1" "set (pp_entries pool1) \<subseteq> insert e1 (set (pp_entries pool))"
    "\<And>rid. \<not> same_name rid (rn_id ?r) \<Longrightarrow> pool_find rid pool1 = pool_find rid pool"
    "\<And>e. pool_find (rn_id ?r) pool = Some e \<Longrightarrow> pe_last e = clock \<Longrightarrow> e1 = e"
    using touch_result [OF t1, unfolded clk, OF ok cur] by metis
  have find: "pool_find rid pool' = (if same_name rid (rn_id ?r) then map_option (add_usage ?r) (pool_find rid pool1) else pool_find rid pool)" for rid
    using pool_find_upd_entry [of "add_usage ?r" rid "rn_id ?r" pool1] e1(6) [of rid] by (simp add: p same_name_def)
  have same: "pool_find rid pool1 = Some e1" if "same_name rid (rn_id ?r)" for rid
  proof -
    have "is_entry_of rid = is_entry_of (rn_id ?r)" using that by (auto simp: is_entry_of_def same_name_def)
    then show ?thesis using e1(1) by (simp add: pool_find_def)
  qed
  have "\<exists>j < Suc k. pooled (rs ! j) \<and> fits clock (rs ! j) e" if e: "e \<in> set (pp_entries pool')" "pe_last e = clock" for e
  proof -
    have "e \<in> set (pp_entries pool1) \<or> e = add_usage ?r e1"
      using set_upd_first [of e "is_entry_of (rn_id ?r)" "add_usage ?r" "pp_entries pool1"] e(1) e1(1)
      by (auto simp: p upd_entry_def pool_find_def)
    then consider "e = e1 \<or> e = add_usage ?r e1" | "e \<in> set (pp_entries pool)" using e1(5) by blast
    then show ?thesis
    proof cases
      case 1
      then show ?thesis using e1(2) True by auto
    next
      case 2
      then show ?thesis using src e(2) less_SucI by blast
    qed
  qed
  moreover have "\<exists>e. pool_find (rn_id (rs ! j)) pool' = Some e \<and> pe_last e = clock \<and> grants (rs ! j) e"
    if j: "j < Suc k" "pooled (rs ! j)" for j
  proof (cases "same_name (rn_id (rs ! j)) (rn_id ?r)")
    case True
    have "grants (rs ! j) (add_usage ?r e1)"
    proof (cases "j = k")
      case True
      then show ?thesis by (simp add: grants_def add_usage_def)
    next
      case False
      then obtain e where e: "pool_find (rn_id (rs ! j)) pool = Some e" "pe_last e = clock" "grants (rs ! j) e"
        using fin [of j] j by auto
      have "is_entry_of (rn_id (rs ! j)) = is_entry_of (rn_id ?r)" using True by (auto simp: is_entry_of_def same_name_def)
      then have "e1 = e" using e1(7) e(1,2) by (simp add: pool_find_def)
      then show ?thesis using e(3) by (auto simp: grants_def add_usage_def)
    qed
    then show ?thesis using True find same e1(2) by (simp add: fits_def)
  next
    case False
    then have "j < k" using j(1) by (cases "j = k") (auto simp: same_name_def)
    then show ?thesis using fin j(2) find False by simp
  qed
  moreover have "entries_ok (Suc clock) clock pool'"
    unfolding p by (rule upd_entry_ok [OF e1(4)]) (use entries_okD [OF e1(4)] pool_find_id in auto)
  ultimately show ?thesis using e1(3) by (simp add: touched_upto_def p)
qed

lemma fold_touch_upto:
  assumes "coherent rs" "persistent_ok pool" "fold touch_node rs (pool, d) = (pool', d')"
  shows "touched_upto (pp_clock pool) rs (length rs) pool'"
proof -
  have "touched_upto (pp_clock pool) rs k (fst (fold touch_node (take k rs) (pool, d)))" if "k \<le> length rs" for k
    using that
  proof (induction k)
    case 0
    have ok: "entries_ok (pp_clock pool) (pp_clock pool) pool" using assms(2) by (simp add: persistent_ok_def)
    then have "pe_last e \<noteq> pp_clock pool" if "e \<in> set (pp_entries pool)" for e
      using entries_okD [OF ok that] by (simp add: pentry_ok_def)
    then show ?case using entries_ok_later [OF ok, of "Suc (pp_clock pool)" "pp_clock pool"] by (auto simp: touched_upto_def)
  next
    case (Suc k)
    obtain p1 d1 where f: "fold touch_node (take k rs) (pool, d) = (p1, d1)" by fastforce
    obtain p2 d2 where t: "touch_node (rs ! k) (p1, d1) = (p2, d2)" by fastforce
    have "fold touch_node (take (Suc k) rs) (pool, d) = (p2, d2)"
      using Suc.prems f t by (simp add: take_Suc_conv_app_nth)
    then show ?case using touched_upto_step [OF _ assms(1) _ t, of "pp_clock pool"] Suc f by simp
  qed
  from this [of "length rs"] show ?thesis using assms(3) by simp
qed

subsection \<open>Realizing\<close>

lemma create_layers_filled:
  assumes "\<And>d. Q (fst (mk d))" "create_layers mk n ls d = (ls', d')"
  shows "length ls' = length ls \<and> (\<forall>j < n. j < length ls \<longrightarrow> Q (ls' ! j))"
  using assms(2)
proof (induction ls arbitrary: n d ls' d')
  case (Cons l ls)
  show ?case
  proof (cases n)
    case 0
    then show ?thesis using Cons.prems by auto
  next
    case (Suc m)
    obtain l1 d1 ls1 d2 where 1: "mk d = (l1, d1)" "create_layers mk m ls d1 = (ls1, d2)" by (meson surj_pair)
    then have r: "ls' = l1 # ls1" using Cons.prems by (simp add: Suc)
    have "Q l1" using assms(1) [of d] 1(1) by simp
    then show ?thesis using Cons.IH [OF 1(2)] by (auto simp: r Suc nth_Cons split: nat.split)
  qed
qed simp

lemma created_layers:
  "layer_filled RK_Texture (fst (create_texture_layer d))" "layer_filled RK_Buffer (fst (create_buffer_layer d))"
  by (simp_all add: layer_filled_def create_texture_layer_def create_buffer_layer_def split_beta Let_def)

lemma would_recreate_part:
  "pool_part r = pool_part q \<Longrightarrow> would_recreate r e = would_recreate q e"
  by (auto simp: pool_part_def would_recreate_def split: if_splits)

lemma realize_entry_result:
  assumes r: "realize_entry clock r e d = (e', d')"
  shows "pe_id e' = pe_id e" "pe_last e' = pe_last e" "pe_prev e' = pe_prev e" "pe_frame e' = pe_frame e" "pe_kind e' = pe_kind e"
    "pe_layers e' = pe_layers e" "grants q e' = grants q e" "\<not> would_recreate r e'"
    "\<not> would_recreate r e \<Longrightarrow> e' = e \<and> d' = d" "would_recreate r e \<Longrightarrow> pe_created_clock e' = Some clock"
    "pentry_ok (Suc clock) (Suc clock) e \<Longrightarrow> pe_kind e = rn_kind r \<Longrightarrow> pentry_ok (Suc clock) (Suc clock) e'"
proof -
  have "pe_id e' = pe_id e \<and> pe_last e' = pe_last e \<and> pe_prev e' = pe_prev e \<and> pe_frame e' = pe_frame e \<and> pe_kind e' = pe_kind e \<and>
    pe_layers e' = pe_layers e \<and> grants q e' = grants q e \<and> \<not> would_recreate r e' \<and>
    (\<not> would_recreate r e \<longrightarrow> e' = e \<and> d' = d) \<and> (would_recreate r e \<longrightarrow> pe_created_clock e' = Some clock)"
    using r by (auto simp: realize_entry_def realize_texture_entry_def realize_buffer_entry_def would_recreate_def
        tex_entry_would_recreate_def buf_entry_would_recreate_def destroy_entry_def grants_def Let_def split: if_splits prod.splits)
  then show "pe_id e' = pe_id e" "pe_last e' = pe_last e" "pe_prev e' = pe_prev e" "pe_frame e' = pe_frame e" "pe_kind e' = pe_kind e"
    "pe_layers e' = pe_layers e" "grants q e' = grants q e" "\<not> would_recreate r e'"
    "\<not> would_recreate r e \<Longrightarrow> e' = e \<and> d' = d" "would_recreate r e \<Longrightarrow> pe_created_clock e' = Some clock"
    by simp_all
  assume ok: "pentry_ok (Suc clock) (Suc clock) e" and k: "pe_kind e = rn_kind r"
  show "pentry_ok (Suc clock) (Suc clock) e'"
  proof (cases "would_recreate r e")
    case False
    then show ?thesis using \<open>\<not> would_recreate r e \<Longrightarrow> e' = e \<and> d' = d\<close> ok by simp
  next
    case True
    define e1 where "e1 = e\<lparr>pe_objects := map (\<lambda>_. no_objects) (pe_objects e), pe_created := False, pe_baked := False\<rparr>"
    define d1 where "d1 = fold destroy_layer (pe_objects e) d"
    have de: "destroy_entry e d = (e1, d1)" by (simp add: destroy_entry_def e1_def d1_def)
    have e1s: "pe_layers e1 = pe_layers e" "length (pe_objects e1) = length (pe_objects e)" "pe_kind e1 = pe_kind e"
      "pe_last e1 = pe_last e" "pe_usage e1 = pe_usage e" "pe_buf_usage e1 = pe_buf_usage e"
      "pe_usage_at_create e1 = pe_usage_at_create e" "pe_buf_usage_at_create e1 = pe_buf_usage_at_create e"
      by (simp_all add: e1_def)
    show ?thesis
    proof (cases "rn_kind r")
      case RK_Texture
      obtain ls d2 where c: "create_layers create_texture_layer (pe_layers e1) (pe_objects e1) d1 = (ls, d2)" by fastforce
      have "e' = e1\<lparr>pe_sig := tex_signature_of r, pe_usage_at_create := pe_usage e1, pe_objects := ls, pe_created := True,
          pe_created_clock := Some clock\<rparr>"
        using r RK_Texture True de c by (simp add: realize_entry_def would_recreate_def realize_texture_entry_def)
      moreover have "length ls = length (pe_objects e) \<and> (\<forall>j < pe_layers e. j < length (pe_objects e) \<longrightarrow> layer_filled RK_Texture (ls ! j))"
        using create_layers_filled [of "layer_filled RK_Texture" create_texture_layer, OF created_layers(1) c] e1s by simp
      ultimately show ?thesis using ok k RK_Texture e1s by (auto simp: pentry_ok_def)
    next
      case RK_Buffer
      obtain ls d2 where c: "create_layers create_buffer_layer (pe_layers e1) (pe_objects e1) d1 = (ls, d2)" by fastforce
      have "e' = e1\<lparr>pe_buffer_size := rn_buffer_size r, pe_buf_usage_at_create := pe_buf_usage e1, pe_objects := ls,
          pe_created := True, pe_created_clock := Some clock\<rparr>"
        using r RK_Buffer True de c by (simp add: realize_entry_def would_recreate_def realize_buffer_entry_def)
      moreover have "length ls = length (pe_objects e) \<and> (\<forall>j < pe_layers e. j < length (pe_objects e) \<longrightarrow> layer_filled RK_Buffer (ls ! j))"
        using create_layers_filled [of "layer_filled RK_Buffer" create_buffer_layer, OF created_layers(2) c] e1s by simp
      ultimately show ?thesis using ok k RK_Buffer e1s by (auto simp: pentry_ok_def)
    qed
  qed
qed

text \<open>After realizing the first \<open>k\<close> nodes, which became \<open>ys\<close>.\<close>

definition realized_upto :: "nat \<Rightarrow> res_node list \<Rightarrow> nat \<Rightarrow> res_node list \<Rightarrow> persistent_pool \<Rightarrow> bool" where
  "realized_upto clock rs k ys pool \<longleftrightarrow>
     pp_clock pool = clock \<and> entries_ok (Suc clock) (Suc clock) pool \<and>
     (\<forall>j < length rs. pooled (rs ! j) \<longrightarrow> (\<exists>e. pool_find (rn_id (rs ! j)) pool = Some e \<and>
        fits clock (rs ! j) e \<and> grants (rs ! j) e \<and> (pe_created_clock e = Some clock \<longrightarrow> \<not> would_recreate (rs ! j) e))) \<and>
     (\<forall>j < k. if pooled (rs ! j)
        then \<exists>e. pool_find (rn_id (rs ! j)) pool = Some e \<and> \<not> would_recreate (rs ! j) e \<and> ys ! j = point_at_layer clock e (rs ! j)
        else ys ! j = rs ! j)"

lemma realized_uptoD:
  assumes "realized_upto clock rs k ys pool"
  shows "pp_clock pool = clock" "entries_ok (Suc clock) (Suc clock) pool"
    "j < length rs \<Longrightarrow> pooled (rs ! j) \<Longrightarrow> \<exists>e. pool_find (rn_id (rs ! j)) pool = Some e \<and>
       fits clock (rs ! j) e \<and> grants (rs ! j) e \<and> (pe_created_clock e = Some clock \<longrightarrow> \<not> would_recreate (rs ! j) e)"
    "j < k \<Longrightarrow> pooled (rs ! j) \<Longrightarrow> \<exists>e. pool_find (rn_id (rs ! j)) pool = Some e \<and> \<not> would_recreate (rs ! j) e \<and>
       ys ! j = point_at_layer clock e (rs ! j)"
    "j < k \<Longrightarrow> \<not> pooled (rs ! j) \<Longrightarrow> ys ! j = rs ! j"
  using assms unfolding realized_upto_def by (simp, simp, blast, presburger, presburger)

lemma realized_upto_start:
  assumes T: "touched_upto clock rs (length rs) pool" and c: "coherent rs"
  shows "realized_upto clock rs 0 [] pool"
proof -
  have "\<exists>e. pool_find (rn_id (rs ! j)) pool = Some e \<and> fits clock (rs ! j) e \<and> grants (rs ! j) e \<and>
      (pe_created_clock e = Some clock \<longrightarrow> \<not> would_recreate (rs ! j) e)" if j: "j < length rs" "pooled (rs ! j)" for j
  proof -
    obtain e where e: "pool_find (rn_id (rs ! j)) pool = Some e" "pe_last e = clock" "grants (rs ! j) e"
      using T j by (auto simp: touched_upto_def)
    have m: "e \<in> set (pp_entries pool)" "is_entry_of (rn_id (rs ! j)) e" using pool_find_id [OF e(1)] by auto
    obtain i where i: "i < length rs" "pooled (rs ! i)" "fits clock (rs ! i) e"
      using T e(2) m(1) by (auto simp: touched_upto_def)
    have "pe_created_clock e \<noteq> Some clock"
      using T entries_okD [OF _ m(1), of "Suc clock" clock] by (auto simp: touched_upto_def pentry_ok_def)
    then show ?thesis using e fits_coherent [OF c i(1) j(1) i(2) j(2) i(3) m(2)] by blast
  qed
  then show ?thesis using T entries_ok_later [of "Suc clock" clock pool "Suc clock" "Suc clock"]
    by (auto simp: touched_upto_def realized_upto_def)
qed

lemma realized_upto_step:
  assumes R: "realized_upto clock rs k ys pool" and c: "coherent rs" and k: "k < length rs" "length ys = k"
  shows "\<exists>y pool' d'. realize_persistent (rs ! k) (pool, d) = Inr (y, pool', d') \<and> realized_upto clock rs (Suc k) (ys @ [y]) pool'"
proof (cases "pooled (rs ! k)")
  case False
  then have "realize_persistent (rs ! k) (pool, d) = Inr (rs ! k, pool, d)" by (auto simp: realize_persistent_def pooled_def)
  moreover have "realized_upto clock rs (Suc k) (ys @ [rs ! k]) pool"
    using R False k(2) by (auto simp: realized_upto_def less_Suc_eq nth_append)
  ultimately show ?thesis by blast
next
  case True
  let ?r = "rs ! k"
  have clk: "pp_clock pool = clock" and ok: "entries_ok (Suc clock) (Suc clock) pool"
    and ent: "\<And>j. j < length rs \<Longrightarrow> pooled (rs ! j) \<Longrightarrow> \<exists>e. pool_find (rn_id (rs ! j)) pool = Some e \<and>
        fits clock (rs ! j) e \<and> grants (rs ! j) e \<and> (pe_created_clock e = Some clock \<longrightarrow> \<not> would_recreate (rs ! j) e)"
    and old: "\<And>j. j < k \<Longrightarrow> if pooled (rs ! j)
        then \<exists>e. pool_find (rn_id (rs ! j)) pool = Some e \<and> \<not> would_recreate (rs ! j) e \<and> ys ! j = point_at_layer clock e (rs ! j)
        else ys ! j = rs ! j"
    using R by (auto simp: realized_upto_def)
  obtain e where e: "pool_find (rn_id ?r) pool = Some e" "fits clock ?r e"
    "pe_created_clock e = Some clock \<longrightarrow> \<not> would_recreate ?r e" using ent [OF k(1) True] by blast
  have m: "e \<in> set (pp_entries pool)" "is_entry_of (rn_id ?r) e" using pool_find_id [OF e(1)] by auto
  note eok = entries_okD [OF ok m(1)]
  obtain e' d' where r: "realize_entry clock ?r e d = (e', d')" by fastforce
  define pool' where "pool' = upd_entry (rn_id ?r) (\<lambda>_. e') pool"
  note E = realize_entry_result [OF r]
  have grew: "usage_grew_only ?r e" using eok by (simp add: usage_grew_only_def pentry_ok_def)
  have step: "realize_persistent ?r (pool, d) = Inr (point_at_layer clock e' ?r, pool', d')"
    using True e(1,3) grew r clk by (auto simp: realize_persistent_def pooled_def pool'_def)
  have id': "is_entry_of (rn_id ?r) e'" using m(2) E(1) by (simp add: is_entry_of_def)
  have find: "pool_find rid pool' = (if same_name rid (rn_id ?r) then Some e' else pool_find rid pool)" for rid
    using find_replaced [OF id', of rid "pp_entries pool"] e(1) by (simp add: pool'_def pool_find_def upd_entry_def)
  have part: "pool_part (rs ! j) = pool_part ?r" if "j < length rs" "pooled (rs ! j)" "same_name (rn_id (rs ! j)) (rn_id ?r)" for j
    using c k(1) True that unfolding coherent_def by blast
  have was: "pool_find (rn_id (rs ! j)) pool = Some e" if "same_name (rn_id (rs ! j)) (rn_id ?r)" for j
  proof -
    have "is_entry_of (rn_id (rs ! j)) = is_entry_of (rn_id ?r)" using that by (auto simp: is_entry_of_def same_name_def)
    then show ?thesis using e(1) by (simp add: pool_find_def)
  qed
  have fits': "fits clock q e'" if "fits clock q e" for q
    using that E(1,2,5,6) by (simp add: fits_def is_entry_of_def)
  have "\<exists>e. pool_find (rn_id (rs ! j)) pool' = Some e \<and> fits clock (rs ! j) e \<and> grants (rs ! j) e \<and>
      (pe_created_clock e = Some clock \<longrightarrow> \<not> would_recreate (rs ! j) e)" if j: "j < length rs" "pooled (rs ! j)" for j
  proof (cases "same_name (rn_id (rs ! j)) (rn_id ?r)")
    case True
    then have "fits clock (rs ! j) e" "grants (rs ! j) e" using ent [OF j] was by auto
    then have "fits clock (rs ! j) e'" "grants (rs ! j) e'" using fits' E(7) by auto
    moreover have "\<not> would_recreate (rs ! j) e'" using would_recreate_part [OF part [OF j True]] E(8) by simp
    ultimately show ?thesis using find True by simp
  next
    case False
    then show ?thesis using ent [OF j] find by simp
  qed
  moreover have "if pooled (rs ! j)
      then \<exists>e. pool_find (rn_id (rs ! j)) pool' = Some e \<and> \<not> would_recreate (rs ! j) e \<and>
             (ys @ [point_at_layer clock e' ?r]) ! j = point_at_layer clock e (rs ! j)
      else (ys @ [point_at_layer clock e' ?r]) ! j = rs ! j" if j: "j < Suc k" for j
  proof (cases "j = k")
    case True
    have n: "(ys @ [point_at_layer clock e' ?r]) ! k = point_at_layer clock e' ?r"
      using nth_append_length [of ys _ "[]"] k(2) by simp
    show ?thesis unfolding True n using \<open>pooled ?r\<close> find [of "rn_id ?r"] E(8) by (simp add: same_name_def)
  next
    case False
    then have jk: "j < k" using j by simp
    then have n: "(ys @ [point_at_layer clock e' ?r]) ! j = ys ! j" using k(2) by (simp add: nth_append)
    show ?thesis
    proof (cases "pooled (rs ! j) \<and> same_name (rn_id (rs ! j)) (rn_id ?r)")
      case True
      then have w: "\<not> would_recreate (rs ! j) e" "ys ! j = point_at_layer clock e (rs ! j)" using old [OF jk] was by auto
      have "pool_part (rs ! j) = pool_part ?r" using part [of j] True jk k(1) by simp
      then have "e' = e" using w(1) E(9) would_recreate_part by metis
      then show ?thesis using True w find n by simp
    next
      case False
      then show ?thesis using old [OF jk] find n by auto
    qed
  qed
  moreover have "entries_ok (Suc clock) (Suc clock) pool'"
    unfolding pool'_def by (rule upd_entry_ok [OF ok]) (use E(11) [OF eok] e(2) in \<open>simp add: fits_def\<close>)
  moreover have "pp_clock pool' = clock" by (simp add: pool'_def clk)
  ultimately have "realized_upto clock rs (Suc k) (ys @ [point_at_layer clock e' ?r]) pool'"
    unfolding realized_upto_def by blast
  then show ?thesis using step by blast
qed

lemma walk_realized:
  assumes "coherent rs" "realized_upto clock rs 0 [] pool"
  shows "\<exists>ys pool' d'. walk realize_persistent rs (pool, d) = (ys, (pool', d'), None) \<and> realized_upto clock rs (length rs) ys pool'"
proof -
  have "\<exists>ys pool' d'. walk realize_persistent vs (p, d) = (ys, (pool', d'), None) \<and> realized_upto clock rs (length rs) (us @ ys) pool'"
    if "realized_upto clock rs k us p" "length us = k" "vs = drop k rs" "k \<le> length rs" for vs us k p d
    using that
  proof (induction vs arbitrary: us k p d)
    case Nil
    then show ?case by simp
  next
    case (Cons v vs)
    have k: "k < length rs" "v = rs ! k" "vs = drop (Suc k) rs"
      using Cons.prems(3) by (metis drop_eq_Nil list.distinct(1) not_le, metis Cons.prems(4) drop_eq_Nil hd_drop_conv_nth list.distinct(1) list.sel(1) not_le,
        metis drop_Suc list.sel(3) tl_drop)
    obtain y p1 d1 where y: "realize_persistent v (p, d) = Inr (y, p1, d1)" "realized_upto clock rs (Suc k) (us @ [y]) p1"
      using realized_upto_step [OF Cons.prems(1) assms(1) k(1) Cons.prems(2)] k(2) by blast
    obtain ys p2 d2 where w: "walk realize_persistent vs (p1, d1) = (ys, (p2, d2), None)" "realized_upto clock rs (length rs) ((us @ [y]) @ ys) p2"
      using Cons.IH [OF y(2) _ k(3), of d1] Cons.prems(2) k(1) by (metis Suc_leI length_append_singleton)
    have "walk realize_persistent (v # vs) (p, d) = (y # ys, (p2, d2), None)" using y(1) w(1) by simp
    then show ?case using w(2) by auto
  qed
  from this [OF assms(2), of rs d] show ?thesis by simp
qed

end
