(* ===== verification/Realize_Total.thy ===== *)
theory Realize_Total
  imports Pool_State
begin

text \<open>
  Realizing a compiled graph in a new frame succeeds: the errors \<open>realize_graph\<close> can report
  are the internal ones its comments call them. Every used resource the graph owns or pools comes
  out with an object, and the two layers of a history resource with different ones.
\<close>

subsection \<open>The declaration behind a compiled node\<close>

definition core :: "res_node \<Rightarrow> res_node" where
  "core r = r\<lparr>rn_resolving := False, rn_resolved_done := False, rn_resolved := extent_zero,
     rn_transient_attachment := False, rn_alias_slot := None, rn_live_accesses := 0, rn_sole_access := None,
     rn_first_use := None, rn_last_use := None, rn_has_writer := False, rn_first_defines := False,
     rn_tex_usage := {}, rn_buf_usage := {}\<rparr>"

lemma core_simps:
  "core (bare r) = core r" "core (unsized r) = core r" "core (noted ts r) = core r"
  by (simp_all add: core_def bare_def unsized_def noted_def)

lemma core_fields:
  assumes "core r = core q"
  shows "rn_handle r = rn_handle q" "rn_id r = rn_id q" "rn_kind r = rn_kind q" "rn_persistent r = rn_persistent q"
    "rn_imported r = rn_imported q" "rn_history r = rn_history q" "rn_history_index r = rn_history_index q"
    "rn_buffer_size r = rn_buffer_size q" "rn_format r = rn_format q" "rn_dimension r = rn_dimension q"
    "rn_mips r = rn_mips q" "rn_samples r = rn_samples q" "rn_history_hash r = rn_history_hash q"
    "rn_imported r = False \<Longrightarrow> size_part r = size_part q" "node_layers r = node_layers q"
    "rn_texture r = rn_texture q" "rn_view r = rn_view q" "rn_buffer r = rn_buffer q"
proof -
  have f: "rn_handle (core x) = rn_handle x" "rn_id (core x) = rn_id x" "rn_kind (core x) = rn_kind x"
    "rn_persistent (core x) = rn_persistent x" "rn_imported (core x) = rn_imported x" "rn_history (core x) = rn_history x"
    "rn_history_index (core x) = rn_history_index x" "rn_buffer_size (core x) = rn_buffer_size x"
    "rn_format (core x) = rn_format x" "rn_dimension (core x) = rn_dimension x" "rn_mips (core x) = rn_mips x"
    "rn_samples (core x) = rn_samples x" "rn_history_hash (core x) = rn_history_hash x"
    "rn_imported x = False \<Longrightarrow> size_part (core x) = size_part x" "node_layers (core x) = node_layers x"
    "rn_texture (core x) = rn_texture x" "rn_view (core x) = rn_view x" "rn_buffer (core x) = rn_buffer x" for x
    by (simp_all add: core_def size_part_def node_layers_def)
  show "rn_handle r = rn_handle q" "rn_id r = rn_id q" "rn_kind r = rn_kind q" "rn_persistent r = rn_persistent q"
    "rn_imported r = rn_imported q" "rn_history r = rn_history q" "rn_history_index r = rn_history_index q"
    "rn_buffer_size r = rn_buffer_size q" "rn_format r = rn_format q" "rn_dimension r = rn_dimension q"
    "rn_mips r = rn_mips q" "rn_samples r = rn_samples q" "rn_history_hash r = rn_history_hash q"
    "node_layers r = node_layers q" "rn_texture r = rn_texture q" "rn_view r = rn_view q" "rn_buffer r = rn_buffer q"
    using assms f by metis+
  assume "rn_imported r = False"
  then show "size_part r = size_part q" using assms f(5,14) by metis
qed

lemma compiled_core:
  assumes ok: "recorded_ok (it, g)" and c: "compile_impl pool enable g = Some g'" and s: "g_state g' = RG_Compiled"
    and n: "n < length (g_nodes g')"
  shows "core (g_nodes g' ! n) = core (g_nodes g ! n)"
proof -
  note I = compiled_ids [OF ok c s n]
  have "unnoted (g_nodes g ! n)" using recorded_unnoted [OF ok nth_mem [OF I(1)]] by blast
  from compiled_node [OF c s I(1) this] show ?thesis using core_simps by metis
qed

subsection \<open>One name, one descriptor\<close>

lemma sized_twin:
  assumes "L i = Some r" "L j = Some q" "size_part r = size_part q" "\<not> rn_imported r" "sized L i C e" "sized L j D e'"
  shows "e = e'"
proof -
  note E = size_part_eqD [OF assms(3)]
  show ?thesis
  proof (cases "rn_size_kind r")
    case SK_Absolute
    have "sized L i [] (mk_extent (rn_width r) (rn_height r) (rn_depth_or_layers r))"
      "sized L j [] (mk_extent (rn_width q) (rn_height q) (rn_depth_or_layers q))"
      using sized_absolute [of L i r] sized_absolute [of L j q] assms(1,2,4) SK_Absolute E(1,2) by simp_all
    then show ?thesis using sized_unique assms(5,6) E(4) by metis
  next
    case SK_Relative
    obtain C1 b where b: "e = scaled_size r b" "sized L (h_id (rn_relative_to r)) C1 b"
      using sized_relative_inv [OF assms(1,4) SK_Relative assms(5)] by blast
    obtain D1 b' where b': "e' = scaled_size q b'" "sized L (h_id (rn_relative_to q)) D1 b'"
      using sized_relative_inv [OF assms(2) _ _ assms(6)] assms(4) SK_Relative E(1,2) by auto
    have "b' = b" using sized_unique [OF b(2) b'(2) [folded E(3)]] by simp
    then show ?thesis using b(1) b'(1) E(5) by simp
  qed
qed

lemma same_name_rid_eq:
  assumes "interner_ok it" "id_in_table it a" "id_in_table it b" "same_name a b"
  shows "rid_eq a b"
proof -
  obtain p where p: "rid_data a = Some p" "(p, rid_chars a) \<in> interned it"
    using assms(2) by (auto simp: id_in_table_def split: option.splits)
  then have "(p, rid_chars b) \<in> interned it"
    using assms(3,4) by (auto simp: id_in_table_def same_name_def split: option.splits)
  then have "rid_chars a = rid_chars b" using interner_okD(5) [OF assms(1) p(2)] by blast
  then show ?thesis using assms(4) by (simp add: rid_eq_def same_name_def)
qed

lemma declared_twins:
  assumes d: "declared_list rs" and i: "i < length rs" "j < length rs" "rid_eq (rn_id (rs ! i)) (rn_id (rs ! j))"
    and lt: "i < j"
  shows "rs ! j = (rs ! i)\<lparr>rn_handle := rn_handle (rs ! j), rn_history_index := 1\<rparr>"
proof -
  have 1: "j = Suc i" "rn_history (rs ! i)" "rn_history_index (rs ! i) = 0"
    using declared_one_name [OF d i(1,2) lt i(3)] by auto
  show ?thesis using declared_pairs [OF d i(1) 1(2)] 1 by auto
qed

lemma compiled_coherent:
  assumes ok: "recorded_ok (it, g)" and c: "compile_impl pool enable g = Some g'" and s: "g_state g' = RG_Compiled"
  shows "coherent (g_nodes g')"
proof -
  have half: "pool_part (g_nodes g' ! i) = pool_part (g_nodes g' ! j)"
    if ij: "i < length (g_nodes g')" "j < length (g_nodes g')" "i < j"
      and nm: "same_name (rn_id (g_nodes g' ! i)) (rn_id (g_nodes g' ! j))"
      and pi: "pooled (g_nodes g' ! i)" and pj: "pooled (g_nodes g' ! j)" for i j
  proof -
    let ?r = "g_nodes g ! i" and ?q = "g_nodes g ! j" and ?r' = "g_nodes g' ! i" and ?q' = "g_nodes g' ! j"
    have l: "i < length (g_nodes g)" "j < length (g_nodes g)"
      using compiled_ids(1) [OF ok c s] ij by blast+
    note Fi = core_fields [OF compiled_core [OF ok c s ij(1)]]
    note Fj = core_fields [OF compiled_core [OF ok c s ij(2)]]
    have d: "node_declared it (g_generation g) ?r" "node_declared it (g_generation g) ?q"
      using recorded_okD(7) [OF ok] l by (simp_all add: list_all_length)
    have "rid_eq (rn_id ?r) (rn_id ?q)"
      by (rule same_name_rid_eq [OF recorded_okD(1) [OF ok]]) (use d nm Fi(2) Fj(2) in \<open>simp_all add: node_declared_def\<close>)
    then have tw: "?q = ?r\<lparr>rn_handle := rn_handle ?q, rn_history_index := 1\<rparr>"
      using declared_twins [OF recorded_okD(8) [OF ok] l] ij(3) by blast
    have F: "rn_kind ?q = rn_kind ?r" "rn_history ?q = rn_history ?r" "rn_buffer_size ?q = rn_buffer_size ?r"
      "rn_format ?q = rn_format ?r" "rn_dimension ?q = rn_dimension ?r" "rn_mips ?q = rn_mips ?r"
      "rn_samples ?q = rn_samples ?r" "size_part ?q = size_part ?r"
      by (subst tw, simp add: size_part_def)+
    have ni: "\<not> rn_imported ?r" using d(1) pi Fi(4) by (simp add: pooled_def node_declared_def)
    have res: "rn_resolved ?r' = rn_resolved ?q'" if t: "rn_kind ?r = RK_Texture"
    proof -
      have k: "rn_kind ?r' = RK_Texture" "rn_kind ?q' = RK_Texture" using t F(1) Fi(3) Fj(3) by simp_all
      obtain C where C: "sized (find_node g) (h_id (rn_handle ?r')) C (rn_resolved ?r')"
        using compiled_sizes [OF ok c s nth_mem [OF ij(1)] k(1)] by blast
      obtain D where D: "sized (find_node g) (h_id (rn_handle ?q')) D (rn_resolved ?q')"
        using compiled_sizes [OF ok c s nth_mem [OF ij(2)] k(2)] by blast
      have find: "find_node g (h_id (rn_handle ?r')) = Some ?r" "find_node g (h_id (rn_handle ?q')) = Some ?q"
        using ids_ok_find_self [OF recorded_okD(2) [OF ok]] nth_mem l Fi(1) Fj(1) by simp_all
      show ?thesis by (rule sized_twin [of "find_node g" _ ?r _ ?q, OF find F(8) [symmetric] ni C D])
    qed
    have "tex_signature_of ?r' = tex_signature_of ?q'" if "rn_kind ?r = RK_Texture"
      using res [OF that] Fi Fj F by (simp add: tex_signature_of_def)
    then show ?thesis using Fi Fj F by (simp add: pool_part_def layers_of_def)
  qed
  show ?thesis unfolding coherent_def
  proof (intro allI impI)
    fix i j assume ij: "i < length (g_nodes g')" "j < length (g_nodes g')" "pooled (g_nodes g' ! i)" "pooled (g_nodes g' ! j)"
      and nm: "same_name (rn_id (g_nodes g' ! i)) (rn_id (g_nodes g' ! j))"
    then have mn: "same_name (rn_id (g_nodes g' ! j)) (rn_id (g_nodes g' ! i))" by (simp add: same_name_def)
    consider "i < j" | "j < i" | "i = j" by linarith
    then show "pool_part (g_nodes g' ! i) = pool_part (g_nodes g' ! j)"
    proof cases
      case 1
      show ?thesis by (rule half [OF ij(1,2) 1 nm ij(3,4)])
    next
      case 2
      show ?thesis by (rule half [OF ij(2,1) 2 mn ij(4,3), symmetric])
    next
      case 3
      then show ?thesis by simp
    qed
  qed
qed

subsection \<open>What realizing leaves alone\<close>

definition unrealized :: "res_node \<Rightarrow> res_node" where
  "unrealized r = r\<lparr>rn_texture := None, rn_view := None, rn_buffer := None, rn_history_valid := False\<rparr>"

lemma unrealized_fields:
  assumes "unrealized r = unrealized q"
  shows "rn_handle r = rn_handle q" "rn_id r = rn_id q" "rn_kind r = rn_kind q" "rn_persistent r = rn_persistent q"
    "is_external r = is_external q" "rn_tex_usage r = rn_tex_usage q" "rn_buf_usage r = rn_buf_usage q"
    "rn_alias_slot r = rn_alias_slot q" "pool_used r = pool_used q" "pooled r = pooled q"
    "rn_first_use r = rn_first_use q" "rn_last_use r = rn_last_use q" "rn_transient_attachment r = rn_transient_attachment q"
    "tex_signature_of r = tex_signature_of q" "rn_history r = rn_history q" "rn_history_index r = rn_history_index q"
    "rn_buffer_size r = rn_buffer_size q" "rn_imported r = rn_imported q"
proof -
  have f: "rn_handle (unrealized x) = rn_handle x" "rn_id (unrealized x) = rn_id x" "rn_kind (unrealized x) = rn_kind x"
    "rn_persistent (unrealized x) = rn_persistent x" "is_external (unrealized x) = is_external x"
    "rn_tex_usage (unrealized x) = rn_tex_usage x" "rn_buf_usage (unrealized x) = rn_buf_usage x"
    "rn_alias_slot (unrealized x) = rn_alias_slot x" "pool_used (unrealized x) = pool_used x" "pooled (unrealized x) = pooled x"
    "rn_first_use (unrealized x) = rn_first_use x" "rn_last_use (unrealized x) = rn_last_use x"
    "rn_transient_attachment (unrealized x) = rn_transient_attachment x"
    "tex_signature_of (unrealized x) = tex_signature_of x" "rn_history (unrealized x) = rn_history x"
    "rn_history_index (unrealized x) = rn_history_index x" "rn_buffer_size (unrealized x) = rn_buffer_size x"
    "rn_imported (unrealized x) = rn_imported x" for x
    by (simp_all add: unrealized_def is_external_def pool_used_def pooled_def tex_signature_of_def)
  show "rn_handle r = rn_handle q" "rn_id r = rn_id q" "rn_kind r = rn_kind q" "rn_persistent r = rn_persistent q"
    "is_external r = is_external q" "rn_tex_usage r = rn_tex_usage q" "rn_buf_usage r = rn_buf_usage q"
    "rn_alias_slot r = rn_alias_slot q" "pool_used r = pool_used q" "pooled r = pooled q"
    "rn_first_use r = rn_first_use q" "rn_last_use r = rn_last_use q" "rn_transient_attachment r = rn_transient_attachment q"
    "tex_signature_of r = tex_signature_of q" "rn_history r = rn_history q" "rn_history_index r = rn_history_index q"
    "rn_buffer_size r = rn_buffer_size q" "rn_imported r = rn_imported q"
    using assms f by metis+
qed

lemma unrealized_upd:
  "unrealized (point_at_layer c e r) = unrealized r" "unrealized (point_at_slot phs r) = unrealized r"
  "realize_persistent r st = Inr (y, st') \<Longrightarrow> unrealized y = unrealized r"
  "realize_texture b r td = Inr (y, td') \<Longrightarrow> unrealized y = unrealized r"
  "realize_buffer r td = Inr (y, td') \<Longrightarrow> unrealized y = unrealized r"
proof -
  show 1: "unrealized (point_at_layer c e r) = unrealized r" for c e by (simp add: unrealized_def point_at_layer_def Let_def)
  show "unrealized (point_at_slot phs r) = unrealized r" by (simp add: unrealized_def point_at_slot_def split: option.split)
  show "realize_persistent r st = Inr (y, st') \<Longrightarrow> unrealized y = unrealized r"
    using 1 by (auto simp: realize_persistent_def split: if_splits option.splits prod.splits)
  show "realize_texture b r td = Inr (y, td') \<Longrightarrow> unrealized y = unrealized r"
    by (auto simp: realize_texture_def unrealized_def Let_def split: if_splits prod.splits)
  show "realize_buffer r td = Inr (y, td') \<Longrightarrow> unrealized y = unrealized r"
    by (auto simp: realize_buffer_def unrealized_def split: if_splits prod.splits)
qed

lemma walk_map:
  assumes "walk f xs s = (ys, s', e)" "\<And>x s y s'. f x s = Inr (y, s') \<Longrightarrow> h y = h x"
  shows "map h ys = map h xs"
  using assms(1)
proof (induction xs arbitrary: s ys)
  case (Cons x xs)
  show ?case
  proof (cases "f x s")
    case (Inr yt)
    obtain y t where yt: "yt = (y, t)" by (cases yt)
    obtain zs t' e' where r: "walk f xs t = (zs, t', e')" by (metis prod_cases3)
    then have e: "t' = s'" "e' = e" "ys = y # zs" using Cons.prems Inr yt by auto
    show ?thesis using Cons.IH [OF r [unfolded e]] Inr yt assms(2) e(3) by simp
  qed (use Cons.prems in auto)
qed simp

subsection \<open>The run of \<open>realize_graph\<close>\<close>

text \<open>\<open>realization b g al d\<close> and what its loops computed: the nodes after the persistent
  loop, the slots, the nodes of the transient textures and of the transient buffers.\<close>

definition realization ::
  "bool \<Rightarrow> exec \<Rightarrow> persistent_pool \<Rightarrow> res_node list \<Rightarrow> (nat \<times> phys) list \<Rightarrow> res_node list \<Rightarrow> res_node list \<Rightarrow>
   transient_pool \<times> device \<Rightarrow> transient_pool \<times> device \<Rightarrow> transient_pool \<times> device \<Rightarrow> transient_pool \<times> device \<Rightarrow> bool" where
  "realization b x pool rs1 phs rs3 rs4 st1 st2 st3 st4 \<longleftrightarrow>
     (let g = ex_graph x; al = ex_alloc x in
      walk realize_persistent (g_nodes g) (fold touch_node (g_nodes g) (al_pool al, ex_device x)) = (rs1, (pool, snd st1), None) \<and>
      fst st1 = al_transient al \<and>
      walk realize_slot (enumerate 0 (g_slots g)) st1 = (phs, st2, None) \<and>
      walk (realize_texture b) (map (point_at_slot (map snd phs)) rs1) st2 = (rs3, st3, None) \<and>
      walk realize_buffer rs3 st3 = (rs4, st4, None))"

lemma realize_graph_run:
  assumes "realization b x pool rs1 phs rs3 rs4 st1 st2 st3 st4" "g_state (ex_graph x) = RG_Compiled"
  shows "ex_graph (realize_graph b x) = (ex_graph x)\<lparr>g_nodes := rs4, g_slots := map snd phs\<rparr>"
    "al_pool (ex_alloc (realize_graph b x)) = pool"
    "transient_state (realize_graph b x) = st4"
proof -
  define x0 where "x0 = x\<lparr>ex_alloc := (ex_alloc x)\<lparr>al_transient_feature := b\<rparr>\<rparr>"
  define x1 where "x1 = rz_persistent (rz_touch x0)"
  define x2 where "x2 = rz_slots x1"
  define x3 where "x3 = rz_textures b (rz_members x2)"
  define x4 where "x4 = rz_buffers x3"
  have R: "walk realize_persistent (g_nodes (ex_graph x)) (fold touch_node (g_nodes (ex_graph x)) (al_pool (ex_alloc x), ex_device x)) = (rs1, (pool, snd st1), None)"
    "fst st1 = al_transient (ex_alloc x)" "walk realize_slot (enumerate 0 (g_slots (ex_graph x))) st1 = (phs, st2, None)"
    "walk (realize_texture b) (map (point_at_slot (map snd phs)) rs1) st2 = (rs3, st3, None)"
    "walk realize_buffer rs3 st3 = (rs4, st4, None)"
    using assms(1) by (simp_all add: realization_def Let_def)
  have t: "ex_graph (rz_touch x0) = ex_graph x" "al_transient (ex_alloc (rz_touch x0)) = al_transient (ex_alloc x)"
    "pool_state (rz_touch x0) = fold touch_node (g_nodes (ex_graph x)) (al_pool (ex_alloc x), ex_device x)"
    by (simp_all add: rz_touch_def x0_def pool_state_def put_pool_def)
  note W = R(1) [folded t(3), folded t(1)]
  have 1: "ex_graph x1 = (ex_graph x)\<lparr>g_nodes := rs1\<rparr>" "al_pool (ex_alloc x1) = pool" "transient_state x1 = st1"
    using t(1,2) R(2) unfolding x1_def rz_persistent_def W
    by (simp_all add: stop_on_def put_nodes_def put_pool_def transient_state_def prod_eq_iff)
  have 2: "ex_graph x2 = (ex_graph x)\<lparr>g_nodes := rs1, g_slots := map snd phs\<rparr>" "al_pool (ex_alloc x2) = pool" "transient_state x2 = st2"
    using 1 R(3) unfolding x2_def rz_slots_def
    by (simp_all add: stop_on_def put_transients_def transient_state_def)
  have m: "ex_graph (rz_members x2) = (ex_graph x)\<lparr>g_nodes := map (point_at_slot (map snd phs)) rs1, g_slots := map snd phs\<rparr>"
    "al_pool (ex_alloc (rz_members x2)) = pool" "transient_state (rz_members x2) = st2"
    using 2 by (simp_all add: rz_members_def put_nodes_def transient_state_def)
  have 3: "ex_graph x3 = (ex_graph x)\<lparr>g_nodes := rs3, g_slots := map snd phs\<rparr>" "al_pool (ex_alloc x3) = pool" "transient_state x3 = st3"
    using m R(4) unfolding x3_def rz_textures_def
    by (simp_all add: stop_on_def put_nodes_def put_transients_def transient_state_def)
  have 4: "ex_graph x4 = (ex_graph x)\<lparr>g_nodes := rs4, g_slots := map snd phs\<rparr>" "al_pool (ex_alloc x4) = pool" "transient_state x4 = st4"
    using 3 R(5) unfolding x4_def rz_buffers_def
    by (simp_all add: stop_on_def put_nodes_def put_transients_def transient_state_def)
  have e: "realize_graph b x = rz_subviews x4"
    using assms(2) 1(1) 2(1) 4(1)
    by (simp add: realize_graph_def Let_def unless_stopped_def x0_def [symmetric] x1_def [symmetric] x2_def [symmetric]
        x3_def [symmetric] x4_def [symmetric])
  show "ex_graph (realize_graph b x) = (ex_graph x)\<lparr>g_nodes := rs4, g_slots := map snd phs\<rparr>"
    "al_pool (ex_alloc (realize_graph b x)) = pool" "transient_state (realize_graph b x) = st4"
    using 4 by (simp_all add: e rz_subviews_def transient_state_def)
qed

end
