(* ===== verification/Realize_Objects.thy ===== *)
theory Realize_Objects
  imports Realize_Total
begin

text \<open>
  The objects a compiled graph is realized with: that there always are some, which nodes may
  share one, and what survives the release at the end of the graph.
\<close>

definition node_object :: "res_node \<Rightarrow> gpu_ref" where
  "node_object r = (if rn_kind r = RK_Texture then rn_texture r else rn_buffer r)"

definition slot_object :: "nat \<times> phys \<Rightarrow> gpu_ref" where
  "slot_object iph = (if ph_kind (snd iph) = RK_Texture then ph_texture (snd iph) else ph_buffer (snd iph))"

text \<open>The nodes with a texture, or a buffer, of their own.\<close>

definition own_texture :: "res_node \<Rightarrow> bool" where
  "own_texture r \<longleftrightarrow> \<not> is_external r \<and> rn_kind r = RK_Texture \<and> rn_tex_usage r \<noteq> {} \<and> rn_alias_slot r = None"

definition own_buffer :: "res_node \<Rightarrow> bool" where
  "own_buffer r \<longleftrightarrow> \<not> is_external r \<and> rn_kind r = RK_Buffer \<and> rn_buf_usage r \<noteq> {} \<and> rn_alias_slot r = None"

lemma own_unrealized: "unrealized r = unrealized q \<Longrightarrow> own_texture r = own_texture q \<and> own_buffer r = own_buffer q"
  using unrealized_fields [of r q] by (simp add: own_texture_def own_buffer_def)

subsection \<open>Each loop takes what it needs\<close>

lemma realize_slot_takes:
  assumes "pool_good st" "realize_slot iph st = Inr (y, st')"
  shows "\<exists>v. slot_object y = Some v \<and> takes st [v] st'" "fst y = fst iph" "ph_kind (snd y) = ph_kind (snd iph)"
proof -
  obtain i ph where x: "iph = (i, ph)" by (cases iph)
  show "\<exists>v. slot_object y = Some v \<and> takes st [v] st'"
  proof (cases "ph_kind ph = RK_Texture")
    case True
    obtain t v st1 where a: "acquire_texture (ph_sig ph) (ph_tex_usage ph) (ph_identity ph) st = ((t, v), st1)" by (metis prod.collapse)
    show ?thesis using takes_texture [OF assms(1) a] assms(2) a True by (auto simp: realize_slot_def x slot_object_def)
  next
    case False
    obtain b st1 where a: "acquire_buffer (ph_buffer_size ph) (ph_buf_usage ph) (ph_identity ph) st = (b, st1)" by (metis prod.collapse)
    show ?thesis using takes_buffer [OF assms(1) a] assms(2) a False
      by (auto simp: realize_slot_def x slot_object_def split: if_splits)
  qed
  show "fst y = fst iph" "ph_kind (snd y) = ph_kind (snd iph)"
    using assms(2) by (auto simp: realize_slot_def x split: if_splits prod.splits)
qed

lemma realize_texture_takes:
  assumes "pool_good st" "realize_texture b r st = Inr (y, st')"
  shows "own_texture y = own_texture r \<and> (if own_texture r then \<exists>v. rn_texture y = Some v \<and> takes st [v] st' else y = r \<and> st' = st)"
proof -
  have o: "own_texture y = own_texture r" using own_unrealized [OF unrealized_upd(4) [OF assms(2)]] by blast
  show ?thesis
  proof (cases "own_texture r")
    case True
    define u where "u = (if b \<and> rn_transient_attachment r then rn_tex_usage r \<union> {TU_TransientAttachment} else rn_tex_usage r)"
    obtain t v st1 where a: "acquire_texture (tex_signature_of r) u (rid_data (rn_id r)) st = ((t, v), st1)" by (metis prod.collapse)
    have "realize_texture b r st = Inr (r\<lparr>rn_texture := t, rn_view := v\<rparr>, st1)"
      using True a unfolding u_def by (simp add: realize_texture_def own_texture_def Let_def)
    then show ?thesis using takes_texture [OF assms(1) a] assms(2) o True by auto
  next
    case False
    then show ?thesis using assms(2) o by (auto simp: realize_texture_def own_texture_def split: if_splits)
  qed
qed

lemma realize_buffer_takes:
  assumes "pool_good st" "realize_buffer r st = Inr (y, st')"
  shows "own_buffer y = own_buffer r \<and> (if own_buffer r then \<exists>v. rn_buffer y = Some v \<and> takes st [v] st' else y = r \<and> st' = st)"
proof -
  have o: "own_buffer y = own_buffer r" using own_unrealized [OF unrealized_upd(5) [OF assms(2)]] by blast
  show ?thesis
  proof (cases "own_buffer r")
    case True
    obtain t st1 where a: "acquire_buffer (rn_buffer_size r) (rn_buf_usage r) (rid_data (rn_id r)) st = (t, st1)" by (metis prod.collapse)
    show ?thesis using takes_buffer [OF assms(1) a] assms(2) o True a
      by (auto simp: realize_buffer_def own_buffer_def split: if_splits)
  next
    case False
    then show ?thesis using assms(2) o by (auto simp: realize_buffer_def own_buffer_def split: if_splits)
  qed
qed

subsection \<open>It runs to the end\<close>

lemma realization_exists:
  assumes ok: "recorded_ok (it, g)" and c: "compile_impl pool0 enable g = Some g'" and s: "g_state g' = RG_Compiled"
    and x: "ex_graph x = g'" and p: "persistent_ok (al_pool (ex_alloc x))"
  shows "\<exists>pool rs1 phs rs3 rs4 st1 st2 st3 st4. realization b x pool rs1 phs rs3 rs4 st1 st2 st3 st4 \<and>
     realized_upto (pp_clock (al_pool (ex_alloc x))) (g_nodes g') (length (g_nodes g')) rs1 pool"
proof -
  let ?ns = "g_nodes g'"
  have co: "coherent ?ns" by (rule compiled_coherent [OF ok c s])
  obtain p0 d0 where f: "fold touch_node ?ns (al_pool (ex_alloc x), ex_device x) = (p0, d0)" by fastforce
  have "realized_upto (pp_clock (al_pool (ex_alloc x))) ?ns 0 [] p0"
    by (rule realized_upto_start [OF fold_touch_upto [OF co p f] co])
  then obtain rs1 pool d1 where w: "walk realize_persistent ?ns (p0, d0) = (rs1, (pool, d1), None)"
    and R: "realized_upto (pp_clock (al_pool (ex_alloc x))) ?ns (length ?ns) rs1 pool"
    using walk_realized [OF co] by blast
  let ?st1 = "(al_transient (ex_alloc x), d1)"
  have "\<exists>y st'. realize_slot iph st = Inr (y, st') \<and> True" if "iph \<in> set (enumerate 0 (g_slots g'))" for iph st
  proof -
    have "snd iph \<in> snd ` set (enumerate 0 (g_slots g'))" using that by (rule imageI)
    then have "snd iph \<in> set (g_slots g')" unfolding set_map [symmetric] by (simp add: map_snd_enumerate)
    then have "\<not> is_mappable (ph_buf_usage (snd iph))"
      using compiled_fresh_slots [OF ok c s] by (simp add: list_all_iff fresh_slot_def)
    then show ?thesis by (cases iph) (simp add: realize_slot_def split_beta Let_def)
  qed
  then obtain phs st2 where sl: "walk realize_slot (enumerate 0 (g_slots g')) ?st1 = (phs, st2, None)"
    using walk_total [of "enumerate 0 (g_slots g')" "\<lambda>_. True" realize_slot ?st1] by blast
  let ?rs2 = "map (point_at_slot (map snd phs)) rs1"
  have "\<exists>y st'. realize_texture b r st = Inr (y, st') \<and> True" for r st
    by (simp add: realize_texture_def split_beta Let_def)
  then obtain rs3 st3 where t: "walk (realize_texture b) ?rs2 st2 = (rs3, st3, None)"
    using walk_total [of ?rs2 "\<lambda>_. True" "realize_texture b" st2] by blast
  have "map unrealized rs3 = map unrealized ?rs2" using walk_map [OF t] unrealized_upd(4) by blast
  also have "\<dots> = map unrealized rs1" by (simp add: unrealized_upd(2) comp_def)
  also have "\<dots> = map unrealized ?ns" using walk_map [OF w] unrealized_upd(3) by blast
  finally have u: "map unrealized rs3 = map unrealized ?ns" .
  have "\<exists>y st'. realize_buffer r st = Inr (y, st') \<and> True" if "r \<in> set rs3" for r st
  proof -
    have "unrealized r \<in> set (map unrealized rs3)" using that by simp
    then obtain q where q: "q \<in> set ?ns" "unrealized r = unrealized q" unfolding u by auto
    then have "\<not> is_mappable (rn_buf_usage r)"
      using compiled_usage(1) [OF ok c s q(1)] unrealized_fields(7) [OF q(2)] by (simp add: unmappable_def)
    then show ?thesis by (simp add: realize_buffer_def split_beta Let_def)
  qed
  then obtain rs4 st4 where bu: "walk realize_buffer rs3 st3 = (rs4, st4, None)"
    using walk_total [of rs3 "\<lambda>_. True" realize_buffer st3] by blast
  have "realization b x pool rs1 phs rs3 rs4 ?st1 st2 st3 st4"
    using f w sl t bu by (simp add: realization_def x)
  then show ?thesis using R by blast
qed

lemma realization_nodes:
  assumes "realization b x pool rs1 phs rs3 rs4 st1 st2 st3 st4"
  shows "map unrealized rs1 = map unrealized (g_nodes (ex_graph x))" "map unrealized rs3 = map unrealized (g_nodes (ex_graph x))"
    "map unrealized rs4 = map unrealized (g_nodes (ex_graph x))" "length phs = length (g_slots (ex_graph x))"
proof -
  have w: "walk realize_persistent (g_nodes (ex_graph x)) (fold touch_node (g_nodes (ex_graph x)) (al_pool (ex_alloc x), ex_device x)) = (rs1, (pool, snd st1), None)"
    "walk realize_slot (enumerate 0 (g_slots (ex_graph x))) st1 = (phs, st2, None)"
    "walk (realize_texture b) (map (point_at_slot (map snd phs)) rs1) st2 = (rs3, st3, None)"
    "walk realize_buffer rs3 st3 = (rs4, st4, None)"
    using assms by (simp_all add: realization_def Let_def)
  show 1: "map unrealized rs1 = map unrealized (g_nodes (ex_graph x))" using walk_map [OF w(1)] unrealized_upd(3) by blast
  have "map unrealized rs3 = map unrealized (map (point_at_slot (map snd phs)) rs1)" using walk_map [OF w(3)] unrealized_upd(4) by blast
  then show 3: "map unrealized rs3 = map unrealized (g_nodes (ex_graph x))" using 1 by (simp add: unrealized_upd(2) comp_def)
  have "map unrealized rs4 = map unrealized rs3" using walk_map [OF w(4)] unrealized_upd(5) by blast
  then show "map unrealized rs4 = map unrealized (g_nodes (ex_graph x))" using 3 by simp
  show "length phs = length (g_slots (ex_graph x))" using walk_length [OF w(2)] by simp
qed

subsection \<open>Objects and sharing\<close>

definition exec_good :: "exec \<Rightarrow> bool" where
  "exec_good x \<longleftrightarrow> allocator_ok (ex_alloc x) \<and> accounts (allocator_owned (ex_alloc x)) (ex_device x)"

lemma exec_good_hands: "exec_hands x y \<Longrightarrow> exec_good x \<Longrightarrow> exec_good y"
  unfolding exec_good_def exec_hands_def hand_over_def by (metis append_Nil2)

lemma accounts_suffix: "accounts (xs @ ys) d \<Longrightarrow> accounts ys d"
  by (auto simp: accounts_def)

lemma realization_good:
  assumes "realization b x pool rs1 phs rs3 rs4 st1 st2 st3 st4" "exec_good x"
  shows "pool_good st1"
proof -
  have w: "walk realize_persistent (g_nodes (ex_graph x)) (fold touch_node (g_nodes (ex_graph x)) (al_pool (ex_alloc x), ex_device x)) = (rs1, (pool, snd st1), None)"
    "fst st1 = al_transient (ex_alloc x)"
    using assms(1) by (simp_all add: realization_def Let_def)
  obtain p0 d0 where f: "fold touch_node (g_nodes (ex_graph x)) (al_pool (ex_alloc x), ex_device x) = (p0, d0)" by fastforce
  have "hand_over (persistent_owned p0) (persistent_owned pool) d0 (snd st1)"
    using walk_hands [of realize_persistent "g_nodes (ex_graph x)" p0 d0 rs1 pool "snd st1" None "\<lambda>_. True"]
      w(1) f realize_persistent_hands by auto
  then have "hand_over (persistent_owned (al_pool (ex_alloc x))) (persistent_owned pool) (ex_device x) (snd st1)"
    using fold_touch_hands [OF f] hand_over_trans by blast
  then have "accounts (persistent_owned pool @ transient_owned (al_transient (ex_alloc x))) (snd st1)"
    using assms(2) unfolding hand_over_def exec_good_def allocator_owned_def by blast
  then have "accounts (transient_owned (al_transient (ex_alloc x))) (snd st1)" by (rule accounts_suffix)
  then show ?thesis using assms(2) w(2) by (simp add: pool_good_def exec_good_def allocator_ok_def)
qed

lemma map_nth_eq: "map h xs = map h ys \<Longrightarrow> n < length ys \<Longrightarrow> h (xs ! n) = h (ys ! n)"
  by (metis length_map nth_map)

text \<open>Where the object of each node comes from.\<close>

lemma realization_sources:
  assumes R: "realization b x pool rs1 phs rs3 rs4 st1 st2 st3 st4" and g: "pool_good st1"
  shows "takes st1 (taken slot_object (\<lambda>_. True) phs @ taken rn_texture own_texture rs3 @ taken rn_buffer own_buffer rs4) st4"
    "k < length phs \<Longrightarrow> slot_object (phs ! k) \<noteq> None \<and> ph_kind (snd (phs ! k)) = ph_kind (g_slots (ex_graph x) ! k)"
    "n < length (g_nodes (ex_graph x)) \<Longrightarrow> own_texture (g_nodes (ex_graph x) ! n) \<Longrightarrow>
       rn_texture (rs3 ! n) \<noteq> None \<and> rs4 ! n = rs3 ! n"
    "n < length (g_nodes (ex_graph x)) \<Longrightarrow> own_buffer (g_nodes (ex_graph x) ! n) \<Longrightarrow> rn_buffer (rs4 ! n) \<noteq> None"
    "n < length (g_nodes (ex_graph x)) \<Longrightarrow> \<not> own_texture (g_nodes (ex_graph x) ! n) \<Longrightarrow> \<not> own_buffer (g_nodes (ex_graph x) ! n) \<Longrightarrow>
       rs4 ! n = point_at_slot (map snd phs) (rs1 ! n)"
proof -
  let ?ns = "g_nodes (ex_graph x)" and ?rs2 = "map (point_at_slot (map snd phs)) rs1"
  have w: "walk realize_slot (enumerate 0 (g_slots (ex_graph x))) st1 = (phs, st2, None)"
    "walk (realize_texture b) ?rs2 st2 = (rs3, st3, None)" "walk realize_buffer rs3 st3 = (rs4, st4, None)"
    using R by (simp_all add: realization_def Let_def)
  note U = realization_nodes [OF R]
  have l: "length rs1 = length ?ns" "length rs3 = length ?ns" "length rs4 = length ?ns" using U(1-3) by (metis length_map)+
  have S: "takes st1 (taken slot_object (\<lambda>_. True) phs) st2 \<and> length phs = length (enumerate 0 (g_slots (ex_graph x))) \<and>
      (\<forall>k < length (enumerate 0 (g_slots (ex_graph x))). slot_object (phs ! k) \<noteq> None)"
    using walk_takes [OF w(1) g, of "\<lambda>_. True" slot_object] realize_slot_takes(1) by simp
  have g2: "pool_good st2" using S g by (simp add: takes_def)
  have T: "takes st2 (taken rn_texture own_texture rs3) st3 \<and> length rs3 = length ?rs2 \<and>
      (\<forall>k < length ?rs2. own_texture (rs3 ! k) = own_texture (?rs2 ! k) \<and>
         (if own_texture (?rs2 ! k) then rn_texture (rs3 ! k) \<noteq> None else rs3 ! k = ?rs2 ! k))"
    by (rule walk_takes [OF w(2) g2]) (rule realize_texture_takes)
  have g3: "pool_good st3" using T g2 by (simp add: takes_def)
  have B: "takes st3 (taken rn_buffer own_buffer rs4) st4 \<and> length rs4 = length rs3 \<and>
      (\<forall>k < length rs3. own_buffer (rs4 ! k) = own_buffer (rs3 ! k) \<and>
         (if own_buffer (rs3 ! k) then rn_buffer (rs4 ! k) \<noteq> None else rs4 ! k = rs3 ! k))"
    by (rule walk_takes [OF w(3) g3]) (rule realize_buffer_takes)
  show "takes st1 (taken slot_object (\<lambda>_. True) phs @ taken rn_texture own_texture rs3 @ taken rn_buffer own_buffer rs4) st4"
    using takes_trans [OF conjunct1 [OF S] takes_trans [OF conjunct1 [OF T] conjunct1 [OF B]]] .
  show "slot_object (phs ! k) \<noteq> None \<and> ph_kind (snd (phs ! k)) = ph_kind (g_slots (ex_graph x) ! k)" if k: "k < length phs"
  proof -
    have "map (ph_kind \<circ> snd) phs = map (ph_kind \<circ> snd) (enumerate 0 (g_slots (ex_graph x)))"
      by (rule walk_map [OF w(1)]) (auto simp: realize_slot_def split_beta Let_def split: if_splits)
    then have "ph_kind (snd (phs ! k)) = ph_kind (snd (enumerate 0 (g_slots (ex_graph x)) ! k))"
      using map_nth_eq [of "ph_kind \<circ> snd" phs "enumerate 0 (g_slots (ex_graph x))" k] k S by simp
    then show ?thesis using k S U(4) by (simp add: nth_enumerate_eq)
  qed
  have o: "own_texture (?rs2 ! n) = own_texture (?ns ! n)" "own_texture (rs3 ! n) = own_texture (?ns ! n)"
    "own_buffer (rs3 ! n) = own_buffer (?ns ! n)" if n: "n < length ?ns" for n
  proof -
    have "unrealized (?rs2 ! n) = unrealized (?ns ! n)" using map_nth_eq [OF U(1) n] n l(1) unrealized_upd(2) by simp
    then show "own_texture (?rs2 ! n) = own_texture (?ns ! n)" using own_unrealized by blast
    show "own_texture (rs3 ! n) = own_texture (?ns ! n)" "own_buffer (rs3 ! n) = own_buffer (?ns ! n)"
      using own_unrealized [OF map_nth_eq [OF U(2) n]] by blast+
  qed
  have l2: "length ?rs2 = length ?ns" using l by simp
  have T': "if own_texture (?ns ! n) then rn_texture (rs3 ! n) \<noteq> None else rs3 ! n = ?rs2 ! n" if n: "n < length ?ns" for n
    using T o(1) [OF n] n l2 by (metis (full_types))
  have B': "if own_buffer (?ns ! n) then rn_buffer (rs4 ! n) \<noteq> None else rs4 ! n = rs3 ! n" if n: "n < length ?ns" for n
    using B o(3) [OF n] n l(2) by (metis (full_types))
  show "rn_texture (rs3 ! n) \<noteq> None \<and> rs4 ! n = rs3 ! n" if n: "n < length ?ns" "own_texture (?ns ! n)"
  proof -
    have "\<not> own_buffer (?ns ! n)" using n(2) by (simp add: own_texture_def own_buffer_def)
    then show ?thesis using T' [OF n(1)] B' [OF n(1)] n(2) by simp
  qed
  show "rn_buffer (rs4 ! n) \<noteq> None" if n: "n < length ?ns" "own_buffer (?ns ! n)"
    using B' [OF n(1)] n(2) by simp
  show "rs4 ! n = point_at_slot (map snd phs) (rs1 ! n)" if n: "n < length ?ns" "\<not> own_texture (?ns ! n)" "\<not> own_buffer (?ns ! n)"
    using T' [OF n(1)] B' [OF n(1)] n(2,3) l(1) n(1) by simp
qed

lemma compiled_external_unaliased:
  assumes ok: "recorded_ok (it, g)" and c: "compile_impl pool enable g = Some g'" and s: "g_state g' = RG_Compiled"
    and r: "r \<in> set (g_nodes g')" "is_external r"
  shows "rn_alias_slot r = None"
proof (rule ccontr)
  assume "rn_alias_slot r \<noteq> None"
  then obtain k where k: "rn_alias_slot r = Some k" by blast
  obtain rs ks where live: "\<forall>r \<in> set rs. \<exists>f l. lives r f l"
    and mem: "\<forall>r k. r \<in> set (g_nodes g') \<longrightarrow> rn_alias_slot r = Some k \<longrightarrow> (\<exists>m < length rs. ks ! m = k \<and> bare (rs ! m) = bare r)"
    using compiled_slots [OF ok c s] by metis
  obtain m where m: "m < length rs" "bare (rs ! m) = bare r" using mem r(1) k by blast
  obtain f l where "lives (rs ! m) f l" using live nth_mem [OF m(1)] by blast
  then have "rn_first_use r = Some f" using bareD(4) [OF m(2)] by (simp add: lives_def)
  moreover obtain n where n: "n < length (g_nodes g')" "r = g_nodes g' ! n" using r(1) by (auto simp: in_set_conv_nth)
  note I = compiled_ids [OF ok c s n(1)]
  have "unnoted (g_nodes g ! n)" using recorded_unnoted [OF ok nth_mem [OF I(1)]] by blast
  from compiled_node [OF c s I(1) this] obtain q where q: "bare r = bare q"
    "unsized q = unsized (noted (touches_of (g_passes g') (h_id (rn_handle (g_nodes g ! n)))) (g_nodes g ! n))"
    using n(2) by blast
  have "rn_first_use r = None"
    using bareD(4) [OF q(1)] unsized_fields(7) [OF q(2)] I(3) r(2) n(2) by (simp add: noted_records)
  ultimately show False by simp
qed

text \<open>\<open>sharable r q\<close>: phase 4 put both into one slot, and one is dead before the other is born.\<close>

definition sharable :: "res_node \<Rightarrow> res_node \<Rightarrow> bool" where
  "sharable r q \<longleftrightarrow>
     rn_alias_slot r \<noteq> None \<and> rn_alias_slot r = rn_alias_slot q \<and>
     (\<exists>f l f' l'. lives r f l \<and> lives q f' l' \<and> (l < f' \<or> l' < f))"

text \<open>
  The situation at \<open>execute\<close>: a recorded graph, compiled, the persistent pool in a new frame,
  the allocator the owner of its objects.
\<close>

definition ready :: "recording \<Rightarrow> persistent_pool \<Rightarrow> bool \<Rightarrow> exec \<Rightarrow> bool" where
  "ready st pool0 enable x \<longleftrightarrow>
     recorded_ok st \<and> compile_impl pool0 enable (snd st) = Some (ex_graph x) \<and> g_state (ex_graph x) = RG_Compiled \<and>
     persistent_ok (al_pool (ex_alloc x)) \<and> exec_good x"

lemma readyD:
  assumes "ready (it, g) pool0 enable x"
  shows "recorded_ok (it, g)" "compile_impl pool0 enable g = Some (ex_graph x)" "g_state (ex_graph x) = RG_Compiled"
    "persistent_ok (al_pool (ex_alloc x))" "exec_good x"
  using assms by (simp_all add: ready_def)

lemma ready_run:
  assumes rdy: "ready (it, g) pool0 enable x"
  obtains pool rs1 phs rs3 rs4 st1 st2 st3 st4 where
    "realization b x pool rs1 phs rs3 rs4 st1 st2 st3 st4"
    "realized_upto (pp_clock (al_pool (ex_alloc x))) (g_nodes (ex_graph x)) (length (g_nodes (ex_graph x))) rs1 pool"
    "g_nodes (ex_graph (realize_graph b x)) = rs4" "al_pool (ex_alloc (realize_graph b x)) = pool"
    "transient_state (realize_graph b x) = st4"
proof -
  note D = readyD [OF rdy]
  obtain pool rs1 phs rs3 rs4 st1 st2 st3 st4 where R: "realization b x pool rs1 phs rs3 rs4 st1 st2 st3 st4"
    and U: "realized_upto (pp_clock (al_pool (ex_alloc x))) (g_nodes (ex_graph x)) (length (g_nodes (ex_graph x))) rs1 pool"
    using realization_exists [OF D(1,2,3) refl D(4), of b] by blast
  note G = realize_graph_run [OF R D(3)]
  show thesis by (rule that [OF R U]) (use G in simp_all)
qed

text \<open>Realizing succeeds and changes the object fields of the nodes only.\<close>

lemma realize_succeeds:
  assumes "ready (it, g) pool0 enable x"
  shows "g_state (ex_graph (realize_graph b x)) = RG_Compiled"
    "g_errors (ex_graph (realize_graph b x)) = g_errors (ex_graph x)"
    "g_passes (ex_graph (realize_graph b x)) = g_passes (ex_graph x)"
    "map unrealized (g_nodes (ex_graph (realize_graph b x))) = map unrealized (g_nodes (ex_graph x))"
proof -
  note D = readyD [OF assms]
  obtain pool rs1 phs rs3 rs4 st1 st2 st3 st4 where R: "realization b x pool rs1 phs rs3 rs4 st1 st2 st3 st4"
    using ready_run [OF assms] by metis
  note G = realize_graph_run [OF R D(3)]
  show "g_state (ex_graph (realize_graph b x)) = RG_Compiled" "g_errors (ex_graph (realize_graph b x)) = g_errors (ex_graph x)"
    "g_passes (ex_graph (realize_graph b x)) = g_passes (ex_graph x)"
    "map unrealized (g_nodes (ex_graph (realize_graph b x))) = map unrealized (g_nodes (ex_graph x))"
    using G(1) D(3) realization_nodes(3) [OF R] by simp_all
qed

lemma after_nth:
  assumes "ready (it, g) pool0 enable x" "n < length (g_nodes (ex_graph x))"
  shows "unrealized (g_nodes (ex_graph (realize_graph b x)) ! n) = unrealized (g_nodes (ex_graph x) ! n)"
  by (rule map_nth_eq [OF realize_succeeds(4) [OF assms(1)] assms(2)])

text \<open>The three sources of an object that the transient pool hands out.\<close>

lemma transient_object:
  assumes rdy: "ready (it, g) pool0 enable x"
    and n: "n < length (g_nodes (ex_graph x))" and u: "pool_used (g_nodes (ex_graph x) ! n)" and e: "\<not> is_external (g_nodes (ex_graph x) ! n)"
    and R: "realization b x pool rs1 phs rs3 rs4 st1 st2 st3 st4" and a: "g_nodes (ex_graph (realize_graph b x)) = rs4"
  obtains v where "node_object (rs4 ! n) = Some v"
    "(\<exists>k < length phs. rn_alias_slot (g_nodes (ex_graph x) ! n) = Some k \<and> slot_object (phs ! k) = Some v)
     \<or> (rn_alias_slot (g_nodes (ex_graph x) ! n) = None \<and> own_texture (rs3 ! n) \<and> n < length rs3 \<and> rn_texture (rs3 ! n) = Some v)
     \<or> (rn_alias_slot (g_nodes (ex_graph x) ! n) = None \<and> own_buffer (rs4 ! n) \<and> n < length rs4 \<and> rn_buffer (rs4 ! n) = Some v)"
proof -
  define g' where "g' = ex_graph x"
  let ?r = "g_nodes g' ! n"
  note D = readyD [OF rdy, folded g'_def]
  note n = n [folded g'_def]
  note that = that [folded g'_def]
  note S = realization_sources [OF R realization_good [OF R D(5)], folded g'_def]
  note F = unrealized_fields [OF after_nth [OF rdy n [unfolded g'_def], of b], folded g'_def, unfolded a]
  note U = realization_nodes [OF R, folded g'_def]
  have l: "length rs3 = length (g_nodes g')" "length rs4 = length (g_nodes g')" using U(2,3) by (metis length_map)+
  show thesis
  proof (cases "rn_alias_slot ?r")
    case (Some k)
    have m: "k < length (g_slots g')" "slot_holds ?r (g_slots g' ! k)"
      using compiled_member [OF D(1,2,3) nth_mem [OF n] Some] by auto
    have kp: "k < length phs" using m(1) U(4) by simp
    obtain v where v: "slot_object (phs ! k) = Some v" "ph_kind (snd (phs ! k)) = ph_kind (g_slots g' ! k)" using S(2) [OF kp] by auto
    have "rs4 ! n = point_at_slot (map snd phs) (rs1 ! n)"
      using S(5) [OF n] Some by (simp add: own_texture_def own_buffer_def)
    moreover have "rn_alias_slot (rs1 ! n) = Some k" "rn_kind (rs1 ! n) = rn_kind ?r"
      using unrealized_fields(3,8) [OF map_nth_eq [OF U(1) n]] Some by simp_all
    ultimately have "node_object (rs4 ! n) = slot_object (phs ! k)"
      using v(2) m(2) kp by (simp add: node_object_def point_at_slot_def slot_object_def slot_holds_def)
    then show thesis using that [of v] v(1) kp Some by auto
  next
    case None
    show thesis
    proof (cases "rn_kind ?r")
      case RK_Texture
      then have o: "own_texture ?r" using None u e by (simp add: own_texture_def pool_used_def g'_def)
      then obtain v where v: "rn_texture (rs3 ! n) = Some v" "rs4 ! n = rs3 ! n" using S(3) [OF n o] by auto
      have "own_texture (rs3 ! n)" using own_unrealized [OF map_nth_eq [OF U(2) n]] o by blast
      moreover have "rn_kind (rs4 ! n) = RK_Texture" using F(3) RK_Texture by simp
      ultimately show thesis using that [of v] v None l n by (simp add: node_object_def)
    next
      case RK_Buffer
      then have o: "own_buffer ?r" using None u e by (simp add: own_buffer_def pool_used_def g'_def)
      then obtain v where v: "rn_buffer (rs4 ! n) = Some v" using S(4) [OF n o] by auto
      have "own_buffer (rs4 ! n)" using own_unrealized [OF map_nth_eq [OF U(3) n]] o by blast
      moreover have "rn_kind (rs4 ! n) = RK_Buffer" using F(3) RK_Buffer by simp
      ultimately show thesis using that [of v] v None l n by (simp add: node_object_def)
    qed
  qed
qed

text \<open>Two used transients share an object only inside one alias slot, with disjoint lifetimes.\<close>

lemma realized_sharing:
  assumes rdy: "ready (it, g) pool0 enable x"
    and m: "m < length (g_nodes (ex_graph x))" "pool_used (g_nodes (ex_graph x) ! m)" "\<not> is_external (g_nodes (ex_graph x) ! m)"
    and n: "n < length (g_nodes (ex_graph x))" "pool_used (g_nodes (ex_graph x) ! n)" "\<not> is_external (g_nodes (ex_graph x) ! n)"
    and ne: "m \<noteq> n"
    and eq: "node_object (g_nodes (ex_graph (realize_graph b x)) ! m) = node_object (g_nodes (ex_graph (realize_graph b x)) ! n)"
  shows "sharable (g_nodes (ex_graph x) ! m) (g_nodes (ex_graph x) ! n)"
proof -
  define g' where "g' = ex_graph x"
  note D = readyD [OF rdy, folded g'_def]
  obtain pool rs1 phs rs3 rs4 st1 st2 st3 st4 where R: "realization b x pool rs1 phs rs3 rs4 st1 st2 st3 st4"
    and a: "g_nodes (ex_graph (realize_graph b x)) = rs4"
    using ready_run [OF rdy] by metis
  have good: "pool_good st1" by (rule realization_good [OF R D(5)])
  note S = realization_sources(1) [OF R good]
  have dis: "distinct (taken slot_object (\<lambda>_. True) phs @ taken rn_texture own_texture rs3 @ taken rn_buffer own_buffer rs4)"
    using S good by (simp add: takes_def)
  obtain v where v: "node_object (rs4 ! m) = Some v"
    "(\<exists>k < length phs. rn_alias_slot (g_nodes g' ! m) = Some k \<and> slot_object (phs ! k) = Some v)
     \<or> (rn_alias_slot (g_nodes g' ! m) = None \<and> own_texture (rs3 ! m) \<and> m < length rs3 \<and> rn_texture (rs3 ! m) = Some v)
     \<or> (rn_alias_slot (g_nodes g' ! m) = None \<and> own_buffer (rs4 ! m) \<and> m < length rs4 \<and> rn_buffer (rs4 ! m) = Some v)"
    unfolding g'_def by (rule transient_object [OF rdy m R a]) blast
  obtain w where w: "node_object (rs4 ! n) = Some w"
    "(\<exists>k < length phs. rn_alias_slot (g_nodes g' ! n) = Some k \<and> slot_object (phs ! k) = Some w)
     \<or> (rn_alias_slot (g_nodes g' ! n) = None \<and> own_texture (rs3 ! n) \<and> n < length rs3 \<and> rn_texture (rs3 ! n) = Some w)
     \<or> (rn_alias_slot (g_nodes g' ! n) = None \<and> own_buffer (rs4 ! n) \<and> n < length rs4 \<and> rn_buffer (rs4 ! n) = Some w)"
    unfolding g'_def by (rule transient_object [OF rdy n R a]) blast
  have vw: "w = v" using v(1) w(1) eq a by simp
  have dS: "distinct (taken slot_object (\<lambda>_. True) phs)" and dT: "distinct (taken rn_texture own_texture rs3)"
    and dB: "distinct (taken rn_buffer own_buffer rs4)"
    and ST: "set (taken slot_object (\<lambda>_. True) phs) \<inter> set (taken rn_texture own_texture rs3) = {}"
    and SB: "set (taken slot_object (\<lambda>_. True) phs) \<inter> set (taken rn_buffer own_buffer rs4) = {}"
    and TB: "set (taken rn_texture own_texture rs3) \<inter> set (taken rn_buffer own_buffer rs4) = {}"
    using dis by auto
  have inS: "k < length phs \<Longrightarrow> slot_object (phs ! k) = Some v \<Longrightarrow> v \<in> set (taken slot_object (\<lambda>_. True) phs)" for k
    by (rule taken_nth) simp_all
  have inT: "k < length rs3 \<Longrightarrow> own_texture (rs3 ! k) \<Longrightarrow> rn_texture (rs3 ! k) = Some v \<Longrightarrow> v \<in> set (taken rn_texture own_texture rs3)" for k
    by (rule taken_nth) simp_all
  have inB: "k < length rs4 \<Longrightarrow> own_buffer (rs4 ! k) \<Longrightarrow> rn_buffer (rs4 ! k) = Some v \<Longrightarrow> v \<in> set (taken rn_buffer own_buffer rs4)" for k
    by (rule taken_nth) simp_all
  have ids: "h_id (rn_handle (g_nodes g' ! m)) \<noteq> h_id (rn_handle (g_nodes g' ! n))"
    using compiled_ids(4) [OF D(1,2,3)] m(1) n(1) ne by (simp add: g'_def)
  obtain k where k: "k < length phs" "rn_alias_slot (g_nodes g' ! m) = Some k" "slot_object (phs ! k) = Some v"
    "rn_alias_slot (g_nodes g' ! n) = Some k"
  proof -
    from v(2) show thesis
    proof (elim disjE exE conjE)
      fix k assume k: "k < length phs" "rn_alias_slot (g_nodes g' ! m) = Some k" "slot_object (phs ! k) = Some v"
      from w(2) [unfolded vw] show thesis
      proof (elim disjE exE conjE)
        fix j assume j: "j < length phs" "rn_alias_slot (g_nodes g' ! n) = Some j" "slot_object (phs ! j) = Some v"
        have "j = k" by (rule taken_distinct [OF dS j(1) k(1) _ _ j(3) k(3)]) simp_all
        then show thesis using that [OF k] j(2) by simp
      next
        assume "n < length rs3" "own_texture (rs3 ! n)" "rn_texture (rs3 ! n) = Some v"
        then show thesis using inS [OF k(1,3)] inT ST by blast
      next
        assume "n < length rs4" "own_buffer (rs4 ! n)" "rn_buffer (rs4 ! n) = Some v"
        then show thesis using inS [OF k(1,3)] inB SB by blast
      qed
    next
      assume t: "own_texture (rs3 ! m)" "m < length rs3" "rn_texture (rs3 ! m) = Some v"
      from w(2) [unfolded vw] show thesis
      proof (elim disjE exE conjE)
        fix j assume "j < length phs" "slot_object (phs ! j) = Some v"
        then show thesis using inS inT [OF t(2,1,3)] ST by blast
      next
        assume q: "own_texture (rs3 ! n)" "n < length rs3" "rn_texture (rs3 ! n) = Some v"
        have "m = n" by (rule taken_distinct [OF dT t(2) q(2) t(1) q(1) t(3) q(3)])
        then show thesis using ne by simp
      next
        assume "n < length rs4" "own_buffer (rs4 ! n)" "rn_buffer (rs4 ! n) = Some v"
        then show thesis using inT [OF t(2,1,3)] inB TB by blast
      qed
    next
      assume t: "own_buffer (rs4 ! m)" "m < length rs4" "rn_buffer (rs4 ! m) = Some v"
      from w(2) [unfolded vw] show thesis
      proof (elim disjE exE conjE)
        fix j assume "j < length phs" "slot_object (phs ! j) = Some v"
        then show thesis using inS inB [OF t(2,1,3)] SB by blast
      next
        assume "own_texture (rs3 ! n)" "n < length rs3" "rn_texture (rs3 ! n) = Some v"
        then show thesis using inT inB [OF t(2,1,3)] TB by blast
      next
        assume q: "own_buffer (rs4 ! n)" "n < length rs4" "rn_buffer (rs4 ! n) = Some v"
        have "m = n" by (rule taken_distinct [OF dB t(2) q(2) t(1) q(1) t(3) q(3)])
        then show thesis using ne by simp
      qed
    qed
  qed
  have "\<exists>f l f' l'. lives (g_nodes g' ! m) f l \<and> lives (g_nodes g' ! n) f' l' \<and> (l < f' \<or> l' < f)"
    using compiled_alias [OF D(1,2,3) nth_mem nth_mem ids k(2,4)] m(1) n(1) by (simp add: g'_def)
  then show ?thesis using k(2,4) by (simp add: sharable_def g'_def)
qed

subsection \<open>The pooled resources\<close>

lemma realized_pooled:
  assumes rdy: "ready (it, g) pool0 enable x" and n: "n < length (g_nodes (ex_graph x))" and p: "pooled (g_nodes (ex_graph x) ! n)"
  obtains e where "pool_find (rn_id (g_nodes (ex_graph x) ! n)) (al_pool (ex_alloc (realize_graph b x))) = Some e"
    "g_nodes (ex_graph (realize_graph b x)) ! n = point_at_layer (pp_clock (al_pool (ex_alloc x))) e (g_nodes (ex_graph x) ! n)"
    "fits (pp_clock (al_pool (ex_alloc x))) (g_nodes (ex_graph x) ! n) e" "grants (g_nodes (ex_graph x) ! n) e"
    "\<not> would_recreate (g_nodes (ex_graph x) ! n) e"
    "pentry_ok (Suc (pp_clock (al_pool (ex_alloc x)))) (Suc (pp_clock (al_pool (ex_alloc x)))) e"
proof -
  define g' where "g' = ex_graph x"
  let ?c = "pp_clock (al_pool (ex_alloc x))" and ?r = "g_nodes g' ! n"
  note D = readyD [OF rdy, folded g'_def]
  note n = n [folded g'_def] and p = p [folded g'_def]
  obtain pool rs1 phs rs3 rs4 st1 st2 st3 st4 where R: "realization b x pool rs1 phs rs3 rs4 st1 st2 st3 st4"
    and U: "realized_upto ?c (g_nodes g') (length (g_nodes g')) rs1 pool"
    and a: "g_nodes (ex_graph (realize_graph b x)) = rs4" "al_pool (ex_alloc (realize_graph b x)) = pool"
    using ready_run [OF rdy] unfolding g'_def by metis
  have ext: "is_external ?r" using p by (simp add: pooled_def is_external_def)
  have "rs4 ! n = point_at_slot (map snd phs) (rs1 ! n)"
    using realization_sources(5) [OF R realization_good [OF R D(5)], folded g'_def] n ext by (simp add: own_texture_def own_buffer_def)
  moreover have "rn_alias_slot (rs1 ! n) = None"
    using unrealized_fields(8) [OF map_nth_eq [OF realization_nodes(1) [OF R, folded g'_def] n]]
      compiled_external_unaliased [OF D(1,2,3) nth_mem [OF n] ext] by simp
  ultimately have same: "rs4 ! n = rs1 ! n" by (simp add: point_at_slot_def)
  obtain e where e: "pool_find (rn_id ?r) pool = Some e" "\<not> would_recreate ?r e" "rs1 ! n = point_at_layer ?c e ?r"
    using realized_uptoD(4) [OF U n p] by blast
  moreover have "fits ?c ?r e" "grants ?r e" using realized_uptoD(3) [OF U n p] e(1) by auto
  moreover have "pentry_ok (Suc ?c) (Suc ?c) e"
    using entries_okD [OF realized_uptoD(2) [OF U]] pool_find_id [OF e(1)] by blast
  ultimately show thesis using that [of e] a same by (simp add: g'_def)
qed

lemma layer_object: "node_object (point_at_layer c e r) =
   (if rn_kind r = RK_Texture then lo_tex (pe_objects e ! slot e (rn_history_index r)) else lo_buf (pe_objects e ! slot e (rn_history_index r)))"
  by (simp add: node_object_def point_at_layer_def Let_def)

lemma fitting_object:
  assumes "fits c r e" "\<not> would_recreate r e" "pentry_ok a b e"
  shows "node_object (point_at_layer c' e r) \<noteq> None"
proof -
  have l: "0 < pe_layers e" "pe_layers e \<le> length (pe_objects e)" using assms(3) by (auto simp: pentry_ok_def)
  have "pe_created e" using assms(2)
    by (auto simp: would_recreate_def tex_entry_would_recreate_def buf_entry_would_recreate_def split: if_splits)
  moreover have "slot e (rn_history_index r) < pe_layers e" using l(1) by (simp add: slot_def)
  ultimately have "layer_filled (rn_kind r) (pe_objects e ! slot e (rn_history_index r))"
    using assms(1,3) by (auto simp: pentry_ok_def fits_def)
  then show ?thesis by (auto simp: layer_object layer_filled_def split: if_splits)
qed

text \<open>The two layers of a history entry are different objects, and a new frame swaps them.\<close>

lemma entry_owned_distinct:
  assumes "e \<in> set (pp_entries pool)" "distinct (persistent_owned pool)"
  shows "distinct (entry_owned e)"
proof -
  obtain us vs where "pp_entries pool = us @ e # vs" using split_list [OF assms(1)] by blast
  then have "persistent_owned pool = entries_owned us @ entry_owned e @ entries_owned vs"
    by (simp add: persistent_owned_def entries_owned_def)
  then show ?thesis using assms(2) by simp
qed

lemma layers_distinct:
  assumes "distinct (entry_owned e)" "i < length (pe_objects e)" "j < length (pe_objects e)" "i < j"
    "v \<in> set (layer_owned (pe_objects e ! i))"
  shows "v \<notin> set (layer_owned (pe_objects e ! j))"
proof -
  let ?ls = "pe_objects e"
  have "?ls = take j ?ls @ ?ls ! j # drop (Suc j) ?ls" using assms(3) by (rule id_take_nth_drop)
  then have "layers_owned ?ls = layers_owned (take j ?ls) @ layer_owned (?ls ! j) @ layers_owned (drop (Suc j) ?ls)"
    by (metis (no_types) append_assoc concat_append layers_owned_def list.map(2) map_append concat.simps(2))
  moreover have "v \<in> set (layers_owned (take j ?ls))"
    using assms(2,4,5) unfolding layers_owned_def by (force simp: in_set_conv_nth)
  ultimately show ?thesis using assms(1) by (auto simp: entry_owned_def)
qed

lemma history_slots:
  assumes "pe_layers e = 2"
  shows "slot e 0 < 2" "slot e 1 < 2" "slot e 0 \<noteq> slot e 1"
    "pe_frame e' = Suc (pe_frame e) \<Longrightarrow> pe_layers e' = 2 \<Longrightarrow> slot e' 1 = slot e 0 \<and> slot e' 0 = slot e 1"
  using assms by (auto simp: slot_def) presburger+

lemma layer_member: "lo_tex l = Some v \<or> lo_buf l = Some v \<Longrightarrow> v \<in> set (layer_owned l)"
  by (auto simp: layer_owned_def refs_def)

lemma realized_history:
  assumes rdy: "ready (it, g) pool0 enable x"
    and i: "i < length (g_nodes (ex_graph x))" "pooled (g_nodes (ex_graph x) ! i)" "rn_history (g_nodes (ex_graph x) ! i)"
      "rn_history_index (g_nodes (ex_graph x) ! i) = 0"
    and j: "j < length (g_nodes (ex_graph x))" "pooled (g_nodes (ex_graph x) ! j)" "rn_history_index (g_nodes (ex_graph x) ! j) = 1"
    and nm: "same_name (rn_id (g_nodes (ex_graph x) ! i)) (rn_id (g_nodes (ex_graph x) ! j))"
  shows "node_object (g_nodes (ex_graph (realize_graph b x)) ! i) \<noteq> node_object (g_nodes (ex_graph (realize_graph b x)) ! j)"
proof
  let ?r = "g_nodes (ex_graph x) ! i" and ?q = "g_nodes (ex_graph x) ! j"
  let ?pool = "al_pool (ex_alloc (realize_graph b x))"
  obtain e where e: "pool_find (rn_id ?r) ?pool = Some e"
    "g_nodes (ex_graph (realize_graph b x)) ! i = point_at_layer (pp_clock (al_pool (ex_alloc x))) e ?r"
    "fits (pp_clock (al_pool (ex_alloc x))) ?r e" "\<not> would_recreate ?r e"
    "pentry_ok (Suc (pp_clock (al_pool (ex_alloc x)))) (Suc (pp_clock (al_pool (ex_alloc x)))) e"
    by (rule realized_pooled [OF rdy i(1,2), of b]) blast
  obtain e' where e': "pool_find (rn_id ?q) ?pool = Some e'"
    "g_nodes (ex_graph (realize_graph b x)) ! j = point_at_layer (pp_clock (al_pool (ex_alloc x))) e' ?q"
    "fits (pp_clock (al_pool (ex_alloc x))) ?q e'"
    by (rule realized_pooled [OF rdy j(1,2), of b]) blast
  have "is_entry_of (rn_id ?r) = is_entry_of (rn_id ?q)" using nm by (auto simp: is_entry_of_def same_name_def)
  then have ee: "e' = e" using e(1) e'(1) by (simp add: pool_find_def)
  assume eq: "node_object (g_nodes (ex_graph (realize_graph b x)) ! i) = node_object (g_nodes (ex_graph (realize_graph b x)) ! j)"
  have two: "pe_layers e = 2" using e(3) i(3) by (simp add: fits_def layers_of_def kLayers_def)
  note H = history_slots [OF two]
  have len: "length (pe_objects e) = 2" using e(5) by (simp add: pentry_ok_def kLayers_def)
  obtain v where v: "node_object (point_at_layer (pp_clock (al_pool (ex_alloc x))) e ?r) = Some v"
    using fitting_object [OF e(3,4,5)] by blast
  then have 0: "v \<in> set (layer_owned (pe_objects e ! slot e 0))"
    unfolding layer_object i(4) by (intro layer_member) (simp split: if_splits)
  have "node_object (point_at_layer (pp_clock (al_pool (ex_alloc x))) e ?q) = Some v" using eq e(2) e'(2) v ee by simp
  then have 1: "v \<in> set (layer_owned (pe_objects e ! slot e 1))"
    unfolding layer_object j(3) by (intro layer_member) (simp split: if_splits)
  have "exec_good (realize_graph b x)" using exec_good_hands [OF realize_hands] readyD(5) [OF rdy] by blast
  then have "distinct (persistent_owned ?pool)" by (simp add: exec_good_def accounts_def allocator_owned_def)
  then have d: "distinct (entry_owned e)" using entry_owned_distinct pool_find_id [OF e(1)] by blast
  have "slot e 0 < slot e 1 \<or> slot e 1 < slot e 0" using H(3) by linarith
  then show False
    using layers_distinct [OF d _ _ _ 0] layers_distinct [OF d _ _ _ 1] 0 1 H(1,2) len by metis
qed

text \<open>After the frame the pool is ready for the next one.\<close>

lemma next_frame_ready:
  assumes rdy: "ready (it, g) pool0 enable x" and e: "end_frame (ex_alloc (realize_graph b x), d) = (al, d')"
  shows "persistent_ok (al_pool al)"
proof -
  obtain pool rs1 phs rs3 rs4 st1 st2 st3 st4 where
    U: "realized_upto (pp_clock (al_pool (ex_alloc x))) (g_nodes (ex_graph x)) (length (g_nodes (ex_graph x))) rs1 pool"
    and a: "al_pool (ex_alloc (realize_graph b x)) = pool"
    using ready_run [OF rdy] by metis
  have m: "persistent_mid (al_pool (ex_alloc (realize_graph b x)))"
    using realized_uptoD(1,2) [OF U] a by (simp add: persistent_mid_def)
  obtain p1 d1 where p: "persistent_end_frame (al_pool (ex_alloc (realize_graph b x)), d) = (p1, d1)" by fastforce
  have "al_pool al = p1" using e p by (auto simp: end_frame_def split: prod.splits)
  then show ?thesis using end_frame_persistent_ok [OF m p] by simp
qed

end
