(* ===== verification/Body_Frame.thy ===== *)
theory Body_Frame
  imports Execute Realize_Objects
begin

text \<open>
  What the body of a pass can change: the resolvers of \<open>PassContext\<close> and the attachment views
  of \<open>execute\<close> add views to the cache of a pooled texture or to the scratch list of the pass, and
  touch nothing else. Every view they create has an owner that releases it.
\<close>

subsection \<open>An allocator without its cached views\<close>

definition plain_tentry :: "tentry \<Rightarrow> tentry" where
  "plain_tentry e = e\<lparr>te_subviews := []\<rparr>"

definition plain_layer :: "layer_objects \<Rightarrow> layer_objects" where
  "plain_layer l = l\<lparr>lo_subviews := []\<rparr>"

definition plain_pentry :: "pentry \<Rightarrow> pentry" where
  "plain_pentry e = e\<lparr>pe_objects := map plain_layer (pe_objects e)\<rparr>"

definition plain_pool :: "persistent_pool \<Rightarrow> persistent_pool" where
  "plain_pool p = p\<lparr>pp_entries := map plain_pentry (pp_entries p)\<rparr>"

definition plain_transients :: "transient_pool \<Rightarrow> transient_pool" where
  "plain_transients t = t\<lparr>tr_entries := map plain_tentry (tr_entries t)\<rparr>"

definition plain :: "allocator \<Rightarrow> allocator" where
  "plain al = al\<lparr>al_pool := plain_pool (al_pool al), al_transient := plain_transients (al_transient al)\<rparr>"

lemma plain_fields:
  assumes "plain al = plain al'"
  shows "al_profiler al = al_profiler al'" "al_names al = al_names al'"
    "map plain_tentry (tr_entries (al_transient al)) = map plain_tentry (tr_entries (al_transient al'))"
    "map plain_pentry (pp_entries (al_pool al)) = map plain_pentry (pp_entries (al_pool al'))"
    "pp_clock (al_pool al) = pp_clock (al_pool al')"
proof -
  have f: "al_profiler (plain x) = al_profiler x" "al_names (plain x) = al_names x"
    "tr_entries (al_transient (plain x)) = map plain_tentry (tr_entries (al_transient x))"
    "pp_entries (al_pool (plain x)) = map plain_pentry (pp_entries (al_pool x))"
    "pp_clock (al_pool (plain x)) = pp_clock (al_pool x)" for x
    by (simp_all add: plain_def plain_pool_def plain_transients_def)
  show "al_profiler al = al_profiler al'" "al_names al = al_names al'"
    "map plain_tentry (tr_entries (al_transient al)) = map plain_tentry (tr_entries (al_transient al'))"
    "map plain_pentry (pp_entries (al_pool al)) = map plain_pentry (pp_entries (al_pool al'))"
    "pp_clock (al_pool al) = pp_clock (al_pool al')"
    using assms f by metis+
qed

lemma plain_pentry_ok: "plain_pentry e = plain_pentry e' \<Longrightarrow> pentry_ok a b e = pentry_ok a b e'"
proof -
  have l: "layer_filled k (plain_layer l) = layer_filled k l" for k l by (simp add: layer_filled_def plain_layer_def)
  have "pentry_ok a b (plain_pentry e) = pentry_ok a b e" for e
  proof (cases "pe_layers e \<le> length (pe_objects e)")
    case True
    then have "\<forall>j < pe_layers e. layer_filled (pe_kind e) (map plain_layer (pe_objects e) ! j) = layer_filled (pe_kind e) (pe_objects e ! j)"
      by (simp add: l)
    then show ?thesis by (auto simp: pentry_ok_def plain_pentry_def)
  qed (auto simp: pentry_ok_def plain_pentry_def)
  then show "plain_pentry e = plain_pentry e' \<Longrightarrow> ?thesis" by metis
qed

lemma plain_tentry_ok: "plain_tentry e = plain_tentry e' \<Longrightarrow> tentry_ok e = tentry_ok e'"
proof -
  have "tentry_ok (plain_tentry e) = tentry_ok e" for e
    by (simp add: tentry_ok_def plain_tentry_def split: resource_kind.split)
  then show "plain_tentry e = plain_tentry e' \<Longrightarrow> ?thesis" by metis
qed

lemma list_all_map_cong:
  assumes "map h xs = map h ys" "\<And>x y. h x = h y \<Longrightarrow> P x = P y"
  shows "list_all P xs = list_all P ys"
proof -
  have l: "length xs = length ys" using assms(1) map_eq_imp_length_eq by blast
  have "P (xs ! i) = P (ys ! i)" if "i < length xs" for i
    by (rule assms(2), rule map_nth_eq [OF assms(1)]) (use that l in simp)
  then show ?thesis using l by (simp add: list_all_length)
qed

lemma plain_ok:
  assumes "plain al = plain al'"
  shows "allocator_ok al = allocator_ok al'" "entries_ok a b (al_pool al) = entries_ok a b (al_pool al')"
    "persistent_mid (al_pool al) = persistent_mid (al_pool al')"
proof -
  note P = plain_fields [OF assms]
  show "allocator_ok al = allocator_ok al'"
    unfolding allocator_ok_def transient_ok_def by (rule list_all_map_cong [OF P(3) plain_tentry_ok])
  show e: "entries_ok a b (al_pool al) = entries_ok a b (al_pool al')" for a b
    unfolding entries_ok_def by (rule list_all_map_cong [OF P(4) plain_pentry_ok])
  show "persistent_mid (al_pool al) = persistent_mid (al_pool al')" by (simp add: persistent_mid_def e P(5))
qed

subsection \<open>Locations of subview lists\<close>

definition loc_ok :: "allocator \<Rightarrow> subview_loc \<Rightarrow> bool" where
  "loc_ok al loc =
     (case loc of
        In_Transient i \<Rightarrow> i < length (tr_entries (al_transient al))
      | In_Persistent i j \<Rightarrow> i < length (pp_entries (al_pool al)) \<and> j < length (pe_objects (pp_entries (al_pool al) ! i)))"

definition locs_ok :: "exec \<Rightarrow> bool" where
  "locs_ok x \<longleftrightarrow> (\<forall>h loc. ex_subviews x h = Some loc \<longrightarrow> loc_ok (ex_alloc x) loc)"

lemma plain_loc_ok:
  assumes "plain al = plain al'"
  shows "loc_ok al loc = loc_ok al' loc"
proof -
  note P = plain_fields [OF assms]
  have l: "length (pe_objects (plain_pentry e)) = length (pe_objects e)" for e by (simp add: plain_pentry_def)
  have t: "length (tr_entries (al_transient al)) = length (tr_entries (al_transient al'))"
    "length (pp_entries (al_pool al)) = length (pp_entries (al_pool al'))"
    using map_eq_imp_length_eq [OF P(3)] map_eq_imp_length_eq [OF P(4)] .
  have "length (pe_objects (pp_entries (al_pool al) ! i)) = length (pe_objects (pp_entries (al_pool al') ! i))"
    if "i < length (pp_entries (al_pool al'))" for i
    using map_nth_eq [OF P(4) that] l by metis
  then show ?thesis using t by (auto simp: loc_ok_def split: subview_loc.split)
qed

lemma transient_owner_bound: "transient_owner t tr = Some i \<Longrightarrow> i < length (tr_entries tr)"
proof -
  assume "transient_owner t tr = Some i"
  then obtain e where "find (\<lambda>(i, e). te_kind e = RK_Texture \<and> te_tex e = Some t) (enumerate 0 (tr_entries tr)) = Some (i, e)"
    by (auto simp: transient_owner_def)
  from find_Some_in [OF this] show ?thesis by (auto simp: in_set_enumerate_eq)
qed

lemma persistent_owner_bound:
  "persistent_owner t pool = Some (i, j) \<Longrightarrow> i < length (pp_entries pool) \<and> j < length (pe_objects (pp_entries pool ! i))"
proof -
  assume "persistent_owner t pool = Some (i, j)"
  then obtain l where "((i, j), l) \<in> set (concat (map (\<lambda>(i, e). map (\<lambda>(j, l). ((i, j), l)) (enumerate 0 (pe_objects e))) (enumerate 0 (pp_entries pool))))"
    unfolding persistent_owner_def using find_Some_in by fastforce
  then show ?thesis by (auto simp: in_set_enumerate_eq)
qed

lemma find_subview_list_ok: "find_subview_list al t = Some loc \<Longrightarrow> loc_ok al loc"
  using transient_owner_bound persistent_owner_bound
  by (force simp: find_subview_list_def loc_ok_def split: option.splits)

definition located :: "allocator \<Rightarrow> (nat \<Rightarrow> subview_loc option) \<Rightarrow> bool" where
  "located al m \<longleftrightarrow> (\<forall>h loc. m h = Some loc \<longrightarrow> loc_ok al loc)"

lemma locs_located: "locs_ok x \<longleftrightarrow> located (ex_alloc x) (ex_subviews x)"
  by (simp add: locs_ok_def located_def)

lemma located_upd: "located al m \<Longrightarrow> located al (m(h := find_subview_list al t))"
  using find_subview_list_ok by (auto simp: located_def)

lemma rz_subviews_locs: "locs_ok x \<Longrightarrow> locs_ok (rz_subviews x)"
  unfolding locs_located rz_subviews_def
  by (simp, rule fold_invariant_on [of "located (ex_alloc x)"]) (simp_all add: located_upd)

subsection \<open>One request\<close>

text \<open>\<open>run_step u u'\<close>: only cached and scratch views were added, each with its owner.\<close>

definition run_owned :: "pass_run \<Rightarrow> nat list" where
  "run_owned u = allocator_owned (ex_alloc (ru_exec u)) @ refs (ru_views u)"

definition run_step :: "pass_run \<Rightarrow> pass_run \<Rightarrow> bool" where
  "run_step u u' \<longleftrightarrow>
     run_graph u' = run_graph u \<and> ex_subviews (ru_exec u') = ex_subviews (ru_exec u) \<and>
     plain (ex_alloc (ru_exec u')) = plain (ex_alloc (ru_exec u)) \<and>
     (locs_ok (ru_exec u) \<longrightarrow>
        locs_ok (ru_exec u') \<and> hand_over (run_owned u) (run_owned u') (ex_device (ru_exec u)) (ex_device (ru_exec u')))"

lemma run_step_refl: "run_step u u"
  by (simp add: run_step_def hand_over_refl)

lemma run_step_trans:
  assumes "run_step u v" "run_step v w"
  shows "run_step u w"
  using assms hand_over_trans unfolding run_step_def by metis

lemma run_stepD:
  assumes "run_step u u'"
  shows "run_graph u' = run_graph u" "plain (ex_alloc (ru_exec u')) = plain (ex_alloc (ru_exec u))"
    "al_profiler (ex_alloc (ru_exec u')) = al_profiler (ex_alloc (ru_exec u))"
  using assms plain_fields(1) [of "ex_alloc (ru_exec u')" "ex_alloc (ru_exec u)"] by (simp_all add: run_step_def)

lemma map_update_same: "f y = f (xs ! i) \<Longrightarrow> map f (xs[i := y]) = map f xs"
  by (metis list_update_id map_update)

lemma plain_replaced:
  "plain_tentry (e\<lparr>te_subviews := vs\<rparr>) = plain_tentry e" "plain_layer (l\<lparr>lo_subviews := vs\<rparr>) = plain_layer l"
  by (simp_all add: plain_tentry_def plain_layer_def)

lemma put_subviews_plain: "plain (put_subviews loc vs al) = plain al"
proof (cases loc)
  case (In_Transient i)
  let ?es = "tr_entries (al_transient al)"
  have "map plain_tentry (?es[i := (?es ! i)\<lparr>te_subviews := vs\<rparr>]) = map plain_tentry ?es"
    by (rule map_update_same) (simp add: plain_replaced)
  then show ?thesis unfolding In_Transient by (simp add: plain_def put_subviews_def plain_transients_def Let_def)
next
  case (In_Persistent i j)
  let ?es = "pp_entries (al_pool al)" let ?ls = "pe_objects (?es ! i)"
  have "map plain_layer (?ls[j := (?ls ! j)\<lparr>lo_subviews := vs\<rparr>]) = map plain_layer ?ls"
    by (rule map_update_same) (simp add: plain_replaced)
  then have "map plain_pentry (?es[i := (?es ! i)\<lparr>pe_objects := ?ls[j := (?ls ! j)\<lparr>lo_subviews := vs\<rparr>]\<rparr>]) = map plain_pentry ?es"
    by (intro map_update_same) (simp add: plain_pentry_def)
  then show ?thesis unfolding In_Persistent by (simp add: plain_def put_subviews_def plain_pool_def Let_def)
qed

lemma concat_split_at:
  assumes "i < length xs"
  shows "concat (map f (xs[i := y])) = concat (map f (take i xs)) @ f y @ concat (map f (drop (Suc i) xs))"
  using assms by (simp add: upd_conv_take_nth_drop)

lemma put_subviews_owned:
  assumes "loc_ok al loc"
  shows "\<exists>us ws. allocator_owned al = us @ refs (map snd (get_subviews al loc)) @ ws \<and>
     (\<forall>vs. allocator_owned (put_subviews loc vs al) = us @ refs (map snd vs) @ ws)"
proof (cases loc)
  case (In_Transient i)
  let ?es = "tr_entries (al_transient al)"
  have i: "i < length ?es" using assms In_Transient by (simp add: loc_ok_def)
  define us where "us = persistent_owned (al_pool al) @ concat (map tentry_owned (take i ?es))"
  define ws where "ws = refs [te_view (?es ! i)] @ refs [te_tex (?es ! i)] @ refs [te_buf (?es ! i)] @ concat (map tentry_owned (drop (Suc i) ?es))"
  have p: "allocator_owned (put_subviews loc vs al) = us @ refs (map snd vs) @ ws" for vs
    unfolding In_Transient us_def ws_def
    by (simp add: put_subviews_def allocator_owned_def transient_owned_def tentries_owned_def Let_def concat_split_at [OF i] tentry_owned_def)
  have "put_subviews loc (get_subviews al loc) al = al" by (simp add: put_subviews_def get_subviews_def In_Transient Let_def)
  then show ?thesis using p by metis
next
  case (In_Persistent i j)
  let ?es = "pp_entries (al_pool al)" let ?ls = "pe_objects (?es ! i)"
  have i: "i < length ?es" and j: "j < length ?ls" using assms In_Persistent by (simp_all add: loc_ok_def)
  define us where "us = concat (map entry_owned (take i ?es)) @ concat (map layer_owned (take j ?ls))"
  define ws where "ws = refs [lo_view (?ls ! j)] @ refs [lo_tex (?ls ! j)] @ refs [lo_buf (?ls ! j)] @ concat (map layer_owned (drop (Suc j) ?ls)) @
    concat (map entry_owned (drop (Suc i) ?es)) @ transient_owned (al_transient al)"
  have p: "allocator_owned (put_subviews loc vs al) = us @ refs (map snd vs) @ ws" for vs
    unfolding In_Persistent us_def ws_def
    by (simp add: put_subviews_def allocator_owned_def persistent_owned_def entries_owned_def Let_def concat_split_at [OF i]
        entry_owned_def layers_owned_def concat_split_at [OF j] layer_owned_def)
  have "put_subviews loc (get_subviews al loc) al = al" by (simp add: put_subviews_def get_subviews_def In_Persistent Let_def)
  then show ?thesis using p by metis
qed


lemma resolve_view_step:
  assumes "resolve_view r key u = Inr (v, u')"
  shows "run_step u u'"
proof -
  let ?x = "ru_exec u"
  consider "u' = u"
    | loc vs d where "ex_subviews ?x (h_id (rn_handle r)) = Some loc"
      "subview_for (get_subviews (ex_alloc ?x) loc) key (ex_device ?x) = (v, vs, d)"
      "u' = u\<lparr>ru_exec := ?x\<lparr>ex_alloc := put_subviews loc vs (ex_alloc ?x), ex_device := d\<rparr>\<rparr>"
    | w d where "create_object (ex_device ?x) = (w, d)"
      "u' = u\<lparr>ru_exec := ?x\<lparr>ex_device := d\<rparr>, ru_views := ru_views u @ [Some w]\<rparr>"
  proof (cases "rn_texture r = None \<or> is_full_view r key")
    case True
    then show ?thesis using that(1) assms by (auto simp: resolve_view_def Let_def split: if_splits)
  next
    case False
    show ?thesis
    proof (cases "ex_subviews ?x (h_id (rn_handle r))")
      case None
      obtain w d where "create_object (ex_device ?x) = (w, d)" by fastforce
      then show ?thesis using that(3) [of w d] assms False None by (auto simp: resolve_view_def Let_def)
    next
      case (Some loc)
      obtain v' vs d where "subview_for (get_subviews (ex_alloc ?x) loc) key (ex_device ?x) = (v', vs, d)" by (metis prod_cases3)
      then show ?thesis using that(2) [of loc vs d] assms False Some by (auto simp: resolve_view_def Let_def)
    qed
  qed
  then show ?thesis
  proof cases
    case 1
    then show ?thesis by (simp add: run_step_refl)
  next
    case 2
    have pl: "plain (put_subviews loc vs (ex_alloc ?x)) = plain (ex_alloc ?x)" by (rule put_subviews_plain)
    have "hand_over (run_owned u) (run_owned u') (ex_device ?x) d \<and> locs_ok (ru_exec u')" if l: "locs_ok ?x"
    proof
      obtain us ws where o: "allocator_owned (ex_alloc ?x) = us @ refs (map snd (get_subviews (ex_alloc ?x) loc)) @ ws"
        "\<And>vs. allocator_owned (put_subviews loc vs (ex_alloc ?x)) = us @ refs (map snd vs) @ ws"
        using put_subviews_owned [of "ex_alloc ?x" loc] l [unfolded locs_ok_def, rule_format, OF 2(1)] by metis
      show "hand_over (run_owned u) (run_owned u') (ex_device ?x) d"
        using hand_over_frame [OF subview_hand_over [OF 2(2)], of us "ws @ refs (ru_views u)"]
        by (simp add: run_owned_def 2(3) o)
      show "locs_ok (ru_exec u')" using l plain_loc_ok [OF pl] by (simp add: locs_ok_def 2(3))
    qed
    then show ?thesis using pl by (simp add: run_step_def run_graph_def 2(3))
  next
    case 3
    have "hand_over (run_owned u) (run_owned u') (ex_device ?x) d"
      using hand_over_frame [OF create_hand_over [OF 3(1)], of "run_owned u" "[]"] by (simp add: run_owned_def 3(2))
    then show ?thesis by (simp add: run_step_def run_graph_def locs_ok_def 3(2))
  qed
qed

lemma ctx_view_step: "ctx_view p h u = Inr (v, u') \<Longrightarrow> run_step u u'"
  unfolding ctx_view_def by (auto simp: run_step_refl dest: resolve_view_step split: if_splits option.splits)

lemma ctx_view_at_step: "ctx_view_at p h m l u = Inr (v, u') \<Longrightarrow> run_step u u'"
  unfolding ctx_view_at_def by (auto simp: run_step_refl dest: resolve_view_step split: if_splits)

lemma ctx_bind_step: "ctx_bind b p h u = Inr (v, u') \<Longrightarrow> run_step u u'"
  unfolding ctx_bind_def by (auto simp: run_step_refl dest: ctx_view_step split: if_splits option.splits)

lemma same_run_step: "same_run u r = Inr u' \<Longrightarrow> run_step u u'"
  by (auto simp: same_run_def run_step_refl)

lemma run_call_step: "run_call p c u = Inr u' \<Longrightarrow> run_step u u'"
  by (cases c) (auto simp: ctx_bind_at_def dest: same_run_step ctx_view_step ctx_view_at_step ctx_bind_step)

lemma run_body_step: "run_body p cs u = Inr u' \<Longrightarrow> run_step u u'"
proof (induction cs arbitrary: u)
  case (Cons c cs)
  then obtain v where "run_call p c u = Inr v" "run_body p cs v = Inr u'" by auto
  then show ?case using Cons.IH run_call_step run_step_trans by blast
qed (simp add: run_step_refl)

lemma call_body_step: "call_body bodies p u = Inr u' \<Longrightarrow> run_step u u'"
  by (auto simp: call_body_def run_step_refl dest: run_body_step split: if_splits)

lemma gather_target_step: "gather_target a (t, u) = Inr (t', u') \<Longrightarrow> run_step u u'"
  unfolding gather_target_def attach_view_def
  by (auto simp: run_step_refl dest: resolve_view_step split: if_splits option.splits)

lemma gather_targets_step: "gather_targets as (t, u) = Inr (t', u') \<Longrightarrow> run_step u u'"
proof (induction as arbitrary: t u)
  case (Cons a as)
  then obtain s v where "gather_target a (t, u) = Inr (s, v)" "gather_targets as (s, v) = Inr (t', u')" by auto
  then show ?case using Cons.IH gather_target_step run_step_trans by blast
qed (simp add: run_step_refl)

lemma encode_pass_step: "encode_pass bodies p pair u = Inr (cs, u') \<Longrightarrow> run_step u u'"
  unfolding encode_pass_def
  using run_step_trans by (auto dest: call_body_step gather_targets_step split: if_splits)

subsection \<open>The end of a pass\<close>

lemma release_views_hands: "hand_over (refs vs) [] d (fold release_ref vs d)"
proof (induction vs arbitrary: d)
  case (Cons v vs)
  have "hand_over (refs [v] @ refs vs) (refs vs) d (release_ref v d)"
    using hand_over_frame [OF release_ref_hand_over [of v d], of "[]" "refs vs"] by simp
  moreover have "refs (v # vs) = refs [v] @ refs vs" by (cases v) simp_all
  ultimately show ?case using Cons hand_over_trans by fastforce
qed (simp add: hand_over_refl)

lemma release_views_done:
  "hand_over (run_owned u) (allocator_owned (ex_alloc (ru_exec u))) (ex_device (ru_exec u)) (ex_device (ru_exec (release_views u)))"
  using hand_over_frame [OF release_views_hands [of "ru_views u" "ex_device (ru_exec u)"], of "allocator_owned (ex_alloc (ru_exec u))" "[]"]
  by (simp add: run_owned_def release_views_def)

end
