(* ===== verification/Encoding.thy ===== *)
theory Encoding
  imports Body_Frame
begin

text \<open>
  What \<open>execute\<close> leaves on the command encoder. The abstract specification is an interpreter of
  command lists that refuses what a WebGPU encoder refuses (a debug group popped that is not
  open, a pass inside a pass, an end without a begin) and collects the bodies with the group and
  the kind of pass they run in, the passes begun and the timestamp pairs.
\<close>

subsection \<open>The interpreter\<close>

record encoder =
  en_group :: string
  en_pass :: pass_kind \<comment> \<open>\<open>PK_None\<close>: between passes\<close>
  en_bodies :: "(string \<times> pass_kind \<times> nat) list"
  en_begun :: "(string \<times> pass_kind) list"
  en_pairs :: "nat list"
  en_resolved :: "nat option"

definition idle_encoder :: encoder where
  "idle_encoder = \<lparr>en_group = [], en_pass = PK_None, en_bodies = [], en_begun = [], en_pairs = [], en_resolved = None\<rparr>"

definition open_pass :: "pass_kind \<Rightarrow> string \<Rightarrow> nat option \<Rightarrow> encoder \<Rightarrow> encoder" where
  "open_pass k name pair e =
     e\<lparr>en_pass := k, en_begun := en_begun e @ [(name, k)],
       en_pairs := en_pairs e @ (case pair of None \<Rightarrow> [] | Some n \<Rightarrow> [n])\<rparr>"

fun interpret_cmd :: "encoder_cmd \<Rightarrow> encoder \<Rightarrow> encoder option" where
  "interpret_cmd (Push_Group s) e =
     (if en_group e = [] \<and> s \<noteq> [] \<and> en_pass e = PK_None then Some (e\<lparr>en_group := s\<rparr>) else None)"
| "interpret_cmd Pop_Group e = (if en_group e \<noteq> [] \<and> en_pass e = PK_None then Some (e\<lparr>en_group := []\<rparr>) else None)"
| "interpret_cmd (Begin_Compute s pair) e = (if en_pass e = PK_None then Some (open_pass PK_Compute s pair e) else None)"
| "interpret_cmd End_Compute e = (if en_pass e = PK_Compute then Some (e\<lparr>en_pass := PK_None\<rparr>) else None)"
| "interpret_cmd (Begin_Render s t pair) e = (if en_pass e = PK_None then Some (open_pass PK_Graphics s pair e) else None)"
| "interpret_cmd End_Render e = (if en_pass e = PK_Graphics then Some (e\<lparr>en_pass := PK_None\<rparr>) else None)"
| "interpret_cmd (Body i) e = Some (e\<lparr>en_bodies := en_bodies e @ [(en_group e, en_pass e, i)]\<rparr>)"
| "interpret_cmd (Resolve_Queries n) e =
     (if en_group e = [] \<and> en_pass e = PK_None \<and> en_pairs e = [0..<n] then Some (e\<lparr>en_resolved := Some n\<rparr>) else None)"
| "interpret_cmd (Copy_Queries i n) e =
     (if en_pass e = PK_None \<and> en_resolved e = Some n then Some e else None)"

fun interpret_cmds :: "encoder_cmd list \<Rightarrow> encoder \<Rightarrow> encoder option" where
  "interpret_cmds [] e = Some e"
| "interpret_cmds (c # cs) e = (case interpret_cmd c e of None \<Rightarrow> None | Some e' \<Rightarrow> interpret_cmds cs e')"

lemma interpret_append:
  "interpret_cmds (xs @ ys) e = (case interpret_cmds xs e of None \<Rightarrow> None | Some e' \<Rightarrow> interpret_cmds ys e')"
  by (induction xs arbitrary: e) (auto split: option.splits)

subsection \<open>What a schedule should leave\<close>

definition pass_group :: "pass_node \<Rightarrow> string" where
  "pass_group p = group_prefix (rid_chars (pn_id p))"

text \<open>A transfer body is recorded outside any pass object.\<close>

definition body_entry :: "pass_node \<Rightarrow> string \<times> pass_kind \<times> nat" where
  "body_entry p = (pass_group p, if pn_kind p = PK_Transfer then PK_None else pn_kind p, pn_index p)"

definition bodies_of :: "pass_node list \<Rightarrow> (string \<times> pass_kind \<times> nat) list" where
  "bodies_of ps = map body_entry (filter pn_has_exec ps)"

definition begins :: "pass_node \<Rightarrow> bool" where
  "begins p \<longleftrightarrow> pn_kind p = PK_Graphics \<or> pn_kind p = PK_Compute \<and> pn_has_exec p"

definition begun_of :: "pass_node list \<Rightarrow> (string \<times> pass_kind) list" where
  "begun_of ps = map (\<lambda>p. (pass_name p, pn_kind p)) (filter begins ps)"

definition timable :: "pass_node \<Rightarrow> bool" where
  "timable p \<longleftrightarrow> pn_has_exec p \<and> pn_kind p \<noteq> PK_Transfer"

definition last_group :: "string \<Rightarrow> pass_node list \<Rightarrow> string" where
  "last_group s ps = (if ps = [] then s else pass_group (last ps))"

lemma of_simps [simp]:
  "bodies_of [] = []" "bodies_of (p # ps) = (if pn_has_exec p then [body_entry p] else []) @ bodies_of ps"
  "begun_of [] = []" "begun_of (p # ps) = (if begins p then [(pass_name p, pn_kind p)] else []) @ begun_of ps"
  "last_group s [] = s" "last_group s (p # ps) = last_group (pass_group p) ps"
  by (simp_all add: bodies_of_def begun_of_def last_group_def)

text \<open>The encoder after the passes \<open>ps\<close> with \<open>n\<close> pairs taken before them.\<close>

definition pairs_taken :: "bool \<Rightarrow> nat \<Rightarrow> pass_node list \<Rightarrow> nat" where
  "pairs_taken profiled n ps = (if profiled then min (max n kMaxPasses) (n + length (filter timable ps)) else n)"

lemma pairs_taken_simps [simp]:
  "n \<le> kMaxPasses \<Longrightarrow> pairs_taken b n [] = n"
  "n \<le> kMaxPasses \<Longrightarrow> pairs_taken b n (p # ps) =
     pairs_taken b (if b \<and> timable p \<and> n < kMaxPasses then n + 1 else n) ps"
  by (auto simp: pairs_taken_def)

subsection \<open>The state of the encoder between passes\<close>

text \<open>\<open>encodes f e\<close>: the commands of \<open>f\<close> interpret to \<open>e\<close>, between two passes.\<close>

definition encodes :: "frame_run \<Rightarrow> encoder \<Rightarrow> bool" where
  "encodes f e \<longleftrightarrow>
     interpret_cmds (fr_commands f) idle_encoder = Some e \<and> en_group e = fr_group f \<and> en_pass e = PK_None \<and>
     en_pairs e = [0..<fr_pairs f] \<and> en_resolved e = None \<and> fr_pairs f \<le> kMaxPasses"

lemma switch_group_encodes:
  assumes "encodes f e"
  shows "encodes (switch_group s f) (e\<lparr>en_group := s\<rparr>)"
  using assms
  by (auto simp: encodes_def switch_group_def emit_def interpret_append)

lemma stamp_bakes_frame:
  "stamp_bakes ts x = Inr y \<Longrightarrow> ex_graph y = ex_graph x \<and> ex_subviews y = ex_subviews x \<and> ex_device y = ex_device x \<and>
     al_profiler (ex_alloc y) = al_profiler (ex_alloc x) \<and> al_transient (ex_alloc y) = al_transient (ex_alloc x)"
proof (induction ts arbitrary: x)
  case (Cons t ts)
  then obtain r where "find_node_checked (ex_graph x) (fst t) = Inr r" by auto
  then show ?case using Cons by (cases r) fastforce+
qed simp

lemma note_timing_frame [simp]:
  "fr_commands (note_timing p f) = fr_commands f" "fr_group (note_timing p f) = fr_group f"
  "fr_pairs (note_timing p f) = fr_pairs f" "fr_slot (note_timing p f) = fr_slot f"
  "run_graph (fr_run (note_timing p f)) = run_graph (fr_run f)" "ru_views (fr_run (note_timing p f)) = ru_views (fr_run f)"
  "time_this p (note_timing p f) = time_this p f" "pair_of p (note_timing p f) = pair_of p f"
  by (simp_all add: note_timing_def Let_def run_graph_def time_this_def pair_of_def)

text \<open>The commands of one pass.\<close>

lemma encode_pass_cmds:
  assumes "encode_pass bodies p pair u = Inr (cs, u')" "pn_kind p \<noteq> PK_None" "en_pass e = PK_None" "en_group e = pass_group p"
    "pair \<noteq> None \<Longrightarrow> timable p"
  shows "interpret_cmds cs e =
     Some (e\<lparr>en_bodies := en_bodies e @ bodies_of [p], en_begun := en_begun e @ begun_of [p],
             en_pairs := en_pairs e @ (case pair of None \<Rightarrow> [] | Some n \<Rightarrow> [n])\<rparr>)"
proof -
  consider "pn_kind p = PK_Compute" "pn_has_exec p" | "pn_kind p = PK_Compute" "\<not> pn_has_exec p"
    | "pn_kind p = PK_Graphics" | "pn_kind p = PK_Transfer"
    using assms(2) by (cases "pn_kind p") auto
  then show ?thesis
    using assms
    by cases (cases pair; auto simp: encode_pass_def body_cmd_def open_pass_def body_entry_def begins_def timable_def)+
qed

lemma execute_pass_encodes:
  assumes e: "encodes f e" and x: "execute_pass bodies p f = Inr f'"
  shows "encodes f' (e\<lparr>en_group := pass_group p, en_bodies := en_bodies e @ bodies_of [p], en_begun := en_begun e @ begun_of [p],
            en_pairs := [0..<fr_pairs f']\<rparr>)"
    "fr_slot f' = fr_slot f" "fr_pairs f' = pairs_taken (fr_slot f \<noteq> None) (fr_pairs f) [p]" "fr_group f' = pass_group p"
proof -
  let ?f1 = "switch_group (pass_group p) f"
  obtain y where y: "stamp_bakes (bake_targets p) (ru_exec (fr_run ?f1)) = Inr y" and k: "pn_kind p \<noteq> PK_None"
    using x by (auto simp: execute_pass_def pass_group_def Let_def)
  define f2 where "f2 = note_timing p (?f1\<lparr>fr_run := \<lparr>ru_exec = y, ru_views = []\<rparr>\<rparr>)"
  obtain cs u where c: "encode_pass bodies p (pair_of p f2) (fr_run f2) = Inr (cs, u)"
    "f' = (emit cs f2)\<lparr>fr_run := release_views u, fr_pairs := (if time_this p f2 then fr_pairs f2 + 1 else fr_pairs f2)\<rparr>"
    using x y by (auto simp: execute_pass_def pass_group_def [symmetric] Let_def f2_def)
  have g: "encodes ?f1 (e\<lparr>en_group := pass_group p\<rparr>)" by (rule switch_group_encodes [OF e])
  have s: "fr_commands f2 = fr_commands ?f1" "fr_group f2 = pass_group p" "fr_pairs f2 = fr_pairs f" "fr_slot f2 = fr_slot f"
    by (simp_all add: f2_def switch_group_def emit_def)
  have t: "time_this p f2 \<longleftrightarrow> fr_slot f \<noteq> None \<and> timable p \<and> fr_pairs f < kMaxPasses"
    by (auto simp: time_this_def timable_def s)
  let ?e1 = "e\<lparr>en_group := pass_group p\<rparr>"
  have i: "interpret_cmds cs ?e1 = Some (?e1\<lparr>en_bodies := en_bodies ?e1 @ bodies_of [p], en_begun := en_begun ?e1 @ begun_of [p],
             en_pairs := en_pairs ?e1 @ (case pair_of p f2 of None \<Rightarrow> [] | Some n \<Rightarrow> [n])\<rparr>)"
    by (rule encode_pass_cmds [OF c(1) k]) (use g t in \<open>auto simp: encodes_def pair_of_def split: if_splits\<close>)
  have pr: "fr_pairs f' = (if time_this p f2 then fr_pairs f + 1 else fr_pairs f)" by (simp add: c(2) s)
  then have "en_pairs e @ (case pair_of p f2 of None \<Rightarrow> [] | Some n \<Rightarrow> [n]) = [0..<fr_pairs f']"
    using e by (simp add: pair_of_def encodes_def s)
  then show "encodes f' (e\<lparr>en_group := pass_group p, en_bodies := en_bodies e @ bodies_of [p], en_begun := en_begun e @ begun_of [p],
            en_pairs := [0..<fr_pairs f']\<rparr>)"
    using g i t pr e by (simp add: encodes_def emit_def c(2) s interpret_append)
  show "fr_slot f' = fr_slot f" "fr_pairs f' = pairs_taken (fr_slot f \<noteq> None) (fr_pairs f) [p]" "fr_group f' = pass_group p"
    using pr t e by (auto simp: c(2) emit_def s encodes_def pairs_taken_def)
qed

lemma execute_passes_encodes:
  assumes "encodes f e" "execute_passes bodies ps f = Inr f'"
  shows "encodes f' (e\<lparr>en_group := last_group (en_group e) ps, en_bodies := en_bodies e @ bodies_of ps,
            en_begun := en_begun e @ begun_of ps, en_pairs := [0..<fr_pairs f']\<rparr>) \<and>
     fr_slot f' = fr_slot f \<and> fr_pairs f' = pairs_taken (fr_slot f \<noteq> None) (fr_pairs f) ps"
  using assms
proof (induction ps arbitrary: f e)
  case Nil
  then show ?case by (simp add: encodes_def)
next
  case (Cons p ps)
  then obtain f1 where f1: "execute_pass bodies p f = Inr f1" "execute_passes bodies ps f1 = Inr f'" by auto
  note E = execute_pass_encodes [OF Cons.prems(1) f1(1)]
  note I = Cons.IH [OF E(1) f1(2)]
  have n: "fr_pairs f \<le> kMaxPasses" using Cons.prems(1) by (simp add: encodes_def)
  have a: "bodies_of (p # ps) = bodies_of [p] @ bodies_of ps" "begun_of (p # ps) = begun_of [p] @ begun_of ps"
    "last_group (en_group e) (p # ps) = last_group (pass_group p) ps" by simp_all
  have "pairs_taken (fr_slot f \<noteq> None) (fr_pairs f) (p # ps) = pairs_taken (fr_slot f \<noteq> None) (fr_pairs f1) ps"
    unfolding E(3) by (simp add: pairs_taken_simps(2) [OF n] pairs_taken_def [of _ _ "[_]"] del: pairs_taken_simps)
  moreover have "encodes f' (e\<lparr>en_group := last_group (en_group e) (p # ps), en_bodies := en_bodies e @ bodies_of (p # ps),
            en_begun := en_begun e @ begun_of (p # ps), en_pairs := [0..<fr_pairs f']\<rparr>)"
    using conjunct1 [OF I] unfolding a by (simp del: of_simps)
  ultimately show ?case using conjunct2 [OF I] E(2) by simp
qed

subsection \<open>The whole command list\<close>

text \<open>Whether this run gets a slot of the profiler's ring.\<close>

definition run_slot :: "bool \<Rightarrow> bool \<Rightarrow> exec \<Rightarrow> nat option" where
  "run_slot b profiling x = fst (begin_profiling profiling (realize_graph b x))"

definition run_pairs :: "bool \<Rightarrow> bool \<Rightarrow> exec \<Rightarrow> nat" where
  "run_pairs b profiling x =
     (if run_slot b profiling x = None then 0 else min kMaxPasses (length (filter timable (g_passes (ex_graph (realize_graph b x))))))"

lemma execute_run:
  assumes "execute b profiling bodies x = Inr (cs, x')" "g_state (ex_graph x) = RG_Compiled"
    "g_state (ex_graph (realize_graph b x)) = RG_Compiled"
  obtains f where "execute_passes bodies (g_passes (ex_graph (realize_graph b x))) (start_run (begin_profiling profiling (realize_graph b x))) = Inr f"
    "cs = fr_commands (finish_profiling (close_group f))" "x' = finish_graph (ru_exec (fr_run (finish_profiling (close_group f))))"
  using assms by (auto simp: execute_def Let_def)

lemma execute_encodes:
  assumes "execute b profiling bodies x = Inr (cs, x')" "g_state (ex_graph x) = RG_Compiled"
    "g_state (ex_graph (realize_graph b x)) = RG_Compiled"
  shows "interpret_cmds cs idle_encoder =
     Some \<lparr>en_group = [], en_pass = PK_None, en_bodies = bodies_of (g_passes (ex_graph (realize_graph b x))),
           en_begun = begun_of (g_passes (ex_graph (realize_graph b x))), en_pairs = [0..<run_pairs b profiling x],
           en_resolved = (if run_pairs b profiling x = 0 then None else Some (run_pairs b profiling x))\<rparr>"
proof -
  let ?ps = "g_passes (ex_graph (realize_graph b x))" and ?s = "start_run (begin_profiling profiling (realize_graph b x))"
  obtain f where f: "execute_passes bodies ?ps ?s = Inr f" "cs = fr_commands (finish_profiling (close_group f))"
    using execute_run [OF assms] by metis
  have s: "encodes ?s idle_encoder" "fr_slot ?s = run_slot b profiling x" "fr_pairs ?s = 0"
    by (simp_all add: encodes_def start_run_def idle_encoder_def run_slot_def)
  define e where "e = idle_encoder\<lparr>en_group := last_group (en_group idle_encoder) ?ps, en_bodies := en_bodies idle_encoder @ bodies_of ?ps,
            en_begun := en_begun idle_encoder @ begun_of ?ps, en_pairs := [0..<fr_pairs f]\<rparr>"
  have E: "encodes f e" "fr_slot f = run_slot b profiling x" "fr_pairs f = run_pairs b profiling x"
    using execute_passes_encodes [OF s(1) f(1)] s(2,3) by (auto simp: e_def run_pairs_def pairs_taken_def)
  then have c: "interpret_cmds (fr_commands (close_group f)) idle_encoder = Some (e\<lparr>en_group := []\<rparr>)"
    "fr_slot (close_group f) = fr_slot f" "fr_pairs (close_group f) = fr_pairs f"
    by (auto simp: close_group_def emit_def encodes_def interpret_append)
  have e0: "e\<lparr>en_group := []\<rparr> = \<lparr>en_group = [], en_pass = PK_None, en_bodies = bodies_of ?ps, en_begun = begun_of ?ps,
      en_pairs = [0..<run_pairs b profiling x], en_resolved = None\<rparr>"
    by (simp add: e_def idle_encoder_def E(3))
  show ?thesis
  proof (cases "run_pairs b profiling x = 0")
    case True
    then have "finish_profiling (close_group f) = close_group f" using c(3) E(3) by (simp add: finish_profiling_def split: option.split)
    then show ?thesis using c(1) e0 True f(2) by simp
  next
    case False
    then obtain i where i: "run_slot b profiling x = Some i" by (auto simp: run_pairs_def split: if_splits)
    then have "fr_commands (finish_profiling (close_group f)) =
        fr_commands (close_group f) @ [Resolve_Queries (run_pairs b profiling x), Copy_Queries i (run_pairs b profiling x)]"
      using False c(2,3) E(2,3) by (simp add: finish_profiling_def emit_def Let_def)
    then show ?thesis using c(1) e0 False f(2) by (simp add: interpret_append)
  qed
qed

end
