(* ===== verification/Execute_Frame.thy ===== *)
theory Execute_Frame
  imports Encoding
begin

text \<open>
  A whole frame: what \<open>execute\<close> leaves in the allocator. Ownership across realization, bodies,
  profiling and release; the pools ready for the next frame; an allocator that is closed leaves
  behind the objects of the profiler and nothing else.
\<close>

subsection \<open>The objects of the profiler\<close>

definition profiler_owned :: "profiler \<Rightarrow> nat list" where
  "profiler_owned p = refs [pr_query_set p] @ refs [pr_resolve_buf p] @ refs (map sl_buf (pr_ring p))"

definition profiler_clean :: "profiler \<Rightarrow> bool" where
  "profiler_clean p \<longleftrightarrow> (\<not> pr_initialized p \<longrightarrow> profiler_owned p = [])"

lemma refs_one: "refs (x # xs) = refs [x] @ refs xs"
  by (cases x) simp_all

lemma init_slots_hands: "init_slots ss d = (ss', d') \<Longrightarrow> refs (map sl_buf ss) = [] \<Longrightarrow> hand_over [] (refs (map sl_buf ss')) d d'"
proof (induction ss arbitrary: d ss' d')
  case (Cons s ss)
  obtain b d1 where b: "create_object d = (b, d1)" by fastforce
  obtain ts d2 where r: "init_slots ss d1 = (ts, d2)" by fastforce
  have e: "ss' = s\<lparr>sl_buf := Some b\<rparr> # ts" "d' = d2" using Cons.prems(1) b r by auto
  have n: "refs (map sl_buf ss) = []" using Cons.prems(2) refs_one [of "sl_buf s" "map sl_buf ss"] by simp
  have "hand_over [b] (b # refs (map sl_buf ts)) d1 d2" using hand_over_frame [OF Cons.IH [OF r n], of "[b]" "[]"] by simp
  then show ?case using create_hand_over [OF b] hand_over_trans by (simp add: e)
qed (simp add: hand_over_refl)

lemma profiler_init_hands:
  assumes "profiler_init (p, d) = (q, d')" "profiler_clean p"
  shows "profiler_clean q \<and> hand_over (profiler_owned p) (profiler_owned q) d d'"
proof (cases "pr_initialized p")
  case False
  obtain a d1 where a: "create_object d = (a, d1)" by fastforce
  obtain b d2 where b: "create_object d1 = (b, d2)" by fastforce
  obtain ring d3 where r: "init_slots (pr_ring p) d2 = (ring, d3)" by fastforce
  have q: "q = p\<lparr>pr_query_set := Some a, pr_resolve_buf := Some b, pr_ring := ring, pr_initialized := True\<rparr>" "d' = d3"
    using assms(1) False a b r by (auto simp: profiler_init_def)
  have n: "profiler_owned p = []" "refs (map sl_buf (pr_ring p)) = []"
    using assms(2) False by (simp_all add: profiler_clean_def profiler_owned_def)
  have "hand_over [a] [a, b] d1 d2" using hand_over_frame [OF create_hand_over [OF b], of "[a]" "[]"] by simp
  moreover have "hand_over [a, b] ([a, b] @ refs (map sl_buf ring)) d2 d3"
    using hand_over_frame [OF init_slots_hands [OF r n(2)], of "[a, b]" "[]"] by simp
  ultimately have "hand_over [] ([a, b] @ refs (map sl_buf ring)) d d3"
    using create_hand_over [OF a] hand_over_trans by blast
  moreover have "profiler_owned q = [a, b] @ refs (map sl_buf ring)" "pr_initialized q" by (simp_all add: q(1) profiler_owned_def)
  ultimately show ?thesis by (simp add: q(2) n(1) profiler_clean_def)
qed (use assms in \<open>simp add: profiler_init_def hand_over_refl\<close>)

lemma upd_slot_owned:
  assumes "\<And>s. sl_buf (f s) = sl_buf s"
  shows "profiler_owned (upd_slot i f p) = profiler_owned p" "pr_initialized (upd_slot i f p) = pr_initialized p"
  using map_update_same [of sl_buf "f (pr_ring p ! i)" "pr_ring p" i] assms by (simp_all add: upd_slot_def profiler_owned_def)

lemma slot_calls_owned [simp]:
  "profiler_owned (name_query i k nm p) = profiler_owned p" "profiler_clean (name_query i k nm p) = profiler_clean p"
  "profiler_owned (hand_slot i n p) = profiler_owned p" "profiler_clean (hand_slot i n p) = profiler_clean p"
proof -
  have p: "profiler_owned (q\<lparr>pr_pending_slot := j\<rparr>) = profiler_owned q" for q j by (simp add: profiler_owned_def)
  show "profiler_owned (name_query i k nm p) = profiler_owned p" "profiler_clean (name_query i k nm p) = profiler_clean p"
    "profiler_owned (hand_slot i n p) = profiler_owned p" "profiler_clean (hand_slot i n p) = profiler_clean p"
    by (simp_all add: name_query_def hand_slot_def profiler_clean_def p upd_slot_owned)
qed

subsection \<open>Handing over, profiler included\<close>

definition full_owned :: "allocator \<Rightarrow> nat list" where
  "full_owned al = allocator_owned al @ profiler_owned (al_profiler al)"

definition allocator_valid :: "allocator \<Rightarrow> bool" where
  "allocator_valid al \<longleftrightarrow> allocator_ok al \<and> profiler_clean (al_profiler al)"

definition full_hands :: "exec \<Rightarrow> exec \<Rightarrow> bool" where
  "full_hands x y \<longleftrightarrow>
     (allocator_valid (ex_alloc x) \<longrightarrow>
        allocator_valid (ex_alloc y) \<and> hand_over (full_owned (ex_alloc x)) (full_owned (ex_alloc y)) (ex_device x) (ex_device y))"

lemma full_hands_refl: "full_hands x x"
  by (simp add: full_hands_def hand_over_refl)

lemma full_hands_trans: "full_hands x y \<Longrightarrow> full_hands y z \<Longrightarrow> full_hands x z"
  unfolding full_hands_def using hand_over_trans by blast

lemma full_hands_exec:
  "exec_hands x y \<Longrightarrow> al_profiler (ex_alloc y) = al_profiler (ex_alloc x) \<Longrightarrow> full_hands x y"
  using hand_over_frame [of "allocator_owned (ex_alloc x)" "allocator_owned (ex_alloc y)" "ex_device x" "ex_device y" "[]"]
  by (simp add: full_hands_def exec_hands_def allocator_valid_def full_owned_def)

lemma full_hands_same:
  assumes "allocator_owned (ex_alloc y) = allocator_owned (ex_alloc x)" "allocator_ok (ex_alloc y) = allocator_ok (ex_alloc x)"
    "profiler_owned (al_profiler (ex_alloc y)) = profiler_owned (al_profiler (ex_alloc x))"
    "profiler_clean (al_profiler (ex_alloc y)) = profiler_clean (al_profiler (ex_alloc x))" "ex_device y = ex_device x"
  shows "full_hands x y"
  using assms by (simp add: full_hands_def allocator_valid_def full_owned_def hand_over_refl)

subsection \<open>Realizing does not touch the profiler or forget a subview list\<close>

lemma realize_frame:
  "al_profiler (ex_alloc (realize_graph b x)) = al_profiler (ex_alloc x)"
  "ex_subviews x = (\<lambda>_. None) \<Longrightarrow> locs_ok (realize_graph b x)"
proof -
  have s: "al_profiler (ex_alloc (stop_on e y)) = al_profiler (ex_alloc y)" "ex_subviews (stop_on e y) = ex_subviews y" for e y
    by (cases e; simp add: stop_on_def fail_realize_def)+
  have f: "al_profiler (ex_alloc (rz_touch y)) = al_profiler (ex_alloc y)" "ex_subviews (rz_touch y) = ex_subviews y"
    "al_profiler (ex_alloc (rz_persistent y)) = al_profiler (ex_alloc y)" "ex_subviews (rz_persistent y) = ex_subviews y"
    "al_profiler (ex_alloc (rz_slots y)) = al_profiler (ex_alloc y)" "ex_subviews (rz_slots y) = ex_subviews y"
    "al_profiler (ex_alloc (rz_members y)) = al_profiler (ex_alloc y)" "ex_subviews (rz_members y) = ex_subviews y"
    "al_profiler (ex_alloc (rz_textures b y)) = al_profiler (ex_alloc y)" "ex_subviews (rz_textures b y) = ex_subviews y"
    "al_profiler (ex_alloc (rz_buffers y)) = al_profiler (ex_alloc y)" "ex_subviews (rz_buffers y) = ex_subviews y"
    "al_profiler (ex_alloc (rz_subviews y)) = al_profiler (ex_alloc y)" for y
    by (simp_all add: rz_touch_def rz_persistent_def rz_slots_def rz_members_def rz_textures_def rz_buffers_def rz_subviews_def
        split_beta Let_def s put_pool_def put_nodes_def put_transients_def)
  show "al_profiler (ex_alloc (realize_graph b x)) = al_profiler (ex_alloc x)"
    by (simp add: realize_graph_def unless_stopped_def Let_def f fail_realize_def)
  have n: "ex_subviews y = (\<lambda>_. None) \<Longrightarrow> locs_ok y" for y by (simp add: locs_ok_def)
  show "ex_subviews x = (\<lambda>_. None) \<Longrightarrow> locs_ok (realize_graph b x)"
    by (auto simp: realize_graph_def unless_stopped_def Let_def f fail_realize_def intro!: n rz_subviews_locs)
qed

subsection \<open>One pass\<close>

text \<open>Stamping a bake changes two fields of an entry that no invariant reads.\<close>

definition unstamped :: "pentry \<Rightarrow> pentry" where
  "unstamped e = e\<lparr>pe_init_hash := 0, pe_baked := False\<rparr>"

lemma stamp_bakes_pool:
  "stamp_bakes ts x = Inr y \<Longrightarrow>
     map unstamped (pp_entries (al_pool (ex_alloc y))) = map unstamped (pp_entries (al_pool (ex_alloc x))) \<and>
     pp_clock (al_pool (ex_alloc y)) = pp_clock (al_pool (ex_alloc x))"
proof (induction ts arbitrary: x)
  case (Cons t ts)
  have u: "map unstamped (upd_first P (\<lambda>e. e\<lparr>pe_init_hash := h, pe_baked := True\<rparr>) es) = map unstamped es" for P h es
    by (induction es) (auto simp: unstamped_def)
  obtain r where r: "find_node_checked (ex_graph x) (fst t) = Inr r" using Cons.prems by auto
  show ?case
  proof (cases r)
    case None
    then show ?thesis using Cons.IH [of x] Cons.prems r by simp
  next
    case (Some q)
    define z where "z = x\<lparr>ex_alloc := (ex_alloc x)\<lparr>al_pool := upd_entry (rn_id q) (\<lambda>e. e\<lparr>pe_init_hash := snd t, pe_baked := True\<rparr>) (al_pool (ex_alloc x))\<rparr>\<rparr>"
    have "stamp_bakes ts z = Inr y" using Cons.prems r Some by (simp add: z_def)
    from Cons.IH [OF this] show ?thesis by (simp add: z_def upd_entry_def u)
  qed
qed simp

lemma unstamped_ok: "unstamped e = unstamped e' \<Longrightarrow> pentry_ok a b e = pentry_ok a b e' \<and> entry_owned e = entry_owned e'
    \<and> length (pe_objects e) = length (pe_objects e')"
proof -
  have "pentry_ok a b (unstamped e) = pentry_ok a b e" "entry_owned (unstamped e) = entry_owned e"
    "length (pe_objects (unstamped e)) = length (pe_objects e)" for e
    by (simp_all add: unstamped_def pentry_ok_def entry_owned_def)
  then show "unstamped e = unstamped e' \<Longrightarrow> ?thesis" by metis
qed

lemma stamp_bakes_keeps:
  assumes "stamp_bakes ts x = Inr y"
  shows "full_hands x y" "persistent_mid (al_pool (ex_alloc y)) = persistent_mid (al_pool (ex_alloc x))"
    "locs_ok x \<Longrightarrow> locs_ok y"
proof -
  note F = stamp_bakes_frame [OF assms]
  let ?es = "pp_entries (al_pool (ex_alloc x))" and ?fs = "pp_entries (al_pool (ex_alloc y))"
  have m: "map unstamped ?fs = map unstamped ?es" and c: "pp_clock (al_pool (ex_alloc y)) = pp_clock (al_pool (ex_alloc x))"
    using stamp_bakes_pool [OF assms] by blast+
  have l: "length ?fs = length ?es" using map_eq_imp_length_eq [OF m] .
  have n: "unstamped (?fs ! i) = unstamped (?es ! i)" if "i < length ?es" for i by (rule map_nth_eq [OF m that])
  have N: "entry_owned (?fs ! i) = entry_owned (?es ! i)" "length (pe_objects (?fs ! i)) = length (pe_objects (?es ! i))"
    if "i < length ?es" for i
    using unstamped_ok [OF n [OF that]] by blast+
  have "map entry_owned ?fs = map entry_owned ?es" by (rule nth_equalityI) (simp_all add: l N)
  then have "persistent_owned (al_pool (ex_alloc y)) = persistent_owned (al_pool (ex_alloc x))"
    by (simp add: persistent_owned_def entries_owned_def)
  then show "full_hands x y" using F by (intro full_hands_same) (simp_all add: allocator_owned_def allocator_ok_def)
  show "persistent_mid (al_pool (ex_alloc y)) = persistent_mid (al_pool (ex_alloc x))"
    unfolding persistent_mid_def entries_ok_def c using list_all_map_cong [OF m] unstamped_ok by blast
  show "locs_ok y" if "locs_ok x"
    unfolding locs_ok_def
  proof (intro allI impI)
    fix h loc assume "ex_subviews y h = Some loc"
    then have "loc_ok (ex_alloc x) loc" using that F by (simp add: locs_ok_def)
    then show "loc_ok (ex_alloc y) loc" using F l N(2) by (cases loc) (simp_all add: loc_ok_def)
  qed
qed

text \<open>What a pass keeps.\<close>

definition pass_keeps :: "exec \<Rightarrow> exec \<Rightarrow> bool" where
  "pass_keeps x y \<longleftrightarrow>
     ex_graph y = ex_graph x \<and> (locs_ok x \<longrightarrow> locs_ok y \<and> full_hands x y) \<and>
     persistent_mid (al_pool (ex_alloc y)) = persistent_mid (al_pool (ex_alloc x))"

lemma pass_keeps_trans: "pass_keeps x y \<Longrightarrow> pass_keeps y z \<Longrightarrow> pass_keeps x z"
  unfolding pass_keeps_def using full_hands_trans by metis

lemma body_keeps:
  assumes "run_step u u'" "ru_views u = []"
  shows "pass_keeps (ru_exec u) (ru_exec (release_views u'))"
proof -
  let ?x = "ru_exec u" and ?y = "ru_exec (release_views u')"
  note D = run_stepD [OF assms(1)]
  have y: "ex_alloc ?y = ex_alloc (ru_exec u')" "ex_graph ?y = ex_graph ?x" "ex_subviews ?y = ex_subviews (ru_exec u')"
    using D(1) by (simp_all add: release_views_def run_graph_def)
  have h: "locs_ok ?y" "full_hands ?x ?y" if l: "locs_ok ?x"
  proof -
    have s: "locs_ok (ru_exec u')" "hand_over (run_owned u) (run_owned u') (ex_device ?x) (ex_device (ru_exec u'))"
      using assms(1) l by (simp_all add: run_step_def)
    show "locs_ok ?y" using s(1) y by (simp add: locs_ok_def)
    have "hand_over (run_owned u) (allocator_owned (ex_alloc ?y)) (ex_device ?x) (ex_device ?y)"
      unfolding y(1) by (rule hand_over_trans [OF s(2) release_views_done])
    then have "exec_hands ?x ?y" using plain_ok(1) [OF D(2)] assms(2) by (simp add: exec_hands_def run_owned_def y(1))
    then show "full_hands ?x ?y" using D(3) by (intro full_hands_exec) (simp_all add: y(1))
  qed
  then show ?thesis using plain_ok(3) [OF D(2)] y by (simp add: pass_keeps_def)
qed

lemma note_timing_keeps: "pass_keeps (ru_exec (fr_run f)) (ru_exec (fr_run (note_timing p f)))"
  by (auto simp: pass_keeps_def note_timing_def Let_def locs_ok_def loc_ok_def allocator_owned_def allocator_ok_def
      intro!: full_hands_same split: subview_loc.split)

lemma execute_pass_keeps:
  assumes "execute_pass bodies p f = Inr f'"
  shows "pass_keeps (ru_exec (fr_run f)) (ru_exec (fr_run f'))"
proof -
  define f1 where "f1 = switch_group (pass_group p) f"
  have r1: "fr_run f1 = fr_run f" by (simp add: f1_def switch_group_def emit_def)
  obtain y where y: "stamp_bakes (bake_targets p) (ru_exec (fr_run f)) = Inr y"
    using assms by (auto simp: execute_pass_def pass_group_def [symmetric] f1_def [symmetric] Let_def r1)
  define f2 where "f2 = note_timing p (f1\<lparr>fr_run := \<lparr>ru_exec = y, ru_views = []\<rparr>\<rparr>)"
  obtain cs u where c: "encode_pass bodies p (pair_of p f2) (fr_run f2) = Inr (cs, u)" "fr_run f' = release_views u"
    using assms y by (auto simp: execute_pass_def pass_group_def [symmetric] f1_def [symmetric] Let_def f2_def r1)
  have "pass_keeps (ru_exec (fr_run f)) y"
    using stamp_bakes_keeps [OF y] stamp_bakes_frame [OF y] by (simp add: pass_keeps_def)
  moreover have "pass_keeps y (ru_exec (fr_run f2))"
    using note_timing_keeps [of "f1\<lparr>fr_run := \<lparr>ru_exec = y, ru_views = []\<rparr>\<rparr>" p] by (simp add: f2_def)
  moreover have "pass_keeps (ru_exec (fr_run f2)) (ru_exec (release_views u))"
    by (rule body_keeps [OF encode_pass_step [OF c(1)]]) (simp add: f2_def)
  ultimately show ?thesis unfolding c(2) using pass_keeps_trans by blast
qed

lemma execute_passes_keeps:
  "execute_passes bodies ps f = Inr f' \<Longrightarrow> pass_keeps (ru_exec (fr_run f)) (ru_exec (fr_run f'))"
proof (induction ps arbitrary: f)
  case Nil
  then show ?case by (simp add: pass_keeps_def full_hands_refl)
next
  case (Cons p ps)
  then obtain f1 where "execute_pass bodies p f = Inr f1" "execute_passes bodies ps f1 = Inr f'" by auto
  then show ?case using Cons.IH execute_pass_keeps pass_keeps_trans by blast
qed

end
