(* ===== verification/Frames.thy ===== *)
theory Frames
  imports Execute_Frame
begin

text \<open>
  Frames: \<open>execute\<close> as a step of the allocator between \<open>begin_frame\<close> and \<open>end_frame\<close>, and
  the life of an allocator as a sequence of such steps.
\<close>

subsection \<open>One execution\<close>

lemma begin_profiling_keeps:
  assumes "begin_profiling profiling x = (s, y)"
  shows "full_hands x y" "ex_graph y = ex_graph x" "locs_ok x \<Longrightarrow> locs_ok y"
    "al_pool (ex_alloc y) = al_pool (ex_alloc x)" "\<not> profiling \<Longrightarrow> y = x \<and> s = None"
proof -
  obtain p d where i: "profiler_init (al_profiler (ex_alloc x), ex_device x) = (p, d)" by fastforce
  show "full_hands x y"
  proof (cases "\<not> profiling \<or> pr_pending_slot (al_profiler (ex_alloc x)) \<noteq> None")
    case True
    then show ?thesis using assms by (auto simp: begin_profiling_def full_hands_refl)
  next
    case False
    then have y: "y = x\<lparr>ex_alloc := (ex_alloc x)\<lparr>al_profiler := p\<rparr>, ex_device := d\<rparr>"
      using assms i by (auto simp: begin_profiling_def)
    show ?thesis
      unfolding full_hands_def
    proof
      assume v: "allocator_valid (ex_alloc x)"
      then have h: "profiler_clean p \<and> hand_over (profiler_owned (al_profiler (ex_alloc x))) (profiler_owned p) (ex_device x) d"
        using profiler_init_hands [OF i] by (simp add: allocator_valid_def)
      from hand_over_frame [OF conjunct2 [OF h], of "allocator_owned (ex_alloc x)" "[]"] v h
      show "allocator_valid (ex_alloc y) \<and> hand_over (full_owned (ex_alloc x)) (full_owned (ex_alloc y)) (ex_device x) (ex_device y)"
        by (simp add: y full_owned_def allocator_valid_def allocator_ok_def allocator_owned_def)
    qed
  qed
  have e: "ex_graph y = ex_graph x \<and> ex_subviews y = ex_subviews x \<and> al_pool (ex_alloc y) = al_pool (ex_alloc x) \<and>
      al_transient (ex_alloc y) = al_transient (ex_alloc x)"
    using assms i by (auto simp: begin_profiling_def Let_def split: if_splits)
  show "ex_graph y = ex_graph x" "al_pool (ex_alloc y) = al_pool (ex_alloc x)" using e by simp_all
  show "locs_ok y" if "locs_ok x"
    unfolding locs_ok_def
  proof (intro allI impI)
    fix h loc assume "ex_subviews y h = Some loc"
    then have "loc_ok (ex_alloc x) loc" using that e by (simp add: locs_ok_def)
    then show "loc_ok (ex_alloc y) loc" using e by (cases loc) (simp_all add: loc_ok_def)
  qed
  show "y = x \<and> s = None" if "\<not> profiling" using that assms by (simp add: begin_profiling_def Let_def)
qed

lemma finish_profiling_keeps: "full_hands (ru_exec (fr_run f)) (ru_exec (fr_run (finish_profiling (close_group f))))"
  "al_pool (ex_alloc (ru_exec (fr_run (finish_profiling (close_group f))))) = al_pool (ex_alloc (ru_exec (fr_run f)))"
proof -
  have c: "fr_run (close_group f) = fr_run f" by (simp add: close_group_def emit_def)
  have "full_hands (ru_exec (fr_run h)) (ru_exec (fr_run (finish_profiling h))) \<and>
      al_pool (ex_alloc (ru_exec (fr_run (finish_profiling h)))) = al_pool (ex_alloc (ru_exec (fr_run h)))" for h
    by (cases "fr_slot h") (auto simp: finish_profiling_def Let_def full_hands_refl allocator_owned_def allocator_ok_def intro!: full_hands_same)
  then show "full_hands (ru_exec (fr_run f)) (ru_exec (fr_run (finish_profiling (close_group f))))"
    "al_pool (ex_alloc (ru_exec (fr_run (finish_profiling (close_group f))))) = al_pool (ex_alloc (ru_exec (fr_run f)))"
    using c by metis+
qed

lemma finish_graph_keeps: "full_hands x (finish_graph x)" "al_pool (ex_alloc (finish_graph x)) = al_pool (ex_alloc x)"
proof -
  let ?y = "x\<lparr>ex_graph := (ex_graph x)\<lparr>g_state := RG_Finished\<rparr>\<rparr>"
  have "full_hands ?y (release_resources ?y)"
    by (rule full_hands_exec [OF release_hands]) (simp add: release_resources_def)
  moreover have "full_hands x ?y" by (rule full_hands_same) simp_all
  ultimately show "full_hands x (finish_graph x)" unfolding finish_graph_def using full_hands_trans by blast
  show "al_pool (ex_alloc (finish_graph x)) = al_pool (ex_alloc x)" by (simp add: finish_graph_def release_resources_def)
qed

lemma execute_keeps:
  assumes e: "execute b profiling bodies x = Inr (cs, x')" and v: "ex_subviews x = (\<lambda>_. None)"
  shows "full_hands x x'"
    "g_state (ex_graph x) = RG_Compiled \<Longrightarrow> g_state (ex_graph (realize_graph b x)) = RG_Compiled \<Longrightarrow>
       persistent_mid (al_pool (ex_alloc (realize_graph b x))) \<Longrightarrow> persistent_mid (al_pool (ex_alloc x'))"
proof -
  let ?r = "realize_graph b x"
  have r: "full_hands x ?r" by (rule full_hands_exec [OF realize_hands realize_frame(1)])
  have run: "full_hands x x' \<and> (persistent_mid (al_pool (ex_alloc ?r)) \<longrightarrow> persistent_mid (al_pool (ex_alloc x')))"
    if st: "g_state (ex_graph x) = RG_Compiled" "g_state (ex_graph ?r) = RG_Compiled"
  proof -
    obtain s y where b: "begin_profiling profiling ?r = (s, y)" by fastforce
    obtain f where f: "execute_passes bodies (g_passes (ex_graph ?r)) (start_run (begin_profiling profiling ?r)) = Inr f"
      "x' = finish_graph (ru_exec (fr_run (finish_profiling (close_group f))))"
      using execute_run [OF e st] by metis
    note B = begin_profiling_keeps [OF b]
    have k: "pass_keeps y (ru_exec (fr_run f))"
      using execute_passes_keeps [OF f(1)] by (simp add: start_run_def b)
    have "locs_ok y" by (rule B(3)) (rule realize_frame(2) [OF v])
    then have "full_hands ?r (ru_exec (fr_run f))" using k B(1) full_hands_trans by (simp add: pass_keeps_def)
    moreover have "persistent_mid (al_pool (ex_alloc (ru_exec (fr_run f)))) = persistent_mid (al_pool (ex_alloc ?r))"
      using k B(4) by (simp add: pass_keeps_def)
    ultimately show ?thesis
      unfolding f(2) finish_graph_keeps(2) finish_profiling_keeps(2)
      using full_hands_trans [OF r] full_hands_trans finish_graph_keeps(1) finish_profiling_keeps(1) by metis
  qed
  show "full_hands x x'"
  proof (cases "g_state (ex_graph x) = RG_Compiled \<and> g_state (ex_graph ?r) = RG_Compiled")
    case True
    then show ?thesis using run by blast
  next
    case False
    then have "x' = x \<or> x' = ?r" using e by (auto simp: execute_def Let_def split: if_splits)
    then show ?thesis using r full_hands_refl by blast
  qed
  show "persistent_mid (al_pool (ex_alloc x'))"
    if "g_state (ex_graph x) = RG_Compiled" "g_state (ex_graph ?r) = RG_Compiled" "persistent_mid (al_pool (ex_alloc ?r))"
    using run that by blast
qed

text \<open>Without profiling the profiler is not touched.\<close>

lemma execute_profiler:
  assumes "execute b False bodies x = Inr (cs, x')"
  shows "al_profiler (ex_alloc x') = al_profiler (ex_alloc x)"
proof -
  let ?r = "realize_graph b x"
  have pass: "al_profiler (ex_alloc (ru_exec (fr_run f'))) = al_profiler (ex_alloc (ru_exec (fr_run f))) \<and> fr_slot f' = None"
    if h: "execute_pass bodies p f = Inr f'" "fr_slot f = None" for p f f'
  proof -
    define f1 where "f1 = switch_group (pass_group p) f"
    have r1: "fr_run f1 = fr_run f" "fr_slot f1 = None" using h(2) by (simp_all add: f1_def switch_group_def emit_def)
    obtain y where y: "stamp_bakes (bake_targets p) (ru_exec (fr_run f)) = Inr y"
      using h(1) by (auto simp: execute_pass_def pass_group_def [symmetric] f1_def [symmetric] Let_def r1)
    define f2 where "f2 = note_timing p (f1\<lparr>fr_run := \<lparr>ru_exec = y, ru_views = []\<rparr>\<rparr>)"
    have f2: "fr_run f2 = \<lparr>ru_exec = y, ru_views = []\<rparr>" "fr_slot f2 = None"
      using r1(2) by (simp_all add: f2_def note_timing_def time_this_def)
    obtain cs u where c: "encode_pass bodies p (pair_of p f2) (fr_run f2) = Inr (cs, u)"
      "f' = (emit cs f2)\<lparr>fr_run := release_views u, fr_pairs := (if time_this p f2 then fr_pairs f2 + 1 else fr_pairs f2)\<rparr>"
      using h(1) y by (auto simp: execute_pass_def pass_group_def [symmetric] f1_def [symmetric] Let_def f2_def r1)
    show ?thesis
      using run_stepD(3) [OF encode_pass_step [OF c(1)]] stamp_bakes_frame [OF y] f2
      by (simp add: c(2) emit_def release_views_def)
  qed
  have passes: "al_profiler (ex_alloc (ru_exec (fr_run f'))) = al_profiler (ex_alloc (ru_exec (fr_run f))) \<and> fr_slot f' = None"
    if "execute_passes bodies ps f = Inr f'" "fr_slot f = None" for ps f f'
    using that
  proof (induction ps arbitrary: f)
    case (Cons p ps)
    then obtain f1 where "execute_pass bodies p f = Inr f1" "execute_passes bodies ps f1 = Inr f'" by auto
    then show ?case using Cons.IH pass Cons.prems(2) by metis
  qed simp
  have r: "al_profiler (ex_alloc ?r) = al_profiler (ex_alloc x)" by (rule realize_frame(1))
  show ?thesis
  proof (cases "g_state (ex_graph x) = RG_Compiled \<and> g_state (ex_graph ?r) = RG_Compiled")
    case True
    then obtain f where f: "execute_passes bodies (g_passes (ex_graph ?r)) (start_run (None, ?r)) = Inr f"
      "x' = finish_graph (ru_exec (fr_run (finish_profiling (close_group f))))"
      using execute_run [OF assms] by (auto simp: begin_profiling_def Let_def)
    have s: "fr_slot (start_run (None, ?r)) = None" "ru_exec (fr_run (start_run (None, ?r))) = ?r" by (simp_all add: start_run_def)
    have "fr_slot f = None" "al_profiler (ex_alloc (ru_exec (fr_run f))) = al_profiler (ex_alloc ?r)"
      using passes [OF f(1) s(1)] s(2) by simp_all
    then show ?thesis
      using r by (simp add: f(2) finish_graph_def release_resources_def finish_profiling_def close_group_def emit_def)
  next
    case False
    then have "x' = x \<or> x' = ?r" using assms by (auto simp: execute_def Let_def split: if_splits)
    then show ?thesis using r by auto
  qed
qed

subsection \<open>Operations of the allocator\<close>

text \<open>
  A graph executed on an allocator. A failed assertion aborts the program, so what such an
  operation would leave is never seen; it is given as no change.
\<close>

definition execute_on ::
  "bool \<Rightarrow> bool \<Rightarrow> (pass_node \<Rightarrow> ctx_call list) \<Rightarrow> graph \<Rightarrow> allocator \<times> device \<Rightarrow> allocator \<times> device" where
  "execute_on b profiling bodies g st =
     (case execute b profiling bodies \<lparr>ex_alloc = fst st, ex_graph = g, ex_subviews = (\<lambda>_. None), ex_device = snd st\<rparr> of
        Inl _ \<Rightarrow> st
      | Inr (_, x) \<Rightarrow> (ex_alloc x, ex_device x))"

definition frame_ops :: "(allocator \<times> device \<Rightarrow> allocator \<times> device) set" where
  "frame_ops = {begin_frame, end_frame} \<union> {execute_on b profiling bodies g | b profiling bodies g. True}"

definition unprofiled_ops :: "(allocator \<times> device \<Rightarrow> allocator \<times> device) set" where
  "unprofiled_ops = {begin_frame, end_frame} \<union> {execute_on b False bodies g | b bodies g. True}"

lemma begin_frame_same:
  "begin_frame (al, d) = (al', d') \<Longrightarrow> d' = d \<and> al_pool al' = al_pool al \<and> al_transient al' = al_transient al \<and> al_profiler al' = al_profiler al"
  by (auto simp: begin_frame_def reset_allocator_def)

lemma end_frame_profiler: "end_frame (al, d) = (al', d') \<Longrightarrow> al_profiler al' = al_profiler al"
  by (auto simp: end_frame_def split: prod.splits)

lemma execute_on_hands:
  assumes "execute_on b profiling bodies g (al, d) = (al', d')" "allocator_valid al"
  shows "allocator_valid al' \<and> hand_over (full_owned al) (full_owned al') d d'"
proof -
  let ?x = "\<lparr>ex_alloc = al, ex_graph = g, ex_subviews = (\<lambda>_. None), ex_device = d\<rparr>"
  show ?thesis
  proof (cases "execute b profiling bodies ?x")
    case (Inl e)
    then show ?thesis using assms by (simp add: execute_on_def hand_over_refl)
  next
    case (Inr cx)
    obtain cs x' where cx: "cx = (cs, x')" by (cases cx)
    then have e: "al' = ex_alloc x'" "d' = ex_device x'" using assms(1) Inr by (simp_all add: execute_on_def)
    have "full_hands ?x x'" by (rule execute_keeps(1) [OF Inr [unfolded cx]]) simp
    then show ?thesis using assms(2) by (simp add: full_hands_def e)
  qed
qed

text \<open>Every operation of a frame, profiled or not, hands the allocator's objects to itself.\<close>

interpretation frames: object_keeper full_owned allocator_valid frame_ops
proof
  fix f al d al' d' assume f: "f \<in> frame_ops" and v: "allocator_valid al" and r: "f (al, d) = (al', d')"
  from f consider "f = begin_frame" | "f = end_frame" | b pr bo g where "f = execute_on b pr bo g"
    by (auto simp: frame_ops_def)
  then show "allocator_valid al' \<and> hand_over (full_owned al) (full_owned al') d d'"
  proof cases
    case 1
    then show ?thesis using begin_frame_same [of al d al' d'] r v
      by (simp add: allocator_valid_def allocator_ok_def full_owned_def allocator_owned_def hand_over_refl)
  next
    case 2
    then have e: "end_frame (al, d) = (al', d')" using r by simp
    have h: "allocator_ok al'" "hand_over (allocator_owned al) (allocator_owned al') d d'"
      using end_frame_hands [OF e] v by (simp_all add: allocator_valid_def)
    show ?thesis using hand_over_frame [OF h(2), of "[]" "profiler_owned (al_profiler al)"] h(1) v end_frame_profiler [OF e]
      by (simp add: allocator_valid_def full_owned_def)
  next
    case 3
    then show ?thesis using execute_on_hands [OF _ v] r by blast
  qed
qed

lemma execute_on_profiler: "execute_on b False bodies g (al, d) = (al', d') \<Longrightarrow> al_profiler al' = al_profiler al"
  using execute_profiler [of b bodies "\<lparr>ex_alloc = al, ex_graph = g, ex_subviews = (\<lambda>_. None), ex_device = d\<rparr>"]
  by (auto simp: execute_on_def split: sum.splits)

text \<open>An allocator that never profiled owns its pools only, and closing it releases all.\<close>

definition unprofiled :: "allocator \<Rightarrow> bool" where
  "unprofiled al \<longleftrightarrow> allocator_ok al \<and> profiler_owned (al_profiler al) = []"

interpretation allocators: object_owner allocator_owned unprofiled unprofiled_ops destroy_allocator
proof
  fix f al d al' d' assume f: "f \<in> unprofiled_ops" and v: "unprofiled al" and r: "f (al, d) = (al', d')"
  have v': "allocator_valid al" using v by (simp add: allocator_valid_def unprofiled_def profiler_clean_def)
  have "f \<in> frame_ops" using f by (auto simp: unprofiled_ops_def frame_ops_def)
  then have h: "allocator_valid al' \<and> hand_over (full_owned al) (full_owned al') d d'" using frames.op_hands v' r by blast
  have "al_profiler al' = al_profiler al"
    using f r begin_frame_same end_frame_profiler execute_on_profiler by (auto simp: unprofiled_ops_def)
  then show "unprofiled al' \<and> hand_over (allocator_owned al) (allocator_owned al') d d'"
    using h v by (simp add: unprofiled_def allocator_valid_def full_owned_def)
next
  fix al d al' d' assume "unprofiled al" "destroy_allocator (al, d) = (al', d')"
  then show "allocator_owned al' = [] \<and> hand_over (allocator_owned al) [] d d'"
    using destroy_allocator_hands by (simp add: unprofiled_def)
qed

text \<open>Closing one that profiled leaves the objects of the profiler alive.\<close>

lemma destroy_leaves_profiler:
  assumes "set fs \<subseteq> frame_ops" "allocator_valid al" "accounts (full_owned al) d" "fold id fs (al, d) = (al1, d1)"
    and c: "destroy_allocator (al1, d1) = (al', d')"
  shows "dv_stray d' = [] \<and> dv_live d' = (dv_live d - set (full_owned al)) \<union> set (profiler_owned (al_profiler al1))"
proof -
  note K = frames.kept [OF assms(1-4)]
  then have ok: "allocator_ok al1" and a: "accounts (allocator_owned al1 @ profiler_owned (al_profiler al1)) d1"
    by (simp_all add: allocator_valid_def full_owned_def)
  have "hand_over (allocator_owned al1) [] d1 d'" using destroy_allocator_hands [OF c ok] by simp
  then have 2: "accounts (profiler_owned (al_profiler al1)) d'" "dv_live d' = dv_live d1 - set (allocator_owned al1)"
    using a by (auto simp: hand_over_def rest_def)
  have "dv_live d1 - set (full_owned al1) = dv_live d - set (full_owned al)" using K by simp
  then show ?thesis using 2 a by (auto simp: accounts_def full_owned_def)
qed

subsection \<open>Frame after frame\<close>

text \<open>After a frame the next graph finds the allocator as this one found it.\<close>

lemma frame_ready:
  assumes rdy: "ready (it, g) pool0 enable x" and v: "ex_subviews x = (\<lambda>_. None)"
    and pr: "profiler_clean (al_profiler (ex_alloc x))" "accounts (full_owned (ex_alloc x)) (ex_device x)"
    and e: "execute b profiling bodies x = Inr (cs, x')" and f: "end_frame (ex_alloc x', ex_device x') = (al, d)"
  shows "persistent_ok (al_pool al) \<and> allocator_valid al \<and> accounts (full_owned al) d"
proof -
  note D = readyD [OF rdy]
  note S = realize_succeeds [OF rdy, of b]
  obtain pool rs1 phs rs3 rs4 st1 st2 st3 st4 where
    U: "realized_upto (pp_clock (al_pool (ex_alloc x))) (g_nodes (ex_graph x)) (length (g_nodes (ex_graph x))) rs1 pool"
    and a: "al_pool (ex_alloc (realize_graph b x)) = pool"
    using ready_run [OF rdy] by metis
  have "persistent_mid (al_pool (ex_alloc (realize_graph b x)))"
    using realized_uptoD(1,2) [OF U] a by (simp add: persistent_mid_def)
  then have m: "persistent_mid (al_pool (ex_alloc x'))" by (rule execute_keeps(2) [OF e v D(3) S(1)])
  obtain p1 d1 where p: "persistent_end_frame (al_pool (ex_alloc x'), ex_device x') = (p1, d1)" by fastforce
  have "al_pool al = p1" using f p by (auto simp: end_frame_def split: prod.splits)
  then have 1: "persistent_ok (al_pool al)" using end_frame_persistent_ok [OF m p] by simp
  have val: "allocator_valid (ex_alloc x)" using D(5) pr(1) by (simp add: exec_good_def allocator_valid_def)
  have 2: "allocator_valid (ex_alloc x')" "hand_over (full_owned (ex_alloc x)) (full_owned (ex_alloc x')) (ex_device x) (ex_device x')"
    using execute_keeps(1) [OF e v] val by (simp_all add: full_hands_def)
  have "end_frame \<in> frame_ops" by (simp add: frame_ops_def)
  from frames.op_hands [OF this 2(1) f] have 3: "allocator_valid al" "hand_over (full_owned (ex_alloc x')) (full_owned al) (ex_device x') d" by auto
  have "hand_over (full_owned (ex_alloc x)) (full_owned al) (ex_device x) d" by (rule hand_over_trans [OF 2(2) 3(2)])
  from this [unfolded hand_over_def, rule_format, of "[]"] pr(2) have "accounts (full_owned al) d" by simp
  then show ?thesis using 1 3(1) by blast
qed

text \<open>A finished graph holds no object it does not import, and no claim outlives it.\<close>

lemma finished_released:
  assumes "execute b profiling bodies x = Inr (cs, x')" "g_state (ex_graph x) = RG_Compiled"
    "g_state (ex_graph (realize_graph b x)) = RG_Compiled"
  shows "g_state (ex_graph x') = RG_Finished"
    "list_all (\<lambda>r. is_external r \<or> node_object r = None) (g_nodes (ex_graph x'))"
    "list_all (\<lambda>e. \<not> te_in_use e) (tr_entries (al_transient (ex_alloc x')))"
proof -
  obtain f where "x' = finish_graph (ru_exec (fr_run (finish_profiling (close_group f))))"
    using execute_run [OF assms] by metis
  then show "g_state (ex_graph x') = RG_Finished"
    "list_all (\<lambda>r. is_external r \<or> node_object r = None) (g_nodes (ex_graph x'))"
    "list_all (\<lambda>e. \<not> te_in_use e) (tr_entries (al_transient (ex_alloc x')))"
    by (auto simp: finish_graph_def release_resources_def release_node_def release_claims_def list_all_iff node_object_def is_external_def)
qed

end
