(* ===== verification/Demo.thy ===== *)
theory Demo
  imports Compile_Order Transient_Pool
begin

text \<open>
  One concrete frame, recorded through the real calls: a scene pass into a transient colour and
  depth texture, a temporal pass that reads the previous frame's history and writes the current
  one, a composite pass into the imported swapchain view, and a pass nobody needs. The
  properties are applied to it.
\<close>

definition demo_platform :: platform where
  "demo_platform = \<lparr>pf_malloc = (\<lambda>_. True), pf_tex_extent = (\<lambda>_. mk_extent 8 8 1), pf_buf_size = (\<lambda>_. 256)\<rparr>"

definition demo_interner :: interner where
  "demo_interner = empty_interner 8 8 (empty_arena 32)"

definition tex_handle :: "nat \<Rightarrow> handle" where
  "tex_handle i = \<lparr>h_id = i, h_kind = RK_Texture, h_generation = 1\<rparr>"

definition buf_handle :: "nat \<Rightarrow> handle" where
  "buf_handle i = \<lparr>h_id = i, h_kind = RK_Buffer, h_generation = 1\<rparr>"

definition demo_color :: texture_format where "demo_color = TF_32 RGBA8Unorm"

definition demo_commands :: "command list" where
  "demo_commands =
     [C_ImportTexture ''swap'' \<lparr>id_view = Some 7, id_size = mk_extent 8 8 1, id_format = demo_color,
        id_texture = None, id_mips = 1, id_samples = 1, id_dimension = TD_2D\<rparr>,
      C_TransientTexture ''scene'' (texture_2d demo_color 8 8),
      C_TransientTexture ''depth'' (texture_2d (TF_Depth Depth32Float) 8 8),
      C_HistoryTexture ''taa'' (texture_relative demo_color (tex_handle 2) 1 1) 0,
      C_TransientTexture ''unused'' (texture_2d demo_color 8 8),
      C_AddPass ''scene.draw'' PK_Graphics
        [B_Color (tex_handle 2) 0 default_color_attachment, B_DepthStencil (tex_handle 3) (default_depth_attachment\<lparr>da_store := SO_Discard\<rparr>)],
      C_AddPass ''scene.dead'' PK_Graphics [B_Color (tex_handle 6) 0 default_color_attachment],
      C_AddPass ''taa'' PK_Graphics
        [B_Sampled (tex_handle 2) default_range, B_Sampled (tex_handle 5) default_range,
         B_Color (tex_handle 4) 0 default_color_attachment],
      C_AddPass ''composite'' PK_Graphics
        [B_Sampled (tex_handle 4) default_range, B_Color (tex_handle 1) 0 default_color_attachment]]"

definition demo_recording :: "recording checked" where
  "demo_recording = record_frame demo_platform 1 demo_interner demo_commands"

definition demo_graph :: graph where
  "demo_graph = (case demo_recording of Inr (_, g) \<Rightarrow> g | Inl _ \<Rightarrow> fresh_graph 1)"


text \<open>Its compilation against an empty pool, with aliasing on.\<close>

definition demo_compiled :: graph where
  "demo_compiled = (case compile_impl empty_persistent_pool True demo_graph of Some g \<Rightarrow> g | None \<Rightarrow> demo_graph)"

definition is_ok :: "'a checked \<Rightarrow> bool" where
  "is_ok r = (case r of Inl _ \<Rightarrow> False | Inr _ \<Rightarrow> True)"

lemma demo_recorded: "is_ok demo_recording"
  by code_simp

lemma demo_recording_eq: "\<exists>it. demo_recording = Inr (it, demo_graph)"
proof -
  obtain st where st: "demo_recording = Inr st"
    using demo_recorded by (simp add: is_ok_def split: sum.splits)
  obtain it g where "st = (it, g)" by fastforce
  then have r: "demo_recording = Inr (it, g)" using st by simp
  have "demo_graph = g" unfolding demo_graph_def r by simp
  then show ?thesis using r by blast
qed

lemma demo_compiles: "compile_impl empty_persistent_pool True demo_graph = Some demo_compiled"
  using compile_returns [of empty_persistent_pool True demo_graph] by (auto simp: demo_compiled_def)

text \<open>The facts of it that the properties are applied to, evaluated once.\<close>

definition demo_facts :: "graph \<Rightarrow> bool" where
  "demo_facts g \<longleftrightarrow>
     g_state g = RG_Compiled \<and> length (g_passes g) = 3 \<and> schedule_of g = [0, 2, 3] \<and>
     pass_conflict (g_passes g ! 0) (g_passes g ! 1) \<and>
     pn_index (g_passes g ! 0) = 0 \<and> pn_index (g_passes g ! 1) = 2"

lemma demo_compiled_facts: "demo_facts demo_compiled"
  by code_simp

lemmas demo_compiled_simps = demo_compiled_facts [unfolded demo_facts_def One_nat_def]

end
