(* ===== verification/Demo_Frame.thy ===== *)
theory Demo_Frame
  imports Frames Demo
begin

text \<open>
  A second concrete frame, taken to the end: a chain of passes through three transient colour
  textures, of which the first and the last can share memory, a history texture and the imported
  swapchain view; recorded, compiled, realized on a new allocator and executed with profiling,
  the bodies asking for the views they sample.
\<close>

definition chain_commands :: "command list" where
  "chain_commands =
     [C_ImportTexture ''swap'' \<lparr>id_view = Some 7, id_size = mk_extent 8 8 1, id_format = demo_color,
        id_texture = None, id_mips = 1, id_samples = 1, id_dimension = TD_2D\<rparr>,
      C_TransientTexture ''a'' (texture_2d demo_color 8 8),
      C_TransientTexture ''b'' (texture_2d demo_color 8 8),
      C_TransientTexture ''c'' (texture_2d demo_color 8 8),
      C_HistoryTexture ''h'' (texture_relative demo_color (tex_handle 2) 1 1) 0,
      C_AddPass ''g.a'' PK_Graphics [B_Color (tex_handle 2) 0 default_color_attachment],
      C_AddPass ''g.b'' PK_Graphics [B_Sampled (tex_handle 2) default_range, B_Color (tex_handle 3) 0 default_color_attachment],
      C_AddPass ''g.c'' PK_Graphics [B_Sampled (tex_handle 3) default_range, B_Color (tex_handle 4) 0 default_color_attachment],
      C_AddPass ''h'' PK_Graphics
        [B_Sampled (tex_handle 4) default_range, B_Sampled (tex_handle 6) default_range,
         B_Color (tex_handle 5) 0 default_color_attachment],
      C_AddPass ''out'' PK_Graphics
        [B_Sampled (tex_handle 5) default_range, B_Color (tex_handle 1) 0 default_color_attachment]]"

definition chain_recording :: "recording checked" where
  "chain_recording = record_frame demo_platform 1 demo_interner chain_commands"

definition chain_graph :: graph where
  "chain_graph = (case chain_recording of Inr (_, g) \<Rightarrow> g | Inl _ \<Rightarrow> fresh_graph 1)"

definition chain_compiled :: graph where
  "chain_compiled = (case compile_impl empty_persistent_pool True chain_graph of Some g \<Rightarrow> g | None \<Rightarrow> chain_graph)"

definition chain_allocator :: allocator where
  "chain_allocator =
     \<lparr>al_front = empty_arena 32, al_scratch = empty_arena 32, al_names = demo_interner, al_pool = empty_persistent_pool,
      al_transient = empty_transient_pool, al_profiler = empty_profiler, al_transient_feature = False, al_frame_id = 1\<rparr>"

definition chain_device :: device where
  "chain_device = \<lparr>dv_next = 10, dv_live = {7}, dv_stray = []\<rparr>"

definition chain_exec :: exec where
  "chain_exec = \<lparr>ex_alloc = chain_allocator, ex_graph = chain_compiled, ex_subviews = (\<lambda>_. None), ex_device = chain_device\<rparr>"

definition chain_bodies :: "pass_node \<Rightarrow> ctx_call list" where
  "chain_bodies p = map (\<lambda>a. Call_View (ac_handle a)) (filter (\<lambda>a. ac_type a = Sampled) (pn_accesses p))"

definition chain_run :: "(encoder_cmd list \<times> exec) checked" where
  "chain_run = execute False True chain_bodies chain_exec"

text \<open>What is evaluated of it.\<close>

definition chain_facts :: "graph \<Rightarrow> graph \<Rightarrow> bool" where
  "chain_facts g r \<longleftrightarrow>
     g_state g = RG_Compiled \<and> length (g_nodes g) = 6 \<and> length (g_passes g) = 5 \<and>
     pool_used (g_nodes g ! 1) \<and> \<not> is_external (g_nodes g ! 1) \<and> pool_used (g_nodes g ! 3) \<and> \<not> is_external (g_nodes g ! 3) \<and>
     node_object (g_nodes r ! 1) = node_object (g_nodes r ! 3) \<and>
     pooled (g_nodes g ! 4) \<and> rn_history (g_nodes g ! 4) \<and> rn_history_index (g_nodes g ! 4) = 0 \<and>
     pooled (g_nodes g ! 5) \<and> rn_history_index (g_nodes g ! 5) = 1 \<and> same_name (rn_id (g_nodes g ! 4)) (rn_id (g_nodes g ! 5))"

lemma chain_recorded: "is_ok chain_recording"
  by code_simp

lemma chain_evaluated: "chain_facts chain_compiled (ex_graph (realize_graph False chain_exec))"
  by code_simp

lemma chain_runs: "is_ok chain_run"
  by code_simp


subsection \<open>The hypotheses of the frame theorems hold\<close>

lemma is_ok_Inr: "is_ok r \<Longrightarrow> \<exists>x. r = Inr x"
  by (simp add: is_ok_def split: sum.splits)

lemma chain_recording_eq: "\<exists>it. chain_recording = Inr (it, chain_graph)"
proof -
  obtain it g where r: "chain_recording = Inr (it, g)"
    using is_ok_Inr [OF chain_recorded] by auto
  have "chain_graph = g" unfolding chain_graph_def r by simp
  then show ?thesis using r by blast
qed

lemma demo_interner_ok: "interner_ok demo_interner"
  unfolding demo_interner_def by (rule empty_interner_ok [OF empty_arena_ok]) simp

lemma chain_recorded_ok: "\<exists>it. recorded_ok (it, chain_graph)"
proof -
  obtain it where "chain_recording = Inr (it, chain_graph)" using chain_recording_eq by blast
  then have "recorded_ok (it, chain_graph)"
    using record_frame_ok [OF demo_interner_ok, of 1] unfolding chain_recording_def by simp
  then show ?thesis by blast
qed

lemma chain_compiles: "compile_impl empty_persistent_pool True chain_graph = Some chain_compiled"
  using compile_returns [of empty_persistent_pool True chain_graph] by (auto simp: chain_compiled_def)

lemmas chain_simps = chain_evaluated [unfolded chain_facts_def]

lemma chain_state: "g_state chain_compiled = RG_Compiled"
  using chain_simps by simp

lemma chain_accounts:
  "accounts (full_owned chain_allocator) chain_device" "allocator_valid chain_allocator" "unprofiled chain_allocator"
  "persistent_ok (al_pool chain_allocator)" "full_owned chain_allocator = []"
proof -
  have p: "profiler_owned empty_profiler = []"
    by (simp add: profiler_owned_def empty_profiler_def refs_def empty_slot_def)
  have o: "allocator_owned chain_allocator = []"
    by (simp add: allocator_owned_def chain_allocator_def persistent_owned_def empty_persistent_pool_def entries_owned_def
        transient_owned_def empty_transient_pool_def)
  show "full_owned chain_allocator = []" using o p by (simp add: full_owned_def chain_allocator_def)
  then show "accounts (full_owned chain_allocator) chain_device" by (simp add: accounts_def chain_device_def)
  show "allocator_valid chain_allocator" "unprofiled chain_allocator"
    using p by (simp_all add: allocator_valid_def unprofiled_def allocator_ok_def chain_allocator_def transient_ok_def
        empty_transient_pool_def profiler_clean_def)
  show "persistent_ok (al_pool chain_allocator)" by (simp add: chain_allocator_def empty_persistent_ok)
qed

lemma chain_ready: "\<exists>it. ready (it, chain_graph) empty_persistent_pool True chain_exec"
proof -
  have "accounts (allocator_owned chain_allocator) chain_device"
    using chain_accounts(1,5) by (simp add: full_owned_def)
  then show ?thesis
    using chain_recorded_ok chain_compiles chain_state chain_accounts(2,4)
    by (auto simp: ready_def chain_exec_def exec_good_def allocator_valid_def)
qed

lemma chain_executes: "\<exists>cs x. execute False True chain_bodies chain_exec = Inr (cs, x)"
  using is_ok_Inr [OF chain_runs] by (auto simp: chain_run_def)

subsection \<open>Accesses, sizes and slots of the chain\<close>

text \<open>Pass \<open>g.b\<close> reads texture \<open>a\<close> (id 2) first; \<open>h\<close> (id 5) is sized relative to \<open>a\<close>.\<close>

definition chain_uses :: "graph \<Rightarrow> graph \<Rightarrow> bool" where
  "chain_uses r g \<longleftrightarrow>
     map (\<lambda>n. h_id (rn_handle n)) (g_nodes g) = [1, 2, 3, 4, 5, 6] \<and>
     rn_alias_slot (g_nodes g ! 1) = Some 0 \<and> rn_alias_slot (g_nodes g ! 3) = Some 0 \<and>
     (let a = pn_accesses (g_passes g ! 1) ! 0 in
        length (pn_accesses (g_passes g ! 1)) = 2 \<and> \<not> access_is_write (ac_type a) \<and> h_id (ac_handle a) = 2) \<and>
     rn_kind (g_nodes g ! 4) = RK_Texture \<and>
     (case find_node r 5 of None \<Rightarrow> False | Some n \<Rightarrow>
        \<not> rn_imported n \<and> rn_size_kind n = SK_Relative \<and> h_id (rn_relative_to n) = 2 \<and> scaled_size n (mk_extent 8 8 1) = mk_extent 8 8 1) \<and>
     (case find_node r 2 of None \<Rightarrow> False | Some n \<Rightarrow>
        \<not> rn_imported n \<and> rn_size_kind n = SK_Absolute \<and> rn_width n = 8 \<and> rn_height n = 8 \<and> rn_depth_or_layers n = 1)"

lemma chain_uses: "chain_uses chain_graph chain_compiled"
  by code_simp

lemmas chain_use_simps = chain_uses [unfolded chain_uses_def Let_def]

definition chain_read :: access where
  "chain_read = pn_accesses (g_passes chain_compiled ! 1) ! 0"

lemma chain_read_facts:
  "0 < length (pn_accesses (g_passes chain_compiled ! 1))" "chain_read \<in> set (pn_accesses (g_passes chain_compiled ! 1))"
  "\<not> access_is_write (ac_type chain_read)" "h_id (ac_handle chain_read) = h_id (rn_handle (g_nodes chain_compiled ! 1))"
proof -
  have ids: "map (\<lambda>n. h_id (rn_handle n)) (g_nodes chain_compiled) ! 1 = 2" using chain_use_simps by simp
  have l: "length (g_nodes chain_compiled) = 6" using chain_simps by simp
  have a: "length (pn_accesses (g_passes chain_compiled ! 1)) = 2" "\<not> access_is_write (ac_type chain_read)" "h_id (ac_handle chain_read) = 2"
    using chain_use_simps unfolding chain_read_def by blast+
  show "0 < length (pn_accesses (g_passes chain_compiled ! 1))" "\<not> access_is_write (ac_type chain_read)" using a by simp_all
  show "chain_read \<in> set (pn_accesses (g_passes chain_compiled ! 1))" using a(1) by (simp add: chain_read_def)
  show "h_id (ac_handle chain_read) = h_id (rn_handle (g_nodes chain_compiled ! 1))" using a(3) ids l by simp
qed

lemma chain_members:
  "n < 6 \<Longrightarrow> g_nodes chain_compiled ! n \<in> set (g_nodes chain_compiled)"
  "k < 5 \<Longrightarrow> g_passes chain_compiled ! k \<in> set (g_passes chain_compiled)"
  using chain_simps by simp_all

lemma chain_sized: "\<exists>D. sized (find_node chain_graph) 5 D (mk_extent 8 8 1)"
proof -
  obtain a where a: "find_node chain_graph 2 = Some a" "\<not> rn_imported a" "rn_size_kind a = SK_Absolute" "rn_width a = 8" "rn_height a = 8"
    "rn_depth_or_layers a = 1"
    using chain_use_simps by (auto split: option.splits)
  obtain h where h: "find_node chain_graph 5 = Some h" "\<not> rn_imported h" "rn_size_kind h = SK_Relative" "h_id (rn_relative_to h) = 2"
    "scaled_size h (mk_extent 8 8 1) = mk_extent 8 8 1"
    using chain_use_simps by (auto split: option.splits)
  have "sized (find_node chain_graph) 2 [] (mk_extent 8 8 1)"
    using sized_absolute [of "find_node chain_graph" 2 a] a by simp
  then have "sized (find_node chain_graph) 5 [5] (scaled_size h (mk_extent 8 8 1))"
    using sized_relative [of "find_node chain_graph" 5 h "[]" "mk_extent 8 8 1"] h by simp
  then show ?thesis using h(5) by auto
qed

text \<open>A texture that is relative to itself.\<close>

definition cyclic_graph :: graph where
  "cyclic_graph = append_node ((fresh_node (tex_handle 1) \<lparr>rid_value = 0, rid_data = None, rid_chars = ''x''\<rparr> RK_Texture)
     \<lparr>rn_size_kind := SK_Relative, rn_relative_to := tex_handle 1\<rparr>) (fresh_graph 1)"

lemma cyclic_unsized: "\<nexists>C e. sized (\<lambda>i. map_option static (find_node cyclic_graph i)) 1 C e"
proof (rule notI, elim exE)
  fix C e assume "sized (\<lambda>i. map_option static (find_node cyclic_graph i)) 1 C e"
  moreover have "find_node cyclic_graph 1 = Some (g_nodes cyclic_graph ! 0)" "rn_size_kind (g_nodes cyclic_graph ! 0) = SK_Relative"
    "\<not> rn_imported (g_nodes cyclic_graph ! 0)" "h_id (rn_relative_to (g_nodes cyclic_graph ! 0)) = 1"
    by (simp_all add: cyclic_graph_def append_node_def fresh_graph_def find_node_def fresh_node_def tex_handle_def)
  ultimately obtain D d where D: "C = 1 # D" "sized (\<lambda>i. map_option static (find_node cyclic_graph i)) 1 D d"
    "sized (\<lambda>i. map_option static (find_node cyclic_graph i)) 1 (1 # D) e"
    using sized_relative_inv [of "\<lambda>i. map_option static (find_node cyclic_graph i)" 1 "static (g_nodes cyclic_graph ! 0)" C e] by auto
  from sized_unique [OF D(2,3)] show False by simp
qed

lemma cyclic_memo: "memo_ok (\<lambda>i. map_option static (find_node cyclic_graph i)) cyclic_graph" "find_node cyclic_graph 1 \<noteq> None"
  by (auto simp: memo_ok_def agrees_def cyclic_graph_def append_node_def fresh_graph_def find_node_def fresh_node_def tex_handle_def
      split: if_splits)

lemma chain_realized: "g_state (ex_graph (realize_graph False chain_exec)) = RG_Compiled"
  using chain_ready realize_succeeds(1) by blast

subsection \<open>Small inputs\<close>

text \<open>A read-write storage binding of texture \<open>a\<close>.\<close>

definition storage_setup :: "builder_call list" where
  "storage_setup = [B_TexStorageReadWrite (tex_handle 2) default_range]"

definition storage_id :: resource_id where
  "storage_id = \<lparr>rid_value = 0, rid_data = None, rid_chars = ''s''\<rparr>"

definition storage_pair :: "access list" where
  "storage_pair = (case run_setup chain_graph storage_setup (fresh_pass storage_id PK_Compute) of Inr p \<Rightarrow> pn_accesses p | Inl _ \<Rightarrow> [])"

definition storage_facts :: "access list \<Rightarrow> bool" where
  "storage_facts as \<longleftrightarrow>
     map (\<lambda>a. (h_id (ac_handle a), ac_base_mip a, ac_mip_count a, ac_base_layer a, ac_layer_count a, ac_view_aspect a)) as =
       [(2, 0, 1, 0, 1, TA_All), (2, 0, 1, 0, 1, TA_All)] \<and>
     access_is_write (ac_type (as ! 1)) \<and> list_all call_in_range storage_setup"

lemma storage_evaluated: "storage_facts storage_pair"
  by code_simp

lemma storage_setup_facts:
  "list_all call_in_range storage_setup" "length storage_pair = 2" "access_is_write (ac_type (storage_pair ! 1))"
  "same_texels (storage_pair ! 0) (storage_pair ! 1)"
proof -
  note F = storage_evaluated [unfolded storage_facts_def]
  show "list_all call_in_range storage_setup" "access_is_write (ac_type (storage_pair ! 1))" using F by blast+
  show l: "length storage_pair = 2" using arg_cong [OF conjunct1 [OF F], of length] by simp
  have "h_id (ac_handle (storage_pair ! i)) = 2 \<and> ac_base_mip (storage_pair ! i) = 0 \<and> ac_mip_count (storage_pair ! i) = 1 \<and>
      ac_base_layer (storage_pair ! i) = 0 \<and> ac_layer_count (storage_pair ! i) = 1 \<and> ac_view_aspect (storage_pair ! i) = TA_All"
    if "i < 2" for i
  proof -
    have "i = 0 \<or> i = 1" using that by auto
    then show ?thesis using arg_cong [OF conjunct1 [OF F], of "\<lambda>xs. xs ! i"] l by auto
  qed
  then show "same_texels (storage_pair ! 0) (storage_pair ! 1)"
    by (simp add: same_texels_def covers_def aspects_overlap_def)
qed

lemma storage_setup_run: "\<exists>p. run_setup chain_graph storage_setup (fresh_pass storage_id PK_Compute) = Inr p \<and> pn_accesses p = storage_pair"
proof -
  have "is_ok (run_setup chain_graph storage_setup (fresh_pass storage_id PK_Compute))" by code_simp
  then obtain p where "run_setup chain_graph storage_setup (fresh_pass storage_id PK_Compute) = Inr p" using is_ok_Inr by blast
  then show ?thesis by (simp add: storage_pair_def)
qed

lemma demo_interns:
  "\<exists>a it1 b it2. intern (\<lambda>_. True) ''x'' demo_interner = Some (a, it1) \<and> intern (\<lambda>_. True) ''y'' it1 = Some (b, it2)"
proof -
  have "(case intern (\<lambda>_. True) ''x'' demo_interner of None \<Rightarrow> False | Some (a, it1) \<Rightarrow> intern (\<lambda>_. True) ''y'' it1 \<noteq> None)"
    by code_simp
  then show ?thesis by (auto split: option.splits)
qed

lemma demo_allocs: "\<exists>as ar. alloc_list (\<lambda>_. True) [(8, 8), (40, 4)] (empty_arena 32) = Some (as, ar)"
proof -
  have "alloc_list (\<lambda>_. True) [(8, 8), (40, 4)] (empty_arena 32) \<noteq> None" by code_simp
  then show ?thesis by auto
qed

definition demo_key :: view_key where
  "demo_key = \<lparr>vk_format = demo_color, vk_dim = VD_2D, vk_aspect = TA_All, vk_base_mip = 1, vk_mip_count = 1, vk_base_layer = 0, vk_layer_count = 1\<rparr>"

end
