(* ===== verification/Tile_Id.thy ===== *)
theory Tile_Id
  imports RG_Prelude
begin

text \<open>
  Tile ids (nucleus/srs.h, nucleus/srs.cpp): a zoom level and two coordinates, packed into two
  32 bit words for the shaders (\<open>pack\<close>, \<open>unpack\<close>), hashed to 16 bits (\<open>hash_uint16\<close>) and compared
  for overlap by climbing the quad tree. \<open>tile::Id\<close> itself belongs to the radix library, which is
  not part of the repository: the record has the fields the code uses, and \<open>children()\<close> and
  \<open>parent()\<close> are arguments of the definitions that call them, with \<open>quad_tree\<close> as their contract.
\<close>

record tile_id =
  zoom_level :: u32
  coords_x :: u32
  coords_y :: u32

abbreviation tile :: "u32 \<Rightarrow> u32 \<Rightarrow> u32 \<Rightarrow> tile_id" where
  "tile z x y \<equiv> \<lparr>zoom_level = z, coords_x = x, coords_y = y\<rparr>"

text \<open>\<open>number_of_horizontal_tiles_for_zoom_level\<close>: \<open>1 << z\<close>.\<close>

definition tiles_per_side :: "u32 \<Rightarrow> u32" where
  "tiles_per_side z = push_bit (unat z) 1"

definition valid_tile :: "tile_id \<Rightarrow> bool" where
  "valid_tile t \<longleftrightarrow> zoom_level t \<le> 29 \<and> coords_x t < push_bit (unat (zoom_level t)) 1
     \<and> coords_y t < push_bit (unat (zoom_level t)) 1"

subsection \<open>Packing\<close>

definition packed_bits :: "tile_id \<Rightarrow> u32 \<times> u32" where
  "packed_bits t = (push_bit 27 (zoom_level t) OR drop_bit 3 (coords_x t),
     push_bit 29 (coords_x t) OR coords_y t)"

definition pack :: "tile_id \<Rightarrow> (u32 \<times> u32) checked" where
  "pack t =
     require (zoom_level t \<le> 29) ''id.zoom_level <= 29''
     (require (coords_x t < push_bit (unat (zoom_level t)) 1) ''id.coords.x < (uint32_t { 1 } << id.zoom_level)''
     (require (coords_y t < push_bit (unat (zoom_level t)) 1) ''id.coords.y < (uint32_t { 1 } << id.zoom_level)''
     (Inr (packed_bits t))))"

definition unpack :: "u32 \<times> u32 \<Rightarrow> tile_id" where
  "unpack p = \<lparr>zoom_level = drop_bit 27 (fst p),
     coords_x = push_bit 3 (fst p AND (push_bit 27 1 - 1)) OR drop_bit 29 (snd p),
     coords_y = snd p AND (push_bit 29 1 - 1)\<rparr>"

lemma pack_Inr: "pack t = Inr p \<longleftrightarrow> valid_tile t \<and> p = packed_bits t"
  by (auto simp: pack_def valid_tile_def)

text \<open>A word below \<open>2 ^ k\<close> has no bit from \<open>k\<close> on.\<close>

lemma bit_below:
  assumes "unat (x :: u32) < 2 ^ k" "bit x n"
  shows "n < k"
proof (rule ccontr)
  assume "\<not> n < k"
  then have "unat x < 2 ^ n" using assms(1) by (meson leI less_le_trans one_le_numeral power_increasing)
  then have "\<not> bit (unat x) n" by (simp add: bit_iff_odd)
  moreover have "bit (unat x) n" using assms(2) by (simp add: bit_unsigned_iff bit_imp_le_length)
  ultimately show False by simp
qed

lemma unat_push_bit_one:
  assumes "k < 32"
  shows "unat (push_bit k (1 :: u32)) = 2 ^ k"
proof -
  have "(2 :: nat) ^ k < 2 ^ 32" using assms by (intro power_strict_increasing) auto
  moreover have "unat (push_bit k (1 :: u32)) = take_bit 32 (push_bit k 1)"
    by (simp only: unsigned_push_bit_eq unsigned_1 len_of_numeral_defs) simp
  ultimately show ?thesis by (simp only: push_bit_of_1 take_bit_nat_eq_self)
qed

lemma word32_below_29:
  fixes x z :: u32
  assumes "z \<le> 29" "x < push_bit (unat z) 1"
  shows "unat x < 2 ^ 29"
proof -
  have z: "unat z \<le> 29" using assms(1) by (simp add: word_le_nat_alt)
  then have "unat x < 2 ^ unat z"
    using assms(2) unat_push_bit_one [of "unat z"] by (simp add: word_less_nat_alt)
  moreover have "(2 :: nat) ^ unat z \<le> 2 ^ 29" using z by (intro power_increasing) auto
  ultimately show ?thesis by linarith
qed

lemma valid_tile_bounds:
  assumes "valid_tile t"
  shows "unat (zoom_level t) < 2 ^ 5" "unat (coords_x t) < 2 ^ 29" "unat (coords_y t) < 2 ^ 29"
  using assms word32_below_29 [of "zoom_level t"] by (auto simp: valid_tile_def word_le_nat_alt)

lemma unpack_mask:
  "unpack p = \<lparr>zoom_level = drop_bit 27 (fst p),
     coords_x = push_bit 3 (fst p AND mask 27) OR drop_bit 29 (snd p), coords_y = snd p AND mask 29\<rparr>"
  by (simp add: unpack_def mask_eq_exp_minus_1)

lemma unpack_zoom:
  assumes "unat z < 2 ^ 5" "unat x < 2 ^ 29"
  shows "drop_bit 27 (push_bit 27 z OR drop_bit 3 x) = (z :: u32)"
  by (rule bit_word_eqI)
     (use bit_below [OF assms(1)] bit_below [OF assms(2)] in
       \<open>fastforce simp: bit_drop_bit_eq bit_or_iff bit_push_bit_iff\<close>)

lemma unpack_x:
  assumes "unat z < 2 ^ 5" "unat x < 2 ^ 29" "unat y < 2 ^ 29"
  shows "push_bit 3 ((push_bit 27 z OR drop_bit 3 x) AND mask 27)
     OR drop_bit 29 (push_bit 29 x OR y) = (x :: u32)"
  by (rule bit_word_eqI)
     (use bit_below [OF assms(2)] bit_below [OF assms(3)] in
       \<open>fastforce simp: bit_drop_bit_eq bit_or_iff bit_and_iff bit_push_bit_iff bit_mask_iff\<close>)

lemma unpack_y:
  assumes "unat y < 2 ^ 29"
  shows "(push_bit 29 x OR y) AND mask 29 = (y :: u32)"
  by (rule bit_word_eqI)
     (use bit_below [OF assms] in \<open>auto simp: bit_or_iff bit_and_iff bit_push_bit_iff bit_mask_iff\<close>)

lemma unpack_packed:
  assumes "valid_tile t"
  shows "unpack (packed_bits t) = t"
proof -
  note b = valid_tile_bounds [OF assms]
  show ?thesis
    unfolding unpack_mask packed_bits_def fst_conv snd_conv unpack_zoom [OF b(1,2)] unpack_x [OF b]
      unpack_y [OF b(3)] by simp
qed

text \<open>The marker of a free entry, all bits set, is not the packed id of any valid tile.\<close>

lemma packed_not_marker:
  assumes "valid_tile t"
  shows "packed_bits t \<noteq> (- 1, - 1)"
proof
  assume m: "packed_bits t = (- 1, - 1)"
  have "zoom_level t = zoom_level (unpack (packed_bits t))" by (simp add: unpack_packed [OF assms])
  also have "\<dots> = 31" by (simp add: m unpack_def drop_bit_eq_div)
  finally show False using assms by (simp add: valid_tile_def)
qed

subsection \<open>Hashing\<close>

definition hash_uint16 :: "tile_id \<Rightarrow> u16" where
  "hash_uint16 t =
     (let z = ucast (zoom_level t) * 46965 + 10859;
          x = ucast (coords_x t) * 60197 + 12253;
          y = ucast (coords_y t) * 62117 + 59119
      in x + y + z)"

text \<open>The factors are odd, hence invertible: within a row or column of 65536 tiles no two collide.\<close>

lemma hash_rows_injective:
  assumes "hash_uint16 a = hash_uint16 b" "zoom_level a = zoom_level b" "coords_y a = coords_y b"
  shows "(ucast (coords_x a) :: u16) = ucast (coords_x b)"
proof -
  have "(ucast (coords_x a) :: u16) * 60197 = ucast (coords_x b) * 60197"
    using assms by (simp add: hash_uint16_def Let_def)
  then have "(ucast (coords_x a) :: u16) * (60197 * 14509) = ucast (coords_x b) * (60197 * 14509)"
    by (simp only: mult.assoc [symmetric])
  moreover have "60197 * 14509 = (1 :: u16)" by simp
  ultimately show ?thesis by (simp only: mult_1_right)
qed

lemma hash_columns_injective:
  assumes "hash_uint16 a = hash_uint16 b" "zoom_level a = zoom_level b" "coords_x a = coords_x b"
  shows "(ucast (coords_y a) :: u16) = ucast (coords_y b)"
proof -
  have "(ucast (coords_y a) :: u16) * 62117 = ucast (coords_y b) * 62117"
    using assms by (simp add: hash_uint16_def Let_def)
  then have "(ucast (coords_y a) :: u16) * (62117 * 42285) = ucast (coords_y b) * (62117 * 42285)"
    by (simp only: mult.assoc [symmetric])
  moreover have "62117 * 42285 = (1 :: u16)" by simp
  ultimately show ?thesis by (simp only: mult_1_right)
qed

subsection \<open>Overlap\<close>

text \<open>The loop of \<open>overlap\<close>: the finer tile climbs to the zoom level of the other.\<close>

definition climb_step :: "tile_id \<Rightarrow> tile_id" where
  "climb_step t = \<lparr>zoom_level = zoom_level t - 1, coords_x = coords_x t div 2, coords_y = coords_y t div 2\<rparr>"

function climb :: "u32 \<Rightarrow> tile_id \<Rightarrow> tile_id" where
  "climb z t = (if zoom_level t = z then t else climb z (climb_step t))"
  by auto
termination
proof (relation "measure (\<lambda>(z, t). unat (zoom_level t - z))", goal_cases)
  case (2 z t)
  then have "zoom_level t - z \<noteq> 0" by simp
  then have "unat (zoom_level t - z - 1) < unat (zoom_level t - z)"
    by (metis unat_minus_one diff_less unat_gt_0 zero_less_one)
  then show ?case by (simp add: climb_step_def diff_diff_eq add.commute)
qed simp

declare climb.simps [simp del]

definition overlap :: "tile_id \<Rightarrow> tile_id \<Rightarrow> bool" where
  "overlap a b =
     (let smaller = if zoom_level a < zoom_level b then a else b;
          other = if zoom_level b \<le> zoom_level a then a else b
      in smaller = climb (zoom_level smaller) other)"

lemma unat_half: "unat (x div 2 :: u32) = unat x div 2"
  by (simp add: unat_div_distrib)

lemma climb_to:
  "unat (zoom_level t) = unat z + n \<Longrightarrow>
   climb z t = \<lparr>zoom_level = z, coords_x = drop_bit n (coords_x t), coords_y = drop_bit n (coords_y t)\<rparr>"
proof (induction n arbitrary: t)
  case 0
  then have "zoom_level t = z" by (simp add: unsigned_word_eqI)
  then show ?case by (cases t) (simp add: climb.simps)
next
  case (Suc n)
  then have ne: "zoom_level t \<noteq> z" and pos: "zoom_level t \<noteq> 0" by auto
  have "unat (zoom_level (climb_step t)) = unat z + n"
    using Suc.prems pos by (simp add: climb_step_def unat_minus_one)
  note Suc.IH [OF this]
  moreover have "drop_bit n (x div 2 :: u32) = drop_bit (Suc n) x" for x
    by (simp add: drop_bit_Suc)
  ultimately show ?case using ne by (subst climb.simps) (simp add: climb_step_def)
qed

lemma unat_drop_bit: "unat (drop_bit n x :: u32) = unat x div 2 ^ n"
  by (metis unat_drop_bit_eq drop_bit_eq_div)

text \<open>The cells of the grid of level \<open>L\<close> that a tile covers.\<close>

definition tile_region :: "nat \<Rightarrow> tile_id \<Rightarrow> (nat \<times> nat) set" where
  "tile_region L t = {(i, j). i div 2 ^ (L - unat (zoom_level t)) = unat (coords_x t)
     \<and> j div 2 ^ (L - unat (zoom_level t)) = unat (coords_y t)}"

lemma common_cell_iff:
  fixes x y k n :: nat
  shows "(\<exists>i. i div 2 ^ (k + n) = x \<and> i div 2 ^ k = y) \<longleftrightarrow> y div 2 ^ n = x"
proof
  assume "\<exists>i. i div 2 ^ (k + n) = x \<and> i div 2 ^ k = y"
  then show "y div 2 ^ n = x" by (auto simp: power_add div_mult2_eq)
next
  assume "y div 2 ^ n = x"
  then have "(y * 2 ^ k) div 2 ^ (k + n) = x \<and> (y * 2 ^ k) div 2 ^ k = y"
    by (simp add: power_add div_mult2_eq)
  then show "\<exists>i. i div 2 ^ (k + n) = x \<and> i div 2 ^ k = y" by blast
qed

lemma regions_meet_iff:
  assumes "unat (zoom_level b) = unat (zoom_level a) + n" "unat (zoom_level b) \<le> L"
  shows "tile_region L a \<inter> tile_region L b \<noteq> {} \<longleftrightarrow>
     a = \<lparr>zoom_level = zoom_level a, coords_x = drop_bit n (coords_x b), coords_y = drop_bit n (coords_y b)\<rparr>"
proof -
  let ?k = "L - unat (zoom_level b)"
  have k: "L - unat (zoom_level a) = ?k + n" using assms by simp
  have "tile_region L a \<inter> tile_region L b \<noteq> {} \<longleftrightarrow>
      (\<exists>i. i div 2 ^ (?k + n) = unat (coords_x a) \<and> i div 2 ^ ?k = unat (coords_x b)) \<and>
      (\<exists>j. j div 2 ^ (?k + n) = unat (coords_y a) \<and> j div 2 ^ ?k = unat (coords_y b))"
    unfolding tile_region_def k by blast
  also have "\<dots> \<longleftrightarrow> unat (coords_x b) div 2 ^ n = unat (coords_x a) \<and> unat (coords_y b) div 2 ^ n = unat (coords_y a)"
    by (simp only: common_cell_iff)
  also have "\<dots> \<longleftrightarrow> drop_bit n (coords_x b) = coords_x a \<and> drop_bit n (coords_y b) = coords_y a"
    by (simp only: word_unat_eq_iff unat_drop_bit)
  finally show ?thesis by (cases a) auto
qed

lemma overlap_regions:
  assumes "unat (zoom_level a) \<le> L" "unat (zoom_level b) \<le> L"
  shows "overlap a b \<longleftrightarrow> tile_region L a \<inter> tile_region L b \<noteq> {}"
proof (cases "zoom_level a < zoom_level b")
  case True
  then obtain n where n: "unat (zoom_level b) = unat (zoom_level a) + n"
    by (metis less_imp_le word_less_nat_alt le_Suc_ex)
  show ?thesis
    using True by (simp add: overlap_def climb_to [OF n] regions_meet_iff [OF n assms(2)])
next
  case False
  then obtain n where n: "unat (zoom_level a) = unat (zoom_level b) + n"
    by (metis not_less word_le_nat_alt le_Suc_ex)
  have "overlap a b \<longleftrightarrow> b = climb (zoom_level b) a" using False by (simp add: overlap_def)
  then show ?thesis using regions_meet_iff [OF n assms(1)] by (simp add: climb_to [OF n] Int_commute)
qed

subsection \<open>The quad tree\<close>

text \<open>
  What the code relies on of \<open>tile::Id::children\<close> and \<open>tile::Id::parent\<close>: each tile has four
  different children one level down, and \<open>parent\<close> leads back to it. (Below level 29, where packing
  ends; the scheduler's deepest level is 20.)
\<close>

definition quad_tree :: "(tile_id \<Rightarrow> tile_id) \<Rightarrow> (tile_id \<Rightarrow> tile_id list) \<Rightarrow> bool" where
  "quad_tree parent children \<longleftrightarrow> (\<forall>t. valid_tile t \<and> zoom_level t < 29 \<longrightarrow>
     length (children t) = 4 \<and> distinct (children t) \<and>
     (\<forall>c \<in> set (children t). valid_tile c \<and> parent c = t \<and> zoom_level c = zoom_level t + 1))"

lemma quad_treeD:
  assumes "quad_tree parent children" "valid_tile t" "zoom_level t < 29"
  shows "length (children t) = 4" "distinct (children t)"
    "c \<in> set (children t) \<Longrightarrow> valid_tile c"
    "c \<in> set (children t) \<Longrightarrow> parent c = t"
    "c \<in> set (children t) \<Longrightarrow> zoom_level c = zoom_level t + 1"
proof -
  have "length (children t) = 4 \<and> distinct (children t) \<and>
     (\<forall>c \<in> set (children t). valid_tile c \<and> parent c = t \<and> zoom_level c = zoom_level t + 1)"
    using assms unfolding quad_tree_def by blast
  then show "length (children t) = 4" "distinct (children t)"
    "c \<in> set (children t) \<Longrightarrow> valid_tile c" "c \<in> set (children t) \<Longrightarrow> parent c = t"
    "c \<in> set (children t) \<Longrightarrow> zoom_level c = zoom_level t + 1" by blast+
qed

end
