(* ===== verification/Tile_Types.thy ===== *)
theory Tile_Types
  imports Tile_Id
begin

text \<open>
  The data of the tile pipeline (nucleus/tile/types.h): what the network said about a tile, a tile
  with its bytes, and a quad of four. \<open>NetworkInfo::Status\<close> is ordered as its enumerators are, from
  good to bad, which is what \<open>join\<close> relies on.
\<close>

datatype network_status = Good | Not_Found | Network_Error

primrec status_value :: "network_status \<Rightarrow> nat" where
  "status_value Good = 0"
| "status_value Not_Found = 1"
| "status_value Network_Error = 2"

lemma status_value_inject: "status_value a = status_value b \<longleftrightarrow> a = b"
  by (cases a; cases b) simp_all

instantiation network_status :: linorder
begin

definition less_eq_network_status :: "network_status \<Rightarrow> network_status \<Rightarrow> bool" where
  "less_eq_network_status a b \<longleftrightarrow> status_value a \<le> status_value b"

definition less_network_status :: "network_status \<Rightarrow> network_status \<Rightarrow> bool" where
  "less_network_status a b \<longleftrightarrow> status_value a < status_value b"

instance
proof
  fix a b :: network_status
  show "a < b \<longleftrightarrow> a \<le> b \<and> \<not> b \<le> a"
    by (auto simp: less_eq_network_status_def less_network_status_def)
  show "a \<le> b \<Longrightarrow> b \<le> a \<Longrightarrow> a = b"
    by (simp add: less_eq_network_status_def status_value_inject flip: order_class.order_eq_iff)
qed (auto simp: less_eq_network_status_def)

end

record network_info =
  ni_status :: network_status
  ni_timestamp :: u64

text \<open>\<open>NetworkInfo::join\<close>: the worst status and the oldest time.\<close>

definition join_infos :: "network_info list \<Rightarrow> network_info" where
  "join_infos infos =
     fold (\<lambda>i acc. \<lparr>ni_status = max (ni_status acc) (ni_status i), ni_timestamp = min (ni_timestamp acc) (ni_timestamp i)\<rparr>)
       infos \<lparr>ni_status = Good, ni_timestamp = - 1\<rparr>"

text \<open>The bytes are a shared pointer: \<open>None\<close> is null.\<close>

record tile_data =
  td_id :: tile_id
  td_info :: network_info
  td_data :: "u8 list option"

record data_quad =
  dq_id :: tile_id
  dq_n_tiles :: u32
  dq_tiles :: "tile_data list"

definition quad_info :: "data_quad \<Rightarrow> network_info" where
  "quad_info q = join_infos (map td_info (dq_tiles q))"

lemma status_order [simp]: "Good \<le> s" "s \<le> Network_Error" "\<not> Not_Found \<le> Good"
  by (cases s; simp add: less_eq_network_status_def)+

lemma join_infos_append:
  "join_infos (is @ [i]) = \<lparr>ni_status = max (ni_status (join_infos is)) (ni_status i),
     ni_timestamp = min (ni_timestamp (join_infos is)) (ni_timestamp i)\<rparr>"
  by (simp add: join_infos_def)

text \<open>A quad is good when all its tiles are, and as old as its oldest tile.\<close>

lemma join_status_le: "ni_status (join_infos is) \<le> s \<longleftrightarrow> (\<forall>i \<in> set is. ni_status i \<le> s)"
proof (induction "is" rule: rev_induct)
  case Nil
  then show ?case by (simp add: join_infos_def)
qed (auto simp: join_infos_append)

lemma join_good_iff: "ni_status (join_infos is) = Good \<longleftrightarrow> (\<forall>i \<in> set is. ni_status i = Good)"
  using join_status_le [of "is" Good] status_order by (metis dual_order.antisym)

lemma join_timestamp_le: "i \<in> set is \<Longrightarrow> ni_timestamp (join_infos is) \<le> ni_timestamp i"
  by (induction "is" rule: rev_induct) (auto simp: join_infos_append min.coboundedI1)

end
