(* ===== verification/Tile_Cache.thy ===== *)
theory Tile_Cache
  imports Tile_Id "HOL-Library.AList" "HOL-Library.Multiset"
begin

text \<open>
  \<open>Cache<T>\<close> in memory (nucleus/tile/Cache.h): \<open>insert\<close>, \<open>contains\<close>, \<open>peak_at\<close>, \<open>visit\<close> and
  \<open>purge\<close>. The hash map is an association list. The time is an argument of the operations that
  read the clock; \<open>tid\<close> stands for the member \<open>id\<close> every cached type has. The visitor has state of
  its own, which it passes on. The mutexes are left out: every operation runs alone.
\<close>

record meta_data =
  md_visited :: u64
  md_created :: u64

record 'a cache_object =
  co_meta :: meta_data
  co_data :: 'a

type_synonym 'a cache_map = "(tile_id \<times> 'a cache_object) list"

text \<open>\<open>time_stamp * 100 - tile.id.zoom_level\<close>: of two tiles seen at once, the coarser is more recent.\<close>

definition visited_stamp :: "u64 \<Rightarrow> tile_id \<Rightarrow> u64" where
  "visited_stamp now t = now * 100 - ucast (zoom_level t)"

definition insert_object :: "('a \<Rightarrow> tile_id) \<Rightarrow> u64 \<Rightarrow> 'a \<Rightarrow> 'a cache_map \<Rightarrow> 'a cache_map" where
  "insert_object tid now x m =
     AList.update (tid x)
       \<lparr>co_meta = \<lparr>md_visited = visited_stamp now (tid x), md_created = now\<rparr>, co_data = x\<rparr> m"

definition contains :: "'a cache_map \<Rightarrow> tile_id \<Rightarrow> bool" where
  "contains m t \<longleftrightarrow> map_of m t \<noteq> None"

definition n_cached_objects :: "'a cache_map \<Rightarrow> u32" where
  "n_cached_objects m = of_nat (length m)"

text \<open>\<open>m_data.at(id)\<close> throws when the id is missing: \<open>None\<close>.\<close>

definition peak_at :: "'a cache_map \<Rightarrow> tile_id \<Rightarrow> 'a option" where
  "peak_at m t = map_option co_data (map_of m t)"

definition stamp_object :: "u64 \<Rightarrow> ('a \<Rightarrow> tile_id) \<Rightarrow> 'a cache_object \<Rightarrow> 'a cache_object" where
  "stamp_object now tid ob = ob\<lparr>co_meta := (co_meta ob)\<lparr>md_visited := visited_stamp now (tid (co_data ob))\<rparr>\<rparr>"

primrec fold_option :: "('a \<Rightarrow> 's \<Rightarrow> 's option) \<Rightarrow> 'a list \<Rightarrow> 's \<Rightarrow> 's option" where
  "fold_option f [] s = Some s"
| "fold_option f (x # xs) s = (case f x s of None \<Rightarrow> None | Some s' \<Rightarrow> fold_option f xs s')"

text \<open>
  The recursion of \<open>visit\<close> goes down the tree, one level per call: the first argument bounds its
  depth, and \<open>None\<close> is a walk that is deeper.
\<close>

primrec visit_node :: "nat \<Rightarrow> (tile_id \<Rightarrow> tile_id list) \<Rightarrow> ('a \<Rightarrow> tile_id) \<Rightarrow> ('a \<Rightarrow> 's \<Rightarrow> bool \<times> 's) \<Rightarrow> u64 \<Rightarrow>
    tile_id \<Rightarrow> 'a cache_map \<times> 's \<Rightarrow> ('a cache_map \<times> 's) option" where
  "visit_node 0 children tid functor now node ms = None"
| "visit_node (Suc n) children tid functor now node ms =
     (case map_of (fst ms) node of
        None \<Rightarrow> Some ms
      | Some ob \<Rightarrow>
          (let (should_continue, s) = functor (co_data ob) (snd ms)
           in if \<not> should_continue then Some (fst ms, s)
              else fold_option (visit_node n children tid functor now) (children node)
                (AList.update node (stamp_object now tid ob) (fst ms), s)))"

definition root_tile :: tile_id where
  "root_tile = tile 0 0 0"

text \<open>Ids are packed into 29 levels (\<open>Tile_Id\<close>), so 31 calls reach below the deepest.\<close>

definition visit :: "(tile_id \<Rightarrow> tile_id list) \<Rightarrow> ('a \<Rightarrow> tile_id) \<Rightarrow> ('a \<Rightarrow> 's \<Rightarrow> bool \<times> 's) \<Rightarrow> u64 \<Rightarrow>
    'a cache_map \<Rightarrow> 's \<Rightarrow> ('a cache_map \<times> 's) option" where
  "visit children tid functor now m s = visit_node 31 children tid functor now root_tile (m, s)"

text \<open>
  \<open>purge\<close>: \<open>nth_element\<close> of the standard library is an argument, since it may order the two parts as
  it likes; \<open>nth_element_spec\<close> is its postcondition for the comparison of the code.
\<close>

type_synonym nth_element = "nat \<Rightarrow> (tile_id \<times> u64) list \<Rightarrow> (tile_id \<times> u64) list"

definition nth_element_spec :: "nth_element \<Rightarrow> bool" where
  "nth_element_spec f \<longleftrightarrow> (\<forall>n xs. n < length xs \<longrightarrow> mset (f n xs) = mset xs \<and>
     (\<forall>a \<in> set (take n (f n xs)). \<forall>b \<in> set (drop n (f n xs)). snd b \<le> snd a))"

definition purge :: "nth_element \<Rightarrow> u32 \<Rightarrow> 'a cache_map \<Rightarrow> 'a list \<times> 'a cache_map" where
  "purge nth_el remaining_capacity m =
     (if length m \<le> unat remaining_capacity then ([], m)
      else let tiles = nth_el (unat remaining_capacity) (map (\<lambda>(t, ob). (t, md_visited (co_meta ob))) m);
               gone = map fst (drop (unat remaining_capacity) tiles)
           in (List.map_filter (peak_at m) gone, filter (\<lambda>e. fst e \<notin> set gone) m))"

subsection \<open>Insertion and lookup\<close>

definition cache_ok :: "('a \<Rightarrow> tile_id) \<Rightarrow> 'a cache_map \<Rightarrow> bool" where
  "cache_ok tid m \<longleftrightarrow> distinct (map fst m) \<and> (\<forall>(t, ob) \<in> set m. tid (co_data ob) = t)"

lemma cache_ok_Nil [simp]: "cache_ok tid []"
  by (simp add: cache_ok_def)

lemma cache_ok_distinct: "cache_ok tid m \<Longrightarrow> distinct (map fst m)"
  by (simp add: cache_ok_def)

lemma cache_ok_tid: "cache_ok tid m \<Longrightarrow> map_of m t = Some ob \<Longrightarrow> tid (co_data ob) = t"
  by (auto simp: cache_ok_def dest: map_of_SomeD)

lemma set_update_distinct:
  "distinct (map fst m) \<Longrightarrow> set (AList.update k v m) = insert (k, v) {e \<in> set m. fst e \<noteq> k}"
  by (induction m) (auto simp: rev_image_eqI)

lemma cache_ok_update:
  "cache_ok tid m \<Longrightarrow> tid (co_data ob) = t \<Longrightarrow> cache_ok tid (AList.update t ob m)"
  by (auto simp: cache_ok_def distinct_update set_update_distinct)

lemma insert_object_ok: "cache_ok tid m \<Longrightarrow> cache_ok tid (insert_object tid now x m)"
  by (simp add: insert_object_def cache_ok_update)

lemma contains_insert: "contains (insert_object tid now x m) t \<longleftrightarrow> t = tid x \<or> contains m t"
  by (simp add: contains_def insert_object_def update_conv')

lemma peak_at_insert: "peak_at (insert_object tid now x m) t = (if t = tid x then Some x else peak_at m t)"
  by (simp add: peak_at_def insert_object_def update_conv')

lemma peak_at_Some: "map_of m t = Some ob \<Longrightarrow> peak_at m t = Some (co_data ob)"
  by (simp add: peak_at_def)

lemma peak_at_None: "map_of m t = None \<Longrightarrow> peak_at m t = None"
  by (simp add: peak_at_def)

lemma contains_iff: "contains m t \<longleftrightarrow> t \<in> fst ` set m"
  by (auto simp: contains_def map_of_eq_None_iff)

subsection \<open>What a visit does\<close>

text \<open>The tiles a visit accepts, in the order it meets them.\<close>

primrec visit_walk :: "nat \<Rightarrow> (tile_id \<Rightarrow> tile_id list) \<Rightarrow> ('a \<Rightarrow> bool) \<Rightarrow> (tile_id \<Rightarrow> 'a option) \<Rightarrow> tile_id \<Rightarrow> tile_id list" where
  "visit_walk 0 children p look node = []"
| "visit_walk (Suc n) children p look node =
     (case look node of
        None \<Rightarrow> []
      | Some x \<Rightarrow> if p x then node # concat (map (visit_walk n children p look) (children node)) else [])"

primrec visit_fits :: "nat \<Rightarrow> (tile_id \<Rightarrow> tile_id list) \<Rightarrow> ('a \<Rightarrow> bool) \<Rightarrow> (tile_id \<Rightarrow> 'a option) \<Rightarrow> tile_id \<Rightarrow> bool" where
  "visit_fits 0 children p look node \<longleftrightarrow> False"
| "visit_fits (Suc n) children p look node \<longleftrightarrow>
     (case look node of None \<Rightarrow> True | Some x \<Rightarrow> p x \<longrightarrow> list_all (visit_fits n children p look) (children node))"

definition restamp_one :: "u64 \<Rightarrow> ('a \<Rightarrow> tile_id) \<Rightarrow> tile_id \<Rightarrow> 'a cache_map \<Rightarrow> 'a cache_map" where
  "restamp_one now tid t m =
     (case map_of m t of None \<Rightarrow> m | Some ob \<Rightarrow> AList.update t (stamp_object now tid ob) m)"

definition restamp :: "u64 \<Rightarrow> ('a \<Rightarrow> tile_id) \<Rightarrow> tile_id list \<Rightarrow> 'a cache_map \<Rightarrow> 'a cache_map" where
  "restamp now tid ts m = fold (restamp_one now tid) ts m"

lemma stamp_object_data [simp]: "co_data (stamp_object now tid ob) = co_data ob"
  "md_created (co_meta (stamp_object now tid ob)) = md_created (co_meta ob)"
  "md_visited (co_meta (stamp_object now tid ob)) = visited_stamp now (tid (co_data ob))"
  "stamp_object now tid (stamp_object now tid ob) = stamp_object now tid ob"
  by (simp_all add: stamp_object_def)

lemma map_of_restamp_one:
  "map_of (restamp_one now tid t m) u =
     (if u = t then map_option (stamp_object now tid) (map_of m u) else map_of m u)"
  by (auto simp: restamp_one_def update_conv' split: option.split)

lemma keys_restamp_one [simp]: "map fst (restamp_one now tid t m) = map fst m"
  by (auto simp: restamp_one_def update_keys map_of_eq_None_iff split: option.split)

lemma peak_at_restamp_one [simp]: "peak_at (restamp_one now tid t m) = peak_at m"
  by (auto simp: peak_at_def map_of_restamp_one option.map_comp o_def intro!: ext)

lemma map_of_restamp:
  "map_of (restamp now tid ts m) u =
     (if u \<in> set ts then map_option (stamp_object now tid) (map_of m u) else map_of m u)"
  by (induction ts arbitrary: m) (auto simp: restamp_def map_of_restamp_one option.map_comp o_def)

lemma keys_restamp [simp]: "map fst (restamp now tid ts m) = map fst m"
  unfolding restamp_def by (induction ts arbitrary: m) simp_all

lemma length_restamp [simp]: "length (restamp now tid ts m) = length m"
  by (metis keys_restamp length_map)

lemma peak_at_restamp [simp]: "peak_at (restamp now tid ts m) = peak_at m"
  unfolding restamp_def by (induction ts arbitrary: m) simp_all

lemma contains_restamp [simp]: "contains (restamp now tid ts m) t = contains m t"
  by (simp add: contains_def map_of_restamp)

lemma restamp_ok: "cache_ok tid m \<Longrightarrow> cache_ok tid (restamp now tid ts m)"
proof (induction ts arbitrary: m)
  case (Cons t ts)
  have "cache_ok tid (restamp_one now tid t m)"
    using Cons.prems cache_ok_tid [OF Cons.prems, of t]
    by (cases "map_of m t") (simp_all add: restamp_one_def cache_ok_update)
  then show ?case using Cons.IH by (simp add: restamp_def)
qed (simp add: restamp_def)

lemma restamp_append: "restamp now tid (ts @ us) m = restamp now tid us (restamp now tid ts m)"
  by (simp add: restamp_def)

lemma visit_node_walk:
  assumes "visit_fits n children p (peak_at m) node"
  shows "visit_node n children tid (\<lambda>x s. (p x, if p x then g x s else s)) now node (m, s) =
     Some (restamp now tid (visit_walk n children p (peak_at m) node) m,
       fold g (List.map_filter (peak_at m) (visit_walk n children p (peak_at m) node)) s)"
  using assms
proof (induction n arbitrary: node m s)
  case (Suc n)
  let ?v = "visit_node n children tid (\<lambda>x s. (p x, if p x then g x s else s)) now"
  have many: "fold_option ?v cs (m', s') =
      Some (restamp now tid (concat (map (visit_walk n children p (peak_at m)) cs)) m',
        fold g (List.map_filter (peak_at m) (concat (map (visit_walk n children p (peak_at m)) cs))) s')"
    if "peak_at m' = peak_at m" "list_all (visit_fits n children p (peak_at m)) cs" for cs m' s'
    using that
  proof (induction cs arbitrary: m' s')
    case (Cons c cs)
    then have v: "?v c (m', s') = Some (restamp now tid (visit_walk n children p (peak_at m) c) m',
        fold g (List.map_filter (peak_at m) (visit_walk n children p (peak_at m) c)) s')"
      using Suc.IH [of m' c s'] by simp
    show ?case using Cons by (simp add: v restamp_append map_filter_def)
  qed (simp add: restamp_def map_filter_def)
  show ?case
  proof (cases "map_of m node")
    case None
    then show ?thesis by (simp add: peak_at_def restamp_def map_filter_def)
  next
    case (Some ob)
    have step: "AList.update node (stamp_object now tid ob) m = restamp_one now tid node m"
      by (simp add: restamp_one_def Some)
    show ?thesis
    proof (cases "p (co_data ob)")
      case True
      have peak: "peak_at m node = Some (co_data ob)" by (simp add: peak_at_def Some)
      then have "list_all (visit_fits n children p (peak_at m)) (children node)" using Suc.prems True by simp
      note many [OF peak_at_restamp_one [of now tid node m] this]
      then show ?thesis using True by (simp add: Some step peak) (simp add: restamp_def map_filter_def peak)
    next
      case False
      then show ?thesis by (simp add: Some peak_at_def restamp_def map_filter_def)
    qed
  qed
qed simp

text \<open>On tiles of the packable levels the depth suffices.\<close>

definition shallow :: "'a cache_map \<Rightarrow> bool" where
  "shallow m \<longleftrightarrow> (\<forall>t \<in> fst ` set m. valid_tile t \<and> zoom_level t < 29)"

lemma visit_fits_shallow:
  assumes "quad_tree parent children" "shallow m"
  shows "valid_tile node \<Longrightarrow> 31 \<le> unat (zoom_level node) + n \<Longrightarrow> visit_fits n children p (peak_at m) node"
proof (induction n arbitrary: node)
  case 0
  then show ?case by (simp add: valid_tile_def word_le_nat_alt)
next
  case (Suc n)
  show ?case
  proof (cases "map_of m node")
    case (Some ob)
    then have "node \<in> fst ` set m" by (metis domI dom_map_of_conv_image_fst)
    then have node: "valid_tile node" "zoom_level node < 29" using assms(2) by (auto simp: shallow_def)
    have "visit_fits n children p (peak_at m) c" if "c \<in> set (children node)" for c
    proof (rule Suc.IH)
      note tree = quad_treeD [OF assms(1) node]
      show "valid_tile c" using that by (rule tree(3))
      have "unat (zoom_level c) = Suc (unat (zoom_level node))"
        using node(2) tree(5) [OF that] by (simp add: unat_word_ariths word_less_nat_alt)
      then show "31 \<le> unat (zoom_level c) + n" using Suc.prems(2) by simp
    qed
    moreover have "peak_at m node = Some (co_data ob)" by (simp add: peak_at_def Some)
    ultimately show ?thesis by (simp add: list_all_iff)
  qed (simp add: peak_at_def)
qed

lemma valid_root: "valid_tile root_tile"
  by (simp add: valid_tile_def root_tile_def)

definition accepted :: "(tile_id \<Rightarrow> tile_id list) \<Rightarrow> ('a \<Rightarrow> bool) \<Rightarrow> 'a cache_map \<Rightarrow> tile_id list" where
  "accepted children p m = visit_walk 31 children p (peak_at m) root_tile"

lemma visit_accepted:
  assumes "quad_tree parent children" "shallow m"
  shows "visit children tid (\<lambda>x s. (p x, if p x then g x s else s)) now m s =
     Some (restamp now tid (accepted children p m) m,
       fold g (List.map_filter (peak_at m) (accepted children p m)) s)"
  unfolding visit_def accepted_def
  by (rule visit_node_walk) (rule visit_fits_shallow [OF assms valid_root], simp add: root_tile_def)

text \<open>Accepted tiles are in the cache and pass the test; all but the root have an accepted parent.\<close>

lemma walk_cached:
  "t \<in> set (visit_walk n children p look node) \<Longrightarrow> \<exists>x. look t = Some x \<and> p x"
proof (induction n arbitrary: node)
  case (Suc n)
  show ?case
  proof (cases "look node")
    case (Some x)
    then show ?thesis using Suc by (cases "p x") auto
  qed (use Suc.prems in simp)
qed simp

lemma walk_parent:
  assumes "t \<in> set (visit_walk n children p look node)"
  shows "t = node \<or> (\<exists>u \<in> set (visit_walk n children p look node). t \<in> set (children u))"
  using assms
proof (induction n arbitrary: node)
  case (Suc n)
  then obtain x where x: "look node = Some x" by (cases "look node") auto
  have px: "p x" using Suc.prems x by (cases "p x") auto
  show ?case
  proof (cases "t = node")
    case False
    then obtain c where c: "c \<in> set (children node)" "t \<in> set (visit_walk n children p look c)"
      using Suc.prems x px by auto
    then consider "t = c" | u where "u \<in> set (visit_walk n children p look c)" "t \<in> set (children u)"
      using Suc.IH by blast
    then show ?thesis using c x px by cases auto
  qed simp
qed simp

text \<open>What a walk meets lies below its start, when it only descends from packable levels.\<close>

lemma walk_under:
  assumes tree: "quad_tree parent children" and low: "\<forall>t x. look t = Some x \<and> p x \<longrightarrow> zoom_level t < 29"
  shows "valid_tile node \<Longrightarrow> t \<in> set (visit_walk n children p look node) \<Longrightarrow>
    valid_tile t \<and> unat (zoom_level node) \<le> unat (zoom_level t) \<and>
    (parent ^^ (unat (zoom_level t) - unat (zoom_level node))) t = node"
proof (induction n arbitrary: node)
  case (Suc n)
  show ?case
  proof (cases "t = node")
    case False
    obtain x where x: "look node = Some x" using Suc.prems(2) by (cases "look node") auto
    have px: "p x" using Suc.prems(2) x by (cases "p x") auto
    have node: "valid_tile node" "zoom_level node < 29" using Suc.prems(1) low x px by simp_all
    obtain c where c: "c \<in> set (children node)" "t \<in> set (visit_walk n children p look c)"
      using Suc.prems(2) False x px by auto
    have zc: "unat (zoom_level c) = Suc (unat (zoom_level node))"
      using node(2) quad_treeD(5) [OF tree node c(1)] by (simp add: unat_word_ariths word_less_nat_alt)
    note IH = Suc.IH [OF quad_treeD(3) [OF tree node c(1)] c(2)]
    then have "unat (zoom_level t) - unat (zoom_level node) = Suc (unat (zoom_level t) - unat (zoom_level c))"
      using zc by linarith
    then have "(parent ^^ (unat (zoom_level t) - unat (zoom_level node))) t = parent c"
      using IH by simp
    then show ?thesis using IH zc quad_treeD(4) [OF tree node c(1)] by simp
  qed (use Suc.prems(1) in simp)
qed simp

lemma distinct_concat_map:
  "distinct xs \<Longrightarrow> (\<And>x. x \<in> set xs \<Longrightarrow> distinct (f x)) \<Longrightarrow>
   (\<And>x y. x \<in> set xs \<Longrightarrow> y \<in> set xs \<Longrightarrow> x \<noteq> y \<Longrightarrow> set (f x) \<inter> set (f y) = {}) \<Longrightarrow>
   distinct (concat (map f xs))"
  by (induction xs) auto

lemma distinct_walk:
  assumes tree: "quad_tree parent children" and low: "\<forall>t x. look t = Some x \<and> p x \<longrightarrow> zoom_level t < 29"
  shows "valid_tile node \<Longrightarrow> distinct (visit_walk n children p look node)"
proof (induction n arbitrary: node)
  case (Suc n)
  show ?case
  proof (cases "\<exists>x. look node = Some x \<and> p x")
    case True
    then obtain x where x: "look node = Some x" "p x" by blast
    have node: "valid_tile node" "zoom_level node < 29" using Suc.prems low x by simp_all
    note law = quad_treeD [OF tree node] and under = walk_under [OF tree low]
    have zoom: "unat (zoom_level c) = Suc (unat (zoom_level node))" if "c \<in> set (children node)" for c
      using node(2) law(5) [OF that] by (simp add: unat_word_ariths word_less_nat_alt)
    have "distinct (concat (map (visit_walk n children p look) (children node)))"
    proof (rule distinct_concat_map)
      fix c d assume cd: "c \<in> set (children node)" "d \<in> set (children node)" "c \<noteq> d"
      have False if "t \<in> set (visit_walk n children p look c)" "t \<in> set (visit_walk n children p look d)" for t
        using under [OF law(3) [OF cd(1)] that(1)] under [OF law(3) [OF cd(2)] that(2)] zoom cd by auto
      then show "set (visit_walk n children p look c) \<inter> set (visit_walk n children p look d) = {}" by blast
    qed (use law(2) Suc.IH law(3) in auto)
    moreover have "node \<notin> set (visit_walk n children p look c)" if "c \<in> set (children node)" for c
      using under [OF law(3) [OF that], of node n] zoom [OF that] by auto
    ultimately show ?thesis using x by auto
  next
    case False
    then show ?thesis by (cases "look node") auto
  qed
qed simp

lemma accepted_cached: "t \<in> set (accepted children p m) \<Longrightarrow> \<exists>x. peak_at m t = Some x \<and> p x"
  unfolding accepted_def by (rule walk_cached)

lemma accepted_parent:
  "t \<in> set (accepted children p m) \<Longrightarrow>
   t = root_tile \<or> (\<exists>u \<in> set (accepted children p m). t \<in> set (children u))"
  unfolding accepted_def by (rule walk_parent)

lemma distinct_accepted:
  "quad_tree parent children \<Longrightarrow> shallow m \<Longrightarrow> distinct (accepted children p m)"
  unfolding accepted_def
  by (rule distinct_walk [OF _ _ valid_root]) (auto simp: shallow_def peak_at_def dest!: map_of_SomeD)

subsection \<open>What a purge does\<close>

definition visited_of :: "'a cache_map \<Rightarrow> tile_id \<Rightarrow> u64" where
  "visited_of m t = (case map_of m t of None \<Rightarrow> 0 | Some ob \<Rightarrow> md_visited (co_meta ob))"

lemma purge_small [simp]: "length m \<le> unat n \<Longrightarrow> purge nth_el n m = ([], m)"
  by (simp add: purge_def)

text \<open>The tiles to go are the tail of the partition.\<close>

definition gone :: "nth_element \<Rightarrow> u32 \<Rightarrow> 'a cache_map \<Rightarrow> tile_id list" where
  "gone nth_el n m =
     (if length m \<le> unat n then []
      else map fst (drop (unat n) (nth_el (unat n) (map (\<lambda>(t, ob). (t, md_visited (co_meta ob))) m))))"

lemma purge_gone: "purge nth_el n m = (List.map_filter (peak_at m) (gone nth_el n m), filter (\<lambda>e. fst e \<notin> set (gone nth_el n m)) m)"
  by (simp add: purge_def gone_def Let_def map_filter_def)

lemma nth_element_specD:
  assumes "nth_element_spec f" "n < length xs"
  shows "mset (f n xs) = mset xs"
    "\<forall>a \<in> set (take n (f n xs)). \<forall>b \<in> set (drop n (f n xs)). snd b \<le> snd a"
proof -
  have "mset (f n xs) = mset xs \<and> (\<forall>a \<in> set (take n (f n xs)). \<forall>b \<in> set (drop n (f n xs)). snd b \<le> snd a)"
    using assms unfolding nth_element_spec_def by blast
  then show "mset (f n xs) = mset xs"
    "\<forall>a \<in> set (take n (f n xs)). \<forall>b \<in> set (drop n (f n xs)). snd b \<le> snd a" by blast+
qed

lemma gone_facts:
  assumes spec: "nth_element_spec nth_el" and m: "cache_ok tid m"
  shows "distinct (gone nth_el n m)" "set (gone nth_el n m) \<subseteq> fst ` set m"
    "length (gone nth_el n m) = length m - unat n"
    "t \<in> fst ` set m - set (gone nth_el n m) \<Longrightarrow> u \<in> set (gone nth_el n m) \<Longrightarrow> visited_of m u \<le> visited_of m t"
proof -
  let ?v = "map (\<lambda>(t, ob). (t, md_visited (co_meta ob))) m" and ?k = "unat n"
  let ?w = "nth_el ?k ?v"
  have keys: "map fst ?v = map fst m" by (induction m) auto
  have pair: "e \<in> set ?v \<Longrightarrow> snd e = visited_of m (fst e)" for e
    using m by (auto simp: visited_of_def cache_ok_def)
  have facts: "distinct (map fst ?w)" "set (map fst ?w) = fst ` set m" "length ?w = length m" "set ?w = set ?v"
    "\<forall>a \<in> set (take ?k ?w). \<forall>b \<in> set (drop ?k ?w). snd b \<le> snd a" if "unat n < length m"
  proof -
    have len: "?k < length ?v" using that by simp
    note w = nth_element_specD(1) [OF spec len] and le = nth_element_specD(2) [OF spec len]
    have "mset (map fst ?w) = image_mset fst (mset ?v)" by (simp only: mset_map w)
    also have "\<dots> = mset (map fst m)" by (simp only: keys flip: mset_map)
    finally have "mset (map fst ?w) = mset (map fst m)" .
    note fm = this
    show "distinct (map fst ?w)"
      using mset_eq_imp_distinct_iff [OF fm] cache_ok_distinct [OF m] by (rule iffD2)
    show "set (map fst ?w) = fst ` set m" using mset_eq_setD [OF fm] by (simp only: set_map)
    show "length ?w = length m" using mset_eq_length [OF w] by (simp only: length_map)
    show "set ?w = set ?v" by (rule mset_eq_setD [OF w])
    show "\<forall>a \<in> set (take ?k ?w). \<forall>b \<in> set (drop ?k ?w). snd b \<le> snd a" by (rule le)
  qed
  show "distinct (gone nth_el n m)"
    using facts(1) by (simp add: gone_def flip: drop_map)
  show "set (gone nth_el n m) \<subseteq> fst ` set m"
  proof (cases "unat n < length m")
    case True
    have "set (gone nth_el n m) \<subseteq> set (map fst ?w)"
      using True set_drop_subset [of ?k "map fst ?w"] by (simp add: gone_def drop_map)
    then show ?thesis using facts(2) [OF True] by blast
  qed (simp add: gone_def)
  show "length (gone nth_el n m) = length m - unat n"
    using facts(3) by (simp add: gone_def)
  show "visited_of m u \<le> visited_of m t"
    if t: "t \<in> fst ` set m - set (gone nth_el n m)" and u: "u \<in> set (gone nth_el n m)"
  proof -
    have big: "unat n < length m" using u by (auto simp: gone_def split: if_splits)
    obtain b where b: "b \<in> set (drop ?k ?w)" "u = fst b" using u big by (auto simp: gone_def)
    obtain a where a: "a \<in> set ?w" "t = fst a"
    proof -
      have "t \<in> set (map fst ?w)" using t facts(2) [OF big] by blast
      then show thesis using that unfolding set_map by (rule imageE)
    qed
    have "a \<notin> set (drop ?k ?w)" using a(2) t big by (auto simp: gone_def)
    moreover have "a \<in> set (take ?k ?w) \<union> set (drop ?k ?w)"
      using a(1) by (simp only: append_take_drop_id flip: set_append)
    ultimately have "a \<in> set (take ?k ?w)" by blast
    then have "snd b \<le> snd a" using facts(5) [OF big] b(1) by blast
    moreover have "a \<in> set ?v" "b \<in> set ?v" using a(1) in_set_dropD [OF b(1)] facts(4) [OF big] by auto
    ultimately show ?thesis using pair a(2) b(2) by metis
  qed
qed

end
