(* ===== verification/Tile_Disk.thy ===== *)
theory Tile_Disk
  imports Tile_Cache
begin

text \<open>
  \<open>Cache<T>::write_to_disk\<close> and \<open>read_from_disk\<close> (nucleus/tile/Cache.h). The directory of the cache is
  a map from file names to bytes; which files can be opened for writing is an argument. The bytes
  are made by the zpp_bits library, which is not in the repository: a \<open>codec\<close> has its functions,
  and \<open>codec_ok\<close> says that what was written is read back.
\<close>

type_synonym disk_map = "(tile_id \<times> meta_data) list"
type_synonym files = "string \<rightharpoonup> u8 list"

record 'a codec =
  cd_version :: "u8 list"
  put_version :: "u8 list option"
  put_data :: "'a \<Rightarrow> u8 list option"
  put_metas :: "disk_map \<Rightarrow> u8 list option"
  get_version :: "u8 list \<Rightarrow> (u8 list \<times> u8 list) option"
  get_data :: "u8 list \<Rightarrow> ('a \<times> u8 list) option"
  get_metas :: "u8 list \<Rightarrow> (disk_map \<times> u8 list) option"

datatype cache_error = Could_not_write string | Could_not_read string | Serialisation | Wrong_version string

subsection \<open>File names\<close>

definition digit :: "nat \<Rightarrow> char" where
  "digit d = char_of (48 + d)"

fun to_decimal :: "nat \<Rightarrow> string" where
  "to_decimal n = (if n < 10 then [digit n] else to_decimal (n div 10) @ [digit (n mod 10)])"

declare to_decimal.simps [simp del]

definition tile_path :: "tile_id \<Rightarrow> string" where
  "tile_path t = to_decimal (unat (zoom_level t)) @ ''_'' @ to_decimal (unat (coords_x t)) @ ''_''
     @ to_decimal (unat (coords_y t)) @ ''.alp_tile''"

definition meta_info_path :: string where
  "meta_info_path = ''meta_info.alp''"

subsection \<open>Writing\<close>

definition unchanged :: "disk_map \<Rightarrow> tile_id \<Rightarrow> 'a cache_object \<Rightarrow> bool" where
  "unchanged old t ob = (case map_of old t of None \<Rightarrow> False | Some m \<Rightarrow> md_created m = md_created (co_meta ob))"

text \<open>The first loop removes the files of tiles that left the cache or changed.\<close>

definition still_valid :: "'a cache_map \<Rightarrow> tile_id \<Rightarrow> meta_data \<Rightarrow> bool" where
  "still_valid data t m = (case map_of data t of None \<Rightarrow> False | Some ob \<Rightarrow> md_created (co_meta ob) = md_created m)"

definition remove_stale :: "'a cache_map \<Rightarrow> disk_map \<Rightarrow> files \<Rightarrow> files" where
  "remove_stale data old files =
     fold (\<lambda>(t, m) files. if still_valid data t m then files else files(tile_path t := None)) old files"

text \<open>
  The second loop writes the new and changed ones. It notes each item in \<open>m_disk_cached\<close> before it
  is written, and returns early on an error.
\<close>

fun write_items :: "'a codec \<Rightarrow> (string \<Rightarrow> bool) \<Rightarrow> disk_map \<Rightarrow> 'a cache_map \<Rightarrow> files \<times> disk_map \<Rightarrow>
    (cache_error + unit) \<times> files \<times> disk_map" where
  "write_items codec opens old [] fd = (Inr (), fd)"
| "write_items codec opens old ((t, ob) # items) (files, disk) =
     (let disk = AList.update t (co_meta ob) disk
      in if unchanged old t ob then write_items codec opens old items (files, disk)
         else case put_version codec of None \<Rightarrow> (Inl Serialisation, files, disk)
         | Some v \<Rightarrow> (case put_data codec (co_data ob) of None \<Rightarrow> (Inl Serialisation, files, disk)
         | Some b \<Rightarrow> if \<not> opens (tile_path t) then (Inl (Could_not_write (tile_path t)), files, disk)
             else write_items codec opens old items (files(tile_path t \<mapsto> v @ b), disk)))"

definition write_meta :: "'a codec \<Rightarrow> (string \<Rightarrow> bool) \<Rightarrow> files \<times> disk_map \<Rightarrow> (cache_error + unit) \<times> files \<times> disk_map" where
  "write_meta codec opens fd =
     (case put_version codec of None \<Rightarrow> (Inl Serialisation, fd)
      | Some v \<Rightarrow> (case put_metas codec (snd fd) of None \<Rightarrow> (Inl Serialisation, fd)
      | Some b \<Rightarrow> if \<not> opens meta_info_path then (Inl (Could_not_write meta_info_path), fd)
          else (Inr (), (fst fd)(meta_info_path \<mapsto> v @ b), snd fd)))"

definition write_to_disk :: "'a codec \<Rightarrow> (string \<Rightarrow> bool) \<Rightarrow> 'a cache_map \<Rightarrow> disk_map \<Rightarrow> files \<Rightarrow>
    (cache_error + unit) \<times> files \<times> disk_map" where
  "write_to_disk codec opens data old files =
     (case write_items codec opens old data (remove_stale data old files, []) of
        (Inl e, fd) \<Rightarrow> (Inl e, fd)
      | (Inr _, fd) \<Rightarrow> write_meta codec opens fd)"

subsection \<open>Reading\<close>

definition check_version :: "'a codec \<Rightarrow> string \<Rightarrow> u8 list \<Rightarrow> cache_error + u8 list" where
  "check_version codec path bytes =
     (case get_version codec bytes of None \<Rightarrow> Inl Serialisation
      | Some (v, rest) \<Rightarrow> if v \<noteq> cd_version codec then Inl (Wrong_version path) else Inr rest)"

definition read_all :: "files \<Rightarrow> string \<Rightarrow> cache_error + u8 list" where
  "read_all files path = (case files path of None \<Rightarrow> Inl (Could_not_read path) | Some b \<Rightarrow> Inr b)"

definition read_tile :: "'a codec \<Rightarrow> files \<Rightarrow> tile_id \<Rightarrow> cache_error + 'a" where
  "read_tile codec files t =
     (case read_all files (tile_path t) of Inl e \<Rightarrow> Inl e
      | Inr b \<Rightarrow> (case check_version codec (tile_path t) b of Inl e \<Rightarrow> Inl e
      | Inr b' \<Rightarrow> (case get_data codec b' of None \<Rightarrow> Inl Serialisation | Some (x, _) \<Rightarrow> Inr x)))"

fun read_items :: "'a codec \<Rightarrow> ('a \<Rightarrow> tile_id) \<Rightarrow> files \<Rightarrow> disk_map \<Rightarrow> 'a cache_map \<Rightarrow> cache_error + 'a cache_map" where
  "read_items codec tid files [] data = Inr data"
| "read_items codec tid files ((t, m) # es) data =
     (case read_tile codec files t of Inl e \<Rightarrow> Inl e
      | Inr x \<Rightarrow> read_items codec tid files es (AList.update (tid x) \<lparr>co_meta = m, co_data = x\<rparr> data))"

text \<open>On any error the cache is left empty (\<open>clean_up\<close>).\<close>

definition read_from_disk :: "'a codec \<Rightarrow> ('a \<Rightarrow> tile_id) \<Rightarrow> files \<Rightarrow> (cache_error + unit) \<times> 'a cache_map \<times> disk_map" where
  "read_from_disk codec tid files =
     (case read_all files meta_info_path of Inl e \<Rightarrow> (Inl e, [], [])
      | Inr b \<Rightarrow> (case check_version codec meta_info_path b of Inl e \<Rightarrow> (Inl e, [], [])
      | Inr b' \<Rightarrow> (case get_metas codec b' of None \<Rightarrow> (Inl Serialisation, [], [])
      | Some (disk, _) \<Rightarrow> (case read_items codec tid files disk [] of Inl e \<Rightarrow> (Inl e, [], [])
          | Inr data \<Rightarrow> (Inr (), data, disk)))))"

subsection \<open>File names are different for different tiles\<close>

definition is_digit :: "char \<Rightarrow> bool" where
  "is_digit c \<longleftrightarrow> 48 \<le> (of_char c :: nat) \<and> (of_char c :: nat) < 58"

lemma digit_is_digit: "d < 10 \<Longrightarrow> is_digit (digit d)"
  by (simp add: is_digit_def digit_def)

lemma digit_inj: "a < 10 \<Longrightarrow> b < 10 \<Longrightarrow> digit a = digit b \<Longrightarrow> a = b"
proof -
  assume "a < 10" "b < 10" "digit a = digit b"
  then have "(of_char (digit a) :: nat) = of_char (digit b)" by simp
  then show "a = b" using \<open>a < 10\<close> \<open>b < 10\<close> by (simp add: digit_def)
qed

lemma decimal_digits: "list_all is_digit (to_decimal n)"
  by (induction n rule: to_decimal.induct) (subst to_decimal.simps, auto simp: digit_is_digit)

lemma to_decimal_inj: "to_decimal a = to_decimal b \<Longrightarrow> a = b"
proof (induction a arbitrary: b rule: to_decimal.induct)
  case (1 a)
  have len: "(length (to_decimal n) = 1) = (n < 10)" for n
    by (subst to_decimal.simps) (simp, subst to_decimal.simps, simp)
  show ?case
  proof (cases "a < 10")
    case True
    then have "b < 10" using 1(2) len by metis
    then show ?thesis using 1(2) True digit_inj by (simp add: to_decimal.simps [of a] to_decimal.simps [of b])
  next
    case False
    then have b: "\<not> b < 10" using 1(2) len by metis
    then have "to_decimal (a div 10) = to_decimal (b div 10)" "digit (a mod 10) = digit (b mod 10)"
      using 1(2) False by (simp_all add: to_decimal.simps [of a] to_decimal.simps [of b])
    then have "a div 10 = b div 10" "a mod 10 = b mod 10"
      using 1(1) [OF False] digit_inj [of "a mod 10" "b mod 10"] by simp_all
    then show ?thesis by (metis div_mult_mod_eq)
  qed
qed

lemma takeWhile_prefix: "list_all P xs \<Longrightarrow> \<not> P c \<Longrightarrow> takeWhile P (xs @ c # us) = xs"
  by (induction xs) auto

lemma digits_before:
  assumes "list_all is_digit xs" "list_all is_digit ys" "\<not> is_digit c" "\<not> is_digit d"
    "xs @ c # us = ys @ d # vs"
  shows "xs = ys \<and> us = vs"
proof -
  have "takeWhile is_digit (xs @ c # us) = xs"
    using assms(1,3) by (rule takeWhile_prefix)
  moreover have "takeWhile is_digit (ys @ d # vs) = ys"
    using assms(2,4) by (rule takeWhile_prefix)
  ultimately have "xs = ys" using assms(5) by simp
  then show ?thesis using assms(5) by simp
qed

lemma tile_path_inj: "tile_path t = tile_path u \<longleftrightarrow> t = u"
proof
  assume eq: "tile_path t = tile_path u"
  have sep: "\<not> is_digit CHR ''_''" "\<not> is_digit CHR ''.''" by (simp_all add: is_digit_def)
  note step = digits_before [OF decimal_digits decimal_digits sep(1) sep(1)]
  have 1: "to_decimal (unat (zoom_level t)) = to_decimal (unat (zoom_level u)) \<and>
      to_decimal (unat (coords_x t)) @ ''_'' @ to_decimal (unat (coords_y t)) @ ''.alp_tile''
      = to_decimal (unat (coords_x u)) @ ''_'' @ to_decimal (unat (coords_y u)) @ ''.alp_tile''"
    using eq by (intro step) (simp add: tile_path_def)
  then have 2: "to_decimal (unat (coords_x t)) = to_decimal (unat (coords_x u)) \<and>
      to_decimal (unat (coords_y t)) @ ''.alp_tile'' = to_decimal (unat (coords_y u)) @ ''.alp_tile''"
    by (intro step) simp
  then have "to_decimal (unat (coords_y t)) = to_decimal (unat (coords_y u))" by simp
  then show "t = u"
    using 1 2 to_decimal_inj by (metis (full_types) tile_id.equality old.unit.exhaust word_unat_eq_iff)
qed simp

lemma tile_path_not_meta: "tile_path t \<noteq> meta_info_path"
proof
  assume "tile_path t = meta_info_path"
  moreover have "hd (tile_path t) = hd (to_decimal (unat (zoom_level t)))" "to_decimal (unat (zoom_level t)) \<noteq> []"
    by (auto simp: tile_path_def to_decimal.simps hd_append)
  ultimately have "is_digit (hd meta_info_path)"
    using decimal_digits [of "unat (zoom_level t)"] by (metis list.set_sel(1) list_all_iff)
  then show False by (simp add: is_digit_def meta_info_path_def)
qed

subsection \<open>What was written is read back\<close>

definition codec_ok :: "'a codec \<Rightarrow> bool" where
  "codec_ok codec \<longleftrightarrow>
     (\<forall>b r. put_version codec = Some b \<longrightarrow> get_version codec (b @ r) = Some (cd_version codec, r)) \<and>
     (\<forall>x b r. put_data codec x = Some b \<longrightarrow> get_data codec (b @ r) = Some (x, r)) \<and>
     (\<forall>m b r. put_metas codec m = Some b \<and> distinct (map fst m) \<longrightarrow>
        (\<exists>m'. get_metas codec (b @ r) = Some (m', r) \<and> distinct (map fst m') \<and> map_of m' = map_of m))"

text \<open>The file of a tile holds this object.\<close>

definition on_disk :: "'a codec \<Rightarrow> files \<Rightarrow> tile_id \<Rightarrow> 'a \<Rightarrow> bool" where
  "on_disk codec files t x \<longleftrightarrow> (\<exists>v b. put_version codec = Some v \<and> put_data codec x = Some b \<and>
     files (tile_path t) = Some (v @ b))"

text \<open>The disk agrees with the memory on every tile that has not changed since.\<close>

definition synced :: "'a codec \<Rightarrow> 'a cache_map \<Rightarrow> disk_map \<Rightarrow> files \<Rightarrow> bool" where
  "synced codec data disk files \<longleftrightarrow>
     (\<forall>t ob. map_of data t = Some ob \<and> unchanged disk t ob \<longrightarrow> on_disk codec files t (co_data ob))"

lemma on_disk_update: "t \<noteq> u \<Longrightarrow> on_disk codec (files(tile_path u := b)) t x \<longleftrightarrow> on_disk codec files t x"
  by (simp add: on_disk_def tile_path_inj)

lemma remove_stale_keeps:
  "(\<And>m. (t, m) \<in> set old \<Longrightarrow> still_valid data t m) \<Longrightarrow>
   remove_stale data old files (tile_path t) = files (tile_path t)"
proof (induction old arbitrary: files)
  case (Cons e old)
  obtain u m where e: "e = (u, m)" by force
  let ?files = "if still_valid data u m then files else files(tile_path u := None)"
  have "remove_stale data old ?files (tile_path t) = ?files (tile_path t)"
    using Cons.prems by (intro Cons.IH) simp
  moreover have "?files (tile_path t) = files (tile_path t)"
    using Cons.prems [of m] by (auto simp: e tile_path_inj)
  ultimately show ?case by (simp add: remove_stale_def e)
qed (simp add: remove_stale_def)

lemma synced_remove_stale:
  assumes "synced codec data old files" "distinct (map fst old)"
  shows "synced codec data old (remove_stale data old files)"
  unfolding synced_def
proof (intro allI impI)
  fix t ob assume t: "map_of data t = Some ob \<and> unchanged old t ob"
  have "still_valid data t m" if "(t, m) \<in> set old" for m
    using that assms(2) t by (simp add: still_valid_def unchanged_def)
  then have "remove_stale data old files (tile_path t) = files (tile_path t)" by (rule remove_stale_keeps)
  then show "on_disk codec (remove_stale data old files) t (co_data ob)"
    using assms(1) t by (simp add: synced_def on_disk_def)
qed

text \<open>A successful second loop stores every item and notes its meta data.\<close>

lemma write_items_step:
  assumes "write_items codec opens old ((t, ob) # items) (files, disk) = (Inr (), r)"
  shows "\<exists>files1. write_items codec opens old items (files1, AList.update t (co_meta ob) disk) = (Inr (), r) \<and>
    (if unchanged old t ob then files1 = files else on_disk codec files1 t (co_data ob)) \<and>
    (\<forall>u. u \<noteq> t \<longrightarrow> files1 (tile_path u) = files (tile_path u))"
proof (cases "unchanged old t ob")
  case True
  then show ?thesis using assms by (intro exI [of _ files]) simp
next
  case False
  then obtain v b where vb: "put_version codec = Some v" "put_data codec (co_data ob) = Some b" "opens (tile_path t)"
    using assms by (auto simp: Let_def split: option.splits if_splits)
  have "on_disk codec (files(tile_path t \<mapsto> v @ b)) t (co_data ob)" using vb by (simp add: on_disk_def)
  then show ?thesis
    using assms False vb by (intro exI [of _ "files(tile_path t \<mapsto> v @ b)"]) (simp add: Let_def tile_path_inj)
qed

lemma write_items_ok:
  assumes "write_items codec opens old items (files, disk) = (Inr (), files', disk')"
    "distinct (map fst items)" "distinct (map fst disk)" "fst ` set disk \<inter> fst ` set items = {}"
    "\<And>t ob. (t, ob) \<in> set items \<Longrightarrow> unchanged old t ob \<Longrightarrow> on_disk codec files t (co_data ob)"
  shows "(\<forall>t ob. (t, ob) \<in> set items \<longrightarrow> on_disk codec files' t (co_data ob)) \<and>
    (\<forall>t. map_of disk' t = (case map_of items t of Some ob \<Rightarrow> Some (co_meta ob) | None \<Rightarrow> map_of disk t)) \<and>
    distinct (map fst disk') \<and>
    (\<forall>t. t \<notin> fst ` set items \<longrightarrow> files' (tile_path t) = files (tile_path t))"
  using assms
proof (induction items arbitrary: files disk)
  case (Cons e items)
  obtain t ob where e: "e = (t, ob)" by force
  let ?disk = "AList.update t (co_meta ob) disk"
  obtain files1 where f: "write_items codec opens old items (files1, ?disk) = (Inr (), files', disk')"
    "if unchanged old t ob then files1 = files else on_disk codec files1 t (co_data ob)"
    "\<forall>u. u \<noteq> t \<longrightarrow> files1 (tile_path u) = files (tile_path u)"
    using write_items_step [OF Cons.prems(1) [unfolded e]] by blast
  have t: "t \<notin> fst ` set items" "map_of items t = None" using Cons.prems(2) by (auto simp: e map_of_eq_None_iff)
  have here: "on_disk codec files1 t (co_data ob)"
    using f(2) Cons.prems(5) [of t ob] by (cases "unchanged old t ob") (simp_all add: e)
  have IH: "(\<forall>t ob. (t, ob) \<in> set items \<longrightarrow> on_disk codec files' t (co_data ob)) \<and>
    (\<forall>t. map_of disk' t = (case map_of items t of Some ob \<Rightarrow> Some (co_meta ob) | None \<Rightarrow> map_of ?disk t)) \<and>
    distinct (map fst disk') \<and>
    (\<forall>t. t \<notin> fst ` set items \<longrightarrow> files' (tile_path t) = files1 (tile_path t))"
  proof (rule Cons.IH [OF f(1)])
    show "fst ` set ?disk \<inter> fst ` set items = {}"
      using Cons.prems(3,4) t(1) by (auto simp: e set_update_distinct)
    show "on_disk codec files1 u (co_data ob')" if "(u, ob') \<in> set items" "unchanged old u ob'" for u ob'
    proof -
      have "u \<noteq> t" using that(1) t(1) by (metis fst_conv image_eqI)
      then show ?thesis using Cons.prems(5) [of u ob'] that f(3) by (simp add: e on_disk_def)
    qed
  qed (use Cons.prems(2,3) in \<open>simp_all add: e distinct_update\<close>)
  have "on_disk codec files' t (co_data ob)" using IH here t(1) by (simp add: on_disk_def)
  moreover have "map_of disk' u = (case map_of (e # items) u of Some ob \<Rightarrow> Some (co_meta ob) | None \<Rightarrow> map_of disk u)" for u
    using IH t(2) by (auto simp: e update_conv' split: option.split)
  moreover have "files' (tile_path u) = files (tile_path u)" if "u \<notin> fst ` set (e # items)" for u
    using that IH f(3) by (simp add: e)
  ultimately show ?case using IH by (auto simp: e)
qed simp

lemma write_to_disk_ok:
  assumes "write_to_disk codec opens data old files = (Inr (), files', disk)"
    "synced codec data old files" "distinct (map fst data)" "distinct (map fst old)"
  shows "\<And>t ob. map_of data t = Some ob \<Longrightarrow> on_disk codec files' t (co_data ob)"
    "map_of disk = (\<lambda>t. map_option co_meta (map_of data t))" "distinct (map fst disk)"
    "\<exists>v b. put_version codec = Some v \<and> put_metas codec disk = Some b \<and> files' meta_info_path = Some (v @ b)"
proof -
  obtain files1 disk1 where w: "write_items codec opens old data (remove_stale data old files, []) = (Inr (), files1, disk1)"
      "write_meta codec opens (files1, disk1) = (Inr (), files', disk)"
    using assms(1) by (auto simp: write_to_disk_def split: prod.splits sum.splits)
  obtain v b where m: "put_version codec = Some v" "put_metas codec disk1 = Some b" "disk = disk1"
      "files' = files1(meta_info_path \<mapsto> v @ b)"
    using w(2) by (auto simp: write_meta_def split: option.splits if_splits)
  have "on_disk codec (remove_stale data old files) t (co_data ob)" if "(t, ob) \<in> set data" "unchanged old t ob" for t ob
    using synced_remove_stale [OF assms(2,4)] that assms(3) by (simp add: synced_def)
  note ok = write_items_ok [OF w(1) assms(3) _ _ this]
  show "on_disk codec files' t (co_data ob)" if "map_of data t = Some ob" for t ob
    using ok map_of_SomeD [OF that] by (simp add: m(4) on_disk_def tile_path_not_meta)
  show "map_of disk = (\<lambda>t. map_option co_meta (map_of data t))" "distinct (map fst disk)"
    using ok by (auto simp: m(3) split: option.split)
  show "\<exists>v b. put_version codec = Some v \<and> put_metas codec disk = Some b \<and> files' meta_info_path = Some (v @ b)"
    using m by simp
qed

text \<open>After a successful write memory and disk agree again.\<close>

lemma synced_written:
  assumes "write_to_disk codec opens data old files = (Inr (), files', disk)"
    "synced codec data old files" "distinct (map fst data)" "distinct (map fst old)"
  shows "synced codec data disk files'"
  using write_to_disk_ok [OF assms] by (auto simp: synced_def)

lemma read_items_ok:
  assumes "codec_ok codec" "distinct (map fst es)" "fst ` set es \<inter> fst ` set data0 = {}" "distinct (map fst data0)"
    "\<And>t m. (t, m) \<in> set es \<Longrightarrow> \<exists>ob. map_of data t = Some ob \<and> tid (co_data ob) = t \<and> co_meta ob = m \<and>
       on_disk codec files t (co_data ob)"
  shows "\<exists>data'. read_items codec tid files es data0 = Inr data' \<and> distinct (map fst data') \<and>
    (\<forall>t. map_of data' t = (if t \<in> fst ` set es then map_of data t else map_of data0 t))"
  using assms(2-)
proof (induction es arbitrary: data0)
  case (Cons e es)
  obtain t m where e: "e = (t, m)" by force
  obtain ob where ob: "map_of data t = Some ob" "tid (co_data ob) = t" "co_meta ob = m" "on_disk codec files t (co_data ob)"
    using Cons.prems(4) [of t m] by (auto simp: e)
  have "read_tile codec files t = Inr (co_data ob)"
    using ob(4) assms(1) by (auto simp: on_disk_def read_tile_def read_all_def check_version_def codec_ok_def)
      (metis (no_types, lifting) append_Nil2 option.simps(5) prod.simps(2))
  moreover have "\<lparr>co_meta = m, co_data = co_data ob\<rparr> = ob" using ob(3) by (cases ob) simp
  ultimately have step: "read_items codec tid files (e # es) data0 = read_items codec tid files es (AList.update t ob data0)"
    by (simp add: e ob(2))
  have "\<exists>data'. read_items codec tid files es (AList.update t ob data0) = Inr data' \<and> distinct (map fst data') \<and>
    (\<forall>u. map_of data' u = (if u \<in> fst ` set es then map_of data u else map_of (AList.update t ob data0) u))"
    using Cons.prems by (intro Cons.IH) (auto simp: e distinct_update set_update_distinct)
  then obtain data' where "read_items codec tid files es (AList.update t ob data0) = Inr data'" "distinct (map fst data')"
    "\<forall>u. map_of data' u = (if u \<in> fst ` set es then map_of data u else map_of (AList.update t ob data0) u)"
    by blast
  then show ?case unfolding step using Cons.prems(1) ob(1)
    by (intro exI [of _ data']) (auto simp: e update_conv')
qed simp

lemma read_back:
  assumes "codec_ok codec" "cache_ok tid data"
    "write_to_disk codec opens data old files = (Inr (), files', disk)"
    "synced codec data old files" "distinct (map fst old)"
  shows "\<exists>data' disk'. read_from_disk codec tid files' = (Inr (), data', disk') \<and>
    map_of data' = map_of data \<and> map_of disk' = map_of disk"
proof -
  note ok = write_to_disk_ok [OF assms(3,4) cache_ok_distinct [OF assms(2)] assms(5)]
  obtain v b where m: "put_version codec = Some v" "put_metas codec disk = Some b"
      "files' meta_info_path = Some (v @ b)"
    using ok(4) by blast
  have "put_metas codec disk = Some b \<and> distinct (map fst disk)" using m(2) ok(3) by blast
  then obtain disk' where d: "get_metas codec (b @ []) = Some (disk', [])" "distinct (map fst disk')" "map_of disk' = map_of disk"
    using assms(1) unfolding codec_ok_def by blast
  have v: "get_version codec (v @ b) = Some (cd_version codec, b)" using assms(1) m(1) by (simp add: codec_ok_def)
  have item: "\<exists>ob. map_of data t = Some ob \<and> tid (co_data ob) = t \<and> co_meta ob = m \<and> on_disk codec files' t (co_data ob)"
    if t: "(t, m) \<in> set disk'" for t m
  proof -
    have "map_of disk t = Some m" using t d(2,3) by (metis map_of_is_SomeI)
    then obtain ob where "map_of data t = Some ob" "co_meta ob = m" using ok(2) by auto
    then show ?thesis using ok(1) cache_ok_tid [OF assms(2)] by blast
  qed
  have "\<exists>data'. read_items codec tid files' disk' [] = Inr data' \<and> distinct (map fst data') \<and>
      (\<forall>t. map_of data' t = (if t \<in> fst ` set disk' then map_of data t else map_of [] t))"
    by (rule read_items_ok [OF assms(1) d(2) _ _ item]) simp_all
  then obtain data' where data': "read_items codec tid files' disk' [] = Inr data'"
      "\<forall>t. map_of data' t = (if t \<in> fst ` set disk' then map_of data t else None)"
    by auto
  have "map_of data' t = map_of data t" for t
  proof (cases "t \<in> fst ` set disk'")
    case False
    then have "map_of disk t = None" using d(3) by (metis map_of_eq_None_iff)
    then show ?thesis using ok(2) data'(2) False by simp
  qed (simp add: data'(2))
  then show ?thesis
    using m(3) v d(1,3) data'(1) by (auto simp: read_from_disk_def read_all_def check_version_def)
qed

subsection \<open>After a failed write\<close>

text \<open>
  The item whose file could not be opened is already noted in \<open>m_disk_cached\<close>. The scheduler then
  removes all files, but not the notes: the next write takes the item for unchanged and skips it.
\<close>

lemma write_items_Cons:
  assumes "write_items codec opens old ((t, ob) # items) (files, disk) = (r, files', disk')"
  obtains (rest) files1 where "write_items codec opens old items (files1, AList.update t (co_meta ob) disk) = (r, files', disk')"
      "files1 = files \<or> \<not> unchanged old t ob \<and> (\<exists>b. files1 = files(tile_path t \<mapsto> b))"
    | (stop) e where "r = Inl e" "files' = files" "disk' = AList.update t (co_meta ob) disk"
      "e = Serialisation \<or> e = Could_not_write (tile_path t)"
proof (cases "unchanged old t ob")
  case True
  then show thesis using assms by (intro rest [of files]) simp_all
next
  case False
  show thesis
  proof (cases "\<exists>v b. put_version codec = Some v \<and> put_data codec (co_data ob) = Some b \<and> opens (tile_path t)")
    case True
    then obtain v b where "put_version codec = Some v" "put_data codec (co_data ob) = Some b" "opens (tile_path t)"
      by blast
    then show thesis
      using assms False by (intro rest [of "files(tile_path t \<mapsto> v @ b)"]) (auto simp: Let_def)
  next
    case no: False
    then show thesis using assms False stop by (auto simp: Let_def split: option.splits if_splits)
  qed
qed

lemma write_items_failure:
  "write_items codec opens old items (files, disk) = (Inl (Could_not_write p), files', disk') \<Longrightarrow>
   distinct (map fst disk) \<Longrightarrow>
   \<exists>t ob. (t, ob) \<in> set items \<and> p = tile_path t \<and> map_of disk' t = Some (co_meta ob)"
proof (induction items arbitrary: files disk)
  case (Cons e items)
  obtain t ob where e: "e = (t, ob)" by force
  have d: "distinct (map fst (AList.update t (co_meta ob) disk))" using Cons.prems(2) by (simp add: distinct_update)
  show ?case
  proof (rule write_items_Cons [OF Cons.prems(1) [unfolded e]])
    fix files1 assume "write_items codec opens old items (files1, AList.update t (co_meta ob) disk) = (Inl (Could_not_write p), files', disk')"
    then show ?thesis using Cons.IH d by (metis list.set_intros(2))
  next
    fix err :: cache_error assume "Inl (Could_not_write p) = (Inl err :: cache_error + unit)" "disk' = AList.update t (co_meta ob) disk"
      "err = Serialisation \<or> err = Could_not_write (tile_path t)"
    then show ?thesis by (intro exI [of _ t] exI [of _ ob]) (auto simp: e update_conv')
  qed
qed simp

lemma write_items_skips:
  "write_items codec opens old items (files, disk) = (r, files', disk') \<Longrightarrow>
   (\<And>ob. (t, ob) \<in> set items \<Longrightarrow> unchanged old t ob) \<Longrightarrow>
   files' (tile_path t) = files (tile_path t)"
proof (induction items arbitrary: files disk)
  case (Cons e items)
  obtain u ob where e: "e = (u, ob)" by force
  have u: "unchanged old t ob" if "u = t" using Cons.prems(2) that by (simp add: e)
  show ?case
  proof (rule write_items_Cons [OF Cons.prems(1) [unfolded e]])
    fix files1 assume w: "write_items codec opens old items (files1, AList.update u (co_meta ob) disk) = (r, files', disk')"
      and f: "files1 = files \<or> \<not> unchanged old u ob \<and> (\<exists>b. files1 = files(tile_path u \<mapsto> b))"
    have "files1 (tile_path t) = files (tile_path t)" using f u by (auto simp: tile_path_inj)
    then show ?thesis using Cons.IH [OF w] Cons.prems(2) by (simp add: e)
  qed simp
qed simp

lemma write_items_notes:
  "write_items codec opens old items (files, disk) = (Inr (), files', disk') \<Longrightarrow> distinct (map fst disk) \<Longrightarrow>
   distinct (map fst disk') \<and> fst ` set disk \<union> fst ` set items \<subseteq> fst ` set disk'"
proof (induction items arbitrary: files disk)
  case (Cons e items)
  obtain t ob where e: "e = (t, ob)" by force
  let ?disk = "AList.update t (co_meta ob) disk"
  have d: "distinct (map fst ?disk)" "fst ` set ?disk = insert t (fst ` set disk)"
    using Cons.prems(2) by (auto simp: distinct_update set_update_distinct)
  show ?case
  proof (rule write_items_Cons [OF Cons.prems(1) [unfolded e]])
    fix files1 assume "write_items codec opens old items (files1, ?disk) = (Inr (), files', disk')"
    from Cons.IH [OF this d(1)] show ?thesis using d(2) by (simp add: e)
  qed simp
qed simp

lemma read_items_missing:
  "t \<in> fst ` set es \<Longrightarrow> files (tile_path t) = None \<Longrightarrow> \<exists>e. read_items codec tid files es data = Inl e"
proof (induction es arbitrary: data)
  case (Cons a es)
  obtain u m where a: "a = (u, m)" by force
  show ?case
  proof (cases "u = t")
    case True
    then show ?thesis using Cons.prems by (simp add: a read_tile_def read_all_def)
  next
    case False
    then show ?thesis using Cons by (cases "read_tile codec files u") (auto simp: a)
  qed
qed simp

lemma failed_write_spoils:
  assumes "codec_ok codec" "distinct (map fst data)"
    "write_to_disk codec opens data old files = (Inl (Could_not_write p), files1, disk1)" "p \<noteq> meta_info_path"
    "write_to_disk codec opens' data disk1 Map.empty = (Inr (), files2, disk2)"
  shows "\<exists>e. read_from_disk codec tid files2 = (Inl e, [], [])"
proof -
  have "write_items codec opens old data (remove_stale data old files, []) = (Inl (Could_not_write p), files1, disk1)"
    using assms(3,4) by (auto simp: write_to_disk_def write_meta_def split: prod.splits sum.splits option.splits if_splits)
  then obtain t ob where t: "(t, ob) \<in> set data" "map_of disk1 t = Some (co_meta ob)"
    using write_items_failure by fastforce
  obtain files3 disk3 where w: "write_items codec opens' disk1 data (remove_stale data disk1 Map.empty, []) = (Inr (), files3, disk3)"
      "write_meta codec opens' (files3, disk3) = (Inr (), files2, disk2)"
    using assms(5) by (auto simp: write_to_disk_def split: prod.splits sum.splits)
  obtain v b where m: "put_version codec = Some v" "put_metas codec disk3 = Some b"
      "files2 = files3(meta_info_path \<mapsto> v @ b)"
    using w(2) by (auto simp: write_meta_def split: option.splits if_splits)
  have noted: "distinct (map fst disk3)" "t \<in> fst ` set disk3"
    using write_items_notes [OF w(1)] t(1) by (auto simp: rev_image_eqI)
  have "unchanged disk1 t ob'" if "(t, ob') \<in> set data" for ob'
    using that t assms(2) eq_key_imp_eq_value [OF assms(2)] by (fastforce simp: unchanged_def)
  then have "files3 (tile_path t) = remove_stale data disk1 Map.empty (tile_path t)"
    using write_items_skips [OF w(1)] by simp
  also have "\<dots> = None"
    unfolding remove_stale_def by (rule fold_invariant_on [of "\<lambda>f. f (tile_path t) = None"]) (auto split: prod.split)
  finally have "files2 (tile_path t) = None" by (simp add: m(3) tile_path_not_meta)
  moreover obtain disk4 where "get_metas codec (b @ []) = Some (disk4, [])" "distinct (map fst disk4)" "map_of disk4 = map_of disk3"
    using assms(1) m(2) noted(1) unfolding codec_ok_def by blast
  moreover have "t \<in> fst ` set disk4" using noted(2) calculation(4) by (metis dom_map_of_conv_image_fst)
  moreover have "get_version codec (v @ b) = Some (cd_version codec, b)" using assms(1) m(1) by (simp add: codec_ok_def)
  ultimately show ?thesis
    using read_items_missing [of t disk4 files2 codec tid "[]"]
    by (auto simp: read_from_disk_def read_all_def check_version_def m(3))
qed

end
