(* ===== verification/Tile_Scheduler.thy ===== *)
theory Tile_Scheduler
  imports Tile_Types Tile_Disk Float32
begin

text \<open>
  \<open>Scheduler\<close> (nucleus/tile/Scheduler.h and .cpp): the memory cache of quads, the record of what is
  on the GPU, three single shot timers, and the operations on them. Signals are the list of what
  was emitted; a timer is the interval it was started with, \<open>None\<close> when it is not active.

  Arguments: \<open>refine\<close>, the geometric part of \<open>refineFunctor\<close> (frustum and screen space error; the
  zoom limit in front of it is modelled); \<open>ready\<close>, the virtual \<open>is_ready_to_ship\<close>; \<open>expanded\<close>, the
  nodes on which \<open>onTheFlyTraverse\<close> of the radix library calls its second function; \<open>children\<close>,
  \<open>nth_el\<close>, the clock readings, and the codec and files of \<open>Tile_Disk\<close>.
\<close>

record settings =
  st_max_zoom_level :: u32
  st_gpu_quad_limit :: u32
  st_ram_quad_limit :: u32
  st_retirement_age :: u32
  st_update_timeout :: u32
  st_purge_timeout :: u32
  st_persist_timeout :: u32

record 'c scheduler =
  sc_name :: string
  sc_settings :: settings
  sc_enabled :: bool
  sc_network :: bool
  sc_update_timer :: "u32 option"
  sc_purge_timer :: "u32 option"
  sc_persist_timer :: "u32 option"
  sc_camera :: 'c
  sc_ram :: "data_quad cache_map"
  sc_disk :: disk_map
  sc_gpu :: "tile_id cache_map"

datatype signal =
    Stats_Ready "(string \<times> u32) list"
  | Quad_Received tile_id
  | Quads_Requested "tile_id list"
  | Gpu_Update "data_quad list" "tile_id list"

datatype reachability = Online | Local | Site | Unknown | Disconnected

definition make_scheduler :: "settings \<Rightarrow> 'c \<Rightarrow> 'c scheduler" where
  "make_scheduler settings camera =
     \<lparr>sc_name = ''unnamed'', sc_settings = settings, sc_enabled = False, sc_network = True, sc_update_timer = None,
      sc_purge_timer = None, sc_persist_timer = None, sc_camera = camera, sc_ram = [], sc_disk = [], sc_gpu = []\<rparr>"

definition int_max :: u32 where
  "int_max = 2147483647"

definition schedule_update :: "'c scheduler \<Rightarrow> 'c scheduler checked" where
  "schedule_update s =
     require (st_update_timeout (sc_settings s) < int_max) ''m.update_timeout < unsigned(std::numeric_limits<int>::max())''
     (Inr (if sc_enabled s \<and> sc_update_timer s = None
       then s\<lparr>sc_update_timer := Some (st_update_timeout (sc_settings s))\<rparr> else s))"

definition schedule_purge :: "'c scheduler \<Rightarrow> 'c scheduler checked" where
  "schedule_purge s =
     require (st_purge_timeout (sc_settings s) < int_max) ''m.purge_timeout < unsigned(std::numeric_limits<int>::max())''
     (Inr (if sc_enabled s \<and> sc_purge_timer s = None
       then s\<lparr>sc_purge_timer := Some (st_purge_timeout (sc_settings s))\<rparr> else s))"

definition schedule_persist :: "'c scheduler \<Rightarrow> 'c scheduler checked" where
  "schedule_persist s =
     require (st_persist_timeout (sc_settings s) < int_max) ''m.persist_timeout < unsigned(std::numeric_limits<int>::max())''
     (Inr (if sc_persist_timer s = None
       then s\<lparr>sc_persist_timer := Some (st_persist_timeout (sc_settings s))\<rparr> else s))"

definition update_camera :: "'c \<Rightarrow> 'c scheduler \<Rightarrow> 'c scheduler checked" where
  "update_camera camera s = schedule_update (s\<lparr>sc_camera := camera\<rparr>)"

definition set_enabled :: "bool \<Rightarrow> 'c scheduler \<Rightarrow> 'c scheduler checked" where
  "set_enabled b s = schedule_update (s\<lparr>sc_enabled := b\<rparr>)"

definition set_network_reachability :: "reachability \<Rightarrow> 'c scheduler \<Rightarrow> 'c scheduler checked" where
  "set_network_reachability r s =
     (if r = Disconnected then Inr (s\<lparr>sc_network := False\<rparr>)
      else schedule_update (s\<lparr>sc_network := True\<rparr>))"

text \<open>\<open>receive_quad\<close>, not compiled for the web: a quad is kept unless the network failed.\<close>

definition receive_quad :: "u64 \<Rightarrow> data_quad \<Rightarrow> 'c scheduler \<Rightarrow> ('c scheduler \<times> signal list) checked" where
  "receive_quad now q s =
     (case ni_status (quad_info q) of
        Network_Error \<Rightarrow> Inr (s, [])
      | _ \<Rightarrow>
        (let s1 = s\<lparr>sc_ram := insert_object dq_id now q (sc_ram s)\<rparr>
         in and_then (schedule_purge s1) (\<lambda>s2. and_then (schedule_update s2) (\<lambda>s3.
            and_then (schedule_persist s3) (\<lambda>s4.
              Inr (s4, [Stats_Ready [(''n_quads_ram'', n_cached_objects (sc_ram s1))], Quad_Received (dq_id q)]))))))"

definition should_refine :: "('c \<Rightarrow> tile_id \<Rightarrow> bool) \<Rightarrow> 'c scheduler \<Rightarrow> tile_id \<Rightarrow> bool" where
  "should_refine refine s t \<longleftrightarrow>
     \<not> st_max_zoom_level (sc_settings s) \<le> zoom_level t \<and> refine (sc_camera s) t"

text \<open>The visitor of the memory cache in \<open>update_gpu_quads\<close>: it collects what is not on the GPU yet.\<close>

definition gpu_visitor :: "(tile_id \<Rightarrow> bool) \<Rightarrow> (data_quad \<Rightarrow> bool) \<Rightarrow> tile_id cache_map \<Rightarrow>
    data_quad \<Rightarrow> data_quad list \<Rightarrow> bool \<times> data_quad list" where
  "gpu_visitor wanted ready gpu q candidates =
     (if \<not> wanted (dq_id q) then (False, candidates)
      else if \<not> ready q then (False, candidates)
      else if 8 < zoom_level (dq_id q) \<and> ni_status (quad_info q) \<noteq> Good then (False, candidates)
      else if contains gpu (dq_id q) then (True, candidates)
      else (True, candidates @ [q]))"

text \<open>
  Quads that were added and purged at once appear in neither list. The set of superfluous ids is
  the list of the purged ones, in which the set's order of iteration is left open.
\<close>

fun cancel :: "data_quad list \<Rightarrow> tile_id list \<Rightarrow> data_quad list \<times> tile_id list" where
  "cancel [] ids = ([], ids)"
| "cancel (q # qs) ids =
     (if dq_id q \<in> set ids then cancel qs (filter (\<lambda>t. t \<noteq> dq_id q) ids)
      else (let (qs', ids') = cancel qs ids in (q # qs', ids')))"

text \<open>
  The clock is read by each \<open>visit\<close> and by each \<open>insert\<close>. \<open>None\<close>: a visit went deeper than the levels
  of packable tiles.
\<close>

record clock =
  at_ram_visit :: u64
  at_gpu_visit :: u64
  at_insert :: "tile_id \<Rightarrow> u64"

definition update_gpu_quads :: "(tile_id \<Rightarrow> tile_id list) \<Rightarrow> nth_element \<Rightarrow> ('c \<Rightarrow> tile_id \<Rightarrow> bool) \<Rightarrow>
    (data_quad \<Rightarrow> bool) \<Rightarrow> clock \<Rightarrow> 'c scheduler \<Rightarrow> ('c scheduler \<times> signal list) checked option" where
  "update_gpu_quads children nth_el refine ready clock s =
     (let wanted = should_refine refine s
      in case visit children dq_id (gpu_visitor wanted ready (sc_gpu s)) (at_ram_visit clock) (sc_ram s) [] of
        None \<Rightarrow> None
      | Some (ram, candidates) \<Rightarrow>
        (let gpu1 = fold (\<lambda>q. insert_object (\<lambda>t. t) (at_insert clock (dq_id q)) (dq_id q)) candidates (sc_gpu s)
         in case visit children (\<lambda>t. t) (\<lambda>t u. (wanted t, u)) (at_gpu_visit clock) gpu1 () of
           None \<Rightarrow> None
         | Some (gpu2, _) \<Rightarrow>
           (let (superfluous_quads, gpu3) = purge nth_el (st_gpu_quad_limit (sc_settings s)) gpu2;
                (new_quads, deleted_quads) = cancel candidates superfluous_quads
            in Some (require (n_cached_objects gpu3 \<le> st_gpu_quad_limit (sc_settings s))
                 ''m_gpu_cached.n_cached_objects() <= m.gpu_quad_limit''
                 (Inr (s\<lparr>sc_ram := ram, sc_gpu := gpu3\<rparr>, [Gpu_Update new_quads deleted_quads]))))))"

definition fresh :: "u64 \<Rightarrow> 'c scheduler \<Rightarrow> tile_id \<Rightarrow> bool" where
  "fresh now s t =
     (case peak_at (sc_ram s) t of
        None \<Rightarrow> False
      | Some q \<Rightarrow> now < ni_timestamp (quad_info q) + ucast (st_retirement_age (sc_settings s)))"

definition missing_quads :: "((tile_id \<Rightarrow> bool) \<Rightarrow> tile_id list) \<Rightarrow> ('c \<Rightarrow> tile_id \<Rightarrow> bool) \<Rightarrow> u64 \<Rightarrow> 'c scheduler \<Rightarrow> tile_id list" where
  "missing_quads expanded refine now s = filter (\<lambda>t. \<not> fresh now s t) (expanded (should_refine refine s))"

definition send_quad_requests :: "((tile_id \<Rightarrow> bool) \<Rightarrow> tile_id list) \<Rightarrow> ('c \<Rightarrow> tile_id \<Rightarrow> bool) \<Rightarrow> u64 \<Rightarrow> 'c scheduler \<Rightarrow> signal list" where
  "send_quad_requests expanded refine now s =
     (if \<not> sc_network s then []
      else let quads = missing_quads expanded refine now s
           in [Stats_Ready [(''n_quads_ram'', n_cached_objects (sc_ram s)),
                (''n_quads_ram_max'', st_ram_quad_limit (sc_settings s)), (''n_quads_requested'', of_nat (length quads))],
               Quads_Requested quads])"

text \<open>\<open>unsigned(float(m.ram_quad_limit) * 1.05f)\<close>\<close>

definition purge_threshold :: "u32 \<Rightarrow> u32" where
  "purge_threshold limit = f32_to_u32 (round32 (round32 (of_int (uint limit)) * round32 (105 / 100)))"

definition purge_ram_cache :: "(tile_id \<Rightarrow> tile_id list) \<Rightarrow> nth_element \<Rightarrow> ('c \<Rightarrow> tile_id \<Rightarrow> bool) \<Rightarrow> u64 \<Rightarrow>
    'c scheduler \<Rightarrow> ('c scheduler \<times> signal list) option" where
  "purge_ram_cache children nth_el refine now s =
     (if n_cached_objects (sc_ram s) \<le> purge_threshold (st_ram_quad_limit (sc_settings s)) then Some (s, [])
      else case visit children dq_id (\<lambda>q u. (should_refine refine s (dq_id q), u)) now (sc_ram s) () of
        None \<Rightarrow> None
      | Some (ram, _) \<Rightarrow>
        (let ram' = snd (purge nth_el (st_ram_quad_limit (sc_settings s)) ram)
         in Some (s\<lparr>sc_ram := ram'\<rparr>, [Stats_Ready [(''n_quads_ram'', n_cached_objects ram'),
              (''n_quads_ram_max'', st_ram_quad_limit (sc_settings s))]])))"

text \<open>\<open>persist_tiles\<close>: on an error all files of the cache are removed. The files are those of its directory.\<close>

definition named :: "'c scheduler \<Rightarrow> bool" where
  "named s \<longleftrightarrow> \<not> (sc_name s = ''unnamed'' \<or> sc_name s = [])"

definition persist_tiles :: "data_quad codec \<Rightarrow> (string \<Rightarrow> bool) \<Rightarrow> 'c scheduler \<times> files \<Rightarrow> bool \<times> 'c scheduler \<times> files" where
  "persist_tiles codec opens sf =
     (case sf of (s, files) \<Rightarrow>
       if \<not> named s then (False, s, files)
       else case write_to_disk codec opens (sc_ram s) (sc_disk s) files of
         (Inl _, _, disk) \<Rightarrow> (False, s\<lparr>sc_disk := disk\<rparr>, Map.empty)
       | (Inr _, files', disk) \<Rightarrow> (True, s\<lparr>sc_disk := disk\<rparr>, files'))"

definition read_disk_cache :: "data_quad codec \<Rightarrow> 'c scheduler \<times> files \<Rightarrow> bool \<times> 'c scheduler \<times> files" where
  "read_disk_cache codec sf =
     (case sf of (s, files) \<Rightarrow>
       if \<not> named s then (False, s, files)
       else case read_from_disk codec dq_id files of
         (Inl _, ram, disk) \<Rightarrow> (False, s\<lparr>sc_ram := ram, sc_disk := disk\<rparr>, Map.empty)
       | (Inr _, ram, disk) \<Rightarrow> (True, s\<lparr>sc_ram := ram, sc_disk := disk\<rparr>, files))"

definition set_gpu_quad_limit :: "u32 \<Rightarrow> 'c scheduler \<Rightarrow> 'c scheduler" where
  "set_gpu_quad_limit n s = s\<lparr>sc_settings := (sc_settings s)\<lparr>st_gpu_quad_limit := n\<rparr>\<rparr>"

definition set_ram_quad_limit :: "u32 \<Rightarrow> 'c scheduler \<Rightarrow> 'c scheduler" where
  "set_ram_quad_limit n s = s\<lparr>sc_settings := (sc_settings s)\<lparr>st_ram_quad_limit := n\<rparr>\<rparr>"

definition clear_full_cache :: "(tile_id \<Rightarrow> tile_id list) \<Rightarrow> nth_element \<Rightarrow> ('c \<Rightarrow> tile_id \<Rightarrow> bool) \<Rightarrow>
    (data_quad \<Rightarrow> bool) \<Rightarrow> clock \<Rightarrow> u64 \<Rightarrow> data_quad codec \<Rightarrow> (string \<Rightarrow> bool) \<Rightarrow> 'c scheduler \<times> files \<Rightarrow>
    (('c scheduler \<times> files) \<times> signal list) checked option" where
  "clear_full_cache children nth_el refine ready clock now codec opens sf =
     (let old = sc_settings (fst sf);
          s1 = set_ram_quad_limit 0 (set_gpu_quad_limit 0 (fst sf))
      in case update_gpu_quads children nth_el refine ready clock s1 of
        None \<Rightarrow> None
      | Some (Inl e) \<Rightarrow> Some (Inl e)
      | Some (Inr (s2, sigs)) \<Rightarrow>
        (case purge_ram_cache children nth_el refine now s2 of
           None \<Rightarrow> None
         | Some (s3, sigs') \<Rightarrow>
           (let (_, s4, files) = persist_tiles codec opens (s3, snd sf)
            in Some (Inr ((set_ram_quad_limit (st_ram_quad_limit old) (set_gpu_quad_limit (st_gpu_quad_limit old) s4), files),
                 sigs @ sigs')))))"

text \<open>The setters that restart a running timer.\<close>

definition set_update_timeout :: "u32 \<Rightarrow> 'c scheduler \<Rightarrow> 'c scheduler checked" where
  "set_update_timeout n s =
     require (st_update_timeout (sc_settings s) < int_max) ''m.update_timeout < unsigned(std::numeric_limits<int>::max())''
     (Inr (s\<lparr>sc_settings := (sc_settings s)\<lparr>st_update_timeout := n\<rparr>,
        sc_update_timer := map_option (\<lambda>_. n) (sc_update_timer s)\<rparr>))"

definition set_purge_timeout :: "u32 \<Rightarrow> 'c scheduler \<Rightarrow> 'c scheduler checked" where
  "set_purge_timeout n s =
     require (n < int_max) ''new_purge_timeout < unsigned(std::numeric_limits<int>::max())''
     (Inr (s\<lparr>sc_settings := (sc_settings s)\<lparr>st_purge_timeout := n\<rparr>,
        sc_purge_timer := map_option (\<lambda>_. st_update_timeout (sc_settings s)) (sc_purge_timer s)\<rparr>))"

definition set_persist_timeout :: "u32 \<Rightarrow> 'c scheduler \<Rightarrow> 'c scheduler checked" where
  "set_persist_timeout n s =
     require (n < int_max) ''new_persist_timeout < unsigned(std::numeric_limits<int>::max())''
     (Inr (s\<lparr>sc_settings := (sc_settings s)\<lparr>st_persist_timeout := n\<rparr>,
        sc_persist_timer := map_option (\<lambda>_. n) (sc_persist_timer s)\<rparr>))"

definition set_retirement_age :: "u32 \<Rightarrow> 'c scheduler \<Rightarrow> 'c scheduler" where
  "set_retirement_age n s = s\<lparr>sc_settings := (sc_settings s)\<lparr>st_retirement_age := n\<rparr>\<rparr>"

subsection \<open>The caches stay well formed\<close>

definition scheduler_ok :: "'c scheduler \<Rightarrow> bool" where
  "scheduler_ok s \<longleftrightarrow> cache_ok dq_id (sc_ram s) \<and> cache_ok (\<lambda>t. t) (sc_gpu s) \<and> shallow (sc_ram s) \<and> shallow (sc_gpu s)"

definition on_gpu :: "'c scheduler \<Rightarrow> tile_id set" where
  "on_gpu s = fst ` set (sc_gpu s)"

lemma make_scheduler_ok: "scheduler_ok (make_scheduler st c)" "on_gpu (make_scheduler st c) = {}"
  by (simp_all add: scheduler_ok_def make_scheduler_def shallow_def on_gpu_def)

lemma keys_insert: "distinct (map fst m) \<Longrightarrow> fst ` set (insert_object tid now x m) = insert (tid x) (fst ` set m)"
  by (auto simp: insert_object_def set_update_distinct)

lemma map_of_insert_other: "t \<noteq> tid x \<Longrightarrow> map_of (insert_object tid now x m) t = map_of m t"
  by (simp add: insert_object_def update_conv')

lemma shallow_insert:
  "shallow m \<Longrightarrow> distinct (map fst m) \<Longrightarrow> valid_tile (tid x) \<Longrightarrow> zoom_level (tid x) < 29 \<Longrightarrow> shallow (insert_object tid now x m)"
  by (simp add: shallow_def keys_insert)

lemma schedule_frame:
  "schedule_update s = Inr s' \<Longrightarrow> sc_ram s' = sc_ram s \<and> sc_gpu s' = sc_gpu s \<and> sc_settings s' = sc_settings s \<and> sc_disk s' = sc_disk s"
  "schedule_purge s = Inr s' \<Longrightarrow> sc_ram s' = sc_ram s \<and> sc_gpu s' = sc_gpu s \<and> sc_settings s' = sc_settings s \<and> sc_disk s' = sc_disk s"
  "schedule_persist s = Inr s' \<Longrightarrow> sc_ram s' = sc_ram s \<and> sc_gpu s' = sc_gpu s \<and> sc_settings s' = sc_settings s \<and> sc_disk s' = sc_disk s"
  by (auto simp: schedule_update_def schedule_purge_def schedule_persist_def split: if_splits)

text \<open>What \<open>receive_quad\<close> keeps: everything but a quad with a network error.\<close>

lemma receive_quad_effect:
  assumes "receive_quad now q s = Inr (s', sigs)"
  shows "sc_ram s' = (if ni_status (quad_info q) = Network_Error then sc_ram s else insert_object dq_id now q (sc_ram s))"
    "sc_gpu s' = sc_gpu s" "sc_settings s' = sc_settings s"
  using assms by (auto simp: receive_quad_def Let_def dest!: schedule_frame split: network_status.splits)

lemma receive_quad_ok:
  assumes "receive_quad now q s = Inr (s', sigs)" "scheduler_ok s" "valid_tile (dq_id q)" "zoom_level (dq_id q) < 29"
  shows "scheduler_ok s'" "on_gpu s' = on_gpu s"
  using assms(2-4) insert_object_ok shallow_insert [OF _ cache_ok_distinct]
  by (auto simp: scheduler_ok_def on_gpu_def receive_quad_effect [OF assms(1)])

subsection \<open>What goes to the GPU\<close>

definition shippable :: "(tile_id \<Rightarrow> bool) \<Rightarrow> (data_quad \<Rightarrow> bool) \<Rightarrow> data_quad \<Rightarrow> bool" where
  "shippable wanted ready q \<longleftrightarrow> wanted (dq_id q) \<and> ready q \<and> (zoom_level (dq_id q) \<le> 8 \<or> ni_status (quad_info q) = Good)"

lemma gpu_visitor_shippable:
  "gpu_visitor wanted ready gpu = (\<lambda>q c. (shippable wanted ready q,
     if shippable wanted ready q then (if contains gpu (dq_id q) then c else c @ [q]) else c))"
  by (intro ext) (auto simp: gpu_visitor_def shippable_def not_less)

lemma fold_collect: "fold (\<lambda>x c. if P x then c else c @ [x]) xs c = c @ filter (\<lambda>x. \<not> P x) xs"
  by (induction xs arbitrary: c) auto

lemma cancel_filter:
  "distinct (map dq_id qs) \<Longrightarrow>
   cancel qs ids = (filter (\<lambda>q. dq_id q \<notin> set ids) qs, filter (\<lambda>t. t \<notin> dq_id ` set qs) ids)"
proof (induction qs arbitrary: ids)
  case (Cons q qs)
  have "filter (\<lambda>r. dq_id r \<notin> set (filter (\<lambda>t. t \<noteq> dq_id q) ids)) qs = filter (\<lambda>r. dq_id r \<notin> set ids) qs"
    using Cons.prems by (intro filter_cong) (auto simp: rev_image_eqI)
  moreover have "filter (\<lambda>t. t \<notin> dq_id ` set (q # qs)) ids = filter (\<lambda>t. t \<notin> dq_id ` set qs) ids" if "dq_id q \<notin> set ids"
    using that by (intro filter_cong) auto
  ultimately show ?case using Cons by (auto simp: conj_commute)
qed simp

lemma insert_all:
  "cache_ok (\<lambda>t. t) gpu \<Longrightarrow> shallow gpu \<Longrightarrow> \<forall>q \<in> set qs. valid_tile (dq_id q) \<and> zoom_level (dq_id q) < 29 \<Longrightarrow>
   gpu1 = fold (\<lambda>q. insert_object (\<lambda>t. t) (now (dq_id q)) (dq_id q)) qs gpu \<Longrightarrow>
   cache_ok (\<lambda>t. t) gpu1 \<and> shallow gpu1 \<and> fst ` set gpu1 = fst ` set gpu \<union> dq_id ` set qs \<and>
   (\<forall>t. t \<notin> dq_id ` set qs \<longrightarrow> map_of gpu1 t = map_of gpu t)"
proof (induction qs arbitrary: gpu)
  case (Cons q qs)
  let ?gpu = "insert_object (\<lambda>t. t) (now (dq_id q)) (dq_id q) gpu"
  have "cache_ok (\<lambda>t. t) ?gpu" "shallow ?gpu"
    using Cons.prems insert_object_ok [of "\<lambda>t. t"] shallow_insert [OF _ cache_ok_distinct] by auto
  then show ?case using Cons.IH [of ?gpu] Cons.prems
    by (auto simp: keys_insert [OF cache_ok_distinct] map_of_insert_other)
qed simp

text \<open>The candidates: the shippable quads the visit meets that are not on the GPU.\<close>

definition candidates_of :: "(tile_id \<Rightarrow> tile_id list) \<Rightarrow> (data_quad \<Rightarrow> bool) \<Rightarrow> 'c scheduler \<Rightarrow> data_quad list" where
  "candidates_of children p s =
     filter (\<lambda>q. \<not> contains (sc_gpu s) (dq_id q)) (List.map_filter (peak_at (sc_ram s)) (accepted children p (sc_ram s)))"

lemma candidates_met:
  "q \<in> set (candidates_of children p s) \<Longrightarrow> cache_ok dq_id (sc_ram s) \<Longrightarrow> dq_id q \<in> set (accepted children p (sc_ram s))"
  by (auto simp: candidates_of_def map_filter_def peak_at_def cache_ok_tid)

lemma met_candidates:
  assumes "t \<in> set (accepted children p (sc_ram s))" "cache_ok dq_id (sc_ram s)" "t \<notin> on_gpu s"
  shows "t \<in> dq_id ` set (candidates_of children p s)"
proof -
  obtain q where q: "peak_at (sc_ram s) t = Some q" using accepted_cached [OF assms(1)] by blast
  then have "dq_id q = t" using assms(2) by (auto simp: peak_at_def cache_ok_tid)
  moreover have "q \<in> set (List.map_filter (peak_at (sc_ram s)) (accepted children p (sc_ram s)))"
    using assms(1) q by (force simp: map_filter_def)
  ultimately show ?thesis using assms(3) by (force simp: candidates_of_def contains_iff on_gpu_def)
qed

lemma peak_at_tid: "cache_ok tid m \<Longrightarrow> peak_at m t = Some x \<Longrightarrow> tid x = t"
  by (auto simp: peak_at_def cache_ok_tid)

lemma map_filter_peak:
  assumes "cache_ok tid m" "\<forall>t \<in> set ts. contains m t"
  shows "map tid (List.map_filter (peak_at m) ts) = ts"
  using assms(2)
proof (induction ts)
  case (Cons t ts)
  then obtain x where "peak_at m t = Some x" by (auto simp: contains_def peak_at_def)
  then show ?case using Cons peak_at_tid [OF assms(1)] by (simp add: map_filter_def)
qed (simp add: map_filter_def)

lemma peak_at_contains: "peak_at m t = Some x \<Longrightarrow> contains m t"
  by (auto simp: peak_at_def contains_def)

lemma candidates_facts:
  assumes "scheduler_ok s" "quad_tree parent children"
  shows "distinct (map dq_id (candidates_of children p s))"
    "q \<in> set (candidates_of children p s) \<Longrightarrow> peak_at (sc_ram s) (dq_id q) = Some q \<and> p q \<and> dq_id q \<notin> on_gpu s"
    "q \<in> set (candidates_of children p s) \<Longrightarrow> valid_tile (dq_id q) \<and> zoom_level (dq_id q) < 29"
proof -
  let ?W = "accepted children p (sc_ram s)"
  have ok: "cache_ok dq_id (sc_ram s)" "shallow (sc_ram s)" using assms(1) by (simp_all add: scheduler_ok_def)
  have cached: "\<exists>x. peak_at (sc_ram s) t = Some x \<and> p x" if "t \<in> set ?W" for t using accepted_cached that .
  have ids: "map dq_id (List.map_filter (peak_at (sc_ram s)) ?W) = ?W"
    using cached by (intro map_filter_peak [OF ok(1)]) (auto dest: peak_at_contains)
  show "distinct (map dq_id (candidates_of children p s))"
    unfolding candidates_of_def
    using distinct_accepted [OF assms(2) ok(2), of p] by (intro distinct_map_filter) (simp add: ids)
  show q: "peak_at (sc_ram s) (dq_id q) = Some q \<and> p q \<and> dq_id q \<notin> on_gpu s"
    if q: "q \<in> set (candidates_of children p s)" for q
  proof -
    obtain t where t: "t \<in> set ?W" "peak_at (sc_ram s) t = Some q" "\<not> contains (sc_gpu s) (dq_id q)"
      using q by (auto simp: candidates_of_def map_filter_def)
    then show ?thesis using cached [OF t(1)] peak_at_tid [OF ok(1) t(2)] by (auto simp: on_gpu_def contains_iff)
  qed
  show "valid_tile (dq_id q) \<and> zoom_level (dq_id q) < 29" if "q \<in> set (candidates_of children p s)"
  proof -
    have "dq_id q \<in> fst ` set (sc_ram s)"
      using q [OF that] peak_at_contains [of "sc_ram s" "dq_id q" q] by (simp only: contains_iff)
    then show ?thesis using ok(2) [unfolded shallow_def] by blast
  qed
qed

text \<open>
  One update: what it emits is exactly the change of the record of the GPU. Nothing is sent that is
  there already, nothing is deleted that is not there, and the limit holds.
\<close>

definition gpu_change :: "'c scheduler \<Rightarrow> 'c scheduler \<Rightarrow> data_quad list \<Rightarrow> tile_id list \<Rightarrow> bool" where
  "gpu_change s s' new_quads deleted \<longleftrightarrow>
     distinct deleted \<and> set deleted \<subseteq> on_gpu s \<and>
     distinct (map dq_id new_quads) \<and> dq_id ` set new_quads \<inter> on_gpu s = {} \<and>
     on_gpu s' = (on_gpu s - set deleted) \<union> dq_id ` set new_quads"

lemma update_gpu_quads_run:
  fixes refine :: "'c \<Rightarrow> tile_id \<Rightarrow> bool" and ready :: "data_quad \<Rightarrow> bool" and s :: "'c scheduler"
    and children :: "tile_id \<Rightarrow> tile_id list"
  defines "p \<equiv> shippable (should_refine refine s) ready"
  defines "C \<equiv> candidates_of children p s"
  assumes ok: "scheduler_ok s" and tree: "quad_tree parent children" and nth: "nth_element_spec nth_el"
  shows "\<exists>gpu1 s' new_quads deleted.
     update_gpu_quads children nth_el refine ready clock s = Some (Inr (s', [Gpu_Update new_quads deleted])) \<and>
     scheduler_ok s' \<and> gpu_change s s' new_quads deleted \<and> set new_quads \<subseteq> set C \<and>
     card (on_gpu s') \<le> unat (st_gpu_quad_limit (sc_settings s)) \<and>
     sc_settings s' = sc_settings s \<and> peak_at (sc_ram s') = peak_at (sc_ram s) \<and>
     fst ` set gpu1 = on_gpu s \<union> dq_id ` set C \<and> cache_ok (\<lambda>t. t) gpu1 \<and> shallow gpu1 \<and>
     (\<forall>t. t \<notin> dq_id ` set C \<longrightarrow> map_of gpu1 t = map_of (sc_gpu s) t) \<and>
     sc_gpu s' = snd (purge nth_el (st_gpu_quad_limit (sc_settings s))
       (restamp (at_gpu_visit clock) (\<lambda>t. t) (accepted children (should_refine refine s) gpu1) gpu1))"
proof -
  let ?wanted = "should_refine refine s" and ?limit = "st_gpu_quad_limit (sc_settings s)"
  have ram: "cache_ok dq_id (sc_ram s)" "shallow (sc_ram s)" and gpu: "cache_ok (\<lambda>t. t) (sc_gpu s)" "shallow (sc_gpu s)"
    using ok by (simp_all add: scheduler_ok_def)
  let ?ram = "restamp (at_ram_visit clock) dq_id (accepted children p (sc_ram s)) (sc_ram s)"
  have v1: "visit children dq_id (gpu_visitor ?wanted ready (sc_gpu s)) (at_ram_visit clock) (sc_ram s) [] = Some (?ram, C)"
    unfolding gpu_visitor_shippable visit_accepted [OF tree ram(2)] p_def C_def candidates_of_def
    by (simp add: fold_collect)
  note C = candidates_facts [OF ok tree, where p = p, folded C_def]
  define gpu1 where "gpu1 = fold (\<lambda>q. insert_object (\<lambda>t. t) (at_insert clock (dq_id q)) (dq_id q)) C (sc_gpu s)"
  have g1: "cache_ok (\<lambda>t. t) gpu1" "shallow gpu1" "fst ` set gpu1 = on_gpu s \<union> dq_id ` set C"
    "\<forall>t. t \<notin> dq_id ` set C \<longrightarrow> map_of gpu1 t = map_of (sc_gpu s) t"
    using insert_all [OF gpu _ gpu1_def] C(3) by (simp_all add: on_gpu_def)
  define gpu2 where "gpu2 = restamp (at_gpu_visit clock) (\<lambda>t. t) (accepted children ?wanted gpu1) gpu1"
  have v2: "visit children (\<lambda>t. t) (\<lambda>t u. (?wanted t, u)) (at_gpu_visit clock) gpu1 () = Some (gpu2, ())"
    using visit_accepted [OF tree g1(2), where tid = "\<lambda>t. t" and p = ?wanted and g = "\<lambda>_ u. u" and s = "()"]
    by (simp add: gpu2_def)
  have g2: "cache_ok (\<lambda>t. t) gpu2" "map fst gpu2 = map fst gpu1"
    using g1(1) by (simp_all add: gpu2_def restamp_ok)
  then have keys2: "fst ` set gpu2 = on_gpu s \<union> dq_id ` set C" using g1(3) by (metis set_map)
  let ?gone = "gone nth_el ?limit gpu2"
  note gone = gone_facts [OF nth g2(1), where n = ?limit]
  have sup: "List.map_filter (peak_at gpu2) ?gone = ?gone"
    using map_filter_peak [OF g2(1), of ?gone] gone(2) by (auto simp: contains_iff)
  let ?gpu3 = "filter (\<lambda>e. fst e \<notin> set ?gone) gpu2"
  have purge: "purge nth_el ?limit gpu2 = (?gone, ?gpu3)" by (simp add: purge_gone sup)
  let ?new = "filter (\<lambda>q. dq_id q \<notin> set ?gone) C" and ?del = "filter (\<lambda>t. t \<notin> dq_id ` set C) ?gone"
  let ?s' = "s\<lparr>sc_ram := ?ram, sc_gpu := ?gpu3\<rparr>"
  have "fst ` set ?gpu3 = fst ` set gpu2 - set ?gone" by auto
  then have keys3: "fst ` set ?gpu3 = (on_gpu s \<union> dq_id ` set C) - set ?gone" by (simp only: keys2)
  have d3: "distinct (map fst ?gpu3)" using cache_ok_distinct [OF g2(1)] by (rule distinct_map_filter)
  have "fst ` set gpu2 - set ?gone = fst ` set ?gpu3" by auto
  then have "card (fst ` set ?gpu3) = card (fst ` set gpu2) - card (set ?gone)"
    using card_Diff_subset [OF finite_set gone(2)] by simp
  then have "length ?gpu3 = length gpu2 - length ?gone"
    using distinct_card [OF cache_ok_distinct [OF g2(1)]] distinct_card [OF d3] distinct_card [OF gone(1)]
    unfolding set_map length_map by simp
  then have len3: "length ?gpu3 \<le> unat ?limit" using gone(3) by linarith
  have n3: "n_cached_objects ?gpu3 \<le> ?limit"
    using len3 by (simp add: n_cached_objects_def word_le_nat_alt unat_of_nat le_trans [OF mod_less_eq_dividend])
  have run: "update_gpu_quads children nth_el refine ready clock s = Some (Inr (?s', [Gpu_Update ?new ?del]))"
    using n3 by (simp add: update_gpu_quads_def Let_def v1 gpu1_def [symmetric] v2 purge cancel_filter [OF C(1)])
  have sok: "scheduler_ok ?s'"
    using g1 ram keys3 gone d3 g2 restamp_ok [OF ram(1)] keys_restamp
    unfolding scheduler_ok_def shallow_def cache_ok_def by (auto simp: set_map [symmetric] simp del: set_map)
  have change: "gpu_change s ?s' ?new ?del"
  proof -
    have new: "dq_id ` set ?new = dq_id ` set C - set ?gone" and del: "set ?del = set ?gone - dq_id ` set C" by auto
    have G: "on_gpu ?s' = (on_gpu s \<union> dq_id ` set C) - set ?gone" 
      using keys3 unfolding on_gpu_def by simp
    have I: "dq_id ` set C \<inter> on_gpu s = {}" using C(2) by blast
    have X: "set ?gone \<subseteq> on_gpu s \<union> dq_id ` set C" using gone(2) by (simp only: keys2)
    have "distinct (map dq_id ?new)" using C(1) by (rule distinct_map_filter)
    then show ?thesis unfolding gpu_change_def new del G using gone(1) I X by (simp only: distinct_filter) blast
  qed
  have few: "card (on_gpu ?s') \<le> unat ?limit"
    using len3 card_length [of "map fst ?gpu3"] by (simp add: on_gpu_def)
  have sg: "sc_gpu ?s' = snd (purge nth_el ?limit
      (restamp (at_gpu_visit clock) (\<lambda>t. t) (accepted children ?wanted gpu1) gpu1))"
    by (simp only: purge snd_conv flip: gpu2_def) simp
  have others: "set ?new \<subseteq> set C" "sc_settings ?s' = sc_settings s" "peak_at (sc_ram ?s') = peak_at (sc_ram s)" by auto
  show ?thesis
    by (rule exI [of _ gpu1], rule exI [of _ ?s'], rule exI [of _ ?new], rule exI [of _ ?del])
      (intro conjI run sok change few g1 sg others)
qed

end
