(* ===== verification/Gpu_Array.thy ===== *)
theory Gpu_Array
  imports Tile_Id "HOL-Library.Multiset"
begin

text \<open>
  \<open>GpuArrayHelper\<close> (nucleus/tile/GpuArrayHelper.h and .cpp): which layer of a texture array holds
  which tile, with a free list, and the dictionary of packed ids it writes for the shaders. Its
  client is the loop that applies an update of the scheduler
  (\<open>TileMeshRenderer::update_gpu_tiles_ortho\<close>), over the interface \<open>tile_store\<close>.

  The unordered map is an association list in its iteration order, which nothing may depend on.
\<close>

record gpu_array =
  ga_size :: u32
  ga_free :: "u16 list"
  ga_layers :: "(tile_id \<times> u16) list"

definition empty_array :: gpu_array where
  "empty_array = \<lparr>ga_size = 0, ga_free = [], ga_layers = []\<rparr>"

definition set_tile_limit :: "u32 \<Rightarrow> gpu_array \<Rightarrow> gpu_array checked" where
  "set_tile_limit n s =
     require (ga_size s = 0) ''m_size == 0''
     (require (n \<le> 65536) ''new_limit <= (1u << 16)''
     (Inr (s\<lparr>ga_size := n, ga_free := map (\<lambda>i. of_nat (unat n - 1 - i)) [0..<unat n]\<rparr>)))"

definition add_tile :: "tile_id \<Rightarrow> gpu_array \<Rightarrow> (u32 \<times> gpu_array) checked" where
  "add_tile t s =
     require (map_of (ga_layers s) t = None) ''existing == m_id_to_layer.end()''
     (require (ga_free s \<noteq> []) ''!m_free_layers.empty()''
     (let layer = last (ga_free s)
      in Inr (ucast layer, s\<lparr>ga_free := butlast (ga_free s), ga_layers := ga_layers s @ [(t, layer)]\<rparr>)))"

definition remove_tile :: "tile_id \<Rightarrow> gpu_array \<Rightarrow> gpu_array checked" where
  "remove_tile t s =
     (case map_of (ga_layers s) t of
        None \<Rightarrow> Inl (Assert ''layer_it != m_id_to_layer.end()'')
      | Some layer \<Rightarrow> Inr (s\<lparr>ga_free := ga_free s @ [layer],
          ga_layers := filter (\<lambda>e. fst e \<noteq> t) (ga_layers s)\<rparr>))"

definition n_occupied :: "gpu_array \<Rightarrow> u32" where
  "n_occupied s = of_nat (length (ga_layers s))"

definition is_full :: "gpu_array \<Rightarrow> bool" where
  "is_full s \<longleftrightarrow> ga_free s = []"

definition array_contains :: "gpu_array \<Rightarrow> tile_id \<Rightarrow> bool" where
  "array_contains s t \<longleftrightarrow> map_of (ga_layers s) t \<noteq> None"

text \<open>
  \<open>layer\<close>: the tile itself or its closest ancestor that has a layer; \<open>Some None\<close> is the default
  result \<open>{ {}, 0 }\<close>. The loop stops at level 0; an outer \<open>None\<close> would be a loop that does not end.
\<close>

partial_function (option) layer_of ::
  "(tile_id \<Rightarrow> tile_id) \<Rightarrow> gpu_array \<Rightarrow> tile_id \<Rightarrow> (tile_id \<times> u16) option option" where
  "layer_of parent s t =
     (case map_of (ga_layers s) t of
        Some layer \<Rightarrow> Some (Some (t, layer))
      | None \<Rightarrow> if 0 < zoom_level t then layer_of parent s (parent t) else Some None)"

subsection \<open>Layers are handed out once\<close>

lemma filter_key_singleton:
  "distinct (map fst xs) \<Longrightarrow> map_of xs k = Some v \<Longrightarrow> filter (\<lambda>e. fst e = k) xs = [(k, v)]"
  by (induction xs) (auto split: if_splits simp: filter_empty_conv rev_image_eqI)

definition array_ok :: "gpu_array \<Rightarrow> bool" where
  "array_ok s \<longleftrightarrow> ga_size s \<le> 65536 \<and> distinct (map fst (ga_layers s)) \<and>
     distinct (ga_free s @ map snd (ga_layers s)) \<and>
     unat ` set (ga_free s @ map snd (ga_layers s)) = {0..<unat (ga_size s)}"

lemma array_okD:
  assumes "array_ok s"
  shows "distinct (map fst (ga_layers s))" "distinct (ga_free s)" "distinct (map snd (ga_layers s))"
    "set (ga_free s) \<inter> set (map snd (ga_layers s)) = {}"
    "unat ` (set (ga_free s) \<union> set (map snd (ga_layers s))) = {0..<unat (ga_size s)}"
  using assms by (auto simp: array_ok_def)

lemma empty_array_ok: "array_ok empty_array"
  by (simp add: array_ok_def empty_array_def)

lemma layer_numbers:
  assumes "n \<le> 65536"
  shows "distinct (map (\<lambda>i. of_nat (n - 1 - i) :: u16) [0..<n])"
    "unat ` set (map (\<lambda>i. of_nat (n - 1 - i) :: u16) [0..<n]) = {0..<n}"
proof -
  have u: "unat (of_nat k :: u16) = k" if "k < n" for k
    using that assms by (simp add: unat_of_nat)
  have eq: "map unat (map (\<lambda>i. of_nat (n - 1 - i) :: u16) [0..<n]) = map (\<lambda>i. n - 1 - i) [0..<n]"
  proof -
    have "unat (of_nat (n - 1 - i) :: u16) = n - 1 - i" if "i \<in> set [0..<n]" for i
      using that by (intro u) auto
    then have "map (\<lambda>i. unat (of_nat (n - 1 - i) :: u16)) [0..<n] = map (\<lambda>i. n - 1 - i) [0..<n]"
      by (intro map_cong refl)
    then show ?thesis by (simp only: map_map o_def)
  qed
  have rev: "map (\<lambda>i. n - 1 - i) [0..<n] = rev [0..<n]"
    by (rule nth_equalityI) (auto simp: rev_nth)
  show "distinct (map (\<lambda>i. of_nat (n - 1 - i) :: u16) [0..<n])"
    using distinct_map [of unat] by (metis eq rev distinct_rev distinct_upt)
  show "unat ` set (map (\<lambda>i. of_nat (n - 1 - i) :: u16) [0..<n]) = {0..<n}"
    by (metis eq rev set_map set_rev set_upt)
qed

lemma set_tile_limit_ok:
  assumes "set_tile_limit n empty_array = Inr s"
  shows "array_ok s" "ga_size s = n" "ga_layers s = []"
proof -
  have n: "unat n \<le> 65536" using assms by (simp add: set_tile_limit_def word_le_nat_alt)
  show "array_ok s" "ga_size s = n" "ga_layers s = []"
    using assms layer_numbers [OF n]
    by (auto simp: set_tile_limit_def array_ok_def empty_array_def)
qed

lemma add_tile_ok:
  assumes "array_ok s" "add_tile t s = Inr (l, s')"
  shows "array_ok s'"
proof -
  let ?layer = "last (ga_free s)"
  have ne: "ga_free s \<noteq> []" and t: "t \<notin> set (map fst (ga_layers s))"
    and s': "s' = s\<lparr>ga_free := butlast (ga_free s), ga_layers := ga_layers s @ [(t, ?layer)]\<rparr>"
    using assms(2) by (auto simp: add_tile_def Let_def map_of_eq_None_iff)
  have "mset (butlast (ga_free s) @ map snd (ga_layers s) @ [?layer])
      = mset ((butlast (ga_free s) @ [?layer]) @ map snd (ga_layers s))" by simp
  then have m: "mset (butlast (ga_free s) @ map snd (ga_layers s) @ [?layer]) = mset (ga_free s @ map snd (ga_layers s))"
    by (simp only: append_butlast_last_id [OF ne])
  have "distinct (butlast (ga_free s) @ map snd (ga_layers s) @ [?layer])"
    using assms(1) mset_eq_imp_distinct_iff [OF m] by (simp only: array_ok_def)
  moreover have "set (butlast (ga_free s) @ map snd (ga_layers s) @ [?layer]) = set (ga_free s @ map snd (ga_layers s))"
    by (rule mset_eq_setD [OF m])
  ultimately show ?thesis using assms(1) t by (simp add: array_ok_def s')
qed

lemma remove_tile_ok:
  assumes "array_ok s" "remove_tile t s = Inr s'"
  shows "array_ok s'"
proof -
  obtain l where l: "map_of (ga_layers s) t = Some l"
      "s' = s\<lparr>ga_free := ga_free s @ [l], ga_layers := filter (\<lambda>e. fst e \<noteq> t) (ga_layers s)\<rparr>"
    using assms(2) by (auto simp: remove_tile_def split: option.splits)
  note ok = array_okD(1) [OF assms(1)]
  have "mset (ga_layers s) = mset (filter (\<lambda>e. fst e = t) (ga_layers s)) + mset (filter (\<lambda>e. fst e \<noteq> t) (ga_layers s))"
    by (simp only: mset_filter) (rule multiset_partition)
  moreover have "filter (\<lambda>e. fst e = t) (ga_layers s) = [(t, l)]"
    using ok l(1) by (rule filter_key_singleton)
  ultimately have "mset (ga_layers s) = mset ((t, l) # filter (\<lambda>e. fst e \<noteq> t) (ga_layers s))"
    by simp
  then have "image_mset snd (mset (ga_layers s)) = image_mset snd (mset ((t, l) # filter (\<lambda>e. fst e \<noteq> t) (ga_layers s)))"
    by (rule arg_cong)
  then have m: "mset ((ga_free s @ [l]) @ map snd (filter (\<lambda>e. fst e \<noteq> t) (ga_layers s)))
      = mset (ga_free s @ map snd (ga_layers s))"
    by simp
  have "distinct ((ga_free s @ [l]) @ map snd (filter (\<lambda>e. fst e \<noteq> t) (ga_layers s)))"
    using assms(1) mset_eq_imp_distinct_iff [OF m] by (simp only: array_ok_def)
  moreover have "set ((ga_free s @ [l]) @ map snd (filter (\<lambda>e. fst e \<noteq> t) (ga_layers s))) = set (ga_free s @ map snd (ga_layers s))"
    by (rule mset_eq_setD [OF m])
  moreover have "distinct (map fst (filter (\<lambda>e. fst e \<noteq> t) (ga_layers s)))"
    using ok by (rule distinct_map_filter)
  ultimately show ?thesis using assms(1) by (simp add: array_ok_def l(2))
qed

text \<open>Free and occupied layers add up to the size.\<close>

lemma array_count:
  assumes "array_ok s"
  shows "length (ga_free s) + length (ga_layers s) = unat (ga_size s)"
proof -
  have "length (ga_free s @ map snd (ga_layers s)) = card (set (ga_free s @ map snd (ga_layers s)))"
    using assms by (simp only: array_ok_def distinct_card)
  also have "\<dots> = card (unat ` set (ga_free s @ map snd (ga_layers s)))"
    by (intro card_image [symmetric] inj_onI) (simp add: word_unat_eq_iff)
  finally show ?thesis using assms by (simp only: array_ok_def) simp
qed

subsection \<open>The interface its clients use\<close>

text \<open>A store of tiles of bounded capacity: \<open>held\<close> is the set of its tiles.\<close>

locale tile_store =
  fixes good :: "'s \<Rightarrow> bool" and held :: "'s \<Rightarrow> tile_id set" and capacity :: "'s \<Rightarrow> nat"
    and full :: "'s \<Rightarrow> bool" and add :: "tile_id \<Rightarrow> 's \<Rightarrow> ('l \<times> 's) checked"
    and remove :: "tile_id \<Rightarrow> 's \<Rightarrow> 's checked"
  assumes held_finite: "finite (held s)"
    and full_iff: "good s \<Longrightarrow> full s \<longleftrightarrow> capacity s \<le> card (held s)"
    and add_fresh: "good s \<Longrightarrow> \<not> full s \<Longrightarrow> t \<notin> held s \<Longrightarrow>
      \<exists>l s'. add t s = Inr (l, s') \<and> good s' \<and> held s' = insert t (held s) \<and> capacity s' = capacity s"
    and remove_held: "good s \<Longrightarrow> t \<in> held s \<Longrightarrow>
      \<exists>s'. remove t s = Inr s' \<and> good s' \<and> held s' = held s - {t} \<and> capacity s' = capacity s"

primrec remove_tiles :: "('t \<Rightarrow> 's \<Rightarrow> 's checked) \<Rightarrow> 't list \<Rightarrow> 's \<Rightarrow> 's checked" where
  "remove_tiles remove [] s = Inr s"
| "remove_tiles remove (t # ts) s = and_then (remove t s) (remove_tiles remove ts)"

text \<open>The loop over the new tiles: it stops when the store is full; the result has the uploads.\<close>

primrec upload_tiles :: "('s \<Rightarrow> bool) \<Rightarrow> (tile_id \<Rightarrow> 's \<Rightarrow> ('l \<times> 's) checked) \<Rightarrow>
    (tile_id \<times> 'tex option) list \<Rightarrow> 's \<Rightarrow> (('tex option \<times> 'l) list \<times> 's) checked" where
  "upload_tiles full add [] s = Inr ([], s)"
| "upload_tiles full add (e # es) s =
     require (zoom_level (fst e) < 100) ''tile.id.zoom_level < 100''
     (require (snd e \<noteq> None) ''tile.texture''
     (if full s then Inr ([], s)
      else and_then (add (fst e) s) (\<lambda>(l, s').
        and_then (upload_tiles full add es s') (\<lambda>(us, s''). Inr ((snd e, l) # us, s'')))))"

context tile_store
begin

lemma remove_all:
  assumes "good s" "distinct ts" "set ts \<subseteq> held s"
  shows "\<exists>s'. remove_tiles remove ts s = Inr s' \<and> good s' \<and> held s' = held s - set ts \<and> capacity s' = capacity s"
  using assms
proof (induction ts arbitrary: s)
  case (Cons t ts)
  then obtain s1 where s1: "remove t s = Inr s1" "good s1" "held s1 = held s - {t}" "capacity s1 = capacity s"
    using remove_held [of s t] by auto
  moreover have "set ts \<subseteq> held s1" using Cons.prems s1(3) by auto
  ultimately obtain s2 where "remove_tiles remove ts s1 = Inr s2" "good s2" "held s2 = held s1 - set ts"
      "capacity s2 = capacity s1"
    using Cons.IH [of s1] Cons.prems(2) by auto
  then show ?case using s1 by auto
qed simp

lemma upload_all:
  assumes "good s" "distinct (map fst es)" "fst ` set es \<inter> held s = {}"
    "card (held s) + length es \<le> capacity s" "\<forall>e \<in> set es. zoom_level (fst e) < 100 \<and> snd e \<noteq> None"
  shows "\<exists>us s'. upload_tiles full add es s = Inr (us, s') \<and> map fst us = map snd es \<and> good s' \<and>
     held s' = held s \<union> fst ` set es \<and> capacity s' = capacity s"
  using assms
proof (induction es arbitrary: s)
  case (Cons e es)
  have "\<not> full s" using Cons.prems by (simp add: full_iff)
  then obtain l s1 where s1: "add (fst e) s = Inr (l, s1)" "good s1" "held s1 = insert (fst e) (held s)"
      "capacity s1 = capacity s"
    using add_fresh [of s "fst e"] Cons.prems by auto
  have "card (held s1) + length es \<le> capacity s1"
    using Cons.prems held_finite by (simp add: s1(3,4) card_insert_if)
  then obtain us s2 where s2: "upload_tiles full add es s1 = Inr (us, s2)" "map fst us = map snd es" "good s2"
      "held s2 = held s1 \<union> fst ` set es" "capacity s2 = capacity s1"
    using Cons.IH [of s1] Cons.prems s1 by (auto simp: image_iff)
  then show ?case using Cons.prems \<open>\<not> full s\<close> s1 by auto
qed simp

lemma update_store:
  assumes "good s" "distinct del" "set del \<subseteq> held s" "distinct (map fst es)"
    "fst ` set es \<inter> held s = {}" "card ((held s - set del) \<union> fst ` set es) \<le> capacity s"
    "\<forall>e \<in> set es. zoom_level (fst e) < 100 \<and> snd e \<noteq> None"
  shows "\<exists>us s'. and_then (remove_tiles remove del s) (upload_tiles full add es) = Inr (us, s') \<and>
     map fst us = map snd es \<and> good s' \<and> held s' = (held s - set del) \<union> fst ` set es \<and> capacity s' = capacity s"
proof -
  obtain s1 where s1: "remove_tiles remove del s = Inr s1" "good s1" "held s1 = held s - set del"
      "capacity s1 = capacity s"
    using remove_all [OF assms(1-3)] by blast
  have "card ((held s - set del) \<union> fst ` set es) = card (held s - set del) + length es"
  proof (subst card_Un_disjoint)
    show "(held s - set del) \<inter> fst ` set es = {}" using assms(5) by blast
    show "card (held s - set del) + card (fst ` set es) = card (held s - set del) + length es"
      using distinct_card [OF assms(4)] by simp
  qed (simp_all add: held_finite)
  moreover have "fst ` set es \<inter> held s1 = {}" using assms(5) s1(3) by blast
  ultimately show ?thesis using upload_all [of s1 es] assms s1 by auto
qed

end

text \<open>\<open>TileMeshRenderer::update_gpu_tiles_ortho\<close>; the heights and the OpenGL layers run the same loops.\<close>

definition update_gpu_tiles ::
  "tile_id list \<Rightarrow> (tile_id \<times> 'tex option) list \<Rightarrow> gpu_array \<Rightarrow> (('tex option \<times> u32) list \<times> gpu_array) checked" where
  "update_gpu_tiles deleted_tiles new_tiles s =
     and_then (remove_tiles remove_tile deleted_tiles s) (upload_tiles is_full add_tile new_tiles)"

definition held_tiles :: "gpu_array \<Rightarrow> tile_id set" where
  "held_tiles s = fst ` set (ga_layers s)"

interpretation layers: tile_store array_ok held_tiles "\<lambda>s. unat (ga_size s)" is_full add_tile remove_tile
proof
  fix s t
  show "finite (held_tiles s)" by (simp add: held_tiles_def)
  assume ok: "array_ok s"
  have card: "card (held_tiles s) = length (ga_layers s)"
    using distinct_card [OF array_okD(1) [OF ok]] by (simp add: held_tiles_def)
  show "is_full s \<longleftrightarrow> unat (ga_size s) \<le> card (held_tiles s)"
    using array_count [OF ok] by (cases "ga_free s") (auto simp: is_full_def card)
  show "\<exists>s'. remove_tile t s = Inr s' \<and> array_ok s' \<and> held_tiles s' = held_tiles s - {t} \<and> unat (ga_size s') = unat (ga_size s)"
    if t: "t \<in> held_tiles s"
  proof -
    obtain l where l: "map_of (ga_layers s) t = Some l"
      using t by (auto simp: held_tiles_def) (metis map_of_eq_None_iff option.exhaust image_eqI fst_conv)
    then obtain s' where s': "remove_tile t s = Inr s'" by (simp add: remove_tile_def)
    then have "held_tiles s' = held_tiles s - {t}" "ga_size s' = ga_size s"
      by (auto simp: remove_tile_def l held_tiles_def)
    then show ?thesis using s' remove_tile_ok [OF ok s'] by simp
  qed
  show "\<exists>l s'. add_tile t s = Inr (l, s') \<and> array_ok s' \<and> held_tiles s' = insert t (held_tiles s) \<and> unat (ga_size s') = unat (ga_size s)"
    if "\<not> is_full s" "t \<notin> held_tiles s"
  proof -
    have "map_of (ga_layers s) t = None" using that by (auto simp: held_tiles_def map_of_eq_None_iff)
    then have s': "add_tile t s = Inr (ucast (last (ga_free s)), s\<lparr>ga_free := butlast (ga_free s),
        ga_layers := ga_layers s @ [(t, last (ga_free s))]\<rparr>)" (is "_ = Inr (_, ?s')")
      using that(1) by (simp add: add_tile_def is_full_def Let_def)
    have "held_tiles ?s' = insert t (held_tiles s)" by (simp add: held_tiles_def)
    then show ?thesis using s' add_tile_ok [OF ok s'] by simp
  qed
qed

subsection \<open>The layer of a tile\<close>

text \<open>\<open>a\<close> is \<open>t\<close> or one of the tiles that contain it.\<close>

definition contains_tile :: "tile_id \<Rightarrow> tile_id \<Rightarrow> bool" where
  "contains_tile a t \<longleftrightarrow> zoom_level a \<le> zoom_level t \<and> a = climb (zoom_level a) t"

lemma climb_self [simp]: "zoom_level t = z \<Longrightarrow> climb z t = t"
  by (subst climb.simps) simp

lemma contains_tile_same: "zoom_level a = zoom_level t \<Longrightarrow> contains_tile a t \<longleftrightarrow> a = t"
  unfolding contains_tile_def by simp

lemma contains_tile_overlap: "contains_tile a t \<longleftrightarrow> zoom_level a \<le> zoom_level t \<and> overlap a t"
proof -
  consider (less) "zoom_level a < zoom_level t" | (eq) "zoom_level a = zoom_level t" | (greater) "\<not> zoom_level a \<le> zoom_level t"
    by fastforce
  then show ?thesis
  proof cases
    case less
    then have "overlap a t \<longleftrightarrow> a = climb (zoom_level a) t"
      unfolding overlap_def Let_def by (simp only: if_True not_less [symmetric] simp_thms if_False)
    then show ?thesis using less unfolding contains_tile_def by (simp only:)
  next
    case eq
    then have "overlap a t \<longleftrightarrow> t = a" by (simp add: overlap_def)
    then show ?thesis using eq by (auto simp: contains_tile_same)
  next
    case greater
    then show ?thesis by (simp add: contains_tile_def)
  qed
qed

lemma contains_tile_refl [simp]: "contains_tile t t"
  by (simp add: contains_tile_same)

lemma zoom_climb_step: "0 < zoom_level t \<Longrightarrow> unat (zoom_level (climb_step t)) = unat (zoom_level t) - 1"
  by (simp add: climb_step_def unat_minus_one)

lemma contains_tile_step:
  "contains_tile a t \<longleftrightarrow> a = t \<or> (0 < zoom_level t \<and> contains_tile a (climb_step t))"
proof (cases "zoom_level a = zoom_level t")
  case True
  have "\<not> contains_tile a (climb_step t)" if "0 < zoom_level t"
  proof -
    have "\<not> zoom_level a \<le> zoom_level (climb_step t)"
      using zoom_climb_step [OF that] that True by (simp add: word_le_nat_alt word_less_nat_alt)
    then show ?thesis by (simp add: contains_tile_def)
  qed
  then show ?thesis using contains_tile_same [OF True] by blast
next
  case False
  then have "zoom_level a \<le> zoom_level t \<longleftrightarrow> 0 < zoom_level t \<and> zoom_level a \<le> zoom_level (climb_step t)"
    using zoom_climb_step [of t] by (auto simp: word_le_nat_alt word_less_nat_alt word_unat_eq_iff)
  moreover have "climb (zoom_level a) t = climb (zoom_level a) (climb_step t)"
    using False by (subst climb.simps) simp
  moreover have "a \<noteq> t" using False by blast
  ultimately show ?thesis unfolding contains_tile_def by metis
qed

lemma contains_tile_antisym:
  assumes "contains_tile a t" "zoom_level t \<le> zoom_level a"
  shows "a = t"
proof -
  have "zoom_level a = zoom_level t" using assms by (simp add: contains_tile_def)
  then show ?thesis using assms(1) contains_tile_same by blast
qed

lemma contains_step_above:
  assumes "contains_tile a (climb_step t)" "0 < zoom_level t"
  shows "zoom_level a < zoom_level t"
  using assms zoom_climb_step [OF assms(2)] by (auto simp: contains_tile_def word_le_nat_alt word_less_nat_alt)

text \<open>The loop ends, with the finest tile of the array that contains the given one.\<close>

definition climbs :: "(tile_id \<Rightarrow> tile_id) \<Rightarrow> bool" where
  "climbs parent \<longleftrightarrow> (\<forall>t. 0 < zoom_level t \<longrightarrow> parent t = climb_step t)"

definition finest :: "gpu_array \<Rightarrow> tile_id \<Rightarrow> tile_id \<Rightarrow> bool" where
  "finest s t a \<longleftrightarrow> contains_tile a t \<and> array_contains s a \<and>
     (\<forall>b. contains_tile b t \<and> array_contains s b \<longrightarrow> zoom_level b \<le> zoom_level a)"

lemma finest_here: "array_contains s t \<Longrightarrow> finest s t a \<longleftrightarrow> a = t"
  unfolding finest_def using contains_tile_antisym [of a t] contains_tile_refl [of t]
  by (meson contains_tile_def)

lemma finest_above:
  assumes "\<not> array_contains s t"
  shows "finest s t a \<longleftrightarrow> 0 < zoom_level t \<and> finest s (climb_step t) a"
  using assms unfolding finest_def contains_tile_step [of _ t] by blast

lemma layer_of_finest:
  assumes "climbs parent"
  shows "\<exists>r. layer_of parent s t = Some r \<and>
     (\<forall>a l. r = Some (a, l) \<longleftrightarrow> finest s t a \<and> map_of (ga_layers s) a = Some l)"
proof (induction "unat (zoom_level t)" arbitrary: t rule: less_induct)
  case less
  show ?case
  proof (cases "map_of (ga_layers s) t")
    case (Some l)
    then have "array_contains s t" by (simp add: array_contains_def)
    then show ?thesis
      using Some by (subst layer_of.simps) (auto simp: finest_here)
  next
    case None
    then have no: "\<not> array_contains s t" by (simp add: array_contains_def)
    show ?thesis
    proof (cases "0 < zoom_level t")
      case True
      then have "unat (zoom_level (climb_step t)) < unat (zoom_level t)"
        using zoom_climb_step [OF True] by (simp add: word_less_nat_alt)
      then obtain r where "layer_of parent s (climb_step t) = Some r"
          "\<forall>a l. r = Some (a, l) \<longleftrightarrow> finest s (climb_step t) a \<and> map_of (ga_layers s) a = Some l"
        using less.hyps by blast
      then show ?thesis
        using None True assms by (subst layer_of.simps) (auto simp: finest_above [OF no] climbs_def)
    next
      case False
      then show ?thesis using None by (subst layer_of.simps) (auto simp: finest_above [OF no])
    qed
  qed
qed

subsection \<open>The dictionary\<close>

type_synonym 'a raster = "u32 \<times> u32 \<Rightarrow> 'a"
type_synonym dictionary = "(u32 \<times> u32) raster \<times> u16 raster"

definition hash_to_pixel :: "u16 \<Rightarrow> u32 \<times> u32" where
  "hash_to_pixel h = (ucast h AND 255, drop_bit 8 (ucast h))"

abbreviation free_id :: "u32 \<times> u32" where
  "free_id \<equiv> (- 1, - 1)"

text \<open>The inner loop: \<open>hash++\<close> wraps at 16 bits. On a raster without a free pixel it does not end.\<close>

partial_function (option) free_pixel :: "(u32 \<times> u32) raster \<Rightarrow> u16 \<Rightarrow> u16 option" where
  "free_pixel ids h = (if ids (hash_to_pixel h) \<noteq> free_id then free_pixel ids (h + 1) else Some h)"

fun fill_dictionary :: "(tile_id \<times> u16) list \<Rightarrow> dictionary \<Rightarrow> dictionary checked option" where
  "fill_dictionary [] d = Some (Inr d)"
| "fill_dictionary ((t, layer) # es) (ids, layers) =
     (case free_pixel ids (hash_uint16 t) of
        None \<Rightarrow> None
      | Some h \<Rightarrow> (case pack t of
          Inl e \<Rightarrow> Some (Inl e)
        | Inr p \<Rightarrow> fill_dictionary es (ids(hash_to_pixel h := p), layers(hash_to_pixel h := layer))))"

definition generate_dictionary :: "(tile_id \<times> u16) list \<Rightarrow> dictionary checked option" where
  "generate_dictionary entries = fill_dictionary entries (\<lambda>_. free_id, \<lambda>_. 0)"

lemma unat_ucast_16_32: "unat (ucast (h :: u16) :: u32) = unat h"
  by (simp add: unsigned_ucast_eq take_bit_nat_eq_self_iff less_le_trans [OF unsigned_less])

lemma hash_to_pixel_inj: "hash_to_pixel h = hash_to_pixel h' \<longleftrightarrow> h = h'"
proof
  assume eq: "hash_to_pixel h = hash_to_pixel h'"
  have "(ucast x :: u32) = push_bit 8 (drop_bit 8 (ucast x)) OR (ucast x AND 255)" for x :: u16
  proof -
    have m: "(255 :: u32) = mask 8" by (simp add: mask_eq_exp_minus_1)
    show ?thesis
      unfolding m by (rule bit_word_eqI) (auto simp: bit_simps not_less simp del: mask_numeral)
  qed
  then have "(ucast h :: u32) = ucast h'"
    using eq unfolding hash_to_pixel_def prod.inject by metis
  then have "unat h = unat h'" by (metis unat_ucast_16_32)
  then show "h = h'" by (simp add: word_unat_eq_iff)
qed simp

text \<open>The probe sequence of \<open>t\<close> meets its pixel after \<open>k\<close> steps, over pixels of other tiles only.\<close>

definition found_at :: "(u32 \<times> u32) raster \<Rightarrow> tile_id \<Rightarrow> nat \<Rightarrow> bool" where
  "found_at ids t k \<longleftrightarrow> ids (hash_to_pixel (hash_uint16 t + of_nat k)) = packed_bits t \<and>
     (\<forall>j < k. ids (hash_to_pixel (hash_uint16 t + of_nat j)) \<notin> {packed_bits t, free_id})"

lemma free_pixel_first:
  "ids (hash_to_pixel (h + of_nat k)) = free_id \<Longrightarrow>
   \<forall>j < k. ids (hash_to_pixel (h + of_nat j)) \<noteq> free_id \<Longrightarrow> free_pixel ids h = Some (h + of_nat k)"
proof (induction k arbitrary: h)
  case 0
  then show ?case by (subst free_pixel.simps) simp
next
  case (Suc k)
  have "ids (hash_to_pixel h) \<noteq> free_id" using Suc.prems(2) [rule_format, of 0] by simp
  moreover have "free_pixel ids (h + 1) = Some (h + 1 + of_nat k)"
  proof (rule Suc.IH)
    show "ids (hash_to_pixel (h + 1 + of_nat k)) = free_id" using Suc.prems(1) by (simp add: add_ac)
    show "\<forall>j < k. ids (hash_to_pixel (h + 1 + of_nat j)) \<noteq> free_id"
    proof (intro allI impI)
      fix j assume "j < k"
      then have "ids (hash_to_pixel (h + of_nat (Suc j))) \<noteq> free_id" using Suc.prems(2) by blast
      then show "ids (hash_to_pixel (h + 1 + of_nat j)) \<noteq> free_id" by (simp add: add_ac)
    qed
  qed
  ultimately show ?case by (subst free_pixel.simps) (simp add: add_ac)
qed

definition used_pixels :: "(u32 \<times> u32) raster \<Rightarrow> u16 set" where
  "used_pixels ids = {h. ids (hash_to_pixel h) \<noteq> free_id}"

lemma free_pixel_found:
  assumes "card (used_pixels ids) < 65536"
  obtains k where "free_pixel ids h = Some (h + of_nat k)" "ids (hash_to_pixel (h + of_nat k)) = free_id"
    "\<forall>j < k. ids (hash_to_pixel (h + of_nat j)) \<noteq> free_id"
proof -
  have "card (UNIV :: u16 set) = 65536" by (simp add: card_word)
  then have "used_pixels ids \<noteq> UNIV" using assms by auto
  then obtain h' where "ids (hash_to_pixel h') = free_id" by (auto simp: used_pixels_def)
  then have "ids (hash_to_pixel (h + of_nat (unat (h' - h)))) = free_id" by simp
  then have ex: "\<exists>k. ids (hash_to_pixel (h + of_nat k)) = free_id" by blast
  define k where "k = (LEAST k. ids (hash_to_pixel (h + of_nat k)) = free_id)"
  have "ids (hash_to_pixel (h + of_nat k)) = free_id" unfolding k_def using ex by (rule LeastI_ex)
  moreover have "\<forall>j < k. ids (hash_to_pixel (h + of_nat j)) \<noteq> free_id"
    unfolding k_def using not_less_Least by blast
  ultimately show thesis using free_pixel_first that by blast
qed

definition dictionary_of :: "(tile_id \<times> u16) list \<Rightarrow> dictionary \<Rightarrow> bool" where
  "dictionary_of es d \<longleftrightarrow>
     (\<forall>(t, l) \<in> set es. \<exists>k. found_at (fst d) t k \<and> snd d (hash_to_pixel (hash_uint16 t + of_nat k)) = l) \<and>
     (\<forall>h. fst d (hash_to_pixel h) \<noteq> free_id \<longrightarrow> (\<exists>t \<in> fst ` set es. fst d (hash_to_pixel h) = packed_bits t))"

lemma dictionary_of_used:
  assumes "dictionary_of es d" "fst d (hash_to_pixel h) \<noteq> free_id"
  shows "\<exists>t \<in> fst ` set es. fst d (hash_to_pixel h) = packed_bits t"
  using assms(1) [unfolded dictionary_of_def, THEN conjunct2] assms(2) by simp

lemma packed_bits_inj: "valid_tile t \<Longrightarrow> valid_tile t' \<Longrightarrow> packed_bits t = packed_bits t' \<Longrightarrow> t = t'"
  by (metis unpack_packed)

lemma found_at_keep:
  assumes "found_at ids t k" "ids (hash_to_pixel h) = free_id" "valid_tile t"
  shows "found_at (ids(hash_to_pixel h := p)) t k" "hash_uint16 t + of_nat k \<noteq> h"
proof -
  show "hash_uint16 t + of_nat k \<noteq> h"
    using assms packed_not_marker [of t] by (auto simp: found_at_def)
  moreover have "hash_uint16 t + of_nat j \<noteq> h" if "j < k" for j
    using assms that by (auto simp: found_at_def)
  ultimately show "found_at (ids(hash_to_pixel h := p)) t k"
    using assms(1) by (auto simp: found_at_def hash_to_pixel_inj)
qed

lemma dictionary_step:
  assumes d: "dictionary_of es (ids, lays)" and valid: "\<forall>t \<in> fst ` set es. valid_tile t" "valid_tile t"
    and new: "t \<notin> fst ` set es"
    and k: "ids (hash_to_pixel (hash_uint16 t + of_nat k)) = free_id"
      "\<forall>j < k. ids (hash_to_pixel (hash_uint16 t + of_nat j)) \<noteq> free_id"
  shows "dictionary_of (es @ [(t, l)]) (ids(hash_to_pixel (hash_uint16 t + of_nat k) := packed_bits t),
     lays(hash_to_pixel (hash_uint16 t + of_nat k) := l))" (is "dictionary_of _ (?ids, ?lays)")
proof -
  let ?h = "hash_uint16 t + of_nat k"
  have other: "ids (hash_to_pixel h) \<noteq> packed_bits t" if used: "ids (hash_to_pixel h) \<noteq> free_id" for h
  proof -
    obtain t' where t': "t' \<in> fst ` set es" "ids (hash_to_pixel h) = packed_bits t'"
      using dictionary_of_used [OF d, of h] used by auto
    have "valid_tile t'" using valid(1) t'(1) by (rule bspec)
    then have "packed_bits t' \<noteq> packed_bits t" using packed_bits_inj [OF _ valid(2)] t'(1) new by blast
    then show ?thesis by (simp only: t'(2) not_False_eq_True)
  qed
  have "found_at ?ids t k"
    using k other by (auto simp: found_at_def hash_to_pixel_inj)
  then have here: "\<exists>k. found_at ?ids t k \<and> ?lays (hash_to_pixel (hash_uint16 t + of_nat k)) = l"
    by (intro exI [of _ k]) simp
  have there: "\<exists>k. found_at ?ids t' k \<and> ?lays (hash_to_pixel (hash_uint16 t' + of_nat k)) = l'"
    if in_es: "(t', l') \<in> set es" for t' l'
  proof -
    obtain k' where k': "found_at ids t' k'" "lays (hash_to_pixel (hash_uint16 t' + of_nat k')) = l'"
      using d in_es by (fastforce simp: dictionary_of_def)
    have "valid_tile t'" using valid(1) in_es by (metis fst_conv image_eqI)
    note keep = found_at_keep [OF k'(1) k(1) this]
    show ?thesis using keep(1) k'(2) keep(2) by (intro exI [of _ k']) (simp add: hash_to_pixel_inj)
  qed
  have "\<exists>t' \<in> fst ` set (es @ [(t, l)]). ?ids (hash_to_pixel h) = packed_bits t'"
    if "?ids (hash_to_pixel h) \<noteq> free_id" for h
    using that d by (cases "h = ?h") (auto simp: hash_to_pixel_inj dictionary_of_def)
  moreover have "\<forall>(t', l') \<in> set (es @ [(t, l)]).
      \<exists>k. found_at ?ids t' k \<and> ?lays (hash_to_pixel (hash_uint16 t' + of_nat k)) = l'"
  proof (rule ballI)
    fix e assume e: "e \<in> set (es @ [(t, l)])"
    obtain t' l' where e': "e = (t', l')" by (cases e)
    show "case e of (t', l') \<Rightarrow> \<exists>k. found_at ?ids t' k \<and> ?lays (hash_to_pixel (hash_uint16 t' + of_nat k)) = l'"
    proof (cases "e \<in> set es")
      case True
      then show ?thesis using there [of t' l'] unfolding e' prod.case by blast
    next
      case False
      then have "t' = t" "l' = l" using e e' by simp_all
      then show ?thesis using here unfolding e' prod.case by simp
    qed
  qed
  ultimately show ?thesis unfolding dictionary_of_def fst_conv snd_conv by blast
qed

lemma used_pixels_insert: "used_pixels (ids(hash_to_pixel h := p)) \<subseteq> insert h (used_pixels ids)"
  by (auto simp: used_pixels_def hash_to_pixel_inj split: if_splits)

lemma fill_dictionary_ok:
  assumes "dictionary_of done_es (ids, lays)" "distinct (map fst (done_es @ es))"
    "\<forall>t \<in> fst ` set (done_es @ es). valid_tile t"
    "card (used_pixels ids) \<le> length done_es" "length (done_es @ es) \<le> 65536"
  shows "\<exists>d. fill_dictionary es (ids, lays) = Some (Inr d) \<and> dictionary_of (done_es @ es) d"
  using assms
proof (induction es arbitrary: done_es ids lays)
  case (Cons e es)
  obtain t l where e: "e = (t, l)" by force
  have "card (used_pixels ids) < 65536" using Cons.prems(4,5) by simp
  then obtain k where k: "free_pixel ids (hash_uint16 t) = Some (hash_uint16 t + of_nat k)"
      "ids (hash_to_pixel (hash_uint16 t + of_nat k)) = free_id"
      "\<forall>j < k. ids (hash_to_pixel (hash_uint16 t + of_nat j)) \<noteq> free_id"
    by (rule free_pixel_found)
  let ?h = "hash_uint16 t + of_nat k"
  let ?ids = "ids(hash_to_pixel ?h := packed_bits t)" and ?lays = "lays(hash_to_pixel ?h := l)"
  have t: "valid_tile t" "t \<notin> fst ` set done_es" using Cons.prems(2,3) by (auto simp: e)
  have "dictionary_of (done_es @ [(t, l)]) (?ids, ?lays)"
    using Cons.prems(1,3) t k by (intro dictionary_step) auto
  moreover have "card (used_pixels ?ids) \<le> length (done_es @ [(t, l)])"
  proof -
    have "card (used_pixels ?ids) \<le> card (insert ?h (used_pixels ids))"
      by (intro card_mono used_pixels_insert) simp
    also have "\<dots> \<le> Suc (card (used_pixels ids))" by (rule card_insert_le_m1) simp_all
    finally show ?thesis using Cons.prems(4) by simp
  qed
  moreover have "distinct (map fst ((done_es @ [(t, l)]) @ es))"
      "\<forall>t \<in> fst ` set ((done_es @ [(t, l)]) @ es). valid_tile t" "length ((done_es @ [(t, l)]) @ es) \<le> 65536"
    using Cons.prems by (auto simp: e)
  ultimately have "\<exists>d. fill_dictionary es (?ids, ?lays) = Some (Inr d) \<and> dictionary_of ((done_es @ [(t, l)]) @ es) d"
    by (intro Cons.IH)
  then obtain d where "fill_dictionary es (?ids, ?lays) = Some (Inr d)"
      "dictionary_of ((done_es @ [(t, l)]) @ es) d"
    by blast
  moreover have "pack t = Inr (packed_bits t)" using t(1) by (simp add: pack_Inr)
  ultimately show ?case by (simp add: e k(1))
qed simp

lemma generate_dictionary_ok:
  assumes "array_ok s" "mset entries = mset (ga_layers s)" "\<forall>t \<in> held_tiles s. valid_tile t"
  shows "\<exists>d. generate_dictionary entries = Some (Inr d) \<and> dictionary_of entries d"
proof -
  have set_eq: "set entries = set (ga_layers s)" and len: "length entries = length (ga_layers s)"
    using assms(2) by (metis mset_eq_setD, metis size_mset)
  have "mset (map fst entries) = mset (map fst (ga_layers s))" using assms(2) by simp
  then have "distinct (map fst entries)"
    using array_okD(1) [OF assms(1)] mset_eq_imp_distinct_iff by blast
  moreover have "length entries \<le> 65536"
    using array_count [OF assms(1)] assms(1) len by (simp add: array_ok_def word_le_nat_alt)
  moreover have "used_pixels (\<lambda>_. free_id) = {}" by (simp add: used_pixels_def)
  moreover have "dictionary_of [] (\<lambda>_. free_id, \<lambda>_. 0)" by (simp add: dictionary_of_def)
  ultimately show ?thesis
    using fill_dictionary_ok [of "[]" "\<lambda>_. free_id" "\<lambda>_. 0" entries] assms(3) set_eq
    by (auto simp: generate_dictionary_def held_tiles_def)
qed

end
