(* ===== verification/Tile_Sync.thy ===== *)
theory Tile_Sync
  imports Tile_Scheduler Gpu_Array
begin

text \<open>
  The scheduler and the renderer together: what \<open>update_gpu_quads\<close> emits, turned into tiles by
  \<open>GeometryScheduler\<close> (four per quad) or \<open>TextureScheduler\<close> (one per quad), is applied by the loop of
  the renderer to its array of layers. Also: which quads stay connected to the root, and what the
  disk cache gives back.
\<close>

subsection \<open>From quads to tiles\<close>

text \<open>\<open>transform_and_emit\<close>; the decoding of the images is an argument and always gives something.\<close>

definition geometry_tiles :: "(tile_data \<Rightarrow> 'tex) \<Rightarrow> data_quad list \<Rightarrow> (tile_id \<times> 'tex option) list" where
  "geometry_tiles decode new_quads =
     concat (map (\<lambda>q. map (\<lambda>t. (td_id t, Some (decode t))) (dq_tiles q)) new_quads)"

definition geometry_deleted :: "(tile_id \<Rightarrow> tile_id list) \<Rightarrow> tile_id list \<Rightarrow> tile_id list" where
  "geometry_deleted children deleted_quads = concat (map children deleted_quads)"

definition texture_tiles :: "(data_quad \<Rightarrow> 'tex) \<Rightarrow> data_quad list \<Rightarrow> (tile_id \<times> 'tex option) list" where
  "texture_tiles decode new_quads = map (\<lambda>q. (dq_id q, Some (decode q))) new_quads"

definition update_heights :: "(tile_id \<Rightarrow> tile_id list) \<Rightarrow> (tile_data \<Rightarrow> 'tex) \<Rightarrow> signal \<Rightarrow> gpu_array \<Rightarrow>
    (('tex option \<times> u32) list \<times> gpu_array) checked" where
  "update_heights children decode sig arr =
     (case sig of
        Gpu_Update new_quads deleted \<Rightarrow>
          update_gpu_tiles (geometry_deleted children deleted) (geometry_tiles decode new_quads) arr
      | _ \<Rightarrow> Inr ([], arr))"

definition update_textures :: "(data_quad \<Rightarrow> 'tex) \<Rightarrow> signal \<Rightarrow> gpu_array \<Rightarrow>
    (('tex option \<times> u32) list \<times> gpu_array) checked" where
  "update_textures decode sig arr =
     (case sig of
        Gpu_Update new_quads deleted \<Rightarrow> update_gpu_tiles deleted (texture_tiles decode new_quads) arr
      | _ \<Rightarrow> Inr ([], arr))"

subsection \<open>The renderer holds what the scheduler thinks\<close>

text \<open>\<open>T t\<close> are the tiles a quad \<open>t\<close> becomes on the GPU.\<close>

definition spread :: "(tile_id \<Rightarrow> tile_id list) \<Rightarrow> nat \<Rightarrow> tile_id set \<Rightarrow> bool" where
  "spread T k Q \<longleftrightarrow> (\<forall>t \<in> Q. distinct (T t) \<and> length (T t) = k \<and> (\<forall>c \<in> set (T t). zoom_level c < 100)) \<and>
     (\<forall>t \<in> Q. \<forall>u \<in> Q. t \<noteq> u \<longrightarrow> set (T t) \<inter> set (T u) = {})"

definition tiles_of :: "(tile_id \<Rightarrow> tile_id list) \<Rightarrow> tile_id set \<Rightarrow> tile_id set" where
  "tiles_of T Q = (\<Union>t \<in> Q. set (T t))"

lemma spread_subset: "spread T k Q \<Longrightarrow> R \<subseteq> Q \<Longrightarrow> spread T k R"
  unfolding spread_def by blast

lemma distinct_tiles: "spread T k (set ts) \<Longrightarrow> distinct ts \<Longrightarrow> distinct (concat (map T ts))"
  by (rule distinct_concat_map) (auto simp: spread_def)

lemma set_tiles: "set (concat (map T ts)) = tiles_of T (set ts)"
  by (simp add: tiles_of_def)

lemma tiles_of_Un: "tiles_of T (Q \<union> R) = tiles_of T Q \<union> tiles_of T R"
  by (simp add: tiles_of_def)

lemma spread_same: "spread T k Q \<Longrightarrow> t \<in> Q \<Longrightarrow> u \<in> Q \<Longrightarrow> c \<in> set (T t) \<Longrightarrow> c \<in> set (T u) \<Longrightarrow> t = u"
  unfolding spread_def by blast

lemma tiles_of_Diff:
  assumes "spread T k Q" "R \<subseteq> Q"
  shows "tiles_of T (Q - R) = tiles_of T Q - tiles_of T R"
  using spread_same [OF assms(1)] assms(2) unfolding tiles_of_def by fastforce

lemma tiles_of_disjoint:
  assumes "spread T k (Q \<union> R)" "Q \<inter> R = {}"
  shows "tiles_of T Q \<inter> tiles_of T R = {}"
  using spread_same [OF assms(1)] assms(2) unfolding tiles_of_def by fastforce

lemma card_tiles_of:
  assumes "spread T k Q" "finite Q"
  shows "card (tiles_of T Q) = k * card Q"
  using assms(2,1) unfolding tiles_of_def
  by (subst card_UN_disjoint) (auto simp: spread_def distinct_card)

lemma update_tiles_in_sync:
  assumes change: "gpu_change s s' new_quads deleted" and arr: "array_ok arr" "held_tiles arr = tiles_of T (on_gpu s)"
    and T: "spread T k (on_gpu s \<union> on_gpu s')" and room: "k * card (on_gpu s') \<le> unat (ga_size arr)"
    and es: "distinct (map fst es)" "fst ` set es = tiles_of T (dq_id ` set new_quads)" "\<forall>e \<in> set es. snd e \<noteq> None"
  shows "\<exists>us arr'. update_gpu_tiles (concat (map T deleted)) es arr = Inr (us, arr') \<and> map fst us = map snd es \<and>
    array_ok arr' \<and> held_tiles arr' = tiles_of T (on_gpu s') \<and> ga_size arr' = ga_size arr"
proof -
  let ?N = "dq_id ` set new_quads" and ?D = "set deleted"
  have c: "distinct deleted" "?D \<subseteq> on_gpu s" "?N \<inter> on_gpu s = {}" "on_gpu s' = (on_gpu s - ?D) \<union> ?N"
    using change by (auto simp: gpu_change_def)
  have T1: "spread T k (on_gpu s)" and T2: "spread T k ?D" and T3: "spread T k (on_gpu s')" and T4: "spread T k (?N \<union> on_gpu s)"
    using c by (auto intro: spread_subset [OF T])
  have held: "tiles_of T (on_gpu s') = (held_tiles arr - set (concat (map T deleted))) \<union> fst ` set es"
    by (simp only: c(4) tiles_of_Un tiles_of_Diff [OF T1 c(2)] arr(2) es(2) set_tiles)
  have zoom: "zoom_level c < 100" if "c \<in> fst ` set es" for c
    using that T4 unfolding es(2) tiles_of_def spread_def by blast
  have "\<exists>us arr'. and_then (remove_tiles remove_tile (concat (map T deleted)) arr) (upload_tiles is_full add_tile es) = Inr (us, arr') \<and>
     map fst us = map snd es \<and> array_ok arr' \<and> held_tiles arr' = (held_tiles arr - set (concat (map T deleted))) \<union> fst ` set es \<and>
     unat (ga_size arr') = unat (ga_size arr)"
  proof (rule layers.update_store [OF arr(1)])
    show "distinct (concat (map T deleted))" by (rule distinct_tiles [OF T2 c(1)])
    show "set (concat (map T deleted)) \<subseteq> held_tiles arr" using c(2) by (auto simp: arr(2) tiles_of_def)
    show "distinct (map fst es)" by (rule es(1))
    show "fst ` set es \<inter> held_tiles arr = {}" unfolding es(2) arr(2) by (rule tiles_of_disjoint [OF T4 c(3)])
    show "card (held_tiles arr - set (concat (map T deleted)) \<union> fst ` set es) \<le> unat (ga_size arr)"
      unfolding held [symmetric] using room card_tiles_of [OF T3] by (simp add: on_gpu_def)
    show "\<forall>e \<in> set es. zoom_level (fst e) < 100 \<and> snd e \<noteq> None" using zoom es(3) by blast
  qed
  then show ?thesis unfolding update_gpu_tiles_def held by (simp add: word_unat_eq_iff)
qed

text \<open>
  In the memory cache every quad has its four tiles: what \<open>QuadAssembler\<close> delivers (\<open>Tile_Pipeline\<close>).
\<close>

definition whole_quad :: "(tile_id \<Rightarrow> tile_id list) \<Rightarrow> data_quad \<Rightarrow> bool" where
  "whole_quad children q \<longleftrightarrow> distinct (map td_id (dq_tiles q)) \<and> td_id ` set (dq_tiles q) = set (children (dq_id q))"

definition ram_whole :: "(tile_id \<Rightarrow> tile_id list) \<Rightarrow> 'c scheduler \<Rightarrow> bool" where
  "ram_whole children s \<longleftrightarrow> (\<forall>t q. peak_at (sc_ram s) t = Some q \<longrightarrow> whole_quad children q)"

lemma shallow_on_gpu: "scheduler_ok s \<Longrightarrow> t \<in> on_gpu s \<Longrightarrow> valid_tile t \<and> zoom_level t < 29"
  unfolding scheduler_ok_def shallow_def on_gpu_def by blast

lemma spread_children:
  assumes "quad_tree parent children" "\<And>t. t \<in> Q \<Longrightarrow> valid_tile t \<and> zoom_level t < 29"
  shows "spread children 4 Q"
proof -
  have "zoom_level c < 100" if "t \<in> Q" "c \<in> set (children t)" for t c
  proof -
    have "valid_tile c" using assms(2) [OF that(1)] quad_treeD(3) [OF assms(1) _ _ that(2)] by blast
    then have "zoom_level c \<le> 29" by (simp add: valid_tile_def)
    then show ?thesis by (rule le_less_trans) simp
  qed
  moreover have "set (children t) \<inter> set (children u) = {}" if "t \<in> Q" "u \<in> Q" "t \<noteq> u" for t u
    using assms(2) that quad_treeD(4) [OF assms(1)] by blast
  moreover have "distinct (children t) \<and> length (children t) = 4" if "t \<in> Q" for t
    using assms(2) [OF that] quad_treeD(1,2) [OF assms(1)] by blast
  ultimately show ?thesis unfolding spread_def by blast
qed

definition heights_in_sync :: "(tile_id \<Rightarrow> tile_id list) \<Rightarrow> 'c scheduler \<Rightarrow> gpu_array \<Rightarrow> bool" where
  "heights_in_sync children s arr \<longleftrightarrow> scheduler_ok s \<and> ram_whole children s \<and> array_ok arr \<and>
     held_tiles arr = tiles_of children (on_gpu s) \<and> 4 * unat (st_gpu_quad_limit (sc_settings s)) \<le> unat (ga_size arr)"

definition textures_in_sync :: "'c scheduler \<Rightarrow> gpu_array \<Rightarrow> bool" where
  "textures_in_sync s arr \<longleftrightarrow> scheduler_ok s \<and> array_ok arr \<and> held_tiles arr = on_gpu s \<and>
     unat (st_gpu_quad_limit (sc_settings s)) \<le> unat (ga_size arr)"

lemma update_keeps_heights:
  assumes sync: "heights_in_sync children s arr" and tree: "quad_tree parent children" and nth: "nth_element_spec nth_el"
  shows "\<exists>s' new_quads deleted us arr'.
    update_gpu_quads children nth_el refine ready clock s = Some (Inr (s', [Gpu_Update new_quads deleted])) \<and>
    update_heights children decode (Gpu_Update new_quads deleted) arr = Inr (us, arr') \<and>
    map fst us = map snd (geometry_tiles decode new_quads) \<and> heights_in_sync children s' arr'"
proof -
  have s: "scheduler_ok s" "ram_whole children s" and arr: "array_ok arr" "held_tiles arr = tiles_of children (on_gpu s)"
    and room: "4 * unat (st_gpu_quad_limit (sc_settings s)) \<le> unat (ga_size arr)"
    using sync by (simp_all add: heights_in_sync_def)
  obtain s' new_quads deleted where run:
      "update_gpu_quads children nth_el refine ready clock s = Some (Inr (s', [Gpu_Update new_quads deleted]))"
      "scheduler_ok s'" "gpu_change s s' new_quads deleted"
      "set new_quads \<subseteq> set (candidates_of children (shippable (should_refine refine s) ready) s)"
      "card (on_gpu s') \<le> unat (st_gpu_quad_limit (sc_settings s))" "sc_settings s' = sc_settings s"
      "peak_at (sc_ram s') = peak_at (sc_ram s)"
    using update_gpu_quads_run [OF s(1) tree nth, of refine ready clock] by blast
  have whole: "whole_quad children q" if "q \<in> set new_quads" for q
    using that run(4) candidates_facts(2) [OF s(1) tree] s(2) unfolding ram_whole_def by blast
  have T: "spread children 4 (on_gpu s \<union> on_gpu s')"
    using shallow_on_gpu [OF s(1)] shallow_on_gpu [OF run(2)] by (intro spread_children [OF tree]) blast
  have "dq_id ` set new_quads \<subseteq> on_gpu s'" "distinct (map dq_id new_quads)"
    using run(3) by (auto simp: gpu_change_def)
  note N = spread_subset [OF T, of "dq_id ` set new_quads"] this
  have es: "distinct (map fst (geometry_tiles decode new_quads))"
    "fst ` set (geometry_tiles decode new_quads) = tiles_of children (dq_id ` set new_quads)"
    "\<forall>e \<in> set (geometry_tiles decode new_quads). snd e \<noteq> None"
  proof -
    have fst_eq: "map fst (geometry_tiles decode new_quads) = concat (map (\<lambda>q. map td_id (dq_tiles q)) new_quads)"
      by (simp add: geometry_tiles_def map_concat o_def)
    show "distinct (map fst (geometry_tiles decode new_quads))"
      unfolding fst_eq
    proof (rule distinct_concat_map)
      show "distinct new_quads" using N(3) by (simp add: distinct_map)
      show "set (map td_id (dq_tiles q)) \<inter> set (map td_id (dq_tiles r)) = {}"
        if "q \<in> set new_quads" "r \<in> set new_quads" "q \<noteq> r" for q r
      proof -
        have "dq_id q \<noteq> dq_id r" using N(3) that by (auto simp: distinct_map inj_on_def)
        then have "set (children (dq_id q)) \<inter> set (children (dq_id r)) = {}"
          using T N(2) that(1,2) unfolding spread_def by blast
        then show ?thesis using whole that(1,2) by (simp add: whole_quad_def)
      qed
    qed (use whole in \<open>simp add: whole_quad_def\<close>)
    have "fst ` set (geometry_tiles decode new_quads) = (\<Union>q \<in> set new_quads. td_id ` set (dq_tiles q))"
      using arg_cong [OF fst_eq, of set] by simp
    also have "\<dots> = (\<Union>q \<in> set new_quads. set (children (dq_id q)))"
      using whole by (intro SUP_cong refl) (simp add: whole_quad_def)
    finally show "fst ` set (geometry_tiles decode new_quads) = tiles_of children (dq_id ` set new_quads)"
      by (simp add: tiles_of_def)
    show "\<forall>e \<in> set (geometry_tiles decode new_quads). snd e \<noteq> None" by (auto simp: geometry_tiles_def)
  qed
  have "4 * card (on_gpu s') \<le> unat (ga_size arr)" using run(5) room by linarith
  from update_tiles_in_sync [OF run(3) arr T this es]
  obtain us arr' where "update_gpu_tiles (concat (map children deleted)) (geometry_tiles decode new_quads) arr = Inr (us, arr')"
    "map fst us = map snd (geometry_tiles decode new_quads)" "array_ok arr'" "held_tiles arr' = tiles_of children (on_gpu s')"
    "ga_size arr' = ga_size arr" by blast
  then show ?thesis
    using run room s(2) by (auto simp: update_heights_def geometry_deleted_def heights_in_sync_def ram_whole_def)
qed

lemma update_keeps_textures:
  assumes sync: "textures_in_sync s arr" and tree: "quad_tree parent children" and nth: "nth_element_spec nth_el"
  shows "\<exists>s' new_quads deleted us arr'.
    update_gpu_quads children nth_el refine ready clock s = Some (Inr (s', [Gpu_Update new_quads deleted])) \<and>
    update_textures decode (Gpu_Update new_quads deleted) arr = Inr (us, arr') \<and>
    map fst us = map snd (texture_tiles decode new_quads) \<and> textures_in_sync s' arr'"
proof -
  have s: "scheduler_ok s" and arr: "array_ok arr" "held_tiles arr = on_gpu s"
    and room: "unat (st_gpu_quad_limit (sc_settings s)) \<le> unat (ga_size arr)"
    using sync by (simp_all add: textures_in_sync_def)
  obtain s' new_quads deleted where run:
      "update_gpu_quads children nth_el refine ready clock s = Some (Inr (s', [Gpu_Update new_quads deleted]))"
      "scheduler_ok s'" "gpu_change s s' new_quads deleted"
      "card (on_gpu s') \<le> unat (st_gpu_quad_limit (sc_settings s))" "sc_settings s' = sc_settings s"
    using update_gpu_quads_run [OF s tree nth, of refine ready clock] by blast
  let ?T = "\<lambda>t :: tile_id. [t]"
  have single: "tiles_of ?T Q = Q" for Q by (auto simp: tiles_of_def)
  have low: "zoom_level t < 100" if "t \<in> on_gpu s \<union> on_gpu s'" for t
    using that shallow_on_gpu [OF s, of t] shallow_on_gpu [OF run(2), of t]
    by (auto intro: less_trans [where y = 29])
  have T: "spread ?T 1 (on_gpu s \<union> on_gpu s')" using low by (simp add: spread_def)
  have "map fst (texture_tiles decode new_quads) = map dq_id new_quads" by (simp add: texture_tiles_def)
  then have es: "distinct (map fst (texture_tiles decode new_quads))"
      "fst ` set (texture_tiles decode new_quads) = tiles_of ?T (dq_id ` set new_quads)"
      "\<forall>e \<in> set (texture_tiles decode new_quads). snd e \<noteq> None"
    using run(3) by (auto simp: gpu_change_def single texture_tiles_def image_image o_def)
  have held: "held_tiles arr = tiles_of ?T (on_gpu s)" by (simp add: single arr(2))
  have "1 * card (on_gpu s') \<le> unat (ga_size arr)" using run(4) room by linarith
  from update_tiles_in_sync [OF run(3) arr(1) held T this es]
  obtain us arr' where "update_gpu_tiles (concat (map ?T deleted)) (texture_tiles decode new_quads) arr = Inr (us, arr')"
    "map fst us = map snd (texture_tiles decode new_quads)" "array_ok arr'" "held_tiles arr' = on_gpu s'"
    "ga_size arr' = ga_size arr" unfolding single by blast
  then show ?thesis using run room by (simp add: update_textures_def textures_in_sync_def)
qed

subsection \<open>The quads on the GPU form a tree\<close>

text \<open>
  Every quad but the root has its parent on the GPU. Purging keeps this because a parent was always
  seen later than its children, or at the same time, when the stamp prefers it.
\<close>

definition rooted :: "(tile_id \<Rightarrow> tile_id list) \<Rightarrow> tile_id set \<Rightarrow> bool" where
  "rooted children G \<longleftrightarrow> (\<forall>t \<in> G. t = root_tile \<or> (\<exists>u \<in> G. t \<in> set (children u)))"

definition seen_by :: "u64 \<Rightarrow> tile_id cache_map \<Rightarrow> tile_id \<Rightarrow> bool" where
  "seen_by now m t \<longleftrightarrow> unat (visited_of m t) + unat (zoom_level t) \<le> 100 * unat now"

definition gpu_tree :: "(tile_id \<Rightarrow> tile_id list) \<Rightarrow> u64 \<Rightarrow> 'c scheduler \<Rightarrow> bool" where
  "gpu_tree children now s \<longleftrightarrow> rooted children (on_gpu s) \<and> (\<forall>t \<in> on_gpu s. seen_by now (sc_gpu s) t) \<and>
     (\<forall>u \<in> on_gpu s. \<forall>t \<in> on_gpu s. t \<in> set (children u) \<longrightarrow> visited_of (sc_gpu s) t < visited_of (sc_gpu s) u)"

lemma walk_mono:
  "t \<in> set (visit_walk n children p look node) \<Longrightarrow>
   (\<And>u. u \<in> set (visit_walk n children p look node) \<Longrightarrow> \<exists>y. look' u = Some y \<and> p' y) \<Longrightarrow>
   t \<in> set (visit_walk n children p' look' node)"
proof (induction n arbitrary: node)
  case (Suc n)
  obtain x where x: "look node = Some x" using Suc.prems(1) by (cases "look node") auto
  have px: "p x" using Suc.prems(1) x by (cases "p x") auto
  have "node \<in> set (visit_walk (Suc n) children p look node)" using x px by simp
  then obtain y where y: "look' node = Some y" "p' y" using Suc.prems(2) by blast
  show ?case
  proof (cases "t = node")
    case False
    then obtain c where c: "c \<in> set (children node)" "t \<in> set (visit_walk n children p look c)"
      using Suc.prems(1) x px by auto
    have "\<exists>y. look' u = Some y \<and> p' y" if "u \<in> set (visit_walk n children p look c)" for u
      using Suc.prems(2) [of u] that c(1) x px by auto
    from Suc.IH [OF c(2) this] show ?thesis using c(1) y by auto
  qed (use y in simp)
qed simp

lemma stamp_value:
  assumes "zoom_level t < 29" "100 * unat now < 2 ^ 64" "29 \<le> 100 * unat now"
  shows "unat (visited_stamp now t) = 100 * unat now - unat (zoom_level t)"
proof -
  have z: "unat (ucast (zoom_level t) :: u64) = unat (zoom_level t)"
    by (simp add: unsigned_ucast_eq take_bit_nat_eq_self_iff less_le_trans [OF unsigned_less])
  have m: "unat (now * 100) = 100 * unat now"
    using assms(2) by (simp add: unat_word_ariths mult.commute)
  have "unat (zoom_level t) \<le> unat (now * 100)" using assms(1,3) m by (simp add: word_less_nat_alt)
  then have "unat (now * 100 - ucast (zoom_level t)) = unat (now * 100) - unat (zoom_level t)"
    by (metis unat_sub word_le_nat_alt z)
  then show ?thesis by (simp add: visited_stamp_def m)
qed

lemma visited_restamp:
  fixes m :: "tile_id cache_map"
  assumes "cache_ok (\<lambda>t. t) m" "t \<in> fst ` set m"
  shows "visited_of (restamp now (\<lambda>t. t) ts m) t = (if t \<in> set ts then visited_stamp now t else visited_of m t)"
proof -
  obtain ob where "map_of m t = Some ob" using assms(2) by (metis map_of_eq_None_iff option.exhaust set_map)
  then show ?thesis using cache_ok_tid [OF assms(1)] by (simp add: visited_of_def map_of_restamp)
qed

lemma visited_filter: "P t \<Longrightarrow> visited_of (filter (\<lambda>e. P (fst e)) m) t = visited_of m t"
  by (induction m) (auto simp: visited_of_def)

lemma zoom_child:
  assumes "quad_tree parent children" "valid_tile u" "zoom_level u < 29" "t \<in> set (children u)"
  shows "unat (zoom_level t) = Suc (unat (zoom_level u))"
  using assms(3) quad_treeD(5) [OF assms] by (simp add: unat_word_ariths word_less_nat_alt)

text \<open>The order of the stamps after the visit, before the purge.\<close>

lemma restamped_order:
  assumes tree: "quad_tree parent children" and m: "cache_ok (\<lambda>t. t) m" "shallow m"
    and A: "A = set ts" "\<And>t. t \<in> A \<Longrightarrow> t = root_tile \<or> (\<exists>u \<in> A. t \<in> set (children u))" "A \<subseteq> fst ` set m"
    and old: "\<And>t. t \<in> fst ` set m - A \<Longrightarrow> seen_by now m t"
      "\<And>u t. u \<in> fst ` set m - A \<Longrightarrow> t \<in> fst ` set m - A \<Longrightarrow> t \<in> set (children u) \<Longrightarrow> visited_of m t < visited_of m u"
    and clock: "now \<le> now2" "100 * unat now2 < 2 ^ 64" "29 \<le> 100 * unat now2"
  defines "m2 \<equiv> restamp now2 (\<lambda>t. t) ts m"
  shows "t \<in> fst ` set m \<Longrightarrow> seen_by now2 m2 t"
    "u \<in> fst ` set m \<Longrightarrow> t \<in> fst ` set m \<Longrightarrow> t \<in> set (children u) \<Longrightarrow> visited_of m2 t < visited_of m2 u"
proof -
  have low: "valid_tile t \<and> zoom_level t < 29" if "t \<in> fst ` set m" for t
    using m(2) that unfolding shallow_def by blast
  have new: "unat (visited_of m2 t) = 100 * unat now2 - unat (zoom_level t)" if "t \<in> A" for t
  proof -
    have t: "t \<in> fst ` set m" using that A(3) by blast
    then show ?thesis
      using that A(1) low [OF t] stamp_value [OF _ clock(2,3), of t]
      by (simp add: m2_def visited_restamp [OF m(1) t])
  qed
  have kept: "visited_of m2 t = visited_of m t" if "t \<in> fst ` set m - A" for t
    using that A(1) by (simp add: m2_def visited_restamp [OF m(1)])
  have z: "unat (zoom_level t) \<le> 100 * unat now2" if "t \<in> fst ` set m" for t
    using low [OF that] clock(3) by (simp add: word_less_nat_alt)
  have now: "unat now \<le> unat now2" using clock(1) by (simp add: word_le_nat_alt)
  show seen: "seen_by now2 m2 t" if t: "t \<in> fst ` set m" for t
  proof (cases "t \<in> A")
    case True
    then show ?thesis using new z [OF t] by (simp add: seen_by_def)
  next
    case False
    then show ?thesis using old(1) [of t] kept [of t] t now by (simp add: seen_by_def)
  qed
  show "visited_of m2 t < visited_of m2 u"
    if u: "u \<in> fst ` set m" and t: "t \<in> fst ` set m" and child: "t \<in> set (children u)"
  proof -
    have zoom: "unat (zoom_level t) = Suc (unat (zoom_level u))" using zoom_child [OF tree _ _ child] low [OF u] by blast
    have parent: "parent t = u" using quad_treeD(4) [OF tree _ _ child] low [OF u] by blast
    show ?thesis
    proof (cases "t \<in> A")
      case True
      have "t \<noteq> root_tile" using zoom by (auto simp: root_tile_def)
      then obtain u' where u': "u' \<in> A" "t \<in> set (children u')" using A(2) [OF True] by blast
      then have "u' = u" using quad_treeD(4) [OF tree _ _ u'(2)] low A(3) parent by blast
      then show ?thesis
        using new [OF True] new [OF u'(1)] zoom z [OF t] by (simp add: word_less_nat_alt)
    next
      case t': False
      show ?thesis
      proof (cases "u \<in> A")
        case True
        then show ?thesis
          using new [OF True] old(1) [of t] kept [of t] t t' now zoom z [OF u] by (simp add: seen_by_def word_less_nat_alt)
      next
        case False
        then show ?thesis using old(2) [of u t] kept [of t] kept [of u] u t t' child by simp
      qed
    qed
  qed
qed

text \<open>A purge of stamps in this order keeps the tree.\<close>

lemma purge_keeps_tree:
  assumes nth: "nth_element_spec nth_el" and m: "cache_ok (\<lambda>t. t) m" and rooted: "rooted children (fst ` set m)"
    and order: "\<And>u t. u \<in> fst ` set m \<Longrightarrow> t \<in> fst ` set m \<Longrightarrow> t \<in> set (children u) \<Longrightarrow> visited_of m t < visited_of m u"
  shows "rooted children (fst ` set (snd (purge nth_el n m)))"
proof -
  let ?kept = "fst ` set m - set (gone nth_el n m)"
  have keys: "fst ` set (snd (purge nth_el n m)) = ?kept" by (auto simp: purge_gone)
  show ?thesis
    unfolding rooted_def keys
  proof (intro ballI)
    fix t assume t: "t \<in> ?kept"
    show "t = root_tile \<or> (\<exists>u \<in> ?kept. t \<in> set (children u))"
    proof (cases "t = root_tile")
      case False
      then obtain u where u: "u \<in> fst ` set m" "t \<in> set (children u)" using rooted t unfolding rooted_def by blast
      have "u \<notin> set (gone nth_el n m)"
        using gone_facts(4) [OF nth m t] order [OF u(1) _ u(2)] t by (meson Diff_iff not_le)
      then show ?thesis using u by blast
    qed simp
  qed
qed

lemma visited_purge: "t \<in> fst ` set (snd (purge nth_el n m)) \<Longrightarrow> visited_of (snd (purge nth_el n m)) t = visited_of m t"
  unfolding purge_gone snd_conv
  by (rule visited_filter [of "\<lambda>t. t \<notin> set (gone nth_el n m)" t m]) auto

lemma update_keeps_tree:
  assumes ok: "scheduler_ok s" and tree: "quad_tree parent children" and nth: "nth_element_spec nth_el"
    and before: "gpu_tree children now s" and now: "now \<le> at_gpu_visit clock"
    and clock: "100 * unat (at_gpu_visit clock) < 2 ^ 64" "29 \<le> 100 * unat (at_gpu_visit clock)"
    and run: "update_gpu_quads children nth_el refine ready clock s = Some (Inr (s', sigs))"
  shows "gpu_tree children (at_gpu_visit clock) s'"
proof -
  let ?wanted = "should_refine refine s" and ?now2 = "at_gpu_visit clock"
  let ?p = "shippable ?wanted ready"
  let ?C = "candidates_of children ?p s" and ?W = "accepted children ?p (sc_ram s)"
  obtain gpu1 where g: "fst ` set gpu1 = on_gpu s \<union> dq_id ` set ?C" "cache_ok (\<lambda>t. t) gpu1" "shallow gpu1"
      "\<forall>t. t \<notin> dq_id ` set ?C \<longrightarrow> map_of gpu1 t = map_of (sc_gpu s) t"
      "sc_gpu s' = snd (purge nth_el (st_gpu_quad_limit (sc_settings s))
        (restamp ?now2 (\<lambda>t. t) (accepted children ?wanted gpu1) gpu1))"
    using update_gpu_quads_run [OF ok tree nth, of refine ready clock] run by auto
  let ?A = "accepted children ?wanted gpu1"
  let ?m2 = "restamp ?now2 (\<lambda>t. t) ?A gpu1"
  have ram: "cache_ok dq_id (sc_ram s)" using ok by (simp add: scheduler_ok_def)
  have "peak_at gpu1 u = Some u \<and> ?wanted u" if u: "u \<in> set ?W" for u
  proof -
    have "u \<in> fst ` set gpu1" using met_candidates [OF u ram] g(1) by blast
    then obtain x where "peak_at gpu1 u = Some x" by (auto simp: contains_def peak_at_def simp flip: contains_iff)
    moreover obtain q where "peak_at (sc_ram s) u = Some q" "?p q" using accepted_cached [OF u] by blast
    ultimately show ?thesis
      using peak_at_tid [OF ram, of u q] peak_at_tid [OF g(2), of u x] by (auto simp: shippable_def)
  qed
  then have wanted: "\<exists>y. peak_at gpu1 u = Some y \<and> ?wanted y" if "u \<in> set ?W" for u using that by blast
  have "u \<in> set ?A" if "u \<in> set ?W" for u
    using walk_mono [OF that [unfolded accepted_def] wanted [unfolded accepted_def]] by (simp only: accepted_def)
  then have WA: "set ?W \<subseteq> set ?A" by (rule subsetI)
  have A1: "set ?A \<subseteq> fst ` set gpu1"
    using accepted_cached peak_at_contains by (fastforce simp flip: contains_iff)
  have CW: "dq_id ` set ?C \<subseteq> set ?W" using candidates_met [OF _ ram] by blast
  have old: "seen_by now gpu1 t"
      "t \<in> on_gpu s" "visited_of gpu1 t = visited_of (sc_gpu s) t" if "t \<in> fst ` set gpu1 - set ?A" for t
  proof -
    have "t \<notin> dq_id ` set ?C" using that CW WA by blast
    then show "t \<in> on_gpu s" "visited_of gpu1 t = visited_of (sc_gpu s) t"
      using that g(1,4) by (auto simp: visited_of_def)
    then show "seen_by now gpu1 t" using before by (simp add: gpu_tree_def seen_by_def)
  qed
  have order_old: "visited_of gpu1 t < visited_of gpu1 u"
    if "u \<in> fst ` set gpu1 - set ?A" "t \<in> fst ` set gpu1 - set ?A" "t \<in> set (children u)" for u t
    using old(2,3) [OF that(1)] old(2,3) [OF that(2)] before that(3) by (simp add: gpu_tree_def)
  note ordered = restamped_order [OF tree g(2,3) refl accepted_parent A1 old(1) order_old now clock]
  have m2: "cache_ok (\<lambda>t. t) ?m2" "fst ` set ?m2 = fst ` set gpu1"
    using g(2) by (rule restamp_ok) (simp only: set_map [symmetric] keys_restamp)
  have "rooted children (fst ` set ?m2)"
    unfolding rooted_def m2(2)
  proof (intro ballI)
    fix t assume "t \<in> fst ` set gpu1"
    then consider "t \<in> on_gpu s" | "t \<in> set ?W" using g(1) CW by blast
    then show "t = root_tile \<or> (\<exists>u \<in> fst ` set gpu1. t \<in> set (children u))"
    proof cases
      case 1
      have "rooted children (on_gpu s)" using before by (simp add: gpu_tree_def)
      then have "t = root_tile \<or> (\<exists>u \<in> on_gpu s. t \<in> set (children u))" using 1 by (simp only: rooted_def)
      moreover have "on_gpu s \<subseteq> fst ` set gpu1" using g(1) by (rule equalityD2 [THEN le_supE])
      ultimately show ?thesis by blast
    next
      case 2
      then have "t = root_tile \<or> (\<exists>u \<in> set ?A. t \<in> set (children u))" using accepted_parent [of t] WA by blast
      then show ?thesis using A1 by blast
    qed
  qed
  then have "rooted children (on_gpu s')"
    unfolding on_gpu_def g(5) by (rule purge_keeps_tree [OF nth m2(1)]) (simp only: m2(2) ordered(2))
  moreover have sub: "on_gpu s' \<subseteq> fst ` set gpu1" unfolding on_gpu_def g(5) using m2(2) by (auto simp: purge_gone)
  moreover have visited: "visited_of (sc_gpu s') t = visited_of ?m2 t" if "t \<in> on_gpu s'" for t
    using that unfolding on_gpu_def g(5) by (rule visited_purge)
  ultimately show ?thesis
    using ordered unfolding gpu_tree_def seen_by_def by (auto simp: subset_iff)
qed

end
