(* ===== verification/Tile_Pipeline.thy ===== *)
theory Tile_Pipeline
  imports Tile_Sync
begin

text \<open>
  From a request for quads to their delivery, as nucleus/tile/setup.h connects the parts:
  \<open>SlotLimiter\<close> lets a bounded number of quads be in flight, \<open>RateLimiter\<close> spreads them in time,
  \<open>QuadAssembler\<close> asks \<open>TileLoadService\<close> for the four tiles of a quad and puts them together.
  Signals between the first three are direct calls; the answers of the load service come later, in
  any order. \<open>children\<close> and \<open>parent\<close> are the methods of the tile id, \<open>no_tile\<close> is a tile as its default
  constructor leaves it.
\<close>

subsection \<open>SlotLimiter\<close>

record slot_limiter =
  sl_limit :: u32
  sl_in_flight :: "tile_id set"
  sl_queue :: "tile_id list"

definition new_slot_limiter :: slot_limiter where
  "new_slot_limiter = \<lparr>sl_limit = 16, sl_in_flight = {}, sl_queue = []\<rparr>"

definition set_slot_limit :: "u32 \<Rightarrow> slot_limiter \<Rightarrow> slot_limiter checked" where
  "set_slot_limit n s = require (0 < n) ''new_limit > 0'' (Inr (s\<lparr>sl_limit := n\<rparr>))"

definition slots_taken :: "slot_limiter \<Rightarrow> u32" where
  "slots_taken s = of_nat (card (sl_in_flight s))"

text \<open>The loop of \<open>request_quads\<close>, with the quads it asks for.\<close>

fun request_each :: "tile_id list \<Rightarrow> slot_limiter \<Rightarrow> slot_limiter \<times> tile_id list" where
  "request_each [] s = (s, [])"
| "request_each (t # ts) s =
     (if t \<in> sl_in_flight s then request_each ts s
      else if unat (sl_limit s) \<le> card (sl_in_flight s) then request_each ts (s\<lparr>sl_queue := sl_queue s @ [t]\<rparr>)
      else (let (s', asked) = request_each ts (s\<lparr>sl_in_flight := insert t (sl_in_flight s)\<rparr>) in (s', t # asked)))"

definition request_quads :: "tile_id list \<Rightarrow> slot_limiter \<Rightarrow> slot_limiter \<times> tile_id list" where
  "request_quads ts s = request_each ts (s\<lparr>sl_queue := []\<rparr>)"

text \<open>\<open>deliver_quad\<close>: the slot that became free goes to the head of the queue.\<close>

definition deliver_quad :: "data_quad \<Rightarrow> slot_limiter \<Rightarrow> slot_limiter \<times> tile_id list" where
  "deliver_quad q s =
     (let s1 = s\<lparr>sl_in_flight := sl_in_flight s - {dq_id q}\<rparr>
      in case sl_queue s1 of
        [] \<Rightarrow> (s1, [])
      | t # ts \<Rightarrow> (s1\<lparr>sl_in_flight := insert t (sl_in_flight s1), sl_queue := ts\<rparr>, [t]))"

subsection \<open>RateLimiter\<close>

record rate_limiter =
  rl_rate :: u32
  rl_period :: u32
  rl_queue :: "tile_id list"
  rl_in_flight :: "u64 list"
  rl_timer :: "u32 option"

definition new_rate_limiter :: rate_limiter where
  "new_rate_limiter = \<lparr>rl_rate = 100, rl_period = 1000, rl_queue = [], rl_in_flight = [], rl_timer = None\<rparr>"

definition set_rate_limit :: "u32 \<Rightarrow> u32 \<Rightarrow> rate_limiter \<Rightarrow> rate_limiter checked" where
  "set_rate_limit rate period r =
     require (rate < 2147483647) ''rate < unsigned(std::numeric_limits<int>::max())''
     (require (period < 2147483647) ''period_msecs < unsigned(std::numeric_limits<int>::max())''
     (Inr (r\<lparr>rl_rate := rate, rl_period := period\<rparr>)))"

text \<open>The loop of \<open>process_request_queue\<close>: what it sends and the time stamps afterwards.\<close>

fun send_queued :: "u32 \<Rightarrow> u64 \<Rightarrow> tile_id list \<Rightarrow> u64 list \<Rightarrow> tile_id list \<times> u64 list" where
  "send_queued rate now [] stamps = ([], stamps)"
| "send_queued rate now (t # ts) stamps =
     (if unat rate \<le> length stamps then ([], stamps)
      else (let (sent, stamps') = send_queued rate now ts (stamps @ [now]) in (t # sent, stamps')))"

definition process_queue :: "u64 \<Rightarrow> rate_limiter \<Rightarrow> rate_limiter \<times> tile_id list" where
  "process_queue now r =
     (let stamps = filter (\<lambda>x. \<not> x < now - ucast (rl_period r)) (rl_in_flight r);
          (sent, stamps') = send_queued (rl_rate r) now (rl_queue r) stamps;
          queue = drop (length sent) (rl_queue r)
      in (r\<lparr>rl_in_flight := stamps', rl_queue := queue,
            rl_timer := if queue \<noteq> [] then Some (1 + rl_period r div 10) else rl_timer r\<rparr>, sent))"

definition rate_quad :: "u64 \<Rightarrow> tile_id \<Rightarrow> rate_limiter \<Rightarrow> rate_limiter \<times> tile_id list" where
  "rate_quad now t r = process_queue now (r\<lparr>rl_queue := rl_queue r @ [t]\<rparr>)"

text \<open>The timer is single shot: it is inactive when it calls.\<close>

definition rate_timeout :: "u64 \<Rightarrow> rate_limiter \<Rightarrow> rate_limiter \<times> tile_id list" where
  "rate_timeout now r = process_queue now (r\<lparr>rl_timer := None\<rparr>)"

lemma send_queued_take:
  "send_queued rate now ts stamps = (sent, stamps') \<Longrightarrow>
   sent = take (length sent) ts \<and> stamps' = stamps @ replicate (length sent) now \<and>
   (length stamps \<le> unat rate \<longrightarrow> length stamps' \<le> unat rate)"
proof (induction ts arbitrary: stamps sent stamps')
  case (Cons t ts)
  show ?case
  proof (cases "unat rate \<le> length stamps")
    case False
    then obtain rest where rest: "send_queued rate now ts (stamps @ [now]) = (rest, stamps')" "sent = t # rest"
      using Cons.prems by (auto split: prod.splits)
    have "length (stamps @ [now]) \<le> unat rate" using False by simp
    then have IH: "rest = take (length rest) ts" "stamps' = (stamps @ [now]) @ replicate (length rest) now"
      "length stamps' \<le> unat rate" using Cons.IH [OF rest(1)] by blast+
    have "sent = take (length sent) (t # ts)" using IH(1) by (simp add: rest(2))
    moreover have "stamps' = stamps @ replicate (length sent) now" using IH(2) by (simp add: rest(2))
    ultimately show ?thesis using IH(3) by blast
  qed (use Cons.prems in auto)
qed auto

lemma process_queue_spec:
  assumes "process_queue now r = (r', sent)"
  shows "sent @ rl_queue r' = rl_queue r"
    "rl_in_flight r' = filter (\<lambda>x. \<not> x < now - ucast (rl_period r)) (rl_in_flight r) @ replicate (length sent) now"
    "length (rl_in_flight r) \<le> unat (rl_rate r) \<Longrightarrow> length (rl_in_flight r') \<le> unat (rl_rate r)"
    "rl_queue r' \<noteq> [] \<Longrightarrow> rl_timer r' \<noteq> None"
    "rl_rate r' = rl_rate r" "rl_period r' = rl_period r"
proof -
  define stamps where "stamps = filter (\<lambda>x. \<not> x < now - ucast (rl_period r)) (rl_in_flight r)"
  obtain stamps' where send: "send_queued (rl_rate r) now (rl_queue r) stamps = (sent, stamps')"
      "r' = r\<lparr>rl_in_flight := stamps', rl_queue := drop (length sent) (rl_queue r),
         rl_timer := if drop (length sent) (rl_queue r) \<noteq> [] then Some (1 + rl_period r div 10) else rl_timer r\<rparr>"
    using assms by (auto simp: process_queue_def stamps_def Let_def split: prod.splits)
  note spec = send_queued_take [OF send(1)]
  have q: "rl_queue r' = drop (length sent) (rl_queue r)" using send(2) by simp
  have "take (length sent) (rl_queue r) @ drop (length sent) (rl_queue r) = rl_queue r" by (rule append_take_drop_id)
  then show "sent @ rl_queue r' = rl_queue r" using spec unfolding q by metis
  show "rl_in_flight r' = stamps @ replicate (length sent) now" using spec send(2) by simp
  have "length stamps \<le> length (rl_in_flight r)" unfolding stamps_def by (rule length_filter_le)
  moreover have "rl_in_flight r' = stamps'" using send(2) by simp
  ultimately show "length (rl_in_flight r) \<le> unat (rl_rate r) \<Longrightarrow> length (rl_in_flight r') \<le> unat (rl_rate r)"
    using spec by (metis le_trans)
  show "rl_queue r' \<noteq> [] \<Longrightarrow> rl_timer r' \<noteq> None" using send(2) by simp
  show "rl_rate r' = rl_rate r" "rl_period r' = rl_period r" using send(2) by simp_all
qed

text \<open>
  A run of the rate limiter: \<open>Some t\<close> is a call of \<open>request_quad\<close>, \<open>None\<close> the timer; the log has every
  quad that was sent and when.
\<close>

fun rate_run :: "(u64 \<times> tile_id option) list \<Rightarrow> rate_limiter \<Rightarrow> rate_limiter \<times> (u64 \<times> tile_id) list" where
  "rate_run [] r = (r, [])"
| "rate_run ((now, ev) # evs) r =
     (let (r1, sent) = (case ev of None \<Rightarrow> rate_timeout now r | Some t \<Rightarrow> rate_quad now t r);
          (r2, sends) = rate_run evs r1
      in (r2, map (\<lambda>t. (now, t)) sent @ sends))"

text \<open>Nothing is lost and nothing overtakes.\<close>

lemma rate_run_fifo:
  "rate_run evs r = (r', sends) \<Longrightarrow> map snd sends @ rl_queue r' = rl_queue r @ List.map_filter snd evs"
proof (induction evs arbitrary: r sends)
  case (Cons e evs)
  obtain now ev where e: "e = (now, ev)" by (cases e)
  obtain r1 sent where one: "(case ev of None \<Rightarrow> rate_timeout now r | Some t \<Rightarrow> rate_quad now t r) = (r1, sent)"
    by (metis surj_pair)
  obtain sends' where rest: "rate_run evs r1 = (r', sends')" "sends = map (\<lambda>t. (now, t)) sent @ sends'"
    using Cons.prems by (auto simp: e one split: prod.splits)
  have "sent @ rl_queue r1 = rl_queue r @ (case ev of None \<Rightarrow> [] | Some t \<Rightarrow> [t])"
    using one process_queue_spec(1) by (auto simp: rate_timeout_def rate_quad_def split: option.splits)
  then show ?case using Cons.IH [OF rest(1)]
    by (auto simp: rest(2) e List.map_filter_simps o_def split: option.splits)
qed (simp add: List.map_filter_simps)

text \<open>How many of the times \<open>ts\<close> lie in the closed window of length \<open>p\<close> that starts at \<open>w\<close>.\<close>

definition in_window :: "nat \<Rightarrow> nat \<Rightarrow> u64 list \<Rightarrow> nat" where
  "in_window p w ts = length (filter (\<lambda>x. w \<le> unat x \<and> unat x \<le> w + p) ts)"

definition rate_inv :: "u32 \<Rightarrow> u32 \<Rightarrow> u64 \<Rightarrow> u64 list \<Rightarrow> rate_limiter \<Rightarrow> bool" where
  "rate_inv rate period now ts r \<longleftrightarrow> rl_rate r = rate \<and> rl_period r = period \<and> length (rl_in_flight r) \<le> unat rate \<and>
     rl_in_flight r = filter (\<lambda>x. unat now - unat period \<le> unat x) ts \<and> (\<forall>x \<in> set ts. x \<le> now) \<and>
     (\<forall>w. in_window (unat period) w ts \<le> unat rate)"

lemma length_filter_imp: "(\<And>x. P x \<Longrightarrow> Q x) \<Longrightarrow> length (filter P xs) \<le> length (filter Q xs)"
  by (induction xs) auto

lemma not_stale:
  "unat (period :: u32) \<le> unat (now :: u64) \<Longrightarrow> (\<not> x < now - ucast period) = (unat now - unat period \<le> unat x)"
proof -
  assume p: "unat period \<le> unat now"
  have "unat (ucast period :: u64) = unat period"
    by (simp add: unsigned_ucast_eq take_bit_nat_eq_self_iff less_le_trans [OF unsigned_less])
  then have "unat (now - ucast period) = unat now - unat period"
    using p by (simp add: unat_sub word_le_nat_alt)
  then show ?thesis by (simp add: word_less_nat_alt not_less)
qed

lemma process_queue_inv:
  assumes inv: "rate_inv rate period now ts r" and now: "now \<le> now'" "unat period \<le> unat now'"
    and run: "process_queue now' (r\<lparr>rl_queue := q, rl_timer := tm\<rparr>) = (r', sent)"
  shows "rate_inv rate period now' (ts @ replicate (length sent) now') r'"
proof -
  let ?p = "unat period" and ?new = "replicate (length sent) now'"
  note spec = process_queue_spec [OF run]
  have r: "rl_rate r = rate" "rl_period r = period" "length (rl_in_flight r) \<le> unat rate"
      "rl_in_flight r = filter (\<lambda>x. unat now - ?p \<le> unat x) ts" "\<forall>x \<in> set ts. x \<le> now"
      "\<And>w. in_window ?p w ts \<le> unat rate"
    using inv unfolding rate_inv_def by blast+
  have n: "unat now \<le> unat now'" using now(1) by (simp add: word_le_nat_alt)
  have "rl_in_flight r' = filter (\<lambda>x. unat now' - ?p \<le> unat x) (rl_in_flight r) @ ?new"
    using spec(2) r(2) now(2) by (simp add: not_stale)
  also have "\<dots> = filter (\<lambda>x. unat now' - ?p \<le> unat x) (ts @ ?new)"
    using n by (auto simp: r(4) intro!: filter_cong)
  finally have fl: "rl_in_flight r' = filter (\<lambda>x. unat now' - ?p \<le> unat x) (ts @ ?new)" .
  have len: "length (rl_in_flight r') \<le> unat rate" using spec(3) r(1,3) by simp
  have "in_window ?p w (ts @ ?new) \<le> unat rate" for w
  proof (cases "sent \<noteq> [] \<and> w \<le> unat now' \<and> unat now' \<le> w + ?p")
    case True
    then have "in_window ?p w (ts @ ?new) \<le> length (rl_in_flight r')"
      unfolding fl in_window_def by (intro length_filter_imp) auto
    then show ?thesis using len by (rule le_trans)
  next
    case False
    then have "in_window ?p w (ts @ ?new) = in_window ?p w ts" by (auto simp: in_window_def)
    then show ?thesis using r(6) by simp
  qed
  moreover have "\<forall>x \<in> set (ts @ ?new). x \<le> now'" using r(5) now(1) by auto
  ultimately show ?thesis using spec(5,6) r(1,2) fl len by (simp add: rate_inv_def)
qed

text \<open>In every window of the length of the period at most \<open>rate\<close> quads are sent.\<close>

lemma rate_run_inv:
  "rate_inv rate period now ts r \<Longrightarrow> sorted (now # map fst evs) \<Longrightarrow> \<forall>e \<in> set evs. unat period \<le> unat (fst e) \<Longrightarrow>
   rate_run evs r = (r', sends) \<Longrightarrow> \<exists>now'. rate_inv rate period now' (ts @ map fst sends) r'"
proof (induction evs arbitrary: now ts r sends)
  case (Cons e evs)
  obtain now1 ev where e: "e = (now1, ev)" by (cases e)
  obtain r1 sent where one: "(case ev of None \<Rightarrow> rate_timeout now1 r | Some t \<Rightarrow> rate_quad now1 t r) = (r1, sent)"
    by (metis surj_pair)
  obtain sends' where rest: "rate_run evs r1 = (r', sends')" "sends = map (\<lambda>t. (now1, t)) sent @ sends'"
    using Cons.prems by (auto simp: e one split: prod.splits)
  have now: "now \<le> now1" "unat period \<le> unat now1" "sorted (now1 # map fst evs)" using Cons.prems(2,3) by (auto simp: e)
  have "rate_inv rate period now1 (ts @ replicate (length sent) now1) r1"
  proof (cases ev)
    case None
    then show ?thesis
      using one by (intro process_queue_inv [OF Cons.prems(1) now(1,2), where q = "rl_queue r" and tm = None])
        (simp add: rate_timeout_def)
  next
    case (Some t)
    then show ?thesis
      using one by (intro process_queue_inv [OF Cons.prems(1) now(1,2), where q = "rl_queue r @ [t]" and tm = "rl_timer r"])
        (simp add: rate_quad_def)
  qed
  from Cons.IH [OF this now(3) _ rest(1)] show ?case
    using Cons.prems(3) by (auto simp: rest(2) o_def map_replicate_const)
qed auto

lemma rate_run_window:
  assumes "rate_run evs new = (r', sends)" "sorted (map fst evs)" "\<forall>e \<in> set evs. unat (rl_period new) \<le> unat (fst e)"
    and "rl_in_flight new = []"
  shows "in_window (unat (rl_period new)) w (map fst sends) \<le> unat (rl_rate new)"
proof -
  have "rate_inv (rl_rate new) (rl_period new) 0 [] new" using assms(4) by (simp add: rate_inv_def in_window_def)
  moreover have "sorted (0 # map fst evs)" using assms(2) by simp
  ultimately obtain now' where "rate_inv (rl_rate new) (rl_period new) now' ([] @ map fst sends) r'"
    using rate_run_inv [OF _ _ assms(3,1)] by blast
  then show ?thesis unfolding rate_inv_def append_Nil by blast
qed

subsection \<open>QuadAssembler\<close>

text \<open>The tiles of a quad are an array of four, written past the number received so far.\<close>

type_synonym assembler = "tile_id \<rightharpoonup> data_quad"

definition empty_quad :: "tile_data \<Rightarrow> data_quad" where
  "empty_quad no_tile = \<lparr>dq_id = td_id no_tile, dq_n_tiles = 0, dq_tiles = replicate 4 no_tile\<rparr>"

definition quad_at :: "tile_data \<Rightarrow> assembler \<Rightarrow> tile_id \<Rightarrow> data_quad" where
  "quad_at no_tile quads t = (case quads t of None \<Rightarrow> empty_quad no_tile | Some q \<Rightarrow> q)"

definition load_quad :: "(tile_id \<Rightarrow> tile_id list) \<Rightarrow> tile_data \<Rightarrow> tile_id \<Rightarrow> assembler \<Rightarrow> assembler \<times> tile_id list" where
  "load_quad children no_tile t quads = (quads(t \<mapsto> (quad_at no_tile quads t)\<lparr>dq_id := t\<rparr>), children t)"

definition put_tile :: "tile_data \<Rightarrow> data_quad \<Rightarrow> data_quad checked" where
  "put_tile td q =
     require (unat (dq_n_tiles q) < length (dq_tiles q)) ''tiles[n_tiles]''
     (Inr (q\<lparr>dq_tiles := (dq_tiles q)[unat (dq_n_tiles q) := td], dq_n_tiles := dq_n_tiles q + 1\<rparr>))"

text \<open>What the load service answers.\<close>

datatype reply = Reply_Ok "u8 list" | Reply_Not_Found | Reply_Error

definition load_finished :: "u64 \<Rightarrow> tile_id \<Rightarrow> reply \<Rightarrow> tile_data" where
  "load_finished now t reply =
     (case reply of
        Reply_Ok bytes \<Rightarrow> \<lparr>td_id = t, td_info = \<lparr>ni_status = Good, ni_timestamp = now\<rparr>, td_data = Some bytes\<rparr>
      | Reply_Not_Found \<Rightarrow> \<lparr>td_id = t, td_info = \<lparr>ni_status = Not_Found, ni_timestamp = now\<rparr>, td_data = Some []\<rparr>
      | Reply_Error \<Rightarrow> \<lparr>td_id = t, td_info = \<lparr>ni_status = Network_Error, ni_timestamp = now\<rparr>, td_data = Some []\<rparr>)"

subsection \<open>The parts connected\<close>

text \<open>\<open>pl_asked\<close> are the tiles the load service was asked for and has not answered.\<close>

record pipeline =
  pl_slots :: slot_limiter
  pl_rate :: rate_limiter
  pl_quads :: assembler
  pl_asked :: "tile_id multiset"
  pl_delivered :: "data_quad list"

definition new_pipeline :: pipeline where
  "new_pipeline = \<lparr>pl_slots = new_slot_limiter, pl_rate = new_rate_limiter, pl_quads = Map.empty, pl_asked = {#}, pl_delivered = []\<rparr>"

definition pipe_load :: "(tile_id \<Rightarrow> tile_id list) \<Rightarrow> tile_data \<Rightarrow> tile_id \<Rightarrow> pipeline \<Rightarrow> pipeline" where
  "pipe_load children no_tile t P =
     (let (quads, asked) = load_quad children no_tile t (pl_quads P)
      in P\<lparr>pl_quads := quads, pl_asked := pl_asked P + mset asked\<rparr>)"

definition pipe_sent :: "(tile_id \<Rightarrow> tile_id list) \<Rightarrow> tile_data \<Rightarrow> rate_limiter \<times> tile_id list \<Rightarrow> pipeline \<Rightarrow> pipeline" where
  "pipe_sent children no_tile rs P = fold (pipe_load children no_tile) (snd rs) (P\<lparr>pl_rate := fst rs\<rparr>)"

definition pipe_rate :: "(tile_id \<Rightarrow> tile_id list) \<Rightarrow> tile_data \<Rightarrow> u64 \<Rightarrow> tile_id \<Rightarrow> pipeline \<Rightarrow> pipeline" where
  "pipe_rate children no_tile now t P = pipe_sent children no_tile (rate_quad now t (pl_rate P)) P"

text \<open>The clock is read for every quad the rate limiter gets: \<open>clock t\<close> is its reading for quad \<open>t\<close>.\<close>

definition pipe_request :: "(tile_id \<Rightarrow> tile_id list) \<Rightarrow> tile_data \<Rightarrow> (tile_id \<Rightarrow> u64) \<Rightarrow> tile_id list \<Rightarrow> pipeline \<Rightarrow> pipeline" where
  "pipe_request children no_tile clock ts P =
     (let (slots, asked) = request_quads ts (pl_slots P)
      in fold (\<lambda>t. pipe_rate children no_tile (clock t) t) asked (P\<lparr>pl_slots := slots\<rparr>))"

definition pipe_timeout :: "(tile_id \<Rightarrow> tile_id list) \<Rightarrow> tile_data \<Rightarrow> u64 \<Rightarrow> pipeline \<Rightarrow> pipeline" where
  "pipe_timeout children no_tile now P = pipe_sent children no_tile (rate_timeout now (pl_rate P)) P"

text \<open>
  \<open>deliver_tile\<close>: the complete quad is passed on, which may ask for the next one, before it is erased.
\<close>

definition pipe_deliver :: "(tile_id \<Rightarrow> tile_id) \<Rightarrow> (tile_id \<Rightarrow> tile_id list) \<Rightarrow> tile_data \<Rightarrow> (tile_id \<Rightarrow> u64) \<Rightarrow>
    tile_data \<Rightarrow> pipeline \<Rightarrow> pipeline checked" where
  "pipe_deliver parent children no_tile clock td P =
     (let t = parent (td_id td)
      in and_then (put_tile td (quad_at no_tile (pl_quads P) t)) (\<lambda>q.
         let P1 = P\<lparr>pl_quads := (pl_quads P)(t \<mapsto> q)\<rparr>
         in if dq_n_tiles q = 4 then
              (let (slots, asked) = deliver_quad q (pl_slots P1);
                   P2 = P1\<lparr>pl_slots := slots, pl_delivered := pl_delivered P1 @ [q]\<rparr>;
                   P3 = fold (\<lambda>t. pipe_rate children no_tile (clock t) t) asked P2
               in Inr (P3\<lparr>pl_quads := (pl_quads P3)(dq_id q := None)\<rparr>))
            else Inr P1))"

subsection \<open>What holds in the pipeline\<close>

definition received :: "data_quad \<Rightarrow> tile_id list" where
  "received q = map td_id (take (unat (dq_n_tiles q)) (dq_tiles q))"

definition deep_id :: "tile_id \<Rightarrow> bool" where
  "deep_id t \<longleftrightarrow> valid_tile t \<and> zoom_level t < 29"

definition quad_loading :: "(tile_id \<Rightarrow> tile_id list) \<Rightarrow> tile_id \<Rightarrow> data_quad \<Rightarrow> bool" where
  "quad_loading children t q \<longleftrightarrow> deep_id t \<and> dq_id q = t \<and> length (dq_tiles q) = 4 \<and> unat (dq_n_tiles q) \<le> 4 \<and>
     distinct (received q) \<and> set (received q) \<subseteq> set (children t)"

definition missing :: "(tile_id \<Rightarrow> tile_id list) \<Rightarrow> assembler \<Rightarrow> tile_id set" where
  "missing children quads = {c. \<exists>t q. quads t = Some q \<and> c \<in> set (children t) - set (received q)}"

text \<open>The load service owes exactly the tiles that are missing, each once.\<close>

definition assembling :: "(tile_id \<Rightarrow> tile_id list) \<Rightarrow> assembler \<Rightarrow> tile_id multiset \<Rightarrow> bool" where
  "assembling children quads asked \<longleftrightarrow> (\<forall>t q. quads t = Some q \<longrightarrow> quad_loading children t q) \<and>
     (\<forall>c. count asked c = (if c \<in> missing children quads then 1 else 0))"

definition slots_ok :: "slot_limiter \<Rightarrow> bool" where
  "slots_ok s \<longleftrightarrow> distinct (sl_queue s) \<and> set (sl_queue s) \<inter> sl_in_flight s = {} \<and> finite (sl_in_flight s) \<and>
     card (sl_in_flight s) \<le> unat (sl_limit s) \<and> 0 < sl_limit s \<and>
     (sl_queue s \<noteq> [] \<longrightarrow> sl_in_flight s \<noteq> {}) \<and> (\<forall>t \<in> sl_in_flight s \<union> set (sl_queue s). deep_id t)"

text \<open>Every quad in flight waits for its time or is being assembled.\<close>

definition pipeline_ok :: "(tile_id \<Rightarrow> tile_id list) \<Rightarrow> pipeline \<Rightarrow> bool" where
  "pipeline_ok children P \<longleftrightarrow> slots_ok (pl_slots P) \<and> assembling children (pl_quads P) (pl_asked P) \<and>
     (\<forall>t q. pl_quads P t = Some q \<longrightarrow> unat (dq_n_tiles q) < 4) \<and>
     sl_in_flight (pl_slots P) = set (rl_queue (pl_rate P)) \<union> dom (pl_quads P) \<and>
     distinct (rl_queue (pl_rate P)) \<and> set (rl_queue (pl_rate P)) \<inter> dom (pl_quads P) = {} \<and>
     (rl_queue (pl_rate P) \<noteq> [] \<longrightarrow> rl_timer (pl_rate P) \<noteq> None) \<and>
     (\<forall>q \<in> set (pl_delivered P). whole_quad children q)"

lemma request_each_ok:
  "slots_ok s \<Longrightarrow> distinct ts \<Longrightarrow> set ts \<inter> set (sl_queue s) = {} \<Longrightarrow> \<forall>t \<in> set ts. deep_id t \<Longrightarrow>
   request_each ts s = (s', asked) \<Longrightarrow>
   slots_ok s' \<and> sl_limit s' = sl_limit s \<and> distinct asked \<and> set asked \<inter> sl_in_flight s = {} \<and>
   sl_in_flight s' = sl_in_flight s \<union> set asked \<and> set asked \<subseteq> set ts \<and> set (sl_queue s') \<subseteq> set (sl_queue s) \<union> set ts \<and>
   set (sl_queue s) \<subseteq> set (sl_queue s') \<and> set ts \<subseteq> sl_in_flight s' \<union> set (sl_queue s')"
proof (induction ts arbitrary: s asked)
  case (Cons t ts)
  consider "t \<in> sl_in_flight s" | "t \<notin> sl_in_flight s" "unat (sl_limit s) \<le> card (sl_in_flight s)"
    | "t \<notin> sl_in_flight s" "card (sl_in_flight s) < unat (sl_limit s)" by linarith
  then show ?case
  proof cases
    case 1
    then show ?thesis using Cons.IH [of s asked] Cons.prems by auto
  next
    case 2
    let ?s = "s\<lparr>sl_queue := sl_queue s @ [t]\<rparr>"
    have "sl_in_flight s \<noteq> {}" using Cons.prems(1) 2(2) by (auto simp: slots_ok_def word_less_nat_alt)
    then have "slots_ok ?s" using Cons.prems 2 by (auto simp: slots_ok_def)
    from Cons.IH [OF this, of asked] show ?thesis using Cons.prems 2 by auto
  next
    case 3
    let ?s = "s\<lparr>sl_in_flight := insert t (sl_in_flight s)\<rparr>"
    obtain asked' where rest: "request_each ts ?s = (s', asked')" "asked = t # asked'"
      using Cons.prems(5) 3 by (auto split: prod.splits)
    have "slots_ok ?s" using Cons.prems(1-4) 3 by (auto simp: slots_ok_def card_insert_if)
    from Cons.IH [OF this _ _ _ rest(1)] show ?thesis using Cons.prems 3(1) rest(2) by auto
  qed
qed auto

lemma request_quads_ok:
  assumes "slots_ok s" "distinct ts" "\<forall>t \<in> set ts. deep_id t" "request_quads ts s = (s', asked)"
  shows "slots_ok s'" "sl_limit s' = sl_limit s" "distinct asked" "set asked \<inter> sl_in_flight s = {}"
    "sl_in_flight s' = sl_in_flight s \<union> set asked" "set asked \<subseteq> set ts" "set ts \<subseteq> sl_in_flight s' \<union> set (sl_queue s')"
proof -
  have "slots_ok (s\<lparr>sl_queue := []\<rparr>)" using assms(1) by (simp add: slots_ok_def)
  note request_each_ok [OF this assms(2) _ assms(3) assms(4) [unfolded request_quads_def]]
  then have "slots_ok s' \<and> sl_limit s' = sl_limit s \<and> distinct asked \<and> set asked \<inter> sl_in_flight s = {} \<and>
    sl_in_flight s' = sl_in_flight s \<union> set asked \<and> set asked \<subseteq> set ts \<and> set ts \<subseteq> sl_in_flight s' \<union> set (sl_queue s')"
    by auto
  then show "slots_ok s'" "sl_limit s' = sl_limit s" "distinct asked" "set asked \<inter> sl_in_flight s = {}"
    "sl_in_flight s' = sl_in_flight s \<union> set asked" "set asked \<subseteq> set ts" "set ts \<subseteq> sl_in_flight s' \<union> set (sl_queue s')"
    by blast+
qed

text \<open>Loading a new quad.\<close>

lemma received_empty [simp]: "received ((empty_quad no_tile)\<lparr>dq_id := t\<rparr>) = []"
  by (simp add: received_def empty_quad_def)

lemma siblings:
  assumes "quad_tree parent children" "deep_id t" "deep_id u" "c \<in> set (children t)" "c \<in> set (children u)"
  shows "t = u"
  using quad_treeD(4) [OF assms(1) _ _ assms(4)] quad_treeD(4) [OF assms(1) _ _ assms(5)] assms(2,3)
  by (simp add: deep_id_def)

lemma load_ok:
  assumes tree: "quad_tree parent children" and ok: "assembling children quads asked" and t: "deep_id t" "quads t = None"
  shows "assembling children (quads(t \<mapsto> (empty_quad no_tile)\<lparr>dq_id := t\<rparr>)) (asked + mset (children t))"
proof -
  let ?quads = "quads(t \<mapsto> (empty_quad no_tile)\<lparr>dq_id := t\<rparr>)"
  have m: "missing children ?quads = missing children quads \<union> set (children t)"
    using t(2) by (auto simp: missing_def)
  have "missing children quads \<inter> set (children t) = {}"
    using ok t siblings [OF tree t(1)] by (fastforce simp: missing_def assembling_def quad_loading_def)
  moreover have "distinct (children t)" using quad_treeD(2) [OF tree] t(1) by (simp add: deep_id_def)
  then have "count (mset (children t)) c = (if c \<in> set (children t) then 1 else 0)" for c
    by (simp add: distinct_count_atmost_1)
  ultimately have "count (asked + mset (children t)) c = (if c \<in> missing children ?quads then 1 else 0)" for c
    using ok unfolding m assembling_def by auto
  moreover have "quad_loading children t ((empty_quad no_tile)\<lparr>dq_id := t\<rparr>)"
    using t(1) by (simp add: quad_loading_def) (simp add: empty_quad_def)
  ultimately show ?thesis using ok unfolding assembling_def by simp
qed

text \<open>A call of the rate limiter, and of a sequence of quads it lets through.\<close>

definition waiting_and_loading :: "pipeline \<Rightarrow> tile_id set" where
  "waiting_and_loading P = set (rl_queue (pl_rate P)) \<union> dom (pl_quads P)"

text \<open>The part of the invariant behind the slot limiter.\<close>

definition behind_slots :: "(tile_id \<Rightarrow> tile_id list) \<Rightarrow> pipeline \<Rightarrow> bool" where
  "behind_slots children P \<longleftrightarrow> assembling children (pl_quads P) (pl_asked P) \<and>
     distinct (rl_queue (pl_rate P)) \<and> set (rl_queue (pl_rate P)) \<inter> dom (pl_quads P) = {} \<and>
     (\<forall>t \<in> set (rl_queue (pl_rate P)). deep_id t) \<and> (rl_queue (pl_rate P) \<noteq> [] \<longrightarrow> rl_timer (pl_rate P) \<noteq> None)"

text \<open>What a call downstream of the slot limiter leaves as it was: loading only adds quads with no tile yet.\<close>

definition downstream :: "pipeline \<Rightarrow> pipeline \<Rightarrow> bool" where
  "downstream P P' \<longleftrightarrow> pl_slots P' = pl_slots P \<and> pl_delivered P' = pl_delivered P \<and>
     (\<forall>t q. pl_quads P t = Some q \<longrightarrow> pl_quads P' t = Some q) \<and>
     (\<forall>t q. pl_quads P t = None \<longrightarrow> pl_quads P' t = Some q \<longrightarrow> dq_n_tiles q = 0)"

lemma downstream_refl: "downstream P P"
  by (simp add: downstream_def)

lemma downstream_trans: "downstream P Q \<Longrightarrow> downstream Q R \<Longrightarrow> downstream P R"
  unfolding downstream_def by (metis option.exhaust)

lemma pipe_load_simps:
  "pl_slots (pipe_load children no_tile t P) = pl_slots P" "pl_rate (pipe_load children no_tile t P) = pl_rate P"
  "pl_delivered (pipe_load children no_tile t P) = pl_delivered P"
  "pl_quads (pipe_load children no_tile t P) = (pl_quads P)(t \<mapsto> (quad_at no_tile (pl_quads P) t)\<lparr>dq_id := t\<rparr>)"
  "pl_asked (pipe_load children no_tile t P) = pl_asked P + mset (children t)"
  by (simp_all add: pipe_load_def load_quad_def)

lemma pipe_loads_ok:
  assumes tree: "quad_tree parent children"
  shows "assembling children (pl_quads P) (pl_asked P) \<Longrightarrow> distinct ts \<Longrightarrow> \<forall>t \<in> set ts. deep_id t \<and> pl_quads P t = None \<Longrightarrow>
    P' = fold (pipe_load children no_tile) ts P \<Longrightarrow>
    assembling children (pl_quads P') (pl_asked P') \<and> dom (pl_quads P') = dom (pl_quads P) \<union> set ts \<and>
    pl_rate P' = pl_rate P \<and> downstream P P' \<and> size (pl_asked P') = size (pl_asked P) + 4 * length ts"
proof (induction ts arbitrary: P)
  case (Cons t ts)
  let ?P = "pipe_load children no_tile t P"
  have t: "pl_quads ?P = (pl_quads P)(t \<mapsto> (empty_quad no_tile)\<lparr>dq_id := t\<rparr>)"
    using Cons.prems(3) by (simp add: pipe_load_simps quad_at_def)
  have "assembling children (pl_quads ?P) (pl_asked ?P)"
    using load_ok [OF tree Cons.prems(1)] Cons.prems(3) by (simp add: t) (simp add: pipe_load_simps)
  moreover have "\<forall>u \<in> set ts. deep_id u \<and> pl_quads ?P u = None" using Cons.prems(2,3) by (auto simp: t)
  ultimately have IH: "assembling children (pl_quads P') (pl_asked P')" "dom (pl_quads P') = dom (pl_quads ?P) \<union> set ts"
    "pl_rate P' = pl_rate ?P" "downstream ?P P'" "size (pl_asked P') = size (pl_asked ?P) + 4 * length ts"
    using Cons.IH [of ?P] Cons.prems(2,4) by auto
  have "downstream P ?P" using Cons.prems(3) by (auto simp: downstream_def pipe_load_simps(1,3) t empty_quad_def)
  then have "downstream P P'" using IH(4) by (rule downstream_trans)
  moreover have "size (pl_asked ?P) = size (pl_asked P) + 4"
    using Cons.prems(3) quad_treeD(1) [OF tree, of t] by (simp add: pipe_load_simps(5) deep_id_def)
  ultimately show ?case using IH(1-3,5) by (auto simp: t pipe_load_simps(2))
qed (simp add: downstream_refl)

text \<open>The tiles still to come for what is in flight.\<close>

definition owed :: "pipeline \<Rightarrow> nat" where
  "owed P = 4 * length (rl_queue (pl_rate P)) + size (pl_asked P)"

lemma pipe_sent_ok:
  assumes tree: "quad_tree parent children" and ok: "assembling children (pl_quads P) (pl_asked P)"
    and q: "distinct (rl_queue r)" "set (rl_queue r) \<inter> dom (pl_quads P) = {}" "\<forall>t \<in> set (rl_queue r). deep_id t"
    and P': "P' = pipe_sent children no_tile (process_queue now r) P"
  shows "behind_slots children P'" "waiting_and_loading P' = set (rl_queue r) \<union> dom (pl_quads P)" "downstream P P'"
    "owed P' = 4 * length (rl_queue r) + size (pl_asked P)"
proof -
  obtain r' sent where run: "process_queue now r = (r', sent)" by (metis surj_pair)
  note spec = process_queue_spec(1,4) [OF run]
  have sent: "distinct sent" "\<forall>t \<in> set sent. deep_id t \<and> pl_quads P t = None" "set sent \<inter> set (rl_queue r') = {}"
    "distinct (rl_queue r')" "set (rl_queue r') \<subseteq> set (rl_queue r)" "set (rl_queue r) = set sent \<union> set (rl_queue r')"
    using q unfolding spec(1) [symmetric] by (auto simp: domIff)
  have "P' = fold (pipe_load children no_tile) sent (P\<lparr>pl_rate := r'\<rparr>)" using P' by (simp add: pipe_sent_def run)
  from pipe_loads_ok [OF tree _ sent(1) _ this] ok sent(2)
  have P'': "assembling children (pl_quads P') (pl_asked P')" "dom (pl_quads P') = dom (pl_quads P) \<union> set sent"
      "pl_rate P' = r'" "downstream (P\<lparr>pl_rate := r'\<rparr>) P'" "size (pl_asked P') = size (pl_asked P) + 4 * length sent" by auto
  show "behind_slots children P'"
    using P''(1-3) sent spec(2) q(2,3) by (auto simp: behind_slots_def)
  show "waiting_and_loading P' = set (rl_queue r) \<union> dom (pl_quads P)"
    using P''(2,3) sent(6) by (auto simp: waiting_and_loading_def)
  show "downstream P P'" using P''(4) by (simp add: downstream_def)
  show "owed P' = 4 * length (rl_queue r) + size (pl_asked P)"
    using P''(3,5) by (simp add: owed_def spec(1) [symmetric])
qed

lemma pipe_rate_ok:
  assumes tree: "quad_tree parent children" and ok: "behind_slots children P" and t: "deep_id t" "t \<notin> waiting_and_loading P"
    and P': "P' = pipe_rate children no_tile now t P"
  shows "behind_slots children P'" "waiting_and_loading P' = insert t (waiting_and_loading P)" "downstream P P'"
    "owed P' = owed P + 4"
proof -
  let ?r = "(pl_rate P)\<lparr>rl_queue := rl_queue (pl_rate P) @ [t]\<rparr>"
  have q: "distinct (rl_queue ?r)" "set (rl_queue ?r) \<inter> dom (pl_quads P) = {}" "\<forall>t \<in> set (rl_queue ?r). deep_id t"
    using ok t by (auto simp: behind_slots_def waiting_and_loading_def)
  have P: "P' = pipe_sent children no_tile (process_queue now ?r) P" using P' by (simp add: pipe_rate_def rate_quad_def)
  have "assembling children (pl_quads P) (pl_asked P)" using ok by (simp add: behind_slots_def)
  from pipe_sent_ok [OF tree this q P]
  show "behind_slots children P'" "waiting_and_loading P' = insert t (waiting_and_loading P)" "downstream P P'"
    "owed P' = owed P + 4"
    by (auto simp: waiting_and_loading_def owed_def)
qed

lemma pipe_rates_ok:
  assumes tree: "quad_tree parent children"
  shows "behind_slots children P \<Longrightarrow> distinct ts \<Longrightarrow> \<forall>t \<in> set ts. deep_id t \<Longrightarrow> set ts \<inter> waiting_and_loading P = {} \<Longrightarrow>
    P' = fold (\<lambda>t. pipe_rate children no_tile (clock t) t) ts P \<Longrightarrow>
    behind_slots children P' \<and> waiting_and_loading P' = waiting_and_loading P \<union> set ts \<and> downstream P P' \<and>
    owed P' = owed P + 4 * length ts"
proof (induction ts arbitrary: P)
  case (Cons t ts)
  have "deep_id t" "t \<notin> waiting_and_loading P" using Cons.prems(3,4) by auto
  note one = pipe_rate_ok [OF tree Cons.prems(1) this refl, of no_tile "clock t"]
  have "set ts \<inter> waiting_and_loading (pipe_rate children no_tile (clock t) t P) = {}"
    using Cons.prems(2,4) one(2) by auto
  from Cons.IH [OF one(1) _ _ this] Cons.prems(2,3,5) one(2,4) downstream_trans [OF one(3)] show ?case by auto
qed (simp add: downstream_refl)

lemma pipeline_okD:
  assumes "pipeline_ok children P"
  shows "slots_ok (pl_slots P)" "behind_slots children P" "sl_in_flight (pl_slots P) = waiting_and_loading P"
    "pl_quads P t = Some q \<Longrightarrow> unat (dq_n_tiles q) < 4" "q \<in> set (pl_delivered P) \<Longrightarrow> whole_quad children q"
  using assms by (auto simp: pipeline_ok_def behind_slots_def waiting_and_loading_def slots_ok_def)

lemma pipeline_okI:
  assumes "slots_ok (pl_slots P)" "behind_slots children P" "sl_in_flight (pl_slots P) = waiting_and_loading P"
    "\<And>t q. pl_quads P t = Some q \<Longrightarrow> unat (dq_n_tiles q) < 4" "\<And>q. q \<in> set (pl_delivered P) \<Longrightarrow> whole_quad children q"
  shows "pipeline_ok children P"
  using assms by (auto simp: pipeline_ok_def behind_slots_def waiting_and_loading_def)

lemma new_pipeline_ok: "pipeline_ok children new_pipeline"
  by (simp add: pipeline_ok_def new_pipeline_def slots_ok_def new_slot_limiter_def new_rate_limiter_def assembling_def missing_def)

lemma downstream_few:
  assumes "downstream P P'" "\<And>t q. pl_quads P t = Some q \<Longrightarrow> unat (dq_n_tiles q) < n" "0 < n" "pl_quads P' t = Some q"
  shows "unat (dq_n_tiles q) < n"
proof (cases "pl_quads P t")
  case None
  then have "dq_n_tiles q = 0" using assms(1,4) by (simp add: downstream_def)
  then show ?thesis using assms(3) by simp
next
  case (Some q')
  then have "q' = q" using assms(1,4) by (auto simp: downstream_def)
  then show ?thesis using assms(2) Some by blast
qed

lemma pipe_request_ok:
  assumes tree: "quad_tree parent children" and ok: "pipeline_ok children P" and ts: "distinct ts" "\<forall>t \<in> set ts. deep_id t"
    and P': "P' = pipe_request children no_tile clock ts P"
  shows "pipeline_ok children P'" "set ts \<subseteq> sl_in_flight (pl_slots P') \<union> set (sl_queue (pl_slots P'))"
    "pl_delivered P' = pl_delivered P" "sl_limit (pl_slots P') = sl_limit (pl_slots P)"
proof -
  note D = pipeline_okD [OF ok]
  obtain s' asked where req: "request_quads ts (pl_slots P) = (s', asked)" by (metis surj_pair)
  note R = request_quads_ok [OF D(1) ts req]
  let ?P = "P\<lparr>pl_slots := s'\<rparr>"
  have same: "waiting_and_loading ?P = waiting_and_loading P" "behind_slots children ?P"
    using D(2) by (simp_all add: waiting_and_loading_def behind_slots_def)
  have "set asked \<inter> waiting_and_loading ?P = {}" using R(4) by (simp add: same D(3))
  moreover have "\<forall>t \<in> set asked. deep_id t" using R(6) ts(2) by blast
  moreover have "P' = fold (\<lambda>t. pipe_rate children no_tile (clock t) t) asked ?P"
    using P' by (simp add: pipe_request_def req)
  ultimately have P'': "behind_slots children P'" "waiting_and_loading P' = waiting_and_loading P \<union> set asked" "downstream ?P P'"
    using pipe_rates_ok [OF tree same(2) R(3)] by (auto simp: same(1))
  have slots: "pl_slots P' = s'" and del: "pl_delivered P' = pl_delivered P" using P''(3) by (simp_all add: downstream_def)
  show "pipeline_ok children P'"
    using downstream_few [OF P''(3), of 4] D(4,5) R(1,5) P''(1,2)
    by (intro pipeline_okI) (simp_all add: slots del D(3))
  show "set ts \<subseteq> sl_in_flight (pl_slots P') \<union> set (sl_queue (pl_slots P'))" using R(7) by (simp only: slots)
  show "pl_delivered P' = pl_delivered P" by (rule del)
  show "sl_limit (pl_slots P') = sl_limit (pl_slots P)" by (simp add: slots R(2))
qed

lemma pipe_timeout_ok:
  assumes tree: "quad_tree parent children" and ok: "pipeline_ok children P" and P': "P' = pipe_timeout children no_tile now P"
  shows "pipeline_ok children P'" "pl_delivered P' = pl_delivered P" "pl_slots P' = pl_slots P" "owed P' = owed P"
proof -
  note D = pipeline_okD [OF ok]
  let ?r = "(pl_rate P)\<lparr>rl_timer := None\<rparr>"
  have B: "assembling children (pl_quads P) (pl_asked P)" "distinct (rl_queue ?r)" "set (rl_queue ?r) \<inter> dom (pl_quads P) = {}"
      "\<forall>t \<in> set (rl_queue ?r). deep_id t"
    using D(2) by (simp_all add: behind_slots_def)
  have "P' = pipe_sent children no_tile (process_queue now ?r) P" using P' by (simp add: pipe_timeout_def rate_timeout_def)
  note S = pipe_sent_ok [OF tree B this]
  show same: "pl_delivered P' = pl_delivered P" "pl_slots P' = pl_slots P" using S(3) by (simp_all add: downstream_def)
  show "owed P' = owed P" using S(4) by (simp add: owed_def)
  have "waiting_and_loading P' = waiting_and_loading P" using S(2) by (simp add: waiting_and_loading_def)
  then show "pipeline_ok children P'"
    using downstream_few [OF S(3), of 4] D S(1) by (intro pipeline_okI) (simp_all add: same)
qed

text \<open>A tile that was asked for has a place in its quad.\<close>

lemma received_put:
  assumes "put_tile td q = Inr q'" "length (dq_tiles q) = 4" "unat (dq_n_tiles q) < 4"
  shows "received q' = received q @ [td_id td]" "unat (dq_n_tiles q') = Suc (unat (dq_n_tiles q))" "dq_id q' = dq_id q"
    "length (dq_tiles q') = 4"
proof -
  have q': "q' = q\<lparr>dq_tiles := (dq_tiles q)[unat (dq_n_tiles q) := td], dq_n_tiles := dq_n_tiles q + 1\<rparr>"
    using assms by (simp add: put_tile_def)
  have n: "unat (dq_n_tiles q + 1) = Suc (unat (dq_n_tiles q))" using assms(3) by (simp add: unat_word_ariths)
  then show "unat (dq_n_tiles q') = Suc (unat (dq_n_tiles q))" by (simp add: q')
  show "received q' = received q @ [td_id td]"
    using assms(2,3) by (simp add: q' received_def n take_Suc_conv_app_nth)
  show "dq_id q' = dq_id q" "length (dq_tiles q') = 4" using assms(2) by (simp_all add: q')
qed

lemma asked_facts:
  assumes tree: "quad_tree parent children" and ok: "assembling children quads asked" and c: "c \<in># asked"
  shows "\<exists>q. quads (parent c) = Some q \<and> quad_loading children (parent c) q \<and> c \<in> set (children (parent c)) - set (received q)"
proof -
  have "c \<in> missing children quads" using ok c by (metis assembling_def count_greater_zero_iff less_numeral_extra(3))
  then obtain t q where q: "quads t = Some q" "c \<in> set (children t) - set (received q)" by (auto simp: missing_def)
  then have "quad_loading children t q" using ok by (simp add: assembling_def)
  moreover from this have "parent c = t" using quad_treeD(4) [OF tree, of t c] q(2) by (simp add: quad_loading_def deep_id_def)
  ultimately show ?thesis using q by blast
qed

lemma asked_room:
  assumes "quad_tree parent children" "quad_loading children t q" "c \<in> set (children t) - set (received q)"
  shows "unat (dq_n_tiles q) < 4"
proof -
  have t: "length (children t) = 4" "distinct (children t)"
    using assms(1,2) quad_treeD(1,2) [OF assms(1)] by (simp_all add: quad_loading_def deep_id_def)
  have "set (received q) \<subset> set (children t)" using assms(2,3) by (auto simp: quad_loading_def)
  then have "card (set (received q)) < 4" using psubset_card_mono [of "set (children t)"] distinct_card [OF t(2)] t(1) by simp
  then show ?thesis using assms(2) distinct_card [of "received q"] by (simp add: quad_loading_def received_def min_def split: if_splits)
qed

lemma put_ok:
  assumes tree: "quad_tree parent children" and ok: "assembling children quads asked" and c: "td_id td \<in># asked"
    and q: "quads t = Some q" "t = parent (td_id td)" "put_tile td q = Inr q'"
  shows "assembling children (quads(t \<mapsto> q')) (asked - {#td_id td#})" "quad_loading children t q'"
    "unat (dq_n_tiles q') = Suc (unat (dq_n_tiles q))"
proof -
  let ?c = "td_id td"
  have load: "quad_loading children t q" and ct: "?c \<in> set (children t) - set (received q)"
    using asked_facts [OF tree ok c] q(1,2) by auto
  have four: "length (dq_tiles q) = 4" using load by (simp add: quad_loading_def)
  note put = received_put [OF q(3) four asked_room [OF tree load ct]]
  show "unat (dq_n_tiles q') = Suc (unat (dq_n_tiles q))" by (rule put(2))
  show load': "quad_loading children t q'"
    using load ct asked_room [OF tree load ct] by (auto simp: quad_loading_def put)
  have "missing children (quads(t \<mapsto> q')) = missing children quads - {?c}"
  proof (intro set_eqI iffI)
    fix x assume "x \<in> missing children (quads(t \<mapsto> q'))"
    then obtain u r where u: "(quads(t \<mapsto> q')) u = Some r" "x \<in> set (children u) - set (received r)" by (auto simp: missing_def)
    show "x \<in> missing children quads - {?c}"
    proof (cases "u = t")
      case True
      then show ?thesis using u q(1) put(1) by (auto simp: missing_def)
    next
      case False
      have "quads u = Some r" using u(1) False by simp
      moreover from this have "quad_loading children u r" using ok by (simp add: assembling_def)
      then have "x \<noteq> ?c" using siblings [OF tree, of u t x] False load ct u(2) by (auto simp: quad_loading_def)
      ultimately show ?thesis using u(2) by (auto simp: missing_def)
    qed
  next
    fix x assume x: "x \<in> missing children quads - {?c}"
    then obtain u r where u: "quads u = Some r" "x \<in> set (children u) - set (received r)" by (auto simp: missing_def)
    show "x \<in> missing children (quads(t \<mapsto> q'))"
      using u x q(1) put(1) by (cases "u = t") (auto simp: missing_def)
  qed
  moreover have "count (asked - {#?c#}) x = (if x = ?c then 0 else count asked x)" for x
    using ok c by (simp add: assembling_def split: if_splits)
  ultimately show "assembling children (quads(t \<mapsto> q')) (asked - {#td_id td#})"
    using ok load' by (simp add: assembling_def)
qed

lemma complete_quad:
  assumes "quad_tree parent children" "quad_loading children t q" "dq_n_tiles q = 4"
  shows "whole_quad children q" "set (received q) = set (children t)"
proof -
  have t: "length (children t) = 4" "distinct (children t)"
    using assms(1,2) quad_treeD(1,2) [OF assms(1)] by (simp_all add: quad_loading_def deep_id_def)
  have r: "received q = map td_id (dq_tiles q)" using assms(2,3) by (simp add: received_def quad_loading_def)
  have "card (set (received q)) = 4" using assms(2) distinct_card [of "received q"] by (simp add: quad_loading_def r)
  then show full: "set (received q) = set (children t)"
    using assms(2) distinct_card [OF t(2)] t(1) by (intro card_subset_eq) (simp_all add: quad_loading_def)
  show "whole_quad children q" using assms(2) full by (simp add: whole_quad_def quad_loading_def r)
qed

lemma erase_ok:
  assumes "assembling children quads asked" "quads t = Some q" "set (received q) = set (children t)"
  shows "assembling children (quads(t := None)) asked"
proof -
  have "missing children (quads(t := None)) = missing children quads"
  proof (intro set_eqI iffI)
    fix x assume "x \<in> missing children quads"
    then obtain u r where u: "quads u = Some r" "x \<in> set (children u) - set (received r)" by (auto simp: missing_def)
    then have "u \<noteq> t" using assms(2,3) by auto
    then show "x \<in> missing children (quads(t := None))" using u by (auto simp: missing_def)
  qed (auto simp: missing_def split: if_splits)
  then show ?thesis using assms(1) by (simp add: assembling_def)
qed

definition work :: "pipeline \<Rightarrow> nat" where
  "work P = 4 * length (sl_queue (pl_slots P)) + owed P"

lemma deliver_quad_ok:
  assumes "slots_ok s" "deliver_quad q s = (s', asked)" "dq_id q \<in> sl_in_flight s"
  shows "slots_ok s'" "sl_limit s' = sl_limit s" "distinct asked" "\<forall>t \<in> set asked. deep_id t" "set asked \<inter> sl_in_flight s = {}"
    "sl_in_flight s' = (sl_in_flight s - {dq_id q}) \<union> set asked" "length (sl_queue s) = length asked + length (sl_queue s')"
proof -
  have "slots_ok s' \<and> sl_limit s' = sl_limit s \<and> distinct asked \<and> (\<forall>t \<in> set asked. deep_id t) \<and> set asked \<inter> sl_in_flight s = {} \<and>
    sl_in_flight s' = (sl_in_flight s - {dq_id q}) \<union> set asked \<and> length (sl_queue s) = length asked + length (sl_queue s')"
  proof (cases "sl_queue s")
    case Nil
    then show ?thesis using assms by (auto simp: slots_ok_def deliver_quad_def card_Diff_singleton_if)
  next
    case (Cons t ts)
    have "card (insert t (sl_in_flight s - {dq_id q})) = card (sl_in_flight s)"
      using assms(1,3) Cons card_gt_0_iff [of "sl_in_flight s"] by (auto simp: slots_ok_def card_insert_if)
    then show ?thesis using assms Cons by (auto simp: slots_ok_def deliver_quad_def)
  qed
  then show "slots_ok s'" "sl_limit s' = sl_limit s" "distinct asked" "\<forall>t \<in> set asked. deep_id t" "set asked \<inter> sl_in_flight s = {}"
    "sl_in_flight s' = (sl_in_flight s - {dq_id q}) \<union> set asked" "length (sl_queue s) = length asked + length (sl_queue s')"
    by blast+
qed

text \<open>Passing a complete quad on and erasing it.\<close>

lemma finish_ok:
  assumes tree: "quad_tree parent children" and behind: "behind_slots children P" and slots: "slots_ok (pl_slots P)"
    "sl_in_flight (pl_slots P) = waiting_and_loading P"
    and q: "pl_quads P t = Some q" "quad_loading children t q" "dq_n_tiles q = 4"
    and few: "\<And>u r. u \<noteq> t \<Longrightarrow> pl_quads P u = Some r \<Longrightarrow> unat (dq_n_tiles r) < 4"
    and whole: "\<And>r. r \<in> set (pl_delivered P) \<Longrightarrow> whole_quad children r"
    and run: "deliver_quad q (pl_slots P) = (s', asked)"
    and P3: "P3 = fold (\<lambda>t. pipe_rate children no_tile (clock t) t) asked (P\<lparr>pl_slots := s', pl_delivered := pl_delivered P @ [q]\<rparr>)"
    and P': "P' = P3\<lparr>pl_quads := (pl_quads P3)(dq_id q := None)\<rparr>"
  shows "pipeline_ok children P'" "pl_delivered P' = pl_delivered P @ [q]" "work P' = work P"
    "sl_limit (pl_slots P') = sl_limit (pl_slots P)"
proof -
  let ?P2 = "P\<lparr>pl_slots := s', pl_delivered := pl_delivered P @ [q]\<rparr>"
  have t: "dq_id q = t" using q(2) by (simp add: quad_loading_def)
  have "t \<in> sl_in_flight (pl_slots P)" using q(1) by (auto simp: slots(2) waiting_and_loading_def)
  note S = deliver_quad_ok [OF slots(1) run, unfolded t, OF this]
  have same: "waiting_and_loading ?P2 = waiting_and_loading P" "behind_slots children ?P2" "owed ?P2 = owed P"
    using behind by (simp_all add: waiting_and_loading_def behind_slots_def owed_def)
  have "set asked \<inter> waiting_and_loading ?P2 = {}" using S(5) by (simp add: same slots(2))
  from pipe_rates_ok [OF tree same(2) S(3,4) this P3]
  have R: "behind_slots children P3" "waiting_and_loading P3 = waiting_and_loading P \<union> set asked" "downstream ?P2 P3"
    "owed P3 = owed P + 4 * length asked" by (simp_all add: same)
  have kept: "pl_slots P3 = s'" "pl_delivered P3 = pl_delivered P @ [q]" "pl_quads P3 t = Some q"
    using R(3) q(1) by (simp_all add: downstream_def)
  have "t \<notin> set (rl_queue (pl_rate P3))" using R(1) kept(3) by (auto simp: behind_slots_def)
  moreover have "t \<notin> set asked" using S(5) \<open>t \<in> sl_in_flight (pl_slots P)\<close> by blast
  ultimately have wl: "waiting_and_loading P' = (waiting_and_loading P - {t}) \<union> set asked"
    using R(2) by (auto simp: P' t waiting_and_loading_def)
  have few': "unat (dq_n_tiles r) < 4" if "pl_quads P' u = Some r" for u r
  proof -
    have u: "u \<noteq> t" "pl_quads P3 u = Some r" using that by (auto simp: P' t split: if_splits)
    show ?thesis
    proof (cases "pl_quads P u")
      case None
      then have "dq_n_tiles r = 0" using R(3) u(2) by (simp add: downstream_def)
      then show ?thesis by simp
    next
      case (Some r')
      then have "r' = r" using R(3) u(2) by (auto simp: downstream_def)
      then show ?thesis using few [OF u(1) Some] by simp
    qed
  qed
  have "assembling children ((pl_quads P3)(t := None)) (pl_asked P3)"
    using R(1) by (intro erase_ok [where q = q] complete_quad(2) [OF tree q(2,3)] kept(3)) (simp add: behind_slots_def)
  then have "behind_slots children P'" using R(1) by (auto simp: P' t behind_slots_def)
  then show "pipeline_ok children P'"
    using S(1,6) wl few' whole complete_quad(1) [OF tree q(2,3)]
    by (intro pipeline_okI) (auto simp: P' kept slots(2))
  show "pl_delivered P' = pl_delivered P @ [q]" "sl_limit (pl_slots P') = sl_limit (pl_slots P)"
    by (simp_all add: P' kept S(2))
  show "work P' = work P" using R(4) S(7) by (simp add: work_def owed_def P' kept)
qed

lemma pipe_deliver_ok:
  assumes tree: "quad_tree parent children" and ok: "pipeline_ok children P" and c: "td_id td \<in># pl_asked P"
  shows "\<exists>P' qs. pipe_deliver parent children no_tile clock td (P\<lparr>pl_asked := pl_asked P - {#td_id td#}\<rparr>) = Inr P' \<and>
    pipeline_ok children P' \<and> Suc (work P') = work P \<and> sl_limit (pl_slots P') = sl_limit (pl_slots P) \<and>
    pl_delivered P' = pl_delivered P @ qs \<and> (\<forall>q \<in> set qs. deep_id (dq_id q))"
proof -
  note D = pipeline_okD [OF ok]
  let ?t = "parent (td_id td)" and ?P0 = "P\<lparr>pl_asked := pl_asked P - {#td_id td#}\<rparr>"
  have asm: "assembling children (pl_quads P) (pl_asked P)" using D(2) by (simp add: behind_slots_def)
  obtain q where q: "pl_quads P ?t = Some q" "quad_loading children ?t q" using asked_facts [OF tree asm c] by blast
  have room: "unat (dq_n_tiles q) < 4" "length (dq_tiles q) = 4" using D(4) q by (auto simp: quad_loading_def)
  then obtain q' where put: "put_tile td q = Inr q'" by (simp add: put_tile_def)
  note put_ok = put_ok [OF tree asm c q(1) refl put]
  let ?P1 = "?P0\<lparr>pl_quads := (pl_quads P)(?t \<mapsto> q')\<rparr>"
  have dom: "waiting_and_loading ?P1 = waiting_and_loading P" using q(1) by (auto simp: waiting_and_loading_def)
  have behind: "behind_slots children ?P1"
    using D(2) put_ok(1) q(1) by (auto simp: behind_slots_def)
  have "0 < size (pl_asked P)" using c by (metis empty_iff gr0I set_mset_empty size_eq_0_iff_empty)
  then have one: "Suc (work ?P1) = work P" using c by (simp add: work_def owed_def size_Diff_singleton)
  have step: "pipe_deliver parent children no_tile clock td ?P0 =
    (if dq_n_tiles q' = 4 then
       (let (slots, asked) = deliver_quad q' (pl_slots P);
            P3 = fold (\<lambda>t. pipe_rate children no_tile (clock t) t) asked (?P1\<lparr>pl_slots := slots, pl_delivered := pl_delivered ?P1 @ [q']\<rparr>)
        in Inr (P3\<lparr>pl_quads := (pl_quads P3)(dq_id q' := None)\<rparr>))
     else Inr ?P1)"
    by (simp add: pipe_deliver_def quad_at_def q(1) put Let_def)
  show ?thesis
  proof (cases "dq_n_tiles q' = 4")
    case True
    obtain s' asked where run: "deliver_quad q' (pl_slots P) = (s', asked)" by (metis surj_pair)
    define P3 where "P3 = fold (\<lambda>t. pipe_rate children no_tile (clock t) t) asked (?P1\<lparr>pl_slots := s', pl_delivered := pl_delivered ?P1 @ [q']\<rparr>)"
    define P' where "P' = P3\<lparr>pl_quads := (pl_quads P3)(dq_id q' := None)\<rparr>"
    have F: "pipeline_ok children P'" "pl_delivered P' = pl_delivered ?P1 @ [q']" "work P' = work ?P1"
      "sl_limit (pl_slots P') = sl_limit (pl_slots ?P1)"
      using finish_ok [OF tree behind _ _ _ put_ok(2) True _ _ _ P3_def P'_def] D run by (simp_all add: dom split: if_splits)
    have "pipe_deliver parent children no_tile clock td ?P0 = Inr P'"
      unfolding step P'_def P3_def run by (simp only: True simp_thms if_True Let_def prod.case)
    moreover have "deep_id (dq_id q')" using put_ok(2) by (simp add: quad_loading_def)
    ultimately show ?thesis using F one by (intro exI [of _ P'] exI [of _ "[q']"]) simp
  next
    case False
    have few: "unat (dq_n_tiles r) < 4" if "pl_quads ?P1 u = Some r" for u r
    proof (cases "u = ?t")
      case True
      have "unat (dq_n_tiles q') \<noteq> unat (4 :: u32)" using False by (metis word_unat_eq_iff)
      then show ?thesis using that True put_ok(2) by (simp add: quad_loading_def)
    qed (use that D(4) in simp)
    have "pipeline_ok children ?P1"
      using D behind few by (intro pipeline_okI) (simp_all add: dom)
    then show ?thesis using one by (intro exI [of _ ?P1] exI [of _ "[]"]) (simp add: step False)
  qed
qed

subsection \<open>The pipeline as a machine\<close>

text \<open>
  \<open>pl_limit\<close>: \<open>set_limit\<close> is not called while quads are requested. Each step reads the clock as it likes.
\<close>

inductive pipeline_step :: "(tile_id \<Rightarrow> tile_id) \<Rightarrow> (tile_id \<Rightarrow> tile_id list) \<Rightarrow> tile_data \<Rightarrow> pipeline \<Rightarrow> pipeline checked \<Rightarrow> bool"
  for parent children no_tile where
  requested: "distinct ts \<Longrightarrow> \<forall>t \<in> set ts. deep_id t \<Longrightarrow>
    pipeline_step parent children no_tile P (Inr (pipe_request children no_tile clock ts P))"
| timeout: "rl_timer (pl_rate P) \<noteq> None \<Longrightarrow> pipeline_step parent children no_tile P (Inr (pipe_timeout children no_tile now P))"
| answered: "t \<in># pl_asked P \<Longrightarrow> pipeline_step parent children no_tile P
    (pipe_deliver parent children no_tile clock (load_finished now t reply) (P\<lparr>pl_asked := pl_asked P - {#t#}\<rparr>))"

inductive pipeline_run :: "(tile_id \<Rightarrow> tile_id) \<Rightarrow> (tile_id \<Rightarrow> tile_id list) \<Rightarrow> tile_data \<Rightarrow> pipeline \<Rightarrow> pipeline checked \<Rightarrow> bool"
  for parent children no_tile where
  start: "pipeline_run parent children no_tile P (Inr P)"
| further: "pipeline_run parent children no_tile P (Inr Q) \<Longrightarrow> pipeline_step parent children no_tile Q R \<Longrightarrow>
    pipeline_run parent children no_tile P R"

lemma load_finished_id [simp]: "td_id (load_finished now t reply) = t"
  by (simp add: load_finished_def split: reply.split)

lemma pipeline_step_ok:
  assumes "quad_tree parent children" "pipeline_step parent children no_tile P R" "pipeline_ok children P"
  shows "\<exists>P'. R = Inr P' \<and> pipeline_ok children P' \<and> sl_limit (pl_slots P') = sl_limit (pl_slots P)"
  using assms(2)
proof (cases rule: pipeline_step.cases)
  case (requested ts clock)
  then show ?thesis using pipe_request_ok(1,4) [OF assms(1,3) requested(2,3) refl] by simp
next
  case (timeout now)
  then show ?thesis using pipe_timeout_ok(1,3) [OF assms(1,3) refl] by simp
next
  case (answered t clock now reply)
  have "td_id (load_finished now t reply) \<in># pl_asked P" using answered(2) by simp
  from pipe_deliver_ok [OF assms(1,3) this, of no_tile clock] show ?thesis using answered(1) by auto
qed

lemma pipeline_run_ok:
  assumes "quad_tree parent children" "pipeline_run parent children no_tile P R" "pipeline_ok children P"
  shows "\<exists>P'. R = Inr P' \<and> pipeline_ok children P' \<and> sl_limit (pl_slots P') = sl_limit (pl_slots P)"
  using assms(2,3)
proof induction
  case (further P Q R)
  then have Q: "pipeline_ok children Q" "sl_limit (pl_slots Q) = sl_limit (pl_slots P)" by simp_all
  show ?case using pipeline_step_ok [OF assms(1) further.hyps(2) Q(1)] Q(2) by simp
qed simp

text \<open>
  It never stops with work left: the load service owes a tile, or the timer of the rate limiter is
  running. Each answer takes one unit off the work, the timer none.
\<close>

lemma never_stuck:
  assumes "quad_tree parent children" "pipeline_ok children P" "0 < work P"
  shows "pl_asked P \<noteq> {#} \<or> rl_timer (pl_rate P) \<noteq> None"
proof (rule ccontr)
  assume stuck: "\<not> ?thesis"
  note D = pipeline_okD [OF assms(2)]
  have r: "rl_queue (pl_rate P) = []" using D(2) stuck by (auto simp: behind_slots_def)
  then have "sl_queue (pl_slots P) \<noteq> []" using assms(3) stuck by (auto simp: work_def owed_def)
  then have "dom (pl_quads P) \<noteq> {}" using D(1,3) by (auto simp: slots_ok_def waiting_and_loading_def r)
  then obtain t q where q: "pl_quads P t = Some q" by blast
  have load: "quad_loading children t q" "missing children (pl_quads P) = {}"
    using D(2) stuck q by (auto simp: behind_slots_def assembling_def split: if_splits)
  then have "set (children t) \<subseteq> set (received q)" using q by (auto simp: missing_def)
  moreover have "card (set (children t)) = 4"
    using load(1) quad_treeD(1,2) [OF assms(1)] by (simp add: quad_loading_def deep_id_def distinct_card)
  ultimately have "4 \<le> card (set (received q))" by (metis card_mono finite_set)
  also have "\<dots> \<le> length (received q)" by (rule card_length)
  also have "\<dots> \<le> unat (dq_n_tiles q)" by (simp add: received_def)
  finally show False using D(4) [OF q] by simp
qed

text \<open>When no work is left, nothing is in flight and nothing waits.\<close>

lemma work_done:
  assumes "quad_tree parent children" "pipeline_ok children P" "work P = 0"
  shows "sl_in_flight (pl_slots P) = {} \<and> sl_queue (pl_slots P) = []"
proof -
  note D = pipeline_okD [OF assms(2)]
  have z: "sl_queue (pl_slots P) = []" "rl_queue (pl_rate P) = []" "pl_asked P = {#}"
    using assms(3) by (auto simp: work_def owed_def)
  have "pl_quads P t = None" for t
  proof (rule ccontr)
    assume "pl_quads P t \<noteq> None"
    then obtain q where q: "pl_quads P t = Some q" by auto
    have load: "quad_loading children t q" "missing children (pl_quads P) = {}"
      using D(2) z(3) q by (auto simp: behind_slots_def assembling_def split: if_splits)
    obtain c where "c \<in> set (children t) - set (received q)"
    proof -
      have "card (set (children t)) = 4"
        using load(1) quad_treeD(1,2) [OF assms(1)] by (simp add: quad_loading_def deep_id_def distinct_card)
      moreover have "card (set (received q)) < 4"
        using D(4) [OF q] card_length [of "received q"] by (simp add: received_def min_def split: if_splits)
      ultimately have "\<not> set (children t) \<subseteq> set (received q)" using card_mono [of "set (received q)" "set (children t)"] by auto
      then show ?thesis using that by blast
    qed
    then show False using load(2) q by (auto simp: missing_def)
  qed
  then have "dom (pl_quads P) = {}" by auto
  then show ?thesis using D(3) z by (simp add: waiting_and_loading_def)
qed

end
