(* ===== verification/Tile_System.thy ===== *)
theory Tile_System
  imports Tile_Pipeline
begin

text \<open>
  Scheduler, pipeline and the height array of the renderer as one machine: the signals of the
  scheduler go where nucleus/tile/setup.h and apps/webgpu_app/RenderingContext.cpp connect them, and
  its timers call what the constructor of \<open>Scheduler\<close> connects them to.
\<close>

text \<open>
  Code outside the repository and what the camera wants: \<open>w_expanded\<close> is the traversal of the radix
  library (the nodes it asks for their children), \<open>w_decode\<close> the image decoder, \<open>w_codec\<close> the byte format of the
  disk cache.
\<close>

record ('c, 'tex) world =
  w_parent :: "tile_id \<Rightarrow> tile_id"
  w_children :: "tile_id \<Rightarrow> tile_id list"
  w_no_tile :: tile_data
  w_nth_element :: nth_element
  w_refine :: "'c \<Rightarrow> tile_id \<Rightarrow> bool"
  w_ready :: "data_quad \<Rightarrow> bool"
  w_expanded :: "(tile_id \<Rightarrow> bool) \<Rightarrow> tile_id list"
  w_decode :: "tile_data \<Rightarrow> 'tex"
  w_codec :: "data_quad codec"

text \<open>The traversal asks only nodes that pass the test, each once.\<close>

definition traversal_ok :: "((tile_id \<Rightarrow> bool) \<Rightarrow> tile_id list) \<Rightarrow> bool" where
  "traversal_ok expanded \<longleftrightarrow>
     (\<forall>p. (\<forall>t. p t \<longrightarrow> zoom_level t < 29) \<longrightarrow> distinct (expanded p) \<and> (\<forall>t \<in> set (expanded p). deep_id t))"

definition world_ok :: "('c, 'tex) world \<Rightarrow> bool" where
  "world_ok w \<longleftrightarrow> quad_tree (w_parent w) (w_children w) \<and> nth_element_spec (w_nth_element w) \<and> traversal_ok (w_expanded w)"

record 'c tile_system =
  ts_scheduler :: "'c scheduler"
  ts_pipeline :: pipeline
  ts_heights :: gpu_array
  ts_visited :: u64
  ts_files :: files

subsection \<open>Signals\<close>

definition take_signal :: "('c, 'tex) world \<Rightarrow> (tile_id \<Rightarrow> u64) \<Rightarrow> signal \<Rightarrow> 'c tile_system \<Rightarrow> 'c tile_system checked" where
  "take_signal w clock sig S =
     (case sig of
        Quads_Requested ts \<Rightarrow> Inr (S\<lparr>ts_pipeline := pipe_request (w_children w) (w_no_tile w) clock ts (ts_pipeline S)\<rparr>)
      | Gpu_Update new_quads deleted \<Rightarrow>
          and_then (update_heights (w_children w) (w_decode w) sig (ts_heights S)) (\<lambda>(_, arr). Inr (S\<lparr>ts_heights := arr\<rparr>))
      | _ \<Rightarrow> Inr S)"

primrec take_signals :: "('c, 'tex) world \<Rightarrow> (tile_id \<Rightarrow> u64) \<Rightarrow> signal list \<Rightarrow> 'c tile_system \<Rightarrow> 'c tile_system checked" where
  "take_signals w clock [] S = Inr S"
| "take_signals w clock (sig # sigs) S = and_then (take_signal w clock sig S) (take_signals w clock sigs)"

text \<open>The update timer: \<open>send_quad_requests\<close>, then \<open>update_gpu_quads\<close>.\<close>

definition update_timeout :: "('c, 'tex) world \<Rightarrow> u64 \<Rightarrow> clock \<Rightarrow> (tile_id \<Rightarrow> u64) \<Rightarrow> 'c tile_system \<Rightarrow> 'c tile_system checked option" where
  "update_timeout w now clock ticks S =
     (let s0 = (ts_scheduler S)\<lparr>sc_update_timer := None\<rparr>;
          asked = send_quad_requests (w_expanded w) (w_refine w) now s0
      in case update_gpu_quads (w_children w) (w_nth_element w) (w_refine w) (w_ready w) clock s0 of
        None \<Rightarrow> None
      | Some (Inl e) \<Rightarrow> Some (Inl e)
      | Some (Inr (s1, sigs)) \<Rightarrow>
          Some (take_signals w ticks (asked @ sigs) (S\<lparr>ts_scheduler := s1, ts_visited := at_gpu_visit clock\<rparr>)))"

definition purge_timeout :: "('c, 'tex) world \<Rightarrow> u64 \<Rightarrow> 'c tile_system \<Rightarrow> 'c tile_system checked option" where
  "purge_timeout w now S =
     (case purge_ram_cache (w_children w) (w_nth_element w) (w_refine w) now ((ts_scheduler S)\<lparr>sc_purge_timer := None\<rparr>) of
        None \<Rightarrow> None
      | Some (s1, _) \<Rightarrow> Some (Inr (S\<lparr>ts_scheduler := s1\<rparr>)))"

text \<open>The persist timer; \<open>may_open\<close> says which files can be opened for writing.\<close>

definition persist_timeout :: "('c, 'tex) world \<Rightarrow> (string \<Rightarrow> bool) \<Rightarrow> 'c tile_system \<Rightarrow> 'c tile_system" where
  "persist_timeout w may_open S =
     (let (_, s, files) = persist_tiles (w_codec w) may_open ((ts_scheduler S)\<lparr>sc_persist_timer := None\<rparr>, ts_files S)
      in S\<lparr>ts_scheduler := s, ts_files := files\<rparr>)"

definition rate_timer :: "('c, 'tex) world \<Rightarrow> u64 \<Rightarrow> 'c tile_system \<Rightarrow> 'c tile_system" where
  "rate_timer w now S = S\<lparr>ts_pipeline := pipe_timeout (w_children w) (w_no_tile w) now (ts_pipeline S)\<rparr>"

text \<open>An answer of the load service; a quad that became complete reaches the scheduler.\<close>

primrec receive_all :: "(tile_id \<Rightarrow> u64) \<Rightarrow> data_quad list \<Rightarrow> 'c scheduler \<Rightarrow> 'c scheduler checked" where
  "receive_all ticks [] s = Inr s"
| "receive_all ticks (q # qs) s = and_then (receive_quad (ticks (dq_id q)) q s) (\<lambda>(s', _). receive_all ticks qs s')"

definition tile_answered :: "('c, 'tex) world \<Rightarrow> (tile_id \<Rightarrow> u64) \<Rightarrow> tile_data \<Rightarrow> 'c tile_system \<Rightarrow> 'c tile_system checked" where
  "tile_answered w ticks td S =
     (let P = ts_pipeline S
      in and_then (pipe_deliver (w_parent w) (w_children w) (w_no_tile w) ticks td (P\<lparr>pl_asked := pl_asked P - {#td_id td#}\<rparr>)) (\<lambda>P'.
         and_then (receive_all ticks (drop (length (pl_delivered P)) (pl_delivered P')) (ts_scheduler S)) (\<lambda>s'.
           Inr (S\<lparr>ts_scheduler := s', ts_pipeline := P'\<rparr>))))"

subsection \<open>The machine\<close>

definition on_scheduler :: "('c scheduler \<Rightarrow> 'c scheduler checked) \<Rightarrow> 'c tile_system \<Rightarrow> 'c tile_system checked option" where
  "on_scheduler f S = Some (and_then (f (ts_scheduler S)) (\<lambda>s. Inr (S\<lparr>ts_scheduler := s\<rparr>)))"

text \<open>The clock does not run backwards between two GPU visits, and a hundred ticks its value fits 64 bits.\<close>

definition clock_ok :: "u64 \<Rightarrow> u64 \<Rightarrow> bool" where
  "clock_ok before now \<longleftrightarrow> before \<le> now \<and> 100 * unat now < 2 ^ 64 \<and> 29 \<le> 100 * unat now"

inductive system_step :: "('c, 'tex) world \<Rightarrow> 'c tile_system \<Rightarrow> 'c tile_system checked option \<Rightarrow> bool" for w where
  camera: "system_step w S (on_scheduler (update_camera c) S)"
| enabled: "system_step w S (on_scheduler (set_enabled b) S)"
| network: "system_step w S (on_scheduler (set_network_reachability r) S)"
| update: "sc_update_timer (ts_scheduler S) \<noteq> None \<Longrightarrow> clock_ok (ts_visited S) (at_gpu_visit clock) \<Longrightarrow>
    system_step w S (update_timeout w now clock ticks S)"
| purged: "sc_purge_timer (ts_scheduler S) \<noteq> None \<Longrightarrow> system_step w S (purge_timeout w now S)"
| persisted: "sc_persist_timer (ts_scheduler S) \<noteq> None \<Longrightarrow> system_step w S (Some (Inr (persist_timeout w may_open S)))"
| rate: "rl_timer (pl_rate (ts_pipeline S)) \<noteq> None \<Longrightarrow> system_step w S (Some (Inr (rate_timer w now S)))"
| answered: "t \<in># pl_asked (ts_pipeline S) \<Longrightarrow>
    system_step w S (Some (tile_answered w ticks (load_finished now t reply) S))"

inductive system_run :: "('c, 'tex) world \<Rightarrow> 'c tile_system \<Rightarrow> 'c tile_system checked option \<Rightarrow> bool" for w where
  start: "system_run w S (Some (Inr S))"
| further: "system_run w S (Some (Inr T)) \<Longrightarrow> system_step w T R \<Longrightarrow> system_run w S R"

definition system_ok :: "('c, 'tex) world \<Rightarrow> 'c tile_system \<Rightarrow> bool" where
  "system_ok w S \<longleftrightarrow> heights_in_sync (w_children w) (ts_scheduler S) (ts_heights S) \<and>
     gpu_tree (w_children w) (ts_visited S) (ts_scheduler S) \<and> pipeline_ok (w_children w) (ts_pipeline S) \<and>
     st_max_zoom_level (sc_settings (ts_scheduler S)) \<le> 29 \<and> st_update_timeout (sc_settings (ts_scheduler S)) < int_max \<and>
     st_purge_timeout (sc_settings (ts_scheduler S)) < int_max \<and> st_persist_timeout (sc_settings (ts_scheduler S)) < int_max"

text \<open>What a step that only touches the timers, switches and the camera keeps.\<close>

definition same_tiles :: "'c scheduler \<Rightarrow> 'c scheduler \<Rightarrow> bool" where
  "same_tiles s s' \<longleftrightarrow> sc_ram s' = sc_ram s \<and> sc_gpu s' = sc_gpu s \<and> sc_settings s' = sc_settings s"

lemma system_ok_same:
  assumes "system_ok w S" "same_tiles (ts_scheduler S) s'"
  shows "system_ok w (S\<lparr>ts_scheduler := s'\<rparr>)"
  using assms
  by (simp add: system_ok_def same_tiles_def heights_in_sync_def scheduler_ok_def ram_whole_def on_gpu_def gpu_tree_def)

lemma persist_keeps:
  assumes "system_ok w S"
  shows "system_ok w (persist_timeout w may_open S)"
proof -
  obtain r s files where p: "persist_tiles (w_codec w) may_open ((ts_scheduler S)\<lparr>sc_persist_timer := None\<rparr>, ts_files S) = (r, s, files)"
    by (metis prod_cases3)
  then have "same_tiles (ts_scheduler S) s" by (auto simp: persist_tiles_def same_tiles_def split: if_splits prod.splits sum.splits)
  from system_ok_same [OF assms this] show ?thesis by (simp add: persist_timeout_def p system_ok_def)
qed

lemma schedule_runs:
  "st_update_timeout (sc_settings s) < int_max \<Longrightarrow> \<exists>s'. schedule_update s = Inr s' \<and> same_tiles s s'"
  "st_purge_timeout (sc_settings s) < int_max \<Longrightarrow> \<exists>s'. schedule_purge s = Inr s' \<and> same_tiles s s'"
  "st_persist_timeout (sc_settings s) < int_max \<Longrightarrow> \<exists>s'. schedule_persist s = Inr s' \<and> same_tiles s s'"
  by (simp_all add: schedule_update_def schedule_purge_def schedule_persist_def same_tiles_def)

lemma switches_run:
  assumes "st_update_timeout (sc_settings s) < int_max"
  shows "\<exists>s'. update_camera c s = Inr s' \<and> same_tiles s s'" "\<exists>s'. set_enabled b s = Inr s' \<and> same_tiles s s'"
    "\<exists>s'. set_network_reachability r s = Inr s' \<and> same_tiles s s'"
  using assms by (simp_all add: update_camera_def set_enabled_def set_network_reachability_def schedule_update_def same_tiles_def)

lemma on_scheduler_ok:
  assumes "system_ok w S" "\<exists>s'. f (ts_scheduler S) = Inr s' \<and> same_tiles (ts_scheduler S) s'"
  shows "\<exists>S'. on_scheduler f S = Some (Inr S') \<and> system_ok w S'"
  using assms system_ok_same [OF assms(1)] by (auto simp: on_scheduler_def)

text \<open>Receiving a quad.\<close>

lemma receive_runs:
  assumes "st_update_timeout (sc_settings s) < int_max" "st_purge_timeout (sc_settings s) < int_max"
    "st_persist_timeout (sc_settings s) < int_max"
  shows "\<exists>s' sigs. receive_quad now q s = Inr (s', sigs)"
proof (cases "ni_status (quad_info q) = Network_Error")
  case False
  let ?s1 = "s\<lparr>sc_ram := insert_object dq_id now q (sc_ram s)\<rparr>"
  obtain s2 where 2: "schedule_purge ?s1 = Inr s2" "same_tiles ?s1 s2" using schedule_runs(2) [of ?s1] assms by auto
  then have "st_update_timeout (sc_settings s2) < int_max" using assms by (simp add: same_tiles_def)
  then obtain s3 where 3: "schedule_update s2 = Inr s3" "same_tiles s2 s3" using schedule_runs(1) by blast
  then have "st_persist_timeout (sc_settings s3) < int_max" using 2 assms by (simp add: same_tiles_def)
  then obtain s4 where 4: "schedule_persist s3 = Inr s4" using schedule_runs(3) by blast
  show ?thesis using False 2 3 4 by (cases "ni_status (quad_info q)") (simp_all add: receive_quad_def Let_def)
qed (simp add: receive_quad_def)

lemma receive_keeps:
  assumes ok: "system_ok w S" and q: "deep_id (dq_id q)" "whole_quad (w_children w) q"
  shows "\<exists>s' sigs. receive_quad now q (ts_scheduler S) = Inr (s', sigs) \<and> system_ok w (S\<lparr>ts_scheduler := s'\<rparr>)"
proof -
  obtain s' sigs where run: "receive_quad now q (ts_scheduler S) = Inr (s', sigs)"
    using receive_runs ok unfolding system_ok_def by blast
  have s: "scheduler_ok (ts_scheduler S)" using ok by (simp add: system_ok_def heights_in_sync_def)
  have s': "scheduler_ok s'" "on_gpu s' = on_gpu (ts_scheduler S)"
    using receive_quad_ok [OF run s] q(1) by (simp_all add: deep_id_def)
  note effect = receive_quad_effect [OF run]
  have "ram_whole (w_children w) s'"
    using ok q(2) by (auto simp: system_ok_def heights_in_sync_def ram_whole_def effect(1) peak_at_insert split: if_splits)
  then have "system_ok w (S\<lparr>ts_scheduler := s'\<rparr>)"
    using ok s' by (simp add: system_ok_def heights_in_sync_def gpu_tree_def seen_by_def effect(2,3))
  then show ?thesis using run by blast
qed

lemma receive_all_keeps:
  "system_ok w S \<Longrightarrow> \<forall>q \<in> set qs. deep_id (dq_id q) \<and> whole_quad (w_children w) q \<Longrightarrow>
   \<exists>s'. receive_all ticks qs (ts_scheduler S) = Inr s' \<and> system_ok w (S\<lparr>ts_scheduler := s'\<rparr>)"
proof (induction qs arbitrary: S)
  case (Cons q qs)
  obtain s1 sigs where one: "receive_quad (ticks (dq_id q)) q (ts_scheduler S) = Inr (s1, sigs)" "system_ok w (S\<lparr>ts_scheduler := s1\<rparr>)"
    using receive_keeps [OF Cons.prems(1), of q "ticks (dq_id q)"] Cons.prems(2) by auto
  from Cons.IH [OF one(2)] Cons.prems(2) show ?case by (simp add: one(1))
qed simp

lemma system_ok_pipeline:
  "system_ok w S \<Longrightarrow> pipeline_ok (w_children w) P \<Longrightarrow> system_ok w (S\<lparr>ts_pipeline := P\<rparr>)"
  by (simp add: system_ok_def)

lemma answered_ok:
  assumes w: "world_ok w" and ok: "system_ok w S" and t: "td_id td \<in># pl_asked (ts_pipeline S)"
  shows "\<exists>S'. tile_answered w ticks td S = Inr S' \<and> system_ok w S'"
proof -
  have tree: "quad_tree (w_parent w) (w_children w)" using w by (simp add: world_ok_def)
  have pipe: "pipeline_ok (w_children w) (ts_pipeline S)" using ok by (simp add: system_ok_def)
  obtain P' qs where P': "pipe_deliver (w_parent w) (w_children w) (w_no_tile w) ticks td
      ((ts_pipeline S)\<lparr>pl_asked := pl_asked (ts_pipeline S) - {#td_id td#}\<rparr>) = Inr P'"
      "pipeline_ok (w_children w) P'" "pl_delivered P' = pl_delivered (ts_pipeline S) @ qs" "\<forall>q \<in> set qs. deep_id (dq_id q)"
    using pipe_deliver_ok [OF tree pipe t] by blast
  have "\<forall>q \<in> set qs. whole_quad (w_children w) q" using pipeline_okD(5) [OF P'(2)] P'(3) by auto
  then obtain s' where s': "receive_all ticks qs (ts_scheduler S) = Inr s'" "system_ok w (S\<lparr>ts_scheduler := s'\<rparr>)"
    using receive_all_keeps [OF ok] P'(4) by blast
  have "tile_answered w ticks td S = Inr (S\<lparr>ts_scheduler := s', ts_pipeline := P'\<rparr>)"
    by (simp add: tile_answered_def Let_def P'(1,3) s'(1))
  then show ?thesis using system_ok_pipeline [OF s'(2) P'(2)] by blast
qed

text \<open>The purge timer: fewer quads in memory, none of them changed.\<close>

lemma map_of_filter_key: "map_of (filter (\<lambda>e. P (fst e)) m) t = (if P t then map_of m t else None)"
  by (induction m) auto

lemma purge_keeps:
  assumes w: "world_ok w" and ok: "system_ok w S"
  shows "\<exists>S'. purge_timeout w now S = Some (Inr S') \<and> system_ok w S'"
proof -
  have tree: "quad_tree (w_parent w) (w_children w)" using w by (simp add: world_ok_def)
  define s where "s = (ts_scheduler S)\<lparr>sc_purge_timer := None\<rparr>"
  have s: "same_tiles (ts_scheduler S) s" by (simp add: s_def same_tiles_def)
  note ok_s = system_ok_same [OF ok s]
  have sh: "shallow (sc_ram s)" "cache_ok dq_id (sc_ram s)"
    using ok_s by (simp_all add: system_ok_def heights_in_sync_def scheduler_ok_def)
  let ?n = "st_ram_quad_limit (sc_settings s)"
  show ?thesis
  proof (cases "n_cached_objects (sc_ram s) \<le> purge_threshold ?n")
    case True
    then have "purge_timeout w now S = Some (Inr (S\<lparr>ts_scheduler := s\<rparr>))"
      by (simp add: purge_timeout_def purge_ram_cache_def flip: s_def)
    then show ?thesis using ok_s by blast
  next
    case False
    let ?p = "\<lambda>q. should_refine (w_refine w) s (dq_id q)"
    define m where "m = restamp now dq_id (accepted (w_children w) ?p (sc_ram s)) (sc_ram s)"
    have "visit (w_children w) dq_id (\<lambda>q u. (?p q, u)) now (sc_ram s) () = Some (m, ())"
      using visit_accepted [OF tree sh(1), where tid = dq_id and p = ?p and g = "\<lambda>_ u. u" and s = "()"] by (simp add: m_def)
    then obtain sigs where run: "purge_ram_cache (w_children w) (w_nth_element w) (w_refine w) now s =
        Some (s\<lparr>sc_ram := snd (purge (w_nth_element w) ?n m)\<rparr>, sigs)"
      using False by (simp add: purge_ram_cache_def Let_def)
    let ?gone = "gone (w_nth_element w) ?n m"
    define m' where "m' = filter (\<lambda>e. fst e \<notin> set ?gone) m"
    have m': "snd (purge (w_nth_element w) ?n m) = m'" by (simp add: purge_gone m'_def)
    have keys: "fst ` set m' \<subseteq> fst ` set (sc_ram s)"
    proof -
      have "fst ` set m = fst ` set (sc_ram s)" unfolding m_def by (simp only: set_map [symmetric] keys_restamp)
      moreover have "fst ` set m' \<subseteq> fst ` set m" unfolding m'_def by (intro image_mono) simp
      ultimately show ?thesis by simp
    qed
    have mok: "cache_ok dq_id m" unfolding m_def by (rule restamp_ok [OF sh(2)])
    then have "cache_ok dq_id m'" by (auto simp: m'_def cache_ok_def distinct_map_filter)
    moreover have "shallow m'" using sh(1) keys unfolding shallow_def by blast
    moreover have "peak_at m' t = Some q \<Longrightarrow> peak_at (sc_ram s) t = Some q" for t q
    proof -
      assume "peak_at m' t = Some q"
      then have "peak_at m t = Some q"
        by (simp add: peak_at_def m'_def map_of_filter_key [where P = "\<lambda>t. t \<notin> set ?gone"] split: if_splits)
      then show "peak_at (sc_ram s) t = Some q" by (simp add: m_def)
    qed
    ultimately have "system_ok w (S\<lparr>ts_scheduler := s\<lparr>sc_ram := m'\<rparr>\<rparr>)"
      using ok_s by (auto simp: system_ok_def heights_in_sync_def scheduler_ok_def ram_whole_def gpu_tree_def seen_by_def on_gpu_def)
    then show ?thesis using run by (simp add: purge_timeout_def m' flip: s_def)
  qed
qed

text \<open>The update timer.\<close>

lemma requests_deep:
  assumes "traversal_ok expanded" "st_max_zoom_level (sc_settings s) \<le> 29"
  shows "distinct (missing_quads expanded refine now s)" "\<forall>t \<in> set (missing_quads expanded refine now s). deep_id t"
proof -
  have "\<forall>t. should_refine refine s t \<longrightarrow> zoom_level t < 29"
    using assms(2) by (auto simp: should_refine_def not_le intro: less_le_trans)
  then have "distinct (expanded (should_refine refine s)) \<and> (\<forall>t \<in> set (expanded (should_refine refine s)). deep_id t)"
    using assms(1) unfolding traversal_ok_def by blast
  then show "distinct (missing_quads expanded refine now s)" "\<forall>t \<in> set (missing_quads expanded refine now s). deep_id t"
    by (simp_all add: missing_quads_def)
qed

lemma take_requests:
  assumes w: "world_ok w" and pipe: "pipeline_ok (w_children w) (ts_pipeline S)"
    and zoom: "st_max_zoom_level (sc_settings s) \<le> 29"
  shows "\<exists>P. pipeline_ok (w_children w) P \<and>
    take_signals w ticks (send_quad_requests (w_expanded w) (w_refine w) now s @ sigs) S =
    take_signals w ticks sigs (S\<lparr>ts_pipeline := P\<rparr>)"
proof (cases "sc_network s")
  case True
  let ?ts = "missing_quads (w_expanded w) (w_refine w) now s"
  have w': "quad_tree (w_parent w) (w_children w)" "traversal_ok (w_expanded w)" using w by (simp_all add: world_ok_def)
  note ts = requests_deep [OF w'(2) zoom, of "w_refine w" now]
  note P = pipe_request_ok(1) [OF w'(1) pipe ts refl, of "w_no_tile w" ticks]
  show ?thesis
    using True by (intro exI [of _ "pipe_request (w_children w) (w_no_tile w) ticks ?ts (ts_pipeline S)"])
      (simp add: P send_quad_requests_def Let_def take_signal_def)
next
  case False
  then show ?thesis using pipe by (intro exI [of _ "ts_pipeline S"]) (simp add: send_quad_requests_def)
qed

lemma update_keeps:
  assumes w: "world_ok w" and ok: "system_ok w S" and clock: "clock_ok (ts_visited S) (at_gpu_visit clock)"
  shows "\<exists>S'. update_timeout w now clock ticks S = Some (Inr S') \<and> system_ok w S'"
proof -
  have w': "quad_tree (w_parent w) (w_children w)" "nth_element_spec (w_nth_element w)" using w by (simp_all add: world_ok_def)
  define s where "s = (ts_scheduler S)\<lparr>sc_update_timer := None\<rparr>"
  have s: "same_tiles (ts_scheduler S) s" by (simp add: s_def same_tiles_def)
  have ok_s: "heights_in_sync (w_children w) s (ts_heights S)" "gpu_tree (w_children w) (ts_visited S) s"
      "st_max_zoom_level (sc_settings s) \<le> 29" "pipeline_ok (w_children w) (ts_pipeline S)"
    using system_ok_same [OF ok s] by (simp_all add: system_ok_def)
  obtain s' new_quads deleted us arr where run:
      "update_gpu_quads (w_children w) (w_nth_element w) (w_refine w) (w_ready w) clock s = Some (Inr (s', [Gpu_Update new_quads deleted]))"
      "update_heights (w_children w) (w_decode w) (Gpu_Update new_quads deleted) (ts_heights S) = Inr (us, arr)"
      "heights_in_sync (w_children w) s' arr"
    using update_keeps_heights [OF ok_s(1) w'] by blast
  have sok: "scheduler_ok s" using ok_s(1) by (simp add: heights_in_sync_def)
  have tree': "gpu_tree (w_children w) (at_gpu_visit clock) s'"
    using clock by (intro update_keeps_tree [OF sok w' ok_s(2) _ _ _ run(1)]) (simp_all add: clock_ok_def)
  have st: "sc_settings s' = sc_settings s"
    using update_gpu_quads_run [OF sok w', of "w_refine w" "w_ready w" clock] run(1) by auto
  let ?S = "S\<lparr>ts_scheduler := s', ts_visited := at_gpu_visit clock\<rparr>"
  have "pipeline_ok (w_children w) (ts_pipeline ?S)" using ok_s(4) by simp
  from take_requests [OF w this ok_s(3), of ticks now "[Gpu_Update new_quads deleted]"]
  obtain P where P: "pipeline_ok (w_children w) P"
    "take_signals w ticks (send_quad_requests (w_expanded w) (w_refine w) now s @ [Gpu_Update new_quads deleted]) ?S =
     take_signals w ticks [Gpu_Update new_quads deleted] (?S\<lparr>ts_pipeline := P\<rparr>)" by blast
  have "update_timeout w now clock ticks S = Some (Inr (?S\<lparr>ts_pipeline := P, ts_heights := arr\<rparr>))"
    by (simp only: update_timeout_def Let_def s_def [symmetric] run(1) option.case sum.case prod.case P(2))
      (simp add: take_signal_def run(2))
  moreover have "system_ok w (?S\<lparr>ts_pipeline := P, ts_heights := arr\<rparr>)"
    using ok s tree' run(3) P(1) by (simp add: system_ok_def st same_tiles_def)
  ultimately show ?thesis by blast
qed

lemma system_step_ok:
  assumes w: "world_ok w" and step: "system_step w S R" and ok: "system_ok w S"
  shows "\<exists>S'. R = Some (Inr S') \<and> system_ok w S'"
  using step
proof (cases rule: system_step.cases)
  case (rate now)
  have "quad_tree (w_parent w) (w_children w)" "pipeline_ok (w_children w) (ts_pipeline S)"
    using w ok by (simp_all add: world_ok_def system_ok_def)
  from pipe_timeout_ok(1) [OF this refl, of "w_no_tile w" now] show ?thesis
    using rate(1) system_ok_pipeline [OF ok] by (simp add: rate_timer_def)
next
  case (answered t ticks now reply)
  then have "td_id (load_finished now t reply) \<in># pl_asked (ts_pipeline S)" by simp
  from answered_ok [OF w ok this, of ticks] show ?thesis using answered(1) by auto
next
  case (update clock now ticks)
  from update_keeps [OF w ok update(3), of now ticks] show ?thesis using update(1) by simp
next
  case (persisted may_open)
  then show ?thesis using persist_keeps [OF ok] by simp
next
  case (purged now)
  from purge_keeps [OF w ok, of now] show ?thesis using purged(1) by simp
qed (use ok on_scheduler_ok [OF ok] switches_run [of "ts_scheduler S"] in \<open>simp_all add: system_ok_def\<close>)

theorem system_run_ok:
  assumes w: "world_ok w" and run: "system_run w S R" and ok: "system_ok w S"
  shows "\<exists>S'. R = Some (Inr S') \<and> system_ok w S'"
  using run ok
proof induction
  case (further S T R)
  then have "system_ok w T" by simp
  then show ?case by (rule system_step_ok [OF w further.hyps(2)])
qed simp

end
