(* ===== verification/Tile_Demo.thy ===== *)
theory Tile_Demo
  imports Tile_System
begin

text \<open>
  A concrete tile tree, caches, and a machine at its start, to which the properties of the tile
  pipeline are applied; and what the disk cache gives back to a scheduler.
\<close>

subsection \<open>A tile tree\<close>

definition demo_children :: "tile_id \<Rightarrow> tile_id list" where
  "demo_children t =
     (let z = zoom_level t + 1; x = 2 * coords_x t; y = 2 * coords_y t
      in [tile z x y, tile z (x + 1) y, tile z x (y + 1), tile z (x + 1) (y + 1)])"

lemma doubled:
  fixes x z :: u32
  assumes "z < 29" "x < push_bit (unat z) 1" "i \<le> 1"
  shows "(2 * x + i) div 2 = x" "2 * x + i < push_bit (unat (z + 1)) 1" "unat (2 * x + i) = 2 * unat x + unat i"
proof -
  have z: "unat z < 29" using assms(1) by (simp add: word_less_nat_alt)
  then have z1: "unat (z + 1) = Suc (unat z)" by (simp add: unat_word_ariths)
  have x: "unat x < 2 ^ unat z"
    using assms(2) unat_push_bit_one [of "unat z"] z by (simp add: word_less_nat_alt)
  have "(2::nat) ^ unat z \<le> 2 ^ 28" using z by (intro power_increasing) simp_all
  then have small: "2 * unat x + unat i < 2 ^ 32"
    using x assms(3) by (simp add: word_le_nat_alt)
  then show u: "unat (2 * x + i) = 2 * unat x + unat i" by (simp add: unat_word_ariths)
  have "unat i \<le> 1" using assms(3) by (simp add: word_le_nat_alt)
  then have "unat ((2 * x + i) div 2) = unat x" by (simp add: unat_div u)
  then show "(2 * x + i) div 2 = x" by (simp add: word_unat_eq_iff)
  have "2 * unat x + unat i < 2 ^ unat (z + 1)" using x \<open>unat i \<le> 1\<close> by (simp add: z1)
  then show "2 * x + i < push_bit (unat (z + 1)) 1"
    using unat_push_bit_one [of "unat (z + 1)"] z by (simp add: word_less_nat_alt u z1)
qed

lemma demo_tree: "quad_tree climb_step demo_children"
proof -
  have "length (demo_children t) = 4 \<and> distinct (demo_children t) \<and>
     (\<forall>c \<in> set (demo_children t). valid_tile c \<and> climb_step c = t \<and> zoom_level c = zoom_level t + 1)"
    if t: "valid_tile t" "zoom_level t < 29" for t
  proof -
    have xy: "coords_x t < push_bit (unat (zoom_level t)) 1" "coords_y t < push_bit (unat (zoom_level t)) 1"
      using t(1) by (simp_all add: valid_tile_def)
    note X0 = doubled [OF t(2) xy(1), of 0, simplified] and X1 = doubled [OF t(2) xy(1), of 1, simplified]
      and Y0 = doubled [OF t(2) xy(2), of 0, simplified] and Y1 = doubled [OF t(2) xy(2), of 1, simplified]
    have z: "zoom_level t + 1 \<le> 29" using t(2) by (simp add: inc_le)
    have "2 * coords_x t \<noteq> 2 * coords_x t + 1" "2 * coords_y t \<noteq> 2 * coords_y t + 1" by simp_all
    then show ?thesis
      using X0 X1 Y0 Y1 z by (simp add: demo_children_def Let_def valid_tile_def climb_step_def)
  qed
  then show ?thesis unfolding quad_tree_def by blast
qed

definition demo_nth :: nth_element where
  "demo_nth n xs = rev (sort_key snd xs)"

lemma demo_nth_spec: "nth_element_spec demo_nth"
proof -
  have "snd b \<le> snd a" if a: "a \<in> set (take n (demo_nth n xs))" and b: "b \<in> set (drop n (demo_nth n xs))" for n xs a and b :: "tile_id \<times> u64"
  proof -
    let ?l = "demo_nth n xs"
    have "\<exists>i. i < n \<and> i < length ?l \<and> a = ?l ! i" using a by (auto simp: in_set_conv_nth)
    then obtain i where i: "i < n" "i < length ?l" "a = ?l ! i" by blast
    obtain j where "j < length (drop n ?l)" "drop n ?l ! j = b" using b unfolding in_set_conv_nth by blast
    then have j: "n + j < length ?l" "b = ?l ! (n + j)" by simp_all
    have "sorted (map snd (rev ?l))" by (simp add: demo_nth_def)
    then have "sorted_wrt (\<ge>) (map snd ?l)" by (simp add: rev_map [symmetric] sorted_wrt_rev)
    from sorted_wrt_nth_less [OF this, of i "n + j"] i j show ?thesis by simp
  qed
  then show ?thesis by (simp add: nth_element_spec_def) (simp add: demo_nth_def)
qed

definition demo_expanded :: "(tile_id \<Rightarrow> bool) \<Rightarrow> tile_id list" where
  "demo_expanded p = visit_walk 31 demo_children p Some root_tile"

lemma demo_traversal: "traversal_ok demo_expanded"
proof -
  have "distinct (demo_expanded p) \<and> (\<forall>t \<in> set (demo_expanded p). deep_id t)" if p: "\<forall>t. p t \<longrightarrow> zoom_level t < 29" for p
  proof -
    have low: "\<forall>t x. Some t = Some x \<and> p x \<longrightarrow> zoom_level t < 29" using p by simp
    have "deep_id t" if t: "t \<in> set (demo_expanded p)" for t
      using walk_under [OF demo_tree low valid_root] walk_cached [of t 31 demo_children p Some root_tile] t p
      unfolding demo_expanded_def deep_id_def by blast
    then show ?thesis unfolding demo_expanded_def using distinct_walk [OF demo_tree low valid_root] by simp
  qed
  then show ?thesis by (simp add: traversal_ok_def)
qed

subsection \<open>A machine at its start\<close>

definition no_tile :: tile_data where
  "no_tile = \<lparr>td_id = root_tile, td_info = \<lparr>ni_status = Good, ni_timestamp = 0\<rparr>, td_data = None\<rparr>"

text \<open>A cache of one quad, and a codec that knows this quad\<close>

definition demo_quad :: data_quad where
  "demo_quad = \<lparr>dq_id = root_tile, dq_n_tiles = 4, dq_tiles = map (\<lambda>t. no_tile\<lparr>td_id := t\<rparr>) (demo_children root_tile)\<rparr>"

definition demo_meta :: meta_data where
  "demo_meta = \<lparr>md_visited = 7, md_created = 5\<rparr>"

definition demo_cache :: "data_quad cache_map" where
  "demo_cache = [(root_tile, \<lparr>co_meta = demo_meta, co_data = demo_quad\<rparr>)]"

definition demo_codec :: "data_quad codec" where
  "demo_codec = \<lparr>cd_version = [1], put_version = Some [1],
     put_data = (\<lambda>q. if q = demo_quad then Some [2] else None),
     put_metas = (\<lambda>m. if m = [(root_tile, demo_meta)] then Some [3] else None),
     get_version = (\<lambda>bs. case bs of [] \<Rightarrow> None | b # r \<Rightarrow> Some ([b], r)),
     get_data = (\<lambda>bs. case bs of [] \<Rightarrow> None | b # r \<Rightarrow> if b = 2 then Some (demo_quad, r) else None),
     get_metas = (\<lambda>bs. case bs of [] \<Rightarrow> None | b # r \<Rightarrow> if b = 3 then Some ([(root_tile, demo_meta)], r) else None)\<rparr>"

lemma demo_codec_ok: "codec_ok demo_codec"
  by (simp add: codec_ok_def demo_codec_def)

definition demo_world :: "(unit, nat) world" where
  "demo_world = \<lparr>w_parent = climb_step, w_children = demo_children, w_no_tile = no_tile, w_nth_element = demo_nth,
     w_refine = (\<lambda>_ t. zoom_level t < 2), w_ready = (\<lambda>_. True), w_expanded = demo_expanded, w_decode = (\<lambda>_. 0),
     w_codec = demo_codec\<rparr>"

lemma demo_world_ok: "world_ok demo_world"
  by (simp add: world_ok_def demo_world_def demo_tree demo_nth_spec demo_traversal)

text \<open>The settings of \<open>setup::geometry_scheduler\<close>, and four layers for each quad of the limit.\<close>

definition demo_settings :: settings where
  "demo_settings = \<lparr>st_max_zoom_level = 18, st_gpu_quad_limit = 512, st_ram_quad_limit = 5000,
     st_retirement_age = 864000000, st_update_timeout = 100, st_purge_timeout = 1000, st_persist_timeout = 10000\<rparr>"

definition demo_heights :: gpu_array where
  "demo_heights = (case set_tile_limit 2048 empty_array of Inl _ \<Rightarrow> empty_array | Inr arr \<Rightarrow> arr)"

lemma demo_heights_ok: "array_ok demo_heights" "ga_size demo_heights = 2048" "held_tiles demo_heights = {}"
proof -
  obtain arr where arr: "set_tile_limit 2048 empty_array = Inr arr"
    by (simp add: set_tile_limit_def empty_array_def)
  then have d: "demo_heights = arr" by (simp add: demo_heights_def)
  show "array_ok demo_heights" "ga_size demo_heights = 2048" "held_tiles demo_heights = {}"
    using set_tile_limit_ok [OF arr] by (simp_all add: d held_tiles_def)
qed

definition demo_start :: "unit tile_system" where
  "demo_start = \<lparr>ts_scheduler = make_scheduler demo_settings (), ts_pipeline = new_pipeline, ts_heights = demo_heights, ts_visited = 0,
     ts_files = Map.empty\<rparr>"

lemma demo_start_ok: "system_ok demo_world demo_start"
proof -
  have "tiles_of demo_children {} = {}" by (simp add: tiles_of_def)
  moreover have "ram_whole demo_children (make_scheduler demo_settings ())"
    by (simp add: ram_whole_def make_scheduler_def peak_at_def)
  moreover have "sc_settings (make_scheduler demo_settings ()) = demo_settings" by (simp add: make_scheduler_def)
  moreover have "rooted demo_children {}" by (simp add: rooted_def)
  ultimately show ?thesis
    by (simp add: system_ok_def demo_start_def demo_world_def heights_in_sync_def make_scheduler_ok demo_heights_ok gpu_tree_def
        new_pipeline_ok) (simp add: demo_settings_def int_max_def)
qed

text \<open>Enabled, its update timer runs.\<close>

definition demo_enabled :: "unit tile_system" where
  "demo_enabled = demo_start\<lparr>ts_scheduler := (make_scheduler demo_settings ())\<lparr>sc_enabled := True, sc_update_timer := Some 100\<rparr>\<rparr>"

lemma demo_enables: "on_scheduler (set_enabled True) demo_start = Some (Inr demo_enabled)"
  by (simp add: on_scheduler_def set_enabled_def schedule_update_def demo_start_def demo_enabled_def make_scheduler_def
      demo_settings_def int_max_def)

definition demo_clock :: clock where
  "demo_clock = \<lparr>at_ram_visit = 1000, at_gpu_visit = 1000, at_insert = (\<lambda>_. 1000)\<rparr>"

lemma demo_run: "system_run demo_world demo_start (update_timeout demo_world 1000 demo_clock (\<lambda>_. 1000) demo_enabled)"
proof -
  have "system_run demo_world demo_start (Some (Inr demo_enabled))"
    using system_run.further [OF system_run.start system_step.enabled] by (simp only: demo_enables [symmetric])
  moreover have "sc_update_timer (ts_scheduler demo_enabled) \<noteq> None" by (simp add: demo_enabled_def)
  moreover have "clock_ok (ts_visited demo_enabled) (at_gpu_visit demo_clock)"
    by (simp add: clock_ok_def demo_clock_def demo_enabled_def demo_start_def)
  ultimately show ?thesis by (intro system_run.further [OF _ system_step.update])
qed

subsection \<open>A pipeline with the root quad under way\<close>

definition demo_asked :: pipeline where
  "demo_asked = pipe_request demo_children no_tile (\<lambda>_. 1000) [root_tile] new_pipeline"

lemma demo_asks: "pl_asked demo_asked = mset (demo_children root_tile)" "work demo_asked = 4"
  by (simp_all add: demo_asked_def pipe_request_def request_quads_def new_pipeline_def new_slot_limiter_def pipe_rate_def
      rate_quad_def process_queue_def new_rate_limiter_def pipe_sent_def pipe_load_def load_quad_def Let_def work_def owed_def
      demo_children_def)

lemma demo_pipeline_run: "pipeline_run climb_step demo_children no_tile new_pipeline (Inr demo_asked)"
  unfolding demo_asked_def
  by (rule pipeline_run.further [OF pipeline_run.start pipeline_step.requested])
    (simp_all add: deep_id_def valid_root, simp add: root_tile_def)

subsection \<open>The disk cache of a scheduler\<close>

lemma persist_round_trip:
  assumes "codec_ok codec" "cache_ok dq_id (sc_ram s)" "distinct (map fst (sc_disk s))" "synced codec (sc_ram s) (sc_disk s) files"
    "persist_tiles codec may_open (s, files) = (True, s', files')" "named new"
  shows "\<exists>new'. read_disk_cache codec (new, files') = (True, new', files') \<and> map_of (sc_ram new') = map_of (sc_ram s) \<and>
    sc_ram s' = sc_ram s \<and> synced codec (sc_ram s') (sc_disk s') files'"
proof -
  obtain disk where w: "write_to_disk codec may_open (sc_ram s) (sc_disk s) files = (Inr (), files', disk)" "s' = s\<lparr>sc_disk := disk\<rparr>"
    using assms(5) by (auto simp: persist_tiles_def split: if_splits prod.splits sum.splits)
  obtain ram disk' where "read_from_disk codec dq_id files' = (Inr (), ram, disk')" "map_of ram = map_of (sc_ram s)"
    using read_back [OF assms(1,2) w(1) assms(4,3)] by blast
  moreover have "synced codec (sc_ram s) disk files'"
    by (rule synced_written [OF w(1) assms(4) cache_ok_distinct [OF assms(2)] assms(3)])
  ultimately show ?thesis using assms(6) w(2) by (simp add: read_disk_cache_def)
qed

lemma persist_failure_spoils:
  assumes "codec_ok codec" "cache_ok dq_id (sc_ram s)" "fst (write_to_disk codec may_open (sc_ram s) (sc_disk s) files) = Inl (Could_not_write p)"
    "p \<noteq> meta_info_path" "persist_tiles codec may_open (s, files) = (r, s1, files1)"
    "persist_tiles codec may_open' (s1, files1) = (True, s2, files2)" "named new"
  shows "\<not> r \<and> read_disk_cache codec (new, files2) = (False, new\<lparr>sc_ram := [], sc_disk := []\<rparr>, Map.empty)"
proof -
  have named: "named s1" using assms(6) by (auto simp: persist_tiles_def split: if_splits)
  then have "named s" using assms(5) by (auto simp: persist_tiles_def named_def split: if_splits prod.splits sum.splits)
  obtain f disk where fail: "write_to_disk codec may_open (sc_ram s) (sc_disk s) files = (Inl (Could_not_write p), f, disk)"
    using assms(3) by (metis prod.collapse)
  then have first: "\<not> r" "s1 = s\<lparr>sc_disk := disk\<rparr>" "files1 = Map.empty"
    using assms(5) \<open>named s\<close> by (auto simp: persist_tiles_def)
  obtain disk2 where "write_to_disk codec may_open' (sc_ram s) disk Map.empty = (Inr (), files2, disk2)"
    using assms(6) first by (auto simp: persist_tiles_def split: if_splits prod.splits sum.splits)
  from failed_write_spoils [OF assms(1) cache_ok_distinct [OF assms(2)] fail assms(4) this, of dq_id]
  obtain e where "read_from_disk codec dq_id files2 = (Inl e, [], [])" by blast
  then show ?thesis using first(1) assms(7) by (simp add: read_disk_cache_def)
qed

text \<open>A scheduler with a name\<close>

definition demo_named :: "unit scheduler" where
  "demo_named = (make_scheduler demo_settings ())\<lparr>sc_name := ''height'', sc_ram := demo_cache\<rparr>"

lemma demo_named_facts:
  "cache_ok dq_id (sc_ram demo_named)" "sc_disk demo_named = []" "sc_ram demo_named = demo_cache" "named demo_named"
  "synced codec (sc_ram demo_named) (sc_disk demo_named) files"
  by (simp_all add: demo_named_def demo_cache_def cache_ok_def demo_quad_def make_scheduler_def named_def synced_def unchanged_def)

lemma demo_write:
  "write_to_disk demo_codec (\<lambda>_. True) demo_cache [] Map.empty =
     (Inr (), [tile_path root_tile \<mapsto> [1, 2], meta_info_path \<mapsto> [1, 3]], [(root_tile, demo_meta)])"
  "write_to_disk demo_codec (\<lambda>p. False) demo_cache [] Map.empty =
     (Inl (Could_not_write (tile_path root_tile)), Map.empty, [(root_tile, demo_meta)])"
  "write_to_disk demo_codec (\<lambda>_. True) demo_cache [(root_tile, demo_meta)] Map.empty =
     (Inr (), [meta_info_path \<mapsto> [1, 3]], [(root_tile, demo_meta)])"
  by (simp_all add: write_to_disk_def demo_cache_def demo_codec_def remove_stale_def still_valid_def unchanged_def write_meta_def Let_def)

lemma demo_persists:
  "persist_tiles demo_codec (\<lambda>_. True) (demo_named, Map.empty) =
     (True, demo_named\<lparr>sc_disk := [(root_tile, demo_meta)]\<rparr>, [tile_path root_tile \<mapsto> [1, 2], meta_info_path \<mapsto> [1, 3]])"
  "persist_tiles demo_codec (\<lambda>_. False) (demo_named, Map.empty) = (False, demo_named\<lparr>sc_disk := [(root_tile, demo_meta)]\<rparr>, Map.empty)"
  "persist_tiles demo_codec (\<lambda>_. True) (demo_named\<lparr>sc_disk := [(root_tile, demo_meta)]\<rparr>, Map.empty) =
     (True, demo_named\<lparr>sc_disk := [(root_tile, demo_meta)]\<rparr>, [meta_info_path \<mapsto> [1, 3]])"
  by (simp_all add: persist_tiles_def demo_named_facts demo_write)
    (simp_all add: demo_named_def named_def)

end
