(* ===== verification/Shader_Preprocessor.thy ===== *)
theory Shader_Preprocessor
  imports RG_Prelude "HOL-Library.AList" "HOL-Library.Char_ord"
begin

text \<open>
  \<open>ShaderPreprocessor\<close> (webgpu/base/util/ShaderPreprocessor.h and .cpp): \<open>///define\<close>, \<open>///use\<close>, the
  conditional directives and the replacement of macros. Strings are lists of bytes. The regular
  expressions are translated to functions that take the match the backtracking engine finds first.
  The file reader is an argument; what went to the error callback is a list.
\<close>

subsection \<open>Lines and words\<close>

definition blank :: "char \<Rightarrow> bool" where
  "blank c \<longleftrightarrow> c = CHR '' '' \<or> c = CHR 0x09"

text \<open>\<open>\s\<close> and \<open>.\<close> of the regular expressions.\<close>

definition space :: "char \<Rightarrow> bool" where
  "space c \<longleftrightarrow> c \<in> {CHR '' '', CHR 0x09, CHR 0x0A, CHR 0x0B, CHR 0x0C, CHR 0x0D}"

definition dot :: "char \<Rightarrow> bool" where
  "dot c \<longleftrightarrow> c \<noteq> CHR 0x0A \<and> c \<noteq> CHR 0x0D"

definition letter :: "char \<Rightarrow> bool" where
  "letter c \<longleftrightarrow> (CHR ''a'' \<le> c \<and> c \<le> CHR ''z'') \<or> (CHR ''A'' \<le> c \<and> c \<le> CHR ''Z'')"

definition digit_char :: "char \<Rightarrow> bool" where
  "digit_char c \<longleftrightarrow> CHR ''0'' \<le> c \<and> c \<le> CHR ''9''"

text \<open>A character of an identifier; also the test for the borders of a macro.\<close>

definition word_char :: "char \<Rightarrow> bool" where
  "word_char c \<longleftrightarrow> letter c \<or> digit_char c \<or> c = CHR ''_''"

definition trim_whitespace :: "string \<Rightarrow> string" where
  "trim_whitespace s = rev (dropWhile blank (rev (dropWhile blank s)))"

definition slashes :: string where
  "slashes = ''///''"

text \<open>\<open>directive_offset\<close>: the line from its leading \<open>///\<close> on.\<close>

definition directive_offset :: "string \<Rightarrow> string option" where
  "directive_offset l = (let r = dropWhile blank l in if take 3 r = slashes then Some r else None)"

text \<open>\<open>std::getline\<close> over a stream; every line is written back with a newline.\<close>

function get_lines :: "string \<Rightarrow> string list" where
  "get_lines [] = []"
| "get_lines (c # cs) =
     takeWhile (\<lambda>x. x \<noteq> CHR 0x0A) (c # cs) # get_lines (drop 1 (dropWhile (\<lambda>x. x \<noteq> CHR 0x0A) (c # cs)))"
  by pat_completeness auto
termination
  by (relation "measure length") (auto simp: less_Suc_eq_le diff_le_mono le_trans [OF diff_le_self length_dropWhile_le])

definition put_line :: "string \<Rightarrow> string" where
  "put_line l = l @ [CHR 0x0A]"

subsection \<open>The regular expressions\<close>

text \<open>\<open>keyword\s+\<close> at the start.\<close>

definition after_keyword :: "string \<Rightarrow> string \<Rightarrow> string option" where
  "after_keyword k s =
     (let n = length slashes + length k; r = drop n s
      in if take n s = slashes @ k \<and> r \<noteq> [] \<and> space (hd r) then Some (dropWhile space r) else None)"

text \<open>\<open>([a-zA-Z_][a-zA-Z0-9_]*)\<close> and what follows it.\<close>

definition ident :: "string \<Rightarrow> (string \<times> string) option" where
  "ident s =
     (case s of [] \<Rightarrow> None
      | c # _ \<Rightarrow> if word_char c \<and> \<not> digit_char c then Some (takeWhile word_char s, dropWhile word_char s) else None)"

text \<open>\<open>^///define\s+(symbol)\s*(.*)$\<close>\<close>

definition match_define :: "string \<Rightarrow> (string \<times> string) option" where
  "match_define s =
     (case after_keyword ''define'' s of None \<Rightarrow> None
      | Some r \<Rightarrow> (case ident r of None \<Rightarrow> None
      | Some (symb, r') \<Rightarrow> let v = dropWhile space r' in if list_all dot v then Some (symb, v) else None))"

text \<open>\<open>^///keyword\s+(symbol)\s*$\<close>\<close>

definition match_symbol :: "string \<Rightarrow> string \<Rightarrow> string option" where
  "match_symbol k s =
     (case after_keyword k s of None \<Rightarrow> None
      | Some r \<Rightarrow> (case ident r of None \<Rightarrow> None
      | Some (symb, r') \<Rightarrow> if list_all space r' then Some symb else None))"

text \<open>
  \<open>^///keyword\s+(symbol)\s+(.+)$\<close>: when only white space follows the symbol, \<open>\s+\<close> gives its last
  character back.
\<close>

definition match_value :: "string \<Rightarrow> string \<Rightarrow> (string \<times> string) option" where
  "match_value k s =
     (case after_keyword k s of None \<Rightarrow> None
      | Some r \<Rightarrow> (case ident r of None \<Rightarrow> None
      | Some (symb, r') \<Rightarrow>
        (let gap = takeWhile space r'; v = dropWhile space r'
         in if gap = [] then None
            else if v = [] then (if 1 < length gap \<and> dot (last gap) then Some (symb, [last gap]) else None)
            else if list_all dot v then Some (symb, v) else None)))"

text \<open>\<open>^///keyword\s*$\<close>\<close>

definition match_bare :: "string \<Rightarrow> string \<Rightarrow> bool" where
  "match_bare k s = (let n = length slashes + length k in take n s = slashes @ k \<and> list_all space (drop n s))"

text \<open>
  \<open>^///use\s+(?:(symbol)::)?([/a-zA-Z0-9 ._-]+?)\s*$\<close>: the path is the shortest, so it ends before the
  trailing white space, but it has at least one character.
\<close>

definition path_char :: "char \<Rightarrow> bool" where
  "path_char c \<longleftrightarrow> letter c \<or> digit_char c \<or> c \<in> {CHR ''/'', CHR '' '', CHR ''.'', CHR ''_'', CHR ''-''}"

definition short_path :: "string \<Rightarrow> string option" where
  "short_path r =
     (let p = take (max 1 (length (dropWhile space (rev r)))) r
      in if r \<noteq> [] \<and> list_all path_char p then Some p else None)"

definition match_use :: "string \<Rightarrow> (string option \<times> string) option" where
  "match_use s =
     (case after_keyword ''use'' s of None \<Rightarrow> None
      | Some [] \<Rightarrow> if CHR '' '' \<in> set (drop 1 (drop 6 s)) then Some (None, '' '') else None
      | Some r \<Rightarrow>
        (case ident r of
           Some (ns, r') \<Rightarrow>
             if take 2 r' = ''::'' then map_option (\<lambda>p. (Some ns, p)) (short_path (drop 2 r'))
             else map_option (\<lambda>p. (None, p)) (short_path r)
         | None \<Rightarrow> map_option (\<lambda>p. (None, p)) (short_path r)))"

subsection \<open>Defines\<close>

type_synonym define_map = "(string \<times> string) list"

definition default_one :: "string \<Rightarrow> string" where
  "default_one v = (if v = [] then ''1'' else v)"

text \<open>The match of a line that is a directive, from its slashes on.\<close>

definition on_directive :: "(string \<Rightarrow> 'a option) \<Rightarrow> string \<Rightarrow> 'a option" where
  "on_directive m l = Option.bind (directive_offset l) m"

fun define_lines :: "string list \<Rightarrow> define_map \<Rightarrow> string \<times> define_map" where
  "define_lines [] ds = ([], ds)"
| "define_lines (l # ls) ds =
     (case on_directive match_define l of
        Some (symb, v) \<Rightarrow> define_lines ls (AList.update symb (default_one (trim_whitespace v)) ds)
      | None \<Rightarrow> (let (out, ds') = define_lines ls ds in (put_line l @ out, ds')))"

definition process_defines :: "string \<Rightarrow> define_map \<Rightarrow> string \<times> define_map" where
  "process_defines code ds = define_lines (get_lines code) ds"

subsection \<open>The preprocessor and its files\<close>

record preprocessor =
  sp_cache :: "string \<rightharpoonup> string"
  sp_globals :: define_map
  sp_reader :: "(string \<Rightarrow> string) option"
  sp_cache_enabled :: bool
  sp_errors :: "string list"

definition new_preprocessor :: "define_map \<Rightarrow> preprocessor" where
  "new_preprocessor platform =
     \<lparr>sp_cache = Map.empty, sp_globals = platform, sp_reader = None, sp_cache_enabled = True, sp_errors = []\<rparr>"

definition define_value :: "string \<Rightarrow> string \<Rightarrow> preprocessor \<Rightarrow> preprocessor" where
  "define_value symb v p = p\<lparr>sp_globals := AList.update symb v (sp_globals p)\<rparr>"

definition define_symbol :: "string \<Rightarrow> preprocessor \<Rightarrow> preprocessor" where
  "define_symbol symb p = define_value symb ''1'' p"

definition undefine :: "string \<Rightarrow> preprocessor \<Rightarrow> preprocessor" where
  "undefine symb p = p\<lparr>sp_globals := filter (\<lambda>e. fst e \<noteq> symb) (sp_globals p)\<rparr>"

definition is_defined :: "string \<Rightarrow> preprocessor \<Rightarrow> bool" where
  "is_defined symb p \<longleftrightarrow> map_of (sp_globals p) symb \<noteq> None"

definition get_value :: "string \<Rightarrow> preprocessor \<Rightarrow> string" where
  "get_value symb p = (case map_of (sp_globals p) symb of None \<Rightarrow> [] | Some v \<Rightarrow> v)"

definition clear_cache :: "preprocessor \<Rightarrow> preprocessor" where
  "clear_cache p = p\<lparr>sp_cache := Map.empty\<rparr>"

definition set_cache_enabled :: "bool \<Rightarrow> preprocessor \<Rightarrow> preprocessor" where
  "set_cache_enabled b p = (let p1 = p\<lparr>sp_cache_enabled := b\<rparr> in if \<not> b then clear_cache p1 else p1)"

definition set_file_reader :: "(string \<Rightarrow> string) \<Rightarrow> preprocessor \<Rightarrow> preprocessor" where
  "set_file_reader r p = p\<lparr>sp_reader := Some r\<rparr>"

definition report_error :: "string \<Rightarrow> preprocessor \<Rightarrow> preprocessor" where
  "report_error e p = p\<lparr>sp_errors := sp_errors p @ [e]\<rparr>"

definition get_file :: "string \<Rightarrow> preprocessor \<Rightarrow> string \<times> preprocessor" where
  "get_file name p =
     (case (if sp_cache_enabled p then sp_cache p name else None) of
        Some contents \<Rightarrow> (contents, p)
      | None \<Rightarrow>
        (case sp_reader p of
           None \<Rightarrow> ([], report_error ''No file reader set for ShaderPreprocessor'' p)
         | Some reader \<Rightarrow>
             (reader name, if sp_cache_enabled p then p\<lparr>sp_cache := (sp_cache p)(name \<mapsto> reader name)\<rparr> else p)))"

subsection \<open>Includes\<close>

definition full_name :: "string \<Rightarrow> string \<Rightarrow> string" where
  "full_name ns path = (if ns = [] then path else ns @ ''::'' @ path)"

text \<open>
  \<open>process_includes\<close> on the lines of a file. A reader that keeps naming new files would be followed
  forever, so not returning is a value.
\<close>

partial_function (option) include_lines ::
  "string list \<Rightarrow> string \<Rightarrow> string list \<Rightarrow> preprocessor \<Rightarrow> (string \<times> string list \<times> preprocessor) option" where
  "include_lines ls ns included p =
     (case ls of
        [] \<Rightarrow> Some ([], included, p)
      | l # ls \<Rightarrow>
        (case on_directive match_use l of
           None \<Rightarrow>
             Option.bind (include_lines ls ns included p) (\<lambda>(out, included', p'). Some (put_line l @ out, included', p'))
         | Some (ns1, path) \<Rightarrow>
             (let ns' = (case ns1 of None \<Rightarrow> ns | Some n \<Rightarrow> n); name = full_name ns' path
              in if name \<in> set included then include_lines ls ns included p
                 else (let (contents, p1) = get_file name p
                       in Option.bind (include_lines (get_lines contents) ns' (name # included) p1) (\<lambda>(out1, included1, p2).
                          Option.bind (include_lines ls ns included1 p2) (\<lambda>(out2, included2, p3).
                            Some (put_line out1 @ out2, included2, p3)))))))"

definition process_includes :: "string \<Rightarrow> string list \<Rightarrow> string \<Rightarrow> preprocessor \<Rightarrow> (string \<times> string list \<times> preprocessor) option" where
  "process_includes code included ns p = include_lines (get_lines code) ns included p"

subsection \<open>Conditionals\<close>

datatype directive =
    Plain | Ifdef string | Ifndef string | If_Value string string | Elif string string | Else_Directive | Endif

text \<open>The chain of matches in \<open>process_conditionals\<close>; other lines with slashes are plain.\<close>

definition classify :: "string \<Rightarrow> directive" where
  "classify l =
     (case directive_offset l of None \<Rightarrow> Plain
      | Some d \<Rightarrow>
        (case match_symbol ''ifdef'' d of Some symb \<Rightarrow> Ifdef symb
         | None \<Rightarrow> (case match_symbol ''ifndef'' d of Some symb \<Rightarrow> Ifndef symb
         | None \<Rightarrow> (case match_value ''if'' d of Some (symb, v) \<Rightarrow> If_Value symb (trim_whitespace v)
         | None \<Rightarrow> (case match_value ''elif'' d of Some (symb, v) \<Rightarrow> Elif symb (trim_whitespace v)
         | None \<Rightarrow> if match_bare ''else'' d then Else_Directive
                 else if match_bare ''endif'' d then Endif else Plain)))))"

type_synonym lookup = "string \<rightharpoonup> string"

text \<open>Local defines come before global ones; an undefined symbol has the empty value.\<close>

definition symbol_lookup :: "define_map \<Rightarrow> define_map \<Rightarrow> lookup" where
  "symbol_lookup globals locals = map_of globals ++ map_of locals"

definition has_value :: "lookup \<Rightarrow> string \<Rightarrow> string \<Rightarrow> bool" where
  "has_value m symb v \<longleftrightarrow> (case m symb of None \<Rightarrow> [] | Some x \<Rightarrow> x) = v"

record conditional =
  cd_stack :: "(bool \<times> bool) list"
  cd_active :: bool
  cd_output :: string
  cd_errors :: "string list"

definition parent_active :: "(bool \<times> bool) list \<Rightarrow> bool" where
  "parent_active below = (case below of [] \<Rightarrow> True | (active, _) # _ \<Rightarrow> active)"

definition push_condition :: "bool \<Rightarrow> conditional \<Rightarrow> conditional" where
  "push_condition holds c =
     c\<lparr>cd_stack := (cd_active c \<and> holds, holds) # cd_stack c, cd_active := cd_active c \<and> holds\<rparr>"

definition unmatched :: "string \<Rightarrow> conditional \<Rightarrow> conditional" where
  "unmatched what c =
     c\<lparr>cd_errors := cd_errors c @ [''Shader preprocessing error: #'' @ what @ '' without matching #if/#ifdef/#ifndef'']\<rparr>"

definition conditional_line :: "lookup \<Rightarrow> string \<Rightarrow> conditional \<Rightarrow> conditional" where
  "conditional_line m l c =
     (case classify l of
        Plain \<Rightarrow> if cd_active c then c\<lparr>cd_output := cd_output c @ put_line l\<rparr> else c
      | Ifdef symb \<Rightarrow> push_condition (m symb \<noteq> None) c
      | Ifndef symb \<Rightarrow> push_condition (m symb = None) c
      | If_Value symb v \<Rightarrow> push_condition (has_value m symb v) c
      | Elif symb v \<Rightarrow>
          (case cd_stack c of [] \<Rightarrow> unmatched ''elif'' c
           | (active, taken) # below \<Rightarrow>
               if parent_active below \<and> \<not> taken then
                 (let holds = has_value m symb v
                  in c\<lparr>cd_active := holds, cd_stack := (holds, holds) # below\<rparr>)
               else c\<lparr>cd_active := False\<rparr>)
      | Else_Directive \<Rightarrow>
          (case cd_stack c of [] \<Rightarrow> unmatched ''else'' c
           | (active, taken) # below \<Rightarrow>
               (let here = parent_active below \<and> \<not> taken
                in c\<lparr>cd_active := here, cd_stack := (here, True) # below\<rparr>))
      | Endif \<Rightarrow>
          (case cd_stack c of [] \<Rightarrow> unmatched ''endif'' c
           | _ # below \<Rightarrow> c\<lparr>cd_stack := below, cd_active := parent_active below\<rparr>))"

definition conditional_start :: conditional where
  "conditional_start = \<lparr>cd_stack = [], cd_active = True, cd_output = [], cd_errors = []\<rparr>"

definition process_conditionals :: "lookup \<Rightarrow> string \<Rightarrow> string \<times> string list" where
  "process_conditionals m code =
     (let c = fold (conditional_line m) (get_lines code) conditional_start
      in (cd_output c, cd_errors c @
           (if cd_stack c \<noteq> [] then [''Shader preprocessing error: unclosed #if/#ifdef/#ifndef directive''] else [])))"

subsection \<open>Macros\<close>

text \<open>
  \<open>replace_macros\<close>. \<open>prev\<close> is the character before the current position of the code. A symbol that is
  empty and matches would not move the position, so not returning is a value. \<open>std::sort\<close> may order
  symbols of one length as it likes: two of them never match at one position (\<open>one_match\<close>).
\<close>

definition macro_matches :: "char option \<Rightarrow> string \<Rightarrow> string \<times> string \<Rightarrow> bool" where
  "macro_matches prev rest e =
     (let symb = fst e; next = drop (length symb) rest
      in take (length symb) rest = symb \<and>
         (case prev of None \<Rightarrow> True | Some c \<Rightarrow> \<not> word_char c) \<and> (next = [] \<or> \<not> word_char (hd next)))"

partial_function (option) replace_from :: "define_map \<Rightarrow> char option \<Rightarrow> string \<Rightarrow> string option" where
  "replace_from ds prev rest =
     (case rest of
        [] \<Rightarrow> Some []
      | c # cs \<Rightarrow>
        (case find (macro_matches prev rest) ds of
           Some (symb, v) \<Rightarrow>
             Option.bind (replace_from ds (if symb = [] then prev else Some (last symb)) (drop (length symb) rest))
               (\<lambda>out. Some (v @ out))
         | None \<Rightarrow> Option.bind (replace_from ds (Some c) cs) (\<lambda>out. Some (c # out))))"

definition all_defines :: "define_map \<Rightarrow> define_map \<Rightarrow> define_map" where
  "all_defines globals locals = fold (\<lambda>(symb, v) ds. AList.update symb v ds) locals globals"

definition longest_first :: "define_map \<Rightarrow> define_map" where
  "longest_first ds = rev (sort_key (\<lambda>e. length (fst e)) ds)"

definition replace_macros :: "define_map \<Rightarrow> define_map \<Rightarrow> string \<Rightarrow> string option" where
  "replace_macros globals locals code = replace_from (longest_first (all_defines globals locals)) None code"

subsection \<open>All of it\<close>

definition preprocess_code :: "string \<Rightarrow> string \<Rightarrow> preprocessor \<Rightarrow> (string \<times> preprocessor) option" where
  "preprocess_code code ns p =
     (let (code1, locals) = process_defines code []
      in Option.bind (process_includes code1 [] ns p) (\<lambda>(code2, _, p1).
         let (code3, errors) = process_conditionals (symbol_lookup (sp_globals p1) locals) code2
         in Option.bind (replace_macros (sp_globals p1) locals code3) (\<lambda>out. Some (out, fold report_error errors p1))))"

text \<open>The namespace of the root file is what stands before the first two colons.\<close>

fun before_colons :: "string \<Rightarrow> string option" where
  "before_colons (a # b # cs) =
     (if a = CHR '':'' \<and> b = CHR '':'' then Some [] else map_option ((#) a) (before_colons (b # cs)))"
| "before_colons cs = None"

definition preprocess_file :: "string \<Rightarrow> preprocessor \<Rightarrow> (string \<times> preprocessor) option" where
  "preprocess_file name p =
     (let (code, p1) = get_file name p
      in preprocess_code code (case before_colons name of None \<Rightarrow> [] | Some ns \<Rightarrow> ns) p1)"

subsection \<open>Macros, word by word\<close>

text \<open>
  The reference: the code is split into words, and a defined word becomes its value. Identifiers are
  the symbols \<open>///define\<close> accepts.
\<close>

function replace_words :: "(string \<rightharpoonup> string) \<Rightarrow> string \<Rightarrow> string" where
  "replace_words m [] = []"
| "replace_words m (c # cs) =
     (if word_char c then
        (let w = takeWhile word_char (c # cs)
         in (case m w of None \<Rightarrow> w | Some v \<Rightarrow> v) @ replace_words m (dropWhile word_char (c # cs)))
      else c # replace_words m cs)"
  by pat_completeness auto
termination
  by (relation "measure (\<lambda>(m, s). length s)") (auto simp: less_Suc_eq_le length_dropWhile_le)

definition word_symbol :: "string \<Rightarrow> bool" where
  "word_symbol s \<longleftrightarrow> s \<noteq> [] \<and> list_all word_char s"

lemma word_prefix:
  assumes "word_symbol s" "take (length s) r = s" "drop (length s) r = [] \<or> \<not> word_char (hd (drop (length s) r))"
  shows "s = takeWhile word_char r"
proof -
  have "r = s @ drop (length s) r" using assms(2) by (metis append_take_drop_id)
  moreover have "takeWhile word_char (s @ d) = s" if "d = [] \<or> \<not> word_char (hd d)" for d
    using assms(1) that by (cases d) (auto simp: word_symbol_def list_all_iff takeWhile_append)
  ultimately show ?thesis using assms(3) by metis
qed

text \<open>Inside a word nothing matches; at its start only the whole word does.\<close>

lemma no_match_inside: "word_char c \<Longrightarrow> \<not> macro_matches (Some c) r e"
  by (simp add: macro_matches_def Let_def)

lemma match_at_start:
  assumes "word_symbol (fst e)" "prev = None \<or> \<not> word_char (the prev)"
  shows "macro_matches prev r e \<longleftrightarrow> r \<noteq> [] \<and> word_char (hd r) \<and> fst e = takeWhile word_char r"
proof
  assume m: "macro_matches prev r e"
  then have "fst e = takeWhile word_char r"
    by (intro word_prefix assms(1)) (simp_all add: macro_matches_def Let_def)
  moreover from this have "r \<noteq> [] \<and> word_char (hd r)" using assms(1) by (cases r) (auto simp: word_symbol_def split: if_splits)
  ultimately show "r \<noteq> [] \<and> word_char (hd r) \<and> fst e = takeWhile word_char r" by blast
next
  assume r: "r \<noteq> [] \<and> word_char (hd r) \<and> fst e = takeWhile word_char r"
  have "drop (length (takeWhile word_char r)) r = dropWhile word_char r" by (rule dropWhile_eq_drop [symmetric])
  moreover have "dropWhile word_char r = [] \<or> \<not> word_char (hd (dropWhile word_char r))" using hd_dropWhile by blast
  moreover have "take (length (takeWhile word_char r)) r = takeWhile word_char r" by (rule takeWhile_eq_take [symmetric])
  moreover have "case prev of None \<Rightarrow> True | Some c \<Rightarrow> \<not> word_char c" using assms(2) by (auto split: option.split)
  ultimately show "macro_matches prev r e" using r by (simp only: macro_matches_def Let_def)
qed

lemma one_match:
  assumes "word_symbol (fst a)" "word_symbol (fst b)" "macro_matches prev r a" "macro_matches prev r b"
  shows "fst a = fst b"
proof -
  have "fst a = takeWhile word_char r" "fst b = takeWhile word_char r"
    using assms by (auto intro!: word_prefix simp: macro_matches_def Let_def)
  then show ?thesis by simp
qed

lemma find_symbol:
  assumes "distinct (map fst ds)"
  shows "find (\<lambda>e. fst e = w) ds = map_option (\<lambda>v. (w, v)) (map_of ds w)"
  using assms by (induction ds) auto

lemma replace_inside:
  assumes "list_all word_char w" "word_char c"
  shows "replace_from ds (Some c) (w @ r) = map_option ((@) w) (replace_from ds (Some (last (c # w))) r)"
  using assms
proof (induction w arbitrary: c)
  case (Cons a w)
  have none: "find (macro_matches (Some c) (a # w @ r)) ds = None"
    using no_match_inside [OF Cons.prems(2)] by (auto simp: find_None_iff)
  have "replace_from ds (Some c) ((a # w) @ r) = Option.bind (replace_from ds (Some a) (w @ r)) (\<lambda>out. Some (a # out))"
    by (subst replace_from.simps) (simp add: none)
  then show ?case using Cons.IH [of a] Cons.prems(1) by (cases "replace_from ds (Some (last (a # w))) r") auto
next
  case Nil
  then show ?case by (cases "replace_from ds (Some c) r") simp_all
qed

lemma replace_from_words:
  assumes ds: "distinct (map fst ds)" "\<forall>e \<in> set ds. word_symbol (fst e)"
  shows "prev = None \<or> \<not> word_char (the prev) \<or> r = [] \<or> \<not> word_char (hd r) \<Longrightarrow>
    replace_from ds prev r = Some (replace_words (map_of ds) r)"
proof (induction "length r" arbitrary: prev r rule: less_induct)
  case less
  show ?case
  proof (cases r)
    case Nil
    then show ?thesis by (subst replace_from.simps) simp
  next
    case (Cons c cs)
    show ?thesis
    proof (cases "word_char c")
      case False
      have "\<not> macro_matches prev r e" if "e \<in> set ds" for e
        using ds(2) that False Cons word_prefix [of "fst e" r]
        by (auto simp: macro_matches_def Let_def word_symbol_def split: if_splits)
      then have "find (macro_matches prev r) ds = None" by (auto simp: find_None_iff)
      moreover have "replace_from ds (Some c) cs = Some (replace_words (map_of ds) cs)"
        using less.hyps [of cs "Some c"] False Cons by simp
      ultimately show ?thesis unfolding Cons by (subst replace_from.simps) (simp add: False)
    next
      case True
      define w where "w = takeWhile word_char r"
      define rest where "rest = dropWhile word_char r"
      have r: "r = w @ rest" by (simp add: w_def rest_def)
      have w: "w \<noteq> []" "list_all word_char w" using True Cons by (auto simp: w_def list_all_iff dest: set_takeWhileD)
      have ok: "rest = [] \<or> \<not> word_char (hd rest)" using hd_dropWhile [of word_char r] unfolding rest_def by blast
      have prev: "prev = None \<or> \<not> word_char (the prev)" using less.prems True Cons by auto
      have len: "length rest < length r" using r w(1) by simp
      have "find (macro_matches prev r) ds = find (\<lambda>e. fst e = w) ds"
        using match_at_start [OF _ prev] ds(2) True Cons by (intro find_cong refl) (auto simp: w_def)
      then have f: "find (macro_matches prev r) ds = map_option (\<lambda>v. (w, v)) (map_of ds w)"
        by (simp add: find_symbol [OF ds(1)])
      have words: "replace_words (map_of ds) r = (case map_of ds w of None \<Rightarrow> w | Some v \<Rightarrow> v) @ replace_words (map_of ds) rest"
        unfolding w_def rest_def Cons using True by (simp only: replace_words.simps Let_def if_True)
      have rest_ok: "replace_from ds p rest = Some (replace_words (map_of ds) rest)" for p
        using less.hyps [OF len, of p] ok by blast
      show ?thesis
      proof (cases "map_of ds w")
        case (Some v)
        have "drop (length w) r = rest" by (simp add: r)
        then show ?thesis
          using f rest_ok w(1) words Some unfolding Cons by (subst replace_from.simps) simp
      next
        case None
        have "replace_from ds prev r = Option.bind (replace_from ds (Some c) cs) (\<lambda>out. Some (c # out))"
          using f None unfolding Cons by (subst replace_from.simps) simp
        moreover have "cs = tl w @ rest" "w = c # tl w" using r w(1) Cons by (cases w; simp)+
        then have "replace_from ds (Some c) cs = map_option ((@) (tl w)) (replace_from ds (Some (last w)) rest)"
          using replace_inside [of "tl w" c ds rest] w(2) True by (cases w) auto
        ultimately show ?thesis using rest_ok words None \<open>w = c # tl w\<close> by (metis append_Cons bind.bind_lunit option.simps(4,9))
      qed
    qed
  qed
qed

text \<open>The defines a program can make are symbols, and later ones win.\<close>

lemma all_defines_keys:
  "distinct (map fst globals) \<Longrightarrow> distinct (map fst (all_defines globals locals)) \<and>
   fst ` set (all_defines globals locals) = fst ` set globals \<union> fst ` set locals"
proof (induction locals arbitrary: globals)
  case (Cons e locals)
  obtain symb v where e: "e = (symb, v)" by force
  have "distinct (map fst (AList.update symb v globals))" using Cons.prems by (simp add: distinct_update)
  from Cons.IH [OF this] show ?case by (auto simp: all_defines_def e dom_update)
qed (simp add: all_defines_def)

lemma map_of_all_defines:
  "distinct (map fst locals) \<Longrightarrow> map_of (all_defines globals locals) = map_of globals ++ map_of locals"
proof (induction locals arbitrary: globals)
  case (Cons e locals)
  obtain symb v where e: "e = (symb, v)" by force
  have "map_of locals symb = None" using Cons.prems by (simp add: e map_of_eq_None_iff)
  moreover have "map_of (all_defines globals (e # locals)) = (map_of globals)(symb \<mapsto> v) ++ map_of locals"
    using Cons.IH [of "AList.update symb v globals"] Cons.prems by (simp add: all_defines_def e update_conv' fun_upd_def)
  ultimately show ?case by (auto simp: e map_add_def split: option.split)
qed (simp add: all_defines_def)

lemma distinct_sort_key: "distinct (map fst xs) \<Longrightarrow> distinct (map fst (rev (sort_key f xs)))"
  by (simp add: distinct_map rev_map [symmetric])

theorem macros_word_by_word:
  assumes "distinct (map fst globals)" "distinct (map fst locals)" "\<forall>e \<in> set globals \<union> set locals. word_symbol (fst e)"
  shows "replace_macros globals locals code = Some (replace_words (symbol_lookup globals locals) code)"
proof -
  let ?all = "all_defines globals locals"
  note A = all_defines_keys [OF assms(1), of locals]
  have d: "distinct (map fst (longest_first ?all))" unfolding longest_first_def using A by (intro distinct_sort_key) blast
  have "fst ` set ?all = fst ` (set globals \<union> set locals)" using A by (simp add: image_Un)
  then have "\<forall>e \<in> set ?all. word_symbol (fst e)" using assms(3) by (metis (no_types, lifting) image_iff)
  then have s: "\<forall>e \<in> set (longest_first ?all). word_symbol (fst e)" by (simp add: longest_first_def)
  have "map_of (longest_first ?all) = map_of ?all"
    using A by (intro map_of_inject_set [THEN iffD2]) (auto simp: longest_first_def distinct_map)
  also have "\<dots> = symbol_lookup globals locals" using assms(2) by (simp add: symbol_lookup_def map_of_all_defines)
  finally show ?thesis using replace_from_words [OF d s, of None] by (simp add: replace_macros_def)
qed

subsection \<open>Conditionals, block by block\<close>

text \<open>
  The reference: lines and nested conditionals. A conditional has a first branch, further ones from
  \<open>///elif\<close>, and perhaps a last one.
\<close>

datatype test = Defined string | Undefined string | Equals string string

datatype code = Code_Line string | Conditional test "code list" "(test \<times> code list) list" "code list option"

fun holds :: "lookup \<Rightarrow> test \<Rightarrow> bool" where
  "holds m (Defined s) \<longleftrightarrow> m s \<noteq> None"
| "holds m (Undefined s) \<longleftrightarrow> m s = None"
| "holds m (Equals s v) \<longleftrightarrow> has_value m s v"

primrec denote :: "lookup \<Rightarrow> code \<Rightarrow> string" where
  "denote m (Code_Line l) = put_line l"
| "denote m (Conditional t body branches rest) =
     (if holds m t then concat (map (denote m) body)
      else (case find (\<lambda>b. holds m (fst b)) (map (map_prod id (map (denote m))) branches) of
          Some (_, out) \<Rightarrow> concat out
        | None \<Rightarrow> (case map_option (map (denote m)) rest of None \<Rightarrow> [] | Some out \<Rightarrow> concat out)))"

definition denote_all :: "lookup \<Rightarrow> code list \<Rightarrow> string" where
  "denote_all m cs = concat (map (denote m) cs)"

lemma denote_all_simps [simp]: "denote_all m [] = []" "denote_all m (c # cs) = denote m c @ denote_all m cs"
  by (simp_all add: denote_all_def)

fun denote_branches :: "lookup \<Rightarrow> (test \<times> code list) list \<Rightarrow> code list option \<Rightarrow> string" where
  "denote_branches m [] None = []"
| "denote_branches m [] (Some cs) = denote_all m cs"
| "denote_branches m ((t, cs) # bs) rest = (if holds m t then denote_all m cs else denote_branches m bs rest)"

lemma denote_Conditional:
  "denote m (Conditional t body branches rest) = (if holds m t then denote_all m body else denote_branches m branches rest)"
proof -
  have "(case find (\<lambda>b. holds m (fst b)) (map (map_prod id (map (denote m))) branches) of
      Some (_, out) \<Rightarrow> concat out
    | None \<Rightarrow> (case map_option (map (denote m)) rest of None \<Rightarrow> [] | Some out \<Rightarrow> concat out)) = denote_branches m branches rest"
    by (induction m branches rest rule: denote_branches.induct) (auto simp: denote_all_def)
  then show ?thesis by (simp add: denote_all_def)
qed

text \<open>Which lines spell which code, however they are indented and spaced.\<close>

fun opens :: "directive \<Rightarrow> test option" where
  "opens (Ifdef s) = Some (Defined s)"
| "opens (Ifndef s) = Some (Undefined s)"
| "opens (If_Value s v) = Some (Equals s v)"
| "opens _ = None"

inductive spells :: "string list \<Rightarrow> code list \<Rightarrow> bool"
  and spells_rest :: "string list \<Rightarrow> (test \<times> code list) list \<Rightarrow> code list option \<Rightarrow> bool" where
  nothing: "spells [] []"
| plain: "classify l = Plain \<Longrightarrow> spells ls cs \<Longrightarrow> spells (l # ls) (Code_Line l # cs)"
| conditional: "opens (classify l) = Some t \<Longrightarrow> spells body b \<Longrightarrow> spells_rest rest bs e \<Longrightarrow> spells ls cs \<Longrightarrow>
    spells (l # body @ rest @ ls) (Conditional t b bs e # cs)"
| closed: "classify l = Endif \<Longrightarrow> spells_rest [l] [] None"
| otherwise: "classify l = Else_Directive \<Longrightarrow> spells body b \<Longrightarrow> classify l' = Endif \<Longrightarrow>
    spells_rest (l # body @ [l']) [] (Some b)"
| branch: "classify l = Elif s v \<Longrightarrow> spells body b \<Longrightarrow> spells_rest rest bs e \<Longrightarrow>
    spells_rest (l # body @ rest) ((Equals s v, b) # bs) e"

text \<open>No conditional inside a branch of an \<open>///elif\<close>; see \<open>nested_in_elif\<close> for what happens otherwise.\<close>

definition only_lines :: "code list \<Rightarrow> bool" where
  "only_lines cs = list_all (\<lambda>c. case c of Code_Line _ \<Rightarrow> True | _ \<Rightarrow> False) cs"

primrec flat_elifs :: "code \<Rightarrow> bool" where
  "flat_elifs (Code_Line l) = True"
| "flat_elifs (Conditional t body branches rest) =
     (list_all (\<lambda>b. b) (map flat_elifs body) \<and> list_all (\<lambda>b. only_lines (snd b)) branches \<and>
      (case map_option (map flat_elifs) rest of None \<Rightarrow> True | Some bs \<Rightarrow> list_all (\<lambda>b. b) bs))"

definition consistent :: "conditional \<Rightarrow> bool" where
  "consistent c \<longleftrightarrow> cd_active c = parent_active (cd_stack c)"

definition emits :: "conditional \<Rightarrow> string \<Rightarrow> conditional" where
  "emits c out = (if cd_active c then c\<lparr>cd_output := cd_output c @ out\<rparr> else c)"

lemma emits_simps [simp]:
  "cd_stack (emits c out) = cd_stack c" "cd_active (emits c out) = cd_active c" "emits c [] = c"
  "emits (emits c a) b = emits c (a @ b)" "consistent (emits c out) = consistent c"
  "cd_errors (emits c out) = cd_errors c"
  by (simp_all add: emits_def consistent_def)

lemma plain_line: "classify l = Plain \<Longrightarrow> conditional_line m l c = emits c (put_line l)"
  by (simp add: conditional_line_def emits_def)

lemma opening_line: "opens (classify l) = Some t \<Longrightarrow> conditional_line m l c = push_condition (holds m t) c"
  by (cases "classify l") (auto simp: conditional_line_def)

lemma endif_line:
  "classify l = Endif \<Longrightarrow> cd_stack c = x # below \<Longrightarrow>
   conditional_line m l c = c\<lparr>cd_stack := below, cd_active := parent_active below\<rparr>"
  by (simp add: conditional_line_def)

lemma only_lines_run:
  "spells ls cs \<Longrightarrow> only_lines cs \<Longrightarrow> fold (conditional_line m) ls c = emits c (denote_all m cs)"
  by (induction cs arbitrary: ls c) (erule spells.cases; auto simp: only_lines_def denote_all_def plain_line)+

lemma conditional_run:
  "spells ls cs \<Longrightarrow> list_all flat_elifs cs \<Longrightarrow> consistent c \<Longrightarrow>
     fold (conditional_line m) ls c = emits c (denote_all m cs)"
  "spells_rest ls bs e \<Longrightarrow> list_all (\<lambda>b. only_lines (snd b)) bs \<Longrightarrow> (case e of None \<Rightarrow> True | Some cs \<Rightarrow> list_all flat_elifs cs) \<Longrightarrow>
     cd_stack d = (a, taken) # stack \<Longrightarrow>
     fold (conditional_line m) ls d =
       emits (d\<lparr>cd_stack := stack, cd_active := parent_active stack\<rparr>) (if taken then [] else denote_branches m bs e)"
proof (induction arbitrary: c and d a taken stack rule: spells_spells_rest.inducts)
  case nothing
  then show ?case by (simp add: denote_all_def)
next
  case (plain l ls cs)
  then show ?case by (simp add: plain_line denote_all_def)
next
  case (conditional l t body b rest bs e ls cs)
  let ?c1 = "push_condition (holds m t) c"
  have flat: "list_all flat_elifs b" "list_all (\<lambda>b. only_lines (snd b)) bs" "list_all flat_elifs cs"
      "case e of None \<Rightarrow> True | Some cs \<Rightarrow> list_all flat_elifs cs"
    using conditional.prems(1) by (auto simp: list_all_iff split: option.splits)
  have "consistent ?c1" by (simp add: consistent_def push_condition_def parent_active_def)
  then have body: "fold (conditional_line m) body ?c1 = emits ?c1 (denote_all m b)" by (rule conditional.IH(1) [OF flat(1)])
  have "cd_stack (emits ?c1 (denote_all m b)) = (cd_active c \<and> holds m t, holds m t) # cd_stack c"
    by (simp add: push_condition_def)
  from conditional.IH(2) [OF flat(2,4) this]
  have rest: "fold (conditional_line m) rest (emits ?c1 (denote_all m b)) =
      emits c (if holds m t then denote_all m b else denote_branches m bs e)"
    using conditional.prems(2) by (auto simp: emits_def push_condition_def consistent_def)
  have "fold (conditional_line m) ls (emits c x) = emits (emits c x) (denote_all m cs)" for x
    using conditional.IH(3) [OF flat(3), of "emits c x"] conditional.prems(2) by simp
  then show ?case
    using conditional.hyps(1) by (simp add: opening_line body rest denote_Conditional del: denote.simps(2))
next
  case (closed l)
  then show ?case by (simp add: endif_line)
next
  case (otherwise l body b l')
  let ?here = "parent_active stack \<and> \<not> taken"
  let ?d1 = "d\<lparr>cd_active := ?here, cd_stack := (?here, True) # stack\<rparr>"
  have "conditional_line m l d = ?d1" using otherwise by (simp add: conditional_line_def Let_def)
  moreover have "fold (conditional_line m) body ?d1 = emits ?d1 (denote_all m b)"
    using otherwise.IH [of ?d1] otherwise.prems by (simp add: consistent_def parent_active_def)
  ultimately show ?case using otherwise.hyps(3) by (simp add: endif_line emits_def)
next
  case (branch l s v body b rest bs e)
  have flat: "only_lines b" "list_all (\<lambda>b. only_lines (snd b)) bs" using branch.prems(1) by simp_all
  show ?case
  proof (cases "parent_active stack \<and> \<not> taken")
    case True
    let ?h = "has_value m s v"
    let ?d1 = "d\<lparr>cd_active := ?h, cd_stack := (?h, ?h) # stack\<rparr>"
    have "conditional_line m l d = ?d1" using branch.hyps(1) branch.prems(3) True by (simp add: conditional_line_def Let_def)
    moreover have "fold (conditional_line m) body ?d1 = emits ?d1 (denote_all m b)" by (rule only_lines_run [OF branch.hyps(2) flat(1)])
    ultimately show ?thesis
      using branch.IH(2) [OF flat(2) branch.prems(2), of "emits ?d1 (denote_all m b)" ?h ?h] True by (auto simp: emits_def)
  next
    case False
    let ?d1 = "d\<lparr>cd_active := False\<rparr>"
    have "conditional_line m l d = ?d1" using branch.hyps(1) branch.prems(3) False by (auto simp: conditional_line_def)
    moreover have "fold (conditional_line m) body ?d1 = ?d1"
      using only_lines_run [OF branch.hyps(2) flat(1), of m ?d1] by (simp add: emits_def)
    ultimately show ?thesis
      using branch.IH(2) [OF flat(2) branch.prems(2), of ?d1 a taken] branch.prems(3) False by (auto simp: emits_def)
  qed
qed

theorem conditionals_block_by_block:
  assumes "spells (get_lines text) cs" "list_all flat_elifs cs"
  shows "process_conditionals m text = (denote_all m cs, [])"
proof -
  have "consistent conditional_start" by (simp add: consistent_def conditional_start_def parent_active_def)
  from conditional_run(1) [OF assms this, of m] show ?thesis
    by (simp add: process_conditionals_def Let_def emits_def conditional_start_def)
qed

text \<open>A conditional in a branch that was skipped because an earlier one was taken switches output on again.\<close>

lemma get_lines_put: "CHR 0x0A \<notin> set l \<Longrightarrow> get_lines (put_line l @ s) = l # get_lines s"
proof -
  assume l: "CHR 0x0A \<notin> set l"
  have "takeWhile (\<lambda>x. x \<noteq> CHR 0x0A) (l @ CHR 0x0A # s) = l" "dropWhile (\<lambda>x. x \<noteq> CHR 0x0A) (l @ CHR 0x0A # s) = CHR 0x0A # s"
    using l by (induction l) auto
  moreover obtain c cs where "l @ CHR 0x0A # s = c # cs" by (cases l) auto
  ultimately show ?thesis unfolding put_line_def by simp
qed

lemma get_lines_put_all: "\<forall>l \<in> set ls. CHR 0x0A \<notin> set l \<Longrightarrow> get_lines (concat (map put_line ls)) = ls"
  by (induction ls) (simp_all add: get_lines_put)

definition nested_lines :: "string list" where
  "nested_lines = [''///if A 1'', ''x'', ''///elif A 2'', ''///ifdef B'', ''///endif'', ''y'', ''///endif'']"

definition nested_code :: "code list" where
  "nested_code = [Conditional (Equals ''A'' ''1'') [Code_Line ''x'']
     [(Equals ''A'' ''2'', [Conditional (Defined ''B'') [] [] None, Code_Line ''y''])] None]"

lemma nested_classified:
  "map classify nested_lines = [If_Value ''A'' ''1'', Plain, Elif ''A'' ''2'', Ifdef ''B'', Endif, Plain, Endif]"
  by code_simp

lemma nested_spelled: "spells nested_lines nested_code"
proof -
  have c: "classify ''///if A 1'' = If_Value ''A'' ''1''" "classify ''x'' = Plain" "classify ''///elif A 2'' = Elif ''A'' ''2''"
    "classify ''///ifdef B'' = Ifdef ''B''" "classify ''///endif'' = Endif" "classify ''y'' = Plain"
    using nested_classified by (simp_all add: nested_lines_def)
  have inner: "spells ([''///ifdef B''] @ [] @ [''///endif''] @ [''y'']) [Conditional (Defined ''B'') [] [] None, Code_Line ''y'']"
    using spells_spells_rest.conditional [OF _ spells_spells_rest.nothing closed [OF c(5)] plain [OF c(6) spells_spells_rest.nothing], of "''///ifdef B''" "Defined ''B''"]
    by (simp add: c(4))
  have "spells_rest (''///elif A 2'' # ([''///ifdef B''] @ [] @ [''///endif''] @ [''y'']) @ [''///endif''])
      [(Equals ''A'' ''2'', [Conditional (Defined ''B'') [] [] None, Code_Line ''y''])] None"
    by (rule branch [OF c(3) inner closed [OF c(5)]])
  from spells_spells_rest.conditional [OF _ plain [OF c(2) spells_spells_rest.nothing] this spells_spells_rest.nothing, of "''///if A 1''" "Equals ''A'' ''1''"]
  show ?thesis by (simp add: nested_lines_def nested_code_def c(1))
qed

theorem nested_in_elif:
  "process_conditionals [''A'' \<mapsto> ''1''] (concat (map put_line nested_lines)) = (put_line ''x'' @ put_line ''y'', [])"
  "denote_all [''A'' \<mapsto> ''1''] nested_code = put_line ''x''"
proof -
  have "\<forall>l \<in> set nested_lines. CHR 0x0A \<notin> set l" by (simp add: nested_lines_def)
  note lines = get_lines_put_all [OF this]
  have c: "classify ''///if A 1'' = If_Value ''A'' ''1''" "classify ''x'' = Plain" "classify ''///elif A 2'' = Elif ''A'' ''2''"
    "classify ''///ifdef B'' = Ifdef ''B''" "classify ''///endif'' = Endif" "classify ''y'' = Plain"
    using nested_classified by (simp_all add: nested_lines_def)
  show "process_conditionals [''A'' \<mapsto> ''1''] (concat (map put_line nested_lines)) = (put_line ''x'' @ put_line ''y'', [])"
    unfolding process_conditionals_def lines
    by (simp add: nested_lines_def conditional_line_def c conditional_start_def push_condition_def has_value_def parent_active_def)
  show "denote_all [''A'' \<mapsto> ''1''] nested_code = put_line ''x''"
    by (simp add: nested_code_def has_value_def)
qed

subsection \<open>Includes\<close>

text \<open>
  The files a set \<open>U\<close> of namespaces and names is closed under; reading gives what the reader gives,
  cached or not.
\<close>

definition used_name :: "string \<Rightarrow> string \<Rightarrow> (string \<times> string) option" where
  "used_name ns l =
     (case on_directive match_use l of None \<Rightarrow> None
      | Some (ns1, path) \<Rightarrow> (let ns' = (case ns1 of None \<Rightarrow> ns | Some n \<Rightarrow> n) in Some (ns', full_name ns' path)))"

definition uses_within :: "(string \<times> string) set \<Rightarrow> string \<Rightarrow> string list \<Rightarrow> bool" where
  "uses_within U ns ls \<longleftrightarrow> (\<forall>l \<in> set ls. \<forall>u. used_name ns l = Some u \<longrightarrow> u \<in> U)"

definition closed_under :: "(string \<Rightarrow> string) \<Rightarrow> (string \<times> string) set \<Rightarrow> bool" where
  "closed_under r U \<longleftrightarrow> (\<forall>(ns, name) \<in> U. uses_within U ns (get_lines (r name)))"

definition reads :: "(string \<Rightarrow> string) \<Rightarrow> preprocessor \<Rightarrow> bool" where
  "reads r p \<longleftrightarrow> sp_reader p = Some r \<and> (\<forall>name c. sp_cache p name = Some c \<longrightarrow> c = r name)"

lemma get_file_reads: "reads r p \<Longrightarrow> \<exists>p'. get_file name p = (r name, p') \<and> reads r p' \<and> sp_errors p' = sp_errors p \<and> sp_globals p' = sp_globals p"
  by (auto simp: reads_def get_file_def split: option.splits)

lemma include_lines_simps:
  "include_lines [] ns included p = Some ([], included, p)"
  "used_name ns l = None \<Longrightarrow> include_lines (l # ls) ns included p =
     Option.bind (include_lines ls ns included p) (\<lambda>(out, included', p'). Some (put_line l @ out, included', p'))"
  "used_name ns l = Some (ns', name) \<Longrightarrow> include_lines (l # ls) ns included p =
     (if name \<in> set included then include_lines ls ns included p
      else (let (contents, p1) = get_file name p
            in Option.bind (include_lines (get_lines contents) ns' (name # included) p1) (\<lambda>(out1, included1, p2).
               Option.bind (include_lines ls ns included1 p2) (\<lambda>(out2, included2, p3).
                 Some (put_line out1 @ out2, included2, p3)))))"
  by (subst include_lines.simps, auto simp: used_name_def Let_def split: option.splits)+

lemma include_lines_returns:
  assumes U: "finite U" "closed_under r U"
  shows "reads r p \<Longrightarrow> uses_within U ns ls \<Longrightarrow> distinct included \<Longrightarrow>
    \<exists>out included' p'. include_lines ls ns included p = Some (out, included', p') \<and> reads r p' \<and> distinct included' \<and>
      set included \<subseteq> set included' \<and> set included' \<subseteq> set included \<union> snd ` U \<and> sp_errors p' = sp_errors p \<and> sp_globals p' = sp_globals p"
proof (induction "card (snd ` U - set included)" arbitrary: p ns ls included rule: less_induct)
  case less
  note outer = less.hyps
  show ?case
    using less.prems(2)
  proof (induction ls)
    case Nil
    then show ?case using less.prems by (simp add: include_lines_simps)
  next
    case (Cons l ls)
    then have within: "uses_within U ns ls" by (simp add: uses_within_def)
    note rest = Cons.IH [OF within]
    show ?case
    proof (cases "used_name ns l")
      case None
      then show ?thesis using rest by (auto simp: include_lines_simps)
    next
      case (Some u)
      obtain ns' name where u: "u = (ns', name)" by force
      have inU: "(ns', name) \<in> U" using Cons.prems Some by (simp add: uses_within_def u)
      show ?thesis
      proof (cases "name \<in> set included")
        case True
        then show ?thesis using rest Some by (simp add: include_lines_simps u)
      next
        case False
        have fin: "finite (snd ` U)" using U(1) by simp
        have fewer: "card (snd ` U - set inc) < card (snd ` U - set included)" if "insert name (set included) \<subseteq> set inc" for inc
        proof (rule psubset_card_mono)
          have "name \<in> snd ` U" using inU by force
          then show "snd ` U - set inc \<subset> snd ` U - set included" using that False by blast
        qed (use fin in simp)
        obtain p1 where p1: "get_file name p = (r name, p1)" "reads r p1" "sp_errors p1 = sp_errors p" "sp_globals p1 = sp_globals p"
          using get_file_reads [OF less.prems(1)] by blast
        have "uses_within U ns' (get_lines (r name))" using U(2) inU by (auto simp: closed_under_def)
        then obtain out1 inc1 p2 where in1: "include_lines (get_lines (r name)) ns' (name # included) p1 = Some (out1, inc1, p2)"
            "reads r p2" "distinct inc1" "insert name (set included) \<subseteq> set inc1" "set inc1 \<subseteq> insert name (set included) \<union> snd ` U"
            "sp_errors p2 = sp_errors p" "sp_globals p2 = sp_globals p"
          using outer [OF fewer [of "name # included"] p1(2), of ns' "get_lines (r name)"] less.prems(3) False p1(3,4) by auto
        then obtain out2 inc2 p3 where in2: "include_lines ls ns inc1 p2 = Some (out2, inc2, p3)" "reads r p3" "distinct inc2"
            "set inc1 \<subseteq> set inc2" "set inc2 \<subseteq> set inc1 \<union> snd ` U" "sp_errors p3 = sp_errors p" "sp_globals p3 = sp_globals p"
          using outer [OF fewer [OF in1(4)] in1(2) within in1(3)] by auto
        have "include_lines (l # ls) ns included p = Some (put_line out1 @ out2, inc2, p3)"
          using False Some by (simp add: include_lines_simps(3) u p1(1) in1(1) in2(1))
        moreover have "name \<in> snd ` U" using inU by force
        ultimately show ?thesis using in1(4,5) in2(2-7) by auto
      qed
    qed
  qed
qed

theorem includes_return:
  assumes "finite U" "closed_under r U" "reads r p" "uses_within U ns (get_lines text)"
  shows "\<exists>out included p'. process_includes text [] ns p = Some (out, included, p') \<and> distinct included \<and>
    set included \<subseteq> snd ` U \<and> sp_errors p' = sp_errors p"
  using include_lines_returns [OF assms(1,2,3,4), of "[]"] by (auto simp: process_includes_def)

subsection \<open>All of it returns\<close>

lemma ident_word: "ident s = Some (w, rest) \<Longrightarrow> word_symbol w"
  by (auto simp: ident_def word_symbol_def list_all_iff dest: set_takeWhileD split: list.splits if_splits)

lemma match_define_word: "match_define s = Some (symb, v) \<Longrightarrow> word_symbol symb"
  by (auto simp: match_define_def Let_def dest: ident_word split: option.splits if_splits)

lemma define_lines_words:
  "define_lines ls ds = (out, ds') \<Longrightarrow> distinct (map fst ds) \<Longrightarrow> \<forall>e \<in> set ds. word_symbol (fst e) \<Longrightarrow>
   distinct (map fst ds') \<and> (\<forall>e \<in> set ds'. word_symbol (fst e))"
proof (induction ls ds arbitrary: out rule: define_lines.induct)
  case (2 l ls ds)
  show ?case
  proof (cases "on_directive match_define l")
    case None
    then show ?thesis using "2.IH"(1) "2.prems" by (auto split: prod.splits)
  next
    case (Some sv)
    obtain symb v where sv: "sv = (symb, v)" by force
    let ?ds = "AList.update symb (default_one (trim_whitespace v)) ds"
    have "word_symbol symb" using Some sv by (auto simp: on_directive_def bind_eq_Some_conv dest: match_define_word)
    moreover have "fst ` set ?ds = insert symb (fst ` set ds)" by (simp add: dom_update)
    ultimately have "\<forall>w \<in> fst ` set ?ds. word_symbol w" using "2.prems"(3) by simp
    then have "\<forall>e \<in> set ?ds. word_symbol (fst e)" by blast
    then show ?thesis using "2.IH"(2) [OF Some sv [symmetric]] "2.prems"(1,2) Some sv by (simp add: distinct_update)
  qed
qed simp

lemma preprocess_code_steps:
  assumes files: "finite U" "closed_under r U" "reads r p" "uses_within U ns (get_lines (fst (process_defines code [])))"
    and globals: "distinct (map fst (sp_globals p))" "\<forall>e \<in> set (sp_globals p). word_symbol (fst e)"
  shows "\<exists>body included p1 out p'. process_includes (fst (process_defines code [])) [] ns p = Some (body, included, p1) \<and>
    preprocess_code code ns p = Some (out, p') \<and>
    out = (let m = symbol_lookup (sp_globals p) (snd (process_defines code [])) in replace_words m (fst (process_conditionals m body)))"
proof -
  obtain code1 locals where d: "process_defines code [] = (code1, locals)" by force
  obtain body included p1 where i: "process_includes code1 [] ns p = Some (body, included, p1)" "sp_globals p1 = sp_globals p"
    using include_lines_returns [OF files(1-3), of ns "get_lines code1" "[]"] files(4) d by (auto simp: process_includes_def)
  let ?m = "symbol_lookup (sp_globals p) locals"
  obtain out errors where c: "process_conditionals ?m body = (out, errors)" by force
  have "distinct (map fst locals) \<and> (\<forall>e \<in> set locals. word_symbol (fst e))"
    using d define_lines_words [of "get_lines code" "[]"] by (simp add: process_defines_def)
  then have "replace_macros (sp_globals p) locals out = Some (replace_words ?m out)"
    using globals by (intro macros_word_by_word) auto
  then show ?thesis using d i c by (simp add: preprocess_code_def Let_def)
qed

text \<open>Two files that include each other\<close>

definition demo_reader :: "string \<Rightarrow> string" where
  "demo_reader name = (if name = ''a'' then ''///use b'' else if name = ''b'' then ''///use a'' else ''x'')"

definition demo_preprocessor :: preprocessor where
  "demo_preprocessor = set_file_reader demo_reader (new_preprocessor [(''TILES'', ''4'')])"

lemma demo_uses:
  "map (used_name []) (get_lines ''///use a'') = [Some ([], ''a'')]" "map (used_name []) (get_lines ''///use b'') = [Some ([], ''b'')]"
  by code_simp+

lemma demo_closed: "closed_under demo_reader {([], ''a''), ([], ''b'')}"
  using demo_uses by (auto simp: closed_under_def uses_within_def demo_reader_def)

lemma demo_code_uses: "map (used_name []) (get_lines (fst (process_defines ''///use a'' []))) = [Some ([], ''a'')]"
  by code_simp

lemma demo_reads: "reads demo_reader demo_preprocessor" "sp_globals demo_preprocessor = [(''TILES'', ''4'')]"
  by (simp_all add: reads_def demo_preprocessor_def set_file_reader_def new_preprocessor_def)

lemma demo_word: "word_symbol ''TILES''"
  by code_simp

text \<open>With carriage returns at the ends of the lines, conditions with a value are not recognised; the lines that close them are.\<close>

lemma if_with_carriage_return: "classify (''///if A 1'' @ [CHR 0x0D]) = Plain"
  by code_simp

lemma endif_with_carriage_return: "classify (''///endif'' @ [CHR 0x0D]) = Endif"
  by code_simp

end
