(* ===== verification/Node_Graph.thy ===== *)
theory Node_Graph
  imports RG_Prelude "HOL-Library.AList" "HOL-Library.Multiset"
begin

text \<open>
  The node graph of webgpu/compute (NodeGraph.cpp, nodes/Node.cpp): sockets and their connections,
  the graph's operations, the order in which the nodes run (Kahn's algorithm), and how a node
  queues runs. Pointers to nodes are numbers, pointers to sockets a node and a position; the
  iteration order of the unordered map of nodes is the order of a list.
\<close>

type_synonym node_ref = nat
type_synonym socket_ref = "node_ref \<times> nat"

record in_socket =
  is_name :: string
  is_type :: nat
  is_source :: "socket_ref option"

record out_socket =
  os_name :: string
  os_type :: nat
  os_targets :: "socket_ref list"

record node =
  nd_name :: string
  nd_inputs :: "in_socket list"
  nd_outputs :: "out_socket list"

record node_graph =
  ng_names :: "(string \<times> node_ref) list"
  ng_nodes :: "node_ref \<rightharpoonup> node"

definition empty_graph :: node_graph where
  "empty_graph = \<lparr>ng_names = [], ng_nodes = Map.empty\<rparr>"

definition in_at :: "node_graph \<Rightarrow> socket_ref \<Rightarrow> in_socket option" where
  "in_at g r = (case ng_nodes g (fst r) of None \<Rightarrow> None
     | Some nd \<Rightarrow> if snd r < length (nd_inputs nd) then Some (nd_inputs nd ! snd r) else None)"

definition out_at :: "node_graph \<Rightarrow> socket_ref \<Rightarrow> out_socket option" where
  "out_at g r = (case ng_nodes g (fst r) of None \<Rightarrow> None
     | Some nd \<Rightarrow> if snd r < length (nd_outputs nd) then Some (nd_outputs nd ! snd r) else None)"

definition set_source :: "socket_ref \<Rightarrow> socket_ref option \<Rightarrow> node_graph \<Rightarrow> node_graph" where
  "set_source r src g = (case ng_nodes g (fst r) of None \<Rightarrow> g
     | Some nd \<Rightarrow> g\<lparr>ng_nodes := (ng_nodes g)(fst r \<mapsto>
         nd\<lparr>nd_inputs := (nd_inputs nd)[snd r := (nd_inputs nd ! snd r)\<lparr>is_source := src\<rparr>]\<rparr>)\<rparr>)"

definition set_targets :: "socket_ref \<Rightarrow> socket_ref list \<Rightarrow> node_graph \<Rightarrow> node_graph" where
  "set_targets r ts g = (case ng_nodes g (fst r) of None \<Rightarrow> g
     | Some nd \<Rightarrow> g\<lparr>ng_nodes := (ng_nodes g)(fst r \<mapsto>
         nd\<lparr>nd_outputs := (nd_outputs nd)[snd r := (nd_outputs nd ! snd r)\<lparr>os_targets := ts\<rparr>]\<rparr>)\<rparr>)"

definition source_of :: "node_graph \<Rightarrow> socket_ref \<Rightarrow> socket_ref option" where
  "source_of g r = (case in_at g r of None \<Rightarrow> None | Some s \<Rightarrow> is_source s)"

definition targets_of :: "node_graph \<Rightarrow> socket_ref \<Rightarrow> socket_ref list" where
  "targets_of g r = (case out_at g r of None \<Rightarrow> [] | Some s \<Rightarrow> os_targets s)"

subsection \<open>Connecting\<close>

definition remove_connected_socket :: "socket_ref \<Rightarrow> socket_ref \<Rightarrow> node_graph \<Rightarrow> node_graph checked" where
  "remove_connected_socket out inp g =
     require (inp \<in> set (targets_of g out)) ''it != m_connected_sockets.end()''
     (Inr (set_targets out (remove1 inp (targets_of g out)) g))"

definition same_type :: "socket_ref \<Rightarrow> socket_ref \<Rightarrow> node_graph \<Rightarrow> bool" where
  "same_type inp out g = (case (in_at g inp, out_at g out) of (Some i, Some s) \<Rightarrow> is_type i = os_type s | _ \<Rightarrow> False)"

text \<open>\<open>InputSocket::connect\<close> and \<open>disconnect\<close>\<close>

definition connect_input :: "socket_ref \<Rightarrow> socket_ref \<Rightarrow> node_graph \<Rightarrow> node_graph checked" where
  "connect_input inp out g =
     require (same_type inp out g) ''type() == output_socket.type()''
     (and_then (case source_of g inp of None \<Rightarrow> Inr g | Some old \<Rightarrow> remove_connected_socket old inp g) (\<lambda>g1.
        let g2 = set_source inp (Some out) g1
        in Inr (set_targets out (targets_of g2 out @ [inp]) g2)))"

definition disconnect_input :: "socket_ref \<Rightarrow> node_graph \<Rightarrow> node_graph checked" where
  "disconnect_input inp g =
     (case source_of g inp of None \<Rightarrow> Inr g
      | Some out \<Rightarrow> and_then (remove_connected_socket out inp g) (\<lambda>g1. Inr (set_source inp None g1)))"

text \<open>\<open>OutputSocket::connect\<close>: a connection the input already has stays in its old output.\<close>

definition connect_output :: "socket_ref \<Rightarrow> socket_ref \<Rightarrow> node_graph \<Rightarrow> node_graph checked" where
  "connect_output out inp g =
     require (same_type inp out g) ''type() == output_socket.type()''
     (Inr (set_source inp (Some out) (set_targets out (targets_of g out @ [inp]) g)))"

subsection \<open>Adding, removing, renaming\<close>

definition unconnected :: "node \<Rightarrow> bool" where
  "unconnected nd \<longleftrightarrow> (\<forall>i \<in> set (nd_inputs nd). is_source i = None) \<and> (\<forall>s \<in> set (nd_outputs nd). os_targets s = [])"

text \<open>\<open>n\<close> is the address of the new node.\<close>

definition add_node :: "string \<Rightarrow> node_ref \<Rightarrow> node \<Rightarrow> node_graph \<Rightarrow> node_graph checked" where
  "add_node name n nd g =
     require (map_of (ng_names g) name = None) ''!m_nodes.contains(name)''
     (Inr \<lparr>ng_names = ng_names g @ [(name, n)], ng_nodes = (ng_nodes g)(n \<mapsto> nd\<lparr>nd_name := name\<rparr>)\<rparr>)"

primrec disconnect_all :: "socket_ref list \<Rightarrow> node_graph \<Rightarrow> node_graph checked" where
  "disconnect_all [] g = Inr g"
| "disconnect_all (r # rs) g = and_then (disconnect_input r g) (disconnect_all rs)"

text \<open>The second loop copies the connected sockets of each output before it disconnects them.\<close>

primrec disconnect_outputs :: "socket_ref list \<Rightarrow> node_graph \<Rightarrow> node_graph checked" where
  "disconnect_outputs [] g = Inr g"
| "disconnect_outputs (r # rs) g = and_then (disconnect_all (targets_of g r) g) (disconnect_outputs rs)"

definition inputs_of :: "node_ref \<Rightarrow> node_graph \<Rightarrow> socket_ref list" where
  "inputs_of n g = (case ng_nodes g n of None \<Rightarrow> [] | Some nd \<Rightarrow> map (Pair n) [0..<length (nd_inputs nd)])"

definition outputs_of :: "node_ref \<Rightarrow> node_graph \<Rightarrow> socket_ref list" where
  "outputs_of n g = (case ng_nodes g n of None \<Rightarrow> [] | Some nd \<Rightarrow> map (Pair n) [0..<length (nd_outputs nd)])"

definition remove_node :: "string \<Rightarrow> node_graph \<Rightarrow> node_graph checked" where
  "remove_node name g =
     (case map_of (ng_names g) name of
        None \<Rightarrow> require False ''it != m_nodes.end()'' (Inr g)
      | Some n \<Rightarrow>
          and_then (disconnect_all (inputs_of n g) g) (\<lambda>g1.
          and_then (disconnect_outputs (outputs_of n g1) g1) (\<lambda>g2.
            Inr \<lparr>ng_names = filter (\<lambda>e. fst e \<noteq> name) (ng_names g2), ng_nodes = (ng_nodes g2)(n := None)\<rparr>)))"

definition rename_node :: "string \<Rightarrow> string \<Rightarrow> node_graph \<Rightarrow> node_graph checked" where
  "rename_node old new g =
     (case map_of (ng_names g) old of
        None \<Rightarrow> require False ''m_nodes.contains(old_name)'' (Inr g)
      | Some n \<Rightarrow> require (map_of (ng_names g) new = None) ''!m_nodes.contains(new_name)'' (Inr \<lparr>ng_names = filter (\<lambda>e. fst e \<noteq> old) (ng_names g) @ [(new, n)],
            ng_nodes = (case ng_nodes g n of None \<Rightarrow> ng_nodes g | Some nd \<Rightarrow> (ng_nodes g)(n \<mapsto> nd\<lparr>nd_name := new\<rparr>))\<rparr>))"

definition exists_node :: "string \<Rightarrow> node_graph \<Rightarrow> bool" where
  "exists_node name g \<longleftrightarrow> map_of (ng_names g) name \<noteq> None"

subsection \<open>The order of the nodes\<close>

type_synonym degrees = "(node_ref \<times> u32) list"

definition degree_of :: "degrees \<Rightarrow> node_ref \<Rightarrow> u32" where
  "degree_of ds n = (case map_of ds n of None \<Rightarrow> 0 | Some d \<Rightarrow> d)"

definition in_degree :: "node_graph \<Rightarrow> node_ref \<Rightarrow> u32" where
  "in_degree g n = of_nat (length (filter (\<lambda>r. source_of g r \<noteq> None) (inputs_of n g)))"

definition node_successors :: "node_graph \<Rightarrow> node_ref \<Rightarrow> node_ref list" where
  "node_successors g n = concat (map (\<lambda>r. map fst (targets_of g r)) (outputs_of n g))"

text \<open>One connected socket: its node's degree goes down, and at zero the node is queued.\<close>

definition count_down :: "node_ref \<Rightarrow> degrees \<times> node_ref list \<Rightarrow> degrees \<times> node_ref list" where
  "count_down v dq =
     (let d = degree_of (fst dq) v - 1; ds = AList.update v d (fst dq)
      in (ds, if d = 0 then snd dq @ [v] else snd dq))"

partial_function (option) kahn_loop ::
  "(node_ref \<Rightarrow> node_ref list) \<Rightarrow> degrees \<Rightarrow> node_ref list \<Rightarrow> node_ref list \<Rightarrow> (degrees \<times> node_ref list) option" where
  "kahn_loop succ ds queue order =
     (case queue of
        [] \<Rightarrow> Some (ds, order)
      | n # queue \<Rightarrow>
        (case fold count_down (succ n) (ds, queue) of (ds', queue') \<Rightarrow> kahn_loop succ ds' queue' (order @ [n])))"

datatype topology_error = Empty_Graph | Cycle

definition compute_topological_order :: "node_graph \<Rightarrow> (topology_error + node_ref list) option" where
  "compute_topological_order g =
     (if ng_names g = [] then Some (Inl Empty_Graph)
      else (let ns = map snd (ng_names g);
                ds = map (\<lambda>n. (n, in_degree g n)) ns;
                queue = filter (\<lambda>n. in_degree g n = 0) ns
            in Option.bind (kahn_loop (node_successors g) ds queue []) (\<lambda>(ds', order).
                 Some (if \<exists>d \<in> set ds'. snd d \<noteq> 0 then Inl Cycle else Inr order))))"

subsection \<open>Kahn's algorithm\<close>

text \<open>How many edges lead from the nodes of \<open>U\<close> to \<open>v\<close>.\<close>

definition edges_from :: "(node_ref \<Rightarrow> node_ref list) \<Rightarrow> node_ref set \<Rightarrow> node_ref \<Rightarrow> nat" where
  "edges_from succ U v = (\<Sum>u \<in> U. count (mset (succ u)) v)"

text \<open>\<open>extra\<close>: edges of the node just taken that were not followed yet.\<close>

definition degrees_ok :: "(node_ref \<Rightarrow> node_ref list) \<Rightarrow> node_ref set \<Rightarrow> degrees \<Rightarrow> node_ref list \<Rightarrow> node_ref list \<Rightarrow> node_ref list \<Rightarrow> bool" where
  "degrees_ok succ V ds queue order extra \<longleftrightarrow> distinct (order @ queue) \<and> set (order @ queue) \<subseteq> V \<and>
     distinct (map fst ds) \<and> fst ` set ds = V \<and>
     (\<forall>v \<in> V. unat (degree_of ds v) = edges_from succ (V - set order) v + count (mset extra) v) \<and>
     (\<forall>v \<in> V. degree_of ds v = 0 \<longleftrightarrow> v \<in> set (order @ queue))"

definition after_sources :: "(node_ref \<Rightarrow> node_ref list) \<Rightarrow> node_ref set \<Rightarrow> node_ref list \<Rightarrow> bool" where
  "after_sources succ V order \<longleftrightarrow> (\<forall>i < length order. \<forall>u \<in> V. order ! i \<in> set (succ u) \<longrightarrow> u \<in> set (take i order))"

lemma degree_update: "degree_of (AList.update v d ds) w = (if w = v then d else degree_of ds w)"
  by (simp add: degree_of_def update_conv')

lemma count_down_ok:
  assumes ok: "degrees_ok succ V ds queue order (v # extra)" and v: "v \<in> V"
    and step: "count_down v (ds, queue) = (ds', queue')"
  shows "degrees_ok succ V ds' queue' order extra"
proof -
  have D: "distinct (order @ queue)" "set (order @ queue) \<subseteq> V" "distinct (map fst ds)" "fst ` set ds = V"
      "\<And>w. w \<in> V \<Longrightarrow> unat (degree_of ds w) = edges_from succ (V - set order) w + count (mset (v # extra)) w"
      "\<And>w. w \<in> V \<Longrightarrow> degree_of ds w = 0 \<longleftrightarrow> w \<in> set (order @ queue)"
    using ok unfolding degrees_ok_def by blast+
  have ds': "ds' = AList.update v (degree_of ds v - 1) ds" "queue' = (if degree_of ds v - 1 = 0 then queue @ [v] else queue)"
    using step by (auto simp: count_down_def Let_def)
  have pos: "degree_of ds v \<noteq> 0" using D(5) [OF v] by (auto simp: unat_eq_zero)
  then have one: "unat (degree_of ds v - 1) = unat (degree_of ds v) - 1" by (simp add: unat_minus_one)
  have deg: "unat (degree_of ds' w) = edges_from succ (V - set order) w + count (mset extra) w" if "w \<in> V" for w
    using D(5) [OF that] one by (auto simp: ds'(1) degree_update split: if_splits)
  have notin: "v \<notin> set (order @ queue)" using D(6) [OF v] pos by blast
  have "degree_of ds' w = 0 \<longleftrightarrow> w \<in> set (order @ queue')" if "w \<in> V" for w
    using D(6) [OF that] pos notin by (auto simp: ds' degree_update)
  moreover have "distinct (order @ queue')" "set (order @ queue') \<subseteq> V" using D(1,2) notin v by (auto simp: ds'(2))
  moreover have "distinct (map fst ds')" "fst ` set ds' = V" using D(3,4) v by (auto simp: ds'(1) distinct_update dom_update)
  ultimately show ?thesis using deg unfolding degrees_ok_def by blast
qed

lemma count_down_all_ok:
  "degrees_ok succ V ds queue order vs \<Longrightarrow> set vs \<subseteq> V \<Longrightarrow> fold count_down vs (ds, queue) = (ds', queue') \<Longrightarrow>
   degrees_ok succ V ds' queue' order []"
proof (induction vs arbitrary: ds queue)
  case (Cons v vs)
  obtain ds1 queue1 where one: "count_down v (ds, queue) = (ds1, queue1)" by (metis surj_pair)
  from count_down_ok [OF Cons.prems(1) _ one] Cons.prems(2) have "degrees_ok succ V ds1 queue1 order vs" by simp
  then show ?case using Cons.IH Cons.prems(2,3) one by simp
qed simp

lemma after_sources_snoc:
  assumes "after_sources succ V order" "\<And>u. u \<in> V \<Longrightarrow> n \<in> set (succ u) \<Longrightarrow> u \<in> set order"
  shows "after_sources succ V (order @ [n])"
  unfolding after_sources_def
proof (intro allI impI ballI)
  fix i u assume i: "i < length (order @ [n])" and u: "u \<in> V" "(order @ [n]) ! i \<in> set (succ u)"
  show "u \<in> set (take i (order @ [n]))"
  proof (cases "i < length order")
    case True
    then have "order ! i \<in> set (succ u)" using u(2) by (simp add: nth_append)
    then have "u \<in> set (take i order)" using assms(1) u(1) True unfolding after_sources_def by blast
    then show ?thesis using True by simp
  next
    case False
    then have "i = length order" using i by simp
    then show ?thesis using assms(2) [OF u(1)] u(2) by simp
  qed
qed

lemma kahn_loop_ok:
  assumes V: "finite V" "\<And>u. u \<in> V \<Longrightarrow> set (succ u) \<subseteq> V"
  shows "degrees_ok succ V ds queue order [] \<Longrightarrow> after_sources succ V order \<Longrightarrow>
    \<exists>ds' order'. kahn_loop succ ds queue order = Some (ds', order') \<and> degrees_ok succ V ds' [] order' [] \<and> after_sources succ V order'"
proof (induction "card V - length order" arbitrary: ds queue order rule: less_induct)
  case less
  show ?case
  proof (cases queue)
    case Nil
    then show ?thesis using less.prems by (subst kahn_loop.simps) simp
  next
    case (Cons n rest)
    have D: "distinct (order @ queue)" "set (order @ queue) \<subseteq> V" "distinct (map fst ds)" "fst ` set ds = V"
        "\<And>v. v \<in> V \<Longrightarrow> unat (degree_of ds v) = edges_from succ (V - set order) v"
        "\<And>v. v \<in> V \<Longrightarrow> degree_of ds v = 0 \<longleftrightarrow> v \<in> set (order @ queue)"
      using less.prems(1) unfolding degrees_ok_def by auto
    have n: "n \<in> V" "n \<notin> set order" using D(1,2) Cons by auto
    have split: "edges_from succ (V - set order) v = edges_from succ (V - set (order @ [n])) v + count (mset (succ n)) v" for v
    proof -
      have eq: "V - set order = insert n (V - set (order @ [n]))" using n by auto
      have "edges_from succ (insert n (V - set (order @ [n]))) v = edges_from succ (V - set (order @ [n])) v + count (mset (succ n)) v"
        unfolding edges_from_def using V(1) by (subst sum.insert) auto
      then show ?thesis by (simp only: eq)
    qed
    have "degrees_ok succ V ds rest (order @ [n]) (succ n)"
      using D Cons split by (auto simp: degrees_ok_def)
    moreover obtain ds' queue' where run: "fold count_down (succ n) (ds, rest) = (ds', queue')" by (metis surj_pair)
    ultimately have ok': "degrees_ok succ V ds' queue' (order @ [n]) []" using count_down_all_ok V(2) [OF n(1)] by blast
    have "edges_from succ (V - set order) n = 0" using D(5,6) [OF n(1)] Cons by simp
    then have "n \<notin> set (succ u)" if "u \<in> V - set order" for u
      using that V(1) by (simp add: edges_from_def count_eq_zero_iff)
    then have "after_sources succ V (order @ [n])" by (intro after_sources_snoc less.prems(2)) blast
    moreover have "card V - length (order @ [n]) < card V - length order"
    proof -
      have "card (set (order @ [n])) \<le> card V" using D(2) Cons by (intro card_mono V(1)) auto
      moreover have "card (set (order @ [n])) = Suc (length order)" using D(1) Cons distinct_card [of "order @ [n]"] by simp
      ultimately show ?thesis by simp
    qed
    moreover have "kahn_loop succ ds queue order = kahn_loop succ ds' queue' (order @ [n])"
      by (subst kahn_loop.simps) (simp add: Cons run)
    ultimately show ?thesis using less.hyps [OF _ ok'] by simp
  qed
qed

subsection \<open>Both ends of a connection agree\<close>

definition link_count :: "node_graph \<Rightarrow> socket_ref \<Rightarrow> socket_ref \<Rightarrow> nat" where
  "link_count g out r = count (mset (targets_of g out)) r"

definition wired :: "node_graph \<Rightarrow> bool" where
  "wired g \<longleftrightarrow> (\<forall>out r. link_count g out r = (if source_of g r = Some out then 1 else 0)) \<and>
     distinct (map fst (ng_names g)) \<and> distinct (map snd (ng_names g)) \<and> snd ` set (ng_names g) = dom (ng_nodes g)"

lemma set_source_frame [simp]:
  "targets_of (set_source r s g) = targets_of g" "ng_names (set_source r s g) = ng_names g" "dom (ng_nodes (set_source r s g)) = dom (ng_nodes g)"
  "out_at (set_source r s g) out = None \<longleftrightarrow> out_at g out = None" "in_at (set_source r s g) q = None \<longleftrightarrow> in_at g q = None"
  "inputs_of n (set_source r s g) = inputs_of n g" "outputs_of n (set_source r s g) = outputs_of n g"
  "source_of (set_source r s g) q = (if q = r \<and> in_at g r \<noteq> None then s else source_of g q)"
  by (auto simp: set_source_def targets_of_def source_of_def out_at_def in_at_def inputs_of_def outputs_of_def nth_list_update prod_eq_iff
      intro!: ext split: option.splits if_splits)

lemma set_targets_frame [simp]:
  "source_of (set_targets out ts g) = source_of g" "ng_names (set_targets out ts g) = ng_names g"
  "dom (ng_nodes (set_targets out ts g)) = dom (ng_nodes g)"
  "out_at (set_targets out ts g) q = None \<longleftrightarrow> out_at g q = None" "in_at (set_targets out ts g) r = None \<longleftrightarrow> in_at g r = None"
  "inputs_of n (set_targets out ts g) = inputs_of n g" "outputs_of n (set_targets out ts g) = outputs_of n g"
  "targets_of (set_targets out ts g) q = (if q = out \<and> out_at g out \<noteq> None then ts else targets_of g q)"
  by (auto simp: set_targets_def targets_of_def source_of_def out_at_def in_at_def inputs_of_def outputs_of_def nth_list_update prod_eq_iff
      intro!: ext split: option.splits if_splits)

lemma wired_count: "wired g \<Longrightarrow> link_count g out r = (if source_of g r = Some out then 1 else 0)"
  unfolding wired_def by blast

lemma wiredI:
  assumes "\<And>out r. link_count g out r = (if source_of g r = Some out then 1 else 0)"
    "distinct (map fst (ng_names g))" "distinct (map snd (ng_names g))" "snd ` set (ng_names g) = dom (ng_nodes g)"
  shows "wired g"
  using assms unfolding wired_def by blast

lemma wired_names:
  "wired g \<Longrightarrow> distinct (map fst (ng_names g)) \<and> distinct (map snd (ng_names g)) \<and> snd ` set (ng_names g) = dom (ng_nodes g)"
  unfolding wired_def by blast

lemma links_set_source [simp]: "link_count (set_source r s g) = link_count g"
  by (intro ext) (simp add: link_count_def)

lemma links_append:
  "out_at g out \<noteq> None \<Longrightarrow>
   link_count (set_targets out (targets_of g out @ [r]) g) q p = link_count g q p + (if q = out \<and> p = r then 1 else 0)"
  by (auto simp: link_count_def)

lemma links_remove:
  "out_at g out \<noteq> None \<Longrightarrow>
   link_count (set_targets out (remove1 r (targets_of g out)) g) q p = link_count g q p - (if q = out \<and> p = r then 1 else 0)"
  by (auto simp: link_count_def simp del: count_mset_0_iff)

lemma wired_targets: "wired g \<Longrightarrow> r \<in> set (targets_of g out) \<longleftrightarrow> source_of g r = Some out"
  using wired_count [of g out r] unfolding link_count_def by (metis count_mset_0_iff zero_neq_one)

lemma wired_ends: "wired g \<Longrightarrow> source_of g r = Some out \<Longrightarrow> in_at g r \<noteq> None \<and> out_at g out \<noteq> None"
proof -
  assume g: "wired g" and src: "source_of g r = Some out"
  then have "targets_of g out \<noteq> []" using wired_targets [of g r out] by auto
  then have "out_at g out \<noteq> None" unfolding targets_of_def by (cases "out_at g out") simp_all
  moreover have "in_at g r \<noteq> None" using src unfolding source_of_def by (cases "in_at g r") simp_all
  ultimately show ?thesis by blast
qed

lemma empty_graph_wired: "wired empty_graph"
  by (simp add: wired_def link_count_def empty_graph_def targets_of_def source_of_def out_at_def in_at_def)

lemma remove_connected_ok:
  assumes "wired g" "source_of g r = Some out"
  shows "remove_connected_socket out r g = Inr (set_targets out (remove1 r (targets_of g out)) g)"
  using wired_targets [OF assms(1)] assms(2) by (simp add: remove_connected_socket_def)

lemma disconnect_input_ok:
  assumes "wired g"
  shows "\<exists>g'. disconnect_input r g = Inr g' \<and> wired g' \<and> (\<forall>q. source_of g' q = (if q = r then None else source_of g q)) \<and>
    ng_names g' = ng_names g \<and> dom (ng_nodes g') = dom (ng_nodes g) \<and> inputs_of n g' = inputs_of n g \<and> outputs_of n g' = outputs_of n g"
proof (cases "source_of g r")
  case None
  then show ?thesis using assms by (intro exI [of _ g]) (simp add: disconnect_input_def)
next
  case (Some out)
  let ?g1 = "set_targets out (remove1 r (targets_of g out)) g"
  let ?g' = "set_source r None ?g1"
  have ends: "in_at g r \<noteq> None" "out_at g out \<noteq> None" using wired_ends [OF assms Some] by simp_all
  have "disconnect_input r g = Inr ?g'" by (simp add: disconnect_input_def Some remove_connected_ok [OF assms Some])
  moreover have "link_count ?g' q p = (if source_of ?g' p = Some q then 1 else 0)" for q p
    using wired_count [OF assms, of q p] Some ends by (auto simp: links_remove simp del: set_targets_frame(8))
  then have "wired ?g'" using wired_names [OF assms] by (intro wiredI) simp_all
  ultimately show ?thesis using ends(1) by (intro exI [of _ ?g']) simp
qed

lemma connect_input_ok:
  assumes "wired g" "same_type r out g"
  shows "\<exists>g'. connect_input r out g = Inr g' \<and> wired g' \<and> source_of g' r = Some out \<and> (\<forall>q. q \<noteq> r \<longrightarrow> source_of g' q = source_of g q)"
proof -
  have ends: "in_at g r \<noteq> None" "out_at g out \<noteq> None" using assms(2) by (auto simp: same_type_def split: option.splits)
  obtain g1 where g1: "(case source_of g r of None \<Rightarrow> Inr g | Some old \<Rightarrow> remove_connected_socket old r g) = Inr g1"
      "\<And>q p. link_count g1 q p = (if p \<noteq> r \<and> source_of g p = Some q then 1 else 0)"
      "source_of g1 = source_of g" "in_at g1 r \<noteq> None" "out_at g1 out \<noteq> None" "ng_names g1 = ng_names g" "dom (ng_nodes g1) = dom (ng_nodes g)"
  proof (cases "source_of g r")
    case None
    then have "link_count g q p = (if p \<noteq> r \<and> source_of g p = Some q then 1 else 0)" for q p using wired_count [OF assms(1), of q p] by auto
    then show ?thesis using that [of g] None ends by simp
  next
    case (Some old)
    let ?g1 = "set_targets old (remove1 r (targets_of g old)) g"
    have old: "out_at g old \<noteq> None" using wired_ends [OF assms(1) Some] by simp
    have "link_count ?g1 q p = (if p \<noteq> r \<and> source_of g p = Some q then 1 else 0)" for q p
      unfolding links_remove [OF old] using wired_count [OF assms(1), of q p] Some by auto
    then show ?thesis using that [of ?g1] remove_connected_ok [OF assms(1) Some] Some ends by simp
  qed
  let ?g' = "set_targets out (targets_of g1 out @ [r]) (set_source r (Some out) g1)"
  have "connect_input r out g = Inr ?g'" using assms(2) by (simp add: connect_input_def g1(1) Let_def)
  moreover have "link_count ?g' q p = (if source_of ?g' p = Some q then 1 else 0)" for q p
  proof -
    have "out_at (set_source r (Some out) g1) out \<noteq> None" using g1(5) by simp
    from links_append [OF this, of r q p] show ?thesis using g1(2) [of q p] g1(3,4) by auto
  qed
  then have "wired ?g'" using wired_names [OF assms(1)] g1(6,7) by (intro wiredI) simp_all
  ultimately show ?thesis using g1(3-5) by (intro exI [of _ ?g']) simp
qed

lemma add_node_ok:
  assumes "wired g" "map_of (ng_names g) name = None" "ng_nodes g n = None" "unconnected nd"
  shows "\<exists>g'. add_node name n nd g = Inr g' \<and> wired g' \<and> source_of g' = source_of g"
proof -
  let ?g' = "\<lparr>ng_names = ng_names g @ [(name, n)], ng_nodes = (ng_nodes g)(n \<mapsto> nd\<lparr>nd_name := name\<rparr>)\<rparr>"
  have s: "source_of ?g' r = source_of g r" for r
    using assms(3,4) by (auto simp: source_of_def in_at_def unconnected_def split: option.split)
  have t: "targets_of ?g' out = targets_of g out" for out
    using assms(3,4) by (auto simp: targets_of_def out_at_def unconnected_def split: option.split)
  have names: "name \<notin> fst ` set (ng_names g)" "n \<notin> snd ` set (ng_names g)"
    using assms(1-3) by (auto simp: map_of_eq_None_iff wired_def)
  have "link_count ?g' out r = (if source_of ?g' r = Some out then 1 else 0)" for out r
    using wired_count [OF assms(1), of out r] by (simp add: link_count_def s t)
  then have "wired ?g'" using wired_names [OF assms(1)] names by (intro wiredI) auto
  moreover have "source_of ?g' = source_of g" by (rule ext) (rule s)
  ultimately show ?thesis using assms(2) by (simp add: add_node_def)
qed

lemma disconnect_all_ok:
  "wired g \<Longrightarrow> \<exists>g'. disconnect_all rs g = Inr g' \<and> wired g' \<and> (\<forall>q. source_of g' q = (if q \<in> set rs then None else source_of g q)) \<and>
    ng_names g' = ng_names g \<and> dom (ng_nodes g') = dom (ng_nodes g) \<and> inputs_of n g' = inputs_of n g \<and> outputs_of n g' = outputs_of n g"
proof (induction rs arbitrary: g)
  case (Cons r rs)
  obtain g1 where g1: "disconnect_input r g = Inr g1" "wired g1" "\<forall>q. source_of g1 q = (if q = r then None else source_of g q)"
      "ng_names g1 = ng_names g" "dom (ng_nodes g1) = dom (ng_nodes g)" "inputs_of n g1 = inputs_of n g" "outputs_of n g1 = outputs_of n g"
    using disconnect_input_ok [OF Cons.prems, of r n] by blast
  from Cons.IH [OF g1(2)] show ?case using g1 by auto
qed simp

lemma disconnect_outputs_ok:
  "wired g \<Longrightarrow> \<exists>g'. disconnect_outputs outs g = Inr g' \<and> wired g' \<and>
    (\<forall>q. source_of g' q = (if source_of g q \<in> Some ` set outs then None else source_of g q)) \<and>
    ng_names g' = ng_names g \<and> dom (ng_nodes g') = dom (ng_nodes g) \<and> inputs_of n g' = inputs_of n g \<and> outputs_of n g' = outputs_of n g"
proof (induction outs arbitrary: g)
  case (Cons out outs)
  obtain g1 where g1: "disconnect_all (targets_of g out) g = Inr g1" "wired g1"
      "\<forall>q. source_of g1 q = (if q \<in> set (targets_of g out) then None else source_of g q)"
      "ng_names g1 = ng_names g" "dom (ng_nodes g1) = dom (ng_nodes g)" "inputs_of n g1 = inputs_of n g" "outputs_of n g1 = outputs_of n g"
    using disconnect_all_ok [OF Cons.prems, of "targets_of g out" n] by blast
  have s: "source_of g1 q = (if source_of g q = Some out then None else source_of g q)" for q
    using g1(3) [THEN spec, of q] wired_targets [OF Cons.prems, of q out] by simp
  from Cons.IH [OF g1(2)] show ?case using g1(1,4-7) s by auto
qed simp

lemma pairs_unique:
  assumes "distinct (map fst xs)" "distinct (map snd xs)" "(a, b) \<in> set xs" "e \<in> set xs"
  shows "snd e = b \<longleftrightarrow> fst e = a"
proof -
  have inj: "inj_on fst (set xs)" "inj_on snd (set xs)" using assms(1,2) by (simp_all add: distinct_map)
  have "fst e = fst (a, b) \<longleftrightarrow> e = (a, b)" by (rule inj_on_eq_iff [OF inj(1) assms(4,3)])
  moreover have "snd e = snd (a, b) \<longleftrightarrow> e = (a, b)" by (rule inj_on_eq_iff [OF inj(2) assms(4,3)])
  ultimately show ?thesis by simp
qed

lemma remove_node_ok:
  assumes "wired g" "map_of (ng_names g) name = Some n"
  shows "\<exists>g'. remove_node name g = Inr g' \<and> wired g' \<and> ng_nodes g' n = None"
proof -
  obtain g1 where g1: "disconnect_all (inputs_of n g) g = Inr g1" "wired g1"
      "\<forall>q. source_of g1 q = (if q \<in> set (inputs_of n g) then None else source_of g q)" "ng_names g1 = ng_names g"
      "dom (ng_nodes g1) = dom (ng_nodes g)" "inputs_of n g1 = inputs_of n g"
    using disconnect_all_ok [OF assms(1), of "inputs_of n g" n] by blast
  obtain g2 where g2: "disconnect_outputs (outputs_of n g1) g1 = Inr g2" "wired g2"
      "\<forall>q. source_of g2 q = (if source_of g1 q \<in> Some ` set (outputs_of n g1) then None else source_of g1 q)" "ng_names g2 = ng_names g1"
      "dom (ng_nodes g2) = dom (ng_nodes g1)" "inputs_of n g2 = inputs_of n g1" "outputs_of n g2 = outputs_of n g1"
    using disconnect_outputs_ok [OF g1(2), of "outputs_of n g1" n] by blast
  let ?g' = "\<lparr>ng_names = filter (\<lambda>e. fst e \<noteq> name) (ng_names g2), ng_nodes = (ng_nodes g2)(n := None)\<rparr>"
  have in_list: "r \<in> set (inputs_of (fst r) h)" if "in_at h r \<noteq> None" for h r
    using that by (cases r) (auto simp: in_at_def inputs_of_def split: option.splits if_splits)
  have out_list: "out \<in> set (outputs_of (fst out) h)" if "out_at h out \<noteq> None" for h out
    using that by (cases out) (auto simp: out_at_def outputs_of_def split: option.splits if_splits)
  have none: "source_of g2 r = None" if "fst r = n" for r
  proof (cases "in_at g2 r")
    case (Some s)
    then have "r \<in> set (inputs_of n g)" using in_list [of g2 r] that g2(6) g1(6) by simp
    then show ?thesis using g1(3) [THEN spec, of r] g2(3) [THEN spec, of r] by simp
  qed (simp add: source_of_def)
  have away: "source_of g2 r \<noteq> Some out" if "fst out = n" for r out
  proof
    assume src: "source_of g2 r = Some out"
    then have "out_at g2 out \<noteq> None" using wired_ends [OF g2(2)] by blast
    then have "out \<in> set (outputs_of n g1)" using out_list [of g2 out] that g2(7) by simp
    then show False using src g2(3) [THEN spec, of r] by (auto split: if_splits)
  qed
  have s: "source_of ?g' r = source_of g2 r" for r
    using none [of r] by (auto simp: source_of_def in_at_def split: option.splits)
  have t: "targets_of ?g' out = (if fst out = n then [] else targets_of g2 out)" for out
    by (auto simp: targets_of_def out_at_def split: option.splits)
  have names: "distinct (map fst (ng_names g2))" "distinct (map snd (ng_names g2))" "snd ` set (ng_names g2) = dom (ng_nodes g2)"
    using g2(2) by (simp_all add: wired_def)
  have unique: "e \<in> set (ng_names g2) \<Longrightarrow> snd e = n \<longleftrightarrow> fst e = name" for e
    using pairs_unique [OF names(1,2), of name n] map_of_SomeD [OF assms(2)] g1(4) g2(4) by simp
  have "snd ` set (filter (\<lambda>e. fst e \<noteq> name) (ng_names g2)) = dom (ng_nodes g2) - {n}"
    unfolding names(3) [symmetric] using unique by auto
  moreover have "link_count ?g' out r = (if source_of ?g' r = Some out then 1 else 0)" for out r
  proof -
    have "link_count ?g' out r = (if fst out = n then 0 else link_count g2 out r)" by (simp add: link_count_def t)
    then show ?thesis using wired_count [OF g2(2), of out r] away [of out r] by (simp add: s)
  qed
  ultimately have "wired ?g'" using names(1,2) by (intro wiredI) (simp_all add: distinct_map_filter)
  then show ?thesis using g1(1) g2(1) assms(2) by (simp add: remove_node_def)
qed

lemma rename_node_ok:
  assumes "wired g" "map_of (ng_names g) old = Some n" "map_of (ng_names g) new = None"
  shows "\<exists>g'. rename_node old new g = Inr g' \<and> wired g' \<and> source_of g' = source_of g \<and> map_of (ng_names g') new = Some n"
proof -
  let ?nodes = "case ng_nodes g n of None \<Rightarrow> ng_nodes g | Some nd \<Rightarrow> (ng_nodes g)(n \<mapsto> nd\<lparr>nd_name := new\<rparr>)"
  let ?g' = "\<lparr>ng_names = filter (\<lambda>e. fst e \<noteq> old) (ng_names g) @ [(new, n)], ng_nodes = ?nodes\<rparr>"
  have s: "source_of ?g' r = source_of g r" and t: "targets_of ?g' r = targets_of g r" for r
    by (auto simp: source_of_def in_at_def targets_of_def out_at_def split: option.splits)
  note names = wired_names [OF assms(1)] and here = map_of_SomeD [OF assms(2)]
  have unique: "e \<in> set (ng_names g) \<Longrightarrow> snd e = n \<longleftrightarrow> fst e = old" for e
    using names here pairs_unique [of "ng_names g" old n e] by blast
  have new: "new \<notin> fst ` set (ng_names g)" using assms(3) by (simp add: map_of_eq_None_iff)
  have "snd ` set (ng_names ?g') = snd ` set (ng_names g)" using here unique by force
  moreover have "dom ?nodes = dom (ng_nodes g)" by (auto split: option.splits)
  moreover have "distinct (map fst (ng_names ?g'))" "distinct (map snd (ng_names ?g'))"
    using names new unique by (auto simp: distinct_map_filter)
  moreover have "link_count ?g' out r = (if source_of ?g' r = Some out then 1 else 0)" for out r
    using wired_count [OF assms(1), of out r] by (simp add: link_count_def s t)
  ultimately have "wired ?g'" using names by (intro wiredI) simp_all
  moreover have "source_of ?g' = source_of g" by (rule ext) (rule s)
  moreover have "map_of (filter (\<lambda>e. fst e \<noteq> old) (ng_names g)) new = None" using new by (auto simp: map_of_eq_None_iff)
  ultimately show ?thesis using assms(2,3) by (simp add: rename_node_def map_add_def)
qed

lemma outputs_of_dom: "r \<in> set (outputs_of n g) \<Longrightarrow> n \<in> dom (ng_nodes g)"
  by (cases "ng_nodes g n") (simp_all add: outputs_of_def domI)

lemma in_at_dom: "in_at g r \<noteq> None \<Longrightarrow> fst r \<in> dom (ng_nodes g)"
  by (cases "ng_nodes g (fst r)") (simp_all add: in_at_def domI)

subsection \<open>The order of a wired graph\<close>

definition node_refs :: "node_graph \<Rightarrow> node_ref set" where
  "node_refs g = snd ` set (ng_names g)"

definition node_edge :: "node_graph \<Rightarrow> (node_ref \<times> node_ref) set" where
  "node_edge g = {(m, n). m \<in> node_refs g \<and> n \<in> set (node_successors g m)}"

lemma in_inputs: "in_at g r \<noteq> None \<Longrightarrow> r \<in> set (inputs_of (fst r) g)"
  by (cases r) (auto simp: in_at_def inputs_of_def split: option.splits if_splits)

lemma in_outputs: "out_at g r \<noteq> None \<Longrightarrow> r \<in> set (outputs_of (fst r) g)"
  by (cases r) (auto simp: out_at_def outputs_of_def split: option.splits if_splits)

lemma refs_of: "r \<in> set (inputs_of n g) \<Longrightarrow> fst r = n" "r \<in> set (outputs_of n g) \<Longrightarrow> fst r = n"
  "distinct (inputs_of n g)" "distinct (outputs_of n g)"
  by (auto simp: inputs_of_def outputs_of_def distinct_map inj_on_def split: option.splits)

text \<open>An edge is a connected input socket.\<close>

lemma edge_iff:
  assumes "wired g"
  shows "(m, n) \<in> node_edge g \<longleftrightarrow> (\<exists>inp out. source_of g inp = Some out \<and> fst inp = n \<and> fst out = m)"
proof
  assume "(m, n) \<in> node_edge g"
  then obtain out inp where o: "out \<in> set (outputs_of m g)" "inp \<in> set (targets_of g out)" "fst inp = n"
    by (auto simp: node_edge_def node_successors_def)
  then show "\<exists>inp out. source_of g inp = Some out \<and> fst inp = n \<and> fst out = m"
    using wired_targets [OF assms, of inp out] refs_of(2) by blast
next
  assume "\<exists>inp out. source_of g inp = Some out \<and> fst inp = n \<and> fst out = m"
  then obtain inp out where o: "source_of g inp = Some out" "fst inp = n" "fst out = m" by blast
  then have out: "out \<in> set (outputs_of m g)" using wired_ends [OF assms o(1)] in_outputs [of g out] by simp
  moreover have "inp \<in> set (targets_of g out)" using wired_targets [OF assms] o(1) by simp
  ultimately have "n \<in> set (node_successors g m)" using o(2) by (force simp: node_successors_def)
  moreover have "m \<in> dom (ng_nodes g)" using out by (rule outputs_of_dom)
  ultimately show "(m, n) \<in> node_edge g" using wired_names [OF assms] by (simp add: node_edge_def node_refs_def)
qed

lemma count_map_fst:
  "(\<And>r. r \<in> set ts \<Longrightarrow> fst r = v \<Longrightarrow> r \<in> R) \<Longrightarrow> finite R \<Longrightarrow> (\<And>r. r \<in> R \<Longrightarrow> fst r = v) \<Longrightarrow>
   count (mset (map fst ts)) v = (\<Sum>r \<in> R. count (mset ts) r)"
proof (induction ts)
  case (Cons t ts)
  have "(\<Sum>r \<in> R. count (mset (t # ts)) r) = (\<Sum>r \<in> R. count (mset ts) r + (if t = r then 1 else 0))"
    by (rule sum.cong) simp_all
  then have "(\<Sum>r \<in> R. count (mset (t # ts)) r) = (\<Sum>r \<in> R. count (mset ts) r) + (\<Sum>r \<in> R. if t = r then 1 else 0)"
    by (simp only: sum.distrib)
  moreover have "(\<Sum>r \<in> R. if t = r then 1 else 0) = (if t \<in> R then 1 else 0 :: nat)" using Cons.prems(2) by simp
  moreover have "fst t = v \<longleftrightarrow> t \<in> R" using Cons.prems(1) [of t] Cons.prems(3) [of t] by auto
  moreover have "count (mset (map fst ts)) v = (\<Sum>r \<in> R. count (mset ts) r)"
    using Cons.prems by (intro Cons.IH) simp_all
  ultimately show ?case by simp
qed simp

lemma degree_counts:
  assumes "wired g" "v \<in> node_refs g"
  shows "edges_from (node_successors g) (node_refs g) v = length (filter (\<lambda>r. source_of g r \<noteq> None) (inputs_of v g))"
proof -
  let ?R = "set (inputs_of v g)" and ?V = "node_refs g" and ?O = "\<lambda>u. set (outputs_of u g)"
  have ends: "r \<in> ?R" if "r \<in> set (targets_of g out)" "fst r = v" for r out
    using that wired_targets [OF assms(1)] wired_ends [OF assms(1)] in_inputs [of g r] by blast
  have one: "count (mset (node_successors g u)) v = (\<Sum>out \<in> ?O u. \<Sum>r \<in> ?R. link_count g out r)" for u
  proof -
    have "count (mset (concat xss)) v = sum_list (map (\<lambda>xs. count (mset xs) v) xss)" for xss :: "node_ref list list"
      by (induction xss) auto
    then have "count (mset (node_successors g u)) v = sum_list (map (\<lambda>out. count (mset (map fst (targets_of g out))) v) (outputs_of u g))"
      by (simp add: node_successors_def o_def)
    also have "\<dots> = (\<Sum>out \<in> ?O u. count (mset (map fst (targets_of g out))) v)"
      by (rule sum_list_distinct_conv_sum_set [OF refs_of(4)])
    also have "\<dots> = (\<Sum>out \<in> ?O u. \<Sum>r \<in> ?R. link_count g out r)"
      unfolding link_count_def by (intro sum.cong refl count_map_fst) (use ends refs_of(1) in auto)
    finally show ?thesis .
  qed
  have V: "finite ?V" by (simp add: node_refs_def)
  have dom: "?V = dom (ng_nodes g)" using wired_names [OF assms(1)] by (simp add: node_refs_def)
  have "edges_from (node_successors g) ?V v = (\<Sum>u \<in> ?V. \<Sum>out \<in> ?O u. \<Sum>r \<in> ?R. link_count g out r)"
    by (simp add: edges_from_def one)
  also have "\<dots> = (\<Sum>out \<in> (\<Union>u \<in> ?V. ?O u). \<Sum>r \<in> ?R. link_count g out r)"
  proof (rule sum.UNION_disjoint [symmetric])
    show "\<forall>i \<in> ?V. \<forall>j \<in> ?V. i \<noteq> j \<longrightarrow> ?O i \<inter> ?O j = {}" using refs_of(2) by blast
  qed (use V in simp_all)
  also have "\<dots> = (\<Sum>r \<in> ?R. \<Sum>out \<in> (\<Union>u \<in> ?V. ?O u). link_count g out r)" by (rule sum.swap)
  also have "\<dots> = (\<Sum>r \<in> ?R. if source_of g r \<noteq> None then 1 else 0)"
  proof (intro sum.cong refl)
    fix r
    show "(\<Sum>out \<in> (\<Union>u \<in> ?V. ?O u). link_count g out r) = (if source_of g r \<noteq> None then 1 else 0)"
    proof (cases "source_of g r")
      case (Some out)
      have "out \<in> ?O (fst out)" using wired_ends [OF assms(1) Some] in_outputs [of g out] by simp
      moreover from this have "fst out \<in> ?V" unfolding dom by (rule outputs_of_dom)
      ultimately have mem: "out \<in> (\<Union>u \<in> ?V. ?O u)" by blast
      have "(\<Sum>out' \<in> (\<Union>u \<in> ?V. ?O u). link_count g out' r) = (\<Sum>out' \<in> (\<Union>u \<in> ?V. ?O u). if out' = out then 1 else 0)"
        by (intro sum.cong refl) (simp add: wired_count [OF assms(1)] Some)
      also have "\<dots> = 1" using mem V by simp
      finally show ?thesis by (simp add: Some)
    qed (simp add: wired_count [OF assms(1)])
  qed
  also have "\<dots> = length (filter (\<lambda>r. source_of g r \<noteq> None) (inputs_of v g))"
    using refs_of(3) [of v g] by (simp add: sum.If_cases distinct_length_filter Int_def conj_commute)
  finally show ?thesis .
qed

lemma finite_node_refs: "finite (node_refs g)"
  by (simp add: node_refs_def)

lemma successors_within:
  assumes "wired g" "u \<in> node_refs g"
  shows "set (node_successors g u) \<subseteq> node_refs g"
proof
  fix n assume "n \<in> set (node_successors g u)"
  then have "(u, n) \<in> node_edge g" using assms(2) by (simp add: node_edge_def)
  then obtain inp out where "source_of g inp = Some out" "fst inp = n" using edge_iff [OF assms(1)] by blast
  then have "n \<in> dom (ng_nodes g)" using wired_ends [OF assms(1)] in_at_dom [of g inp] by blast
  then show "n \<in> node_refs g" using wired_names [OF assms(1)] by (simp add: node_refs_def)
qed

text \<open>The counters the loop starts with, when no node has as many sockets as a 32-bit counter counts.\<close>

lemma initial_degrees:
  assumes "wired g" and few: "\<forall>n \<in> node_refs g. length (inputs_of n g) < 2 ^ 32"
  shows "degrees_ok (node_successors g) (node_refs g) (map (\<lambda>n. (n, in_degree g n)) (map snd (ng_names g)))
    (filter (\<lambda>n. in_degree g n = 0) (map snd (ng_names g))) [] []"
proof -
  let ?ns = "map snd (ng_names g)"
  have V: "set ?ns = node_refs g" "distinct ?ns" using wired_names [OF assms(1)] by (simp_all only: node_refs_def set_map)
  have look: "n \<in> set ns \<Longrightarrow> degree_of (map (\<lambda>n. (n, in_degree g n)) ns) n = in_degree g n" for ns n
    by (induction ns) (auto simp: degree_of_def)
  have deg: "degree_of (map (\<lambda>n. (n, in_degree g n)) ?ns) n = in_degree g n" if "n \<in> node_refs g" for n
    by (rule look) (use that V(1) in simp)
  have "unat (in_degree g n) = edges_from (node_successors g) (node_refs g) n" if n: "n \<in> node_refs g" for n
  proof -
    have "length (filter (\<lambda>r. source_of g r \<noteq> None) (inputs_of n g)) < 2 ^ 32"
      using few n le_less_trans [OF length_filter_le] by blast
    then show ?thesis by (simp add: degree_counts [OF assms(1) n] in_degree_def unat_of_nat)
  qed
  then show ?thesis using V deg by (simp add: degrees_ok_def o_def image_image)
qed

text \<open>An order that puts every node behind its sources leaves no room for a cycle.\<close>

lemma order_acyclic:
  assumes "distinct order" "after_sources succ V order" and E: "\<And>u v. (u, v) \<in> E \<Longrightarrow> u \<in> V \<and> v \<in> set (succ u) \<and> v \<in> set order"
  shows "acyclic E"
proof -
  define pos where "pos v = (THE i. i < length order \<and> order ! i = v)" for v
  have pos: "pos (order ! i) = i" if "i < length order" for i
    using that assms(1) unfolding pos_def by (intro the_equality) (auto simp: nth_eq_iff_index_eq)
  have "pos u < pos v" if e: "(u, v) \<in> E" for u v
  proof -
    obtain j where j: "j < length order" "order ! j = v" using E [OF e] by (metis in_set_conv_nth)
    then have "u \<in> set (take j order)" using assms(2) E [OF e] unfolding after_sources_def by blast
    then obtain i where "i < j" "order ! i = u" by (auto simp: in_set_conv_nth)
    then show ?thesis using j pos [of i] pos [of j] by simp
  qed
  then have "E \<subseteq> measure pos" by (auto simp: in_measure)
  then have "wf E" by (rule wf_subset [OF wf_measure])
  then show ?thesis by (rule wf_acyclic)
qed

text \<open>Where every node has a source there is a cycle.\<close>

lemma sources_cyclic:
  assumes "finite U" "U \<noteq> {}" "finite E" "\<And>v. v \<in> U \<Longrightarrow> \<exists>u \<in> U. (u, v) \<in> E"
  shows "\<not> acyclic E"
proof
  assume "acyclic E"
  then have "wf E" using assms(3) by (simp add: finite_acyclic_wf)
  then obtain z where "z \<in> U" "\<And>y. (y, z) \<in> E \<Longrightarrow> y \<notin> U" using wfE_min [of E _ U] assms(2) by blast
  then show False using assms(4) by blast
qed

lemma zero_degrees:
  assumes "distinct (map fst ds)"
  shows "(\<exists>d \<in> set ds. snd d \<noteq> 0) \<longleftrightarrow> (\<exists>v \<in> fst ` set ds. degree_of ds v \<noteq> 0)"
proof -
  have "degree_of ds (fst e) = snd e" if "e \<in> set ds" for e
    using assms that by (cases e) (simp add: degree_of_def)
  then show ?thesis by auto
qed

text \<open>Kahn's algorithm on a wired graph\<close>

lemma topological_order_ok:
  assumes g: "wired g" "ng_names g \<noteq> []" and few: "\<forall>n \<in> node_refs g. length (inputs_of n g) < 2 ^ 32"
  shows "(\<exists>order. compute_topological_order g = Some (Inr order) \<and> distinct order \<and> set order = node_refs g \<and>
      after_sources (node_successors g) (node_refs g) order \<and> acyclic (node_edge g)) \<or>
    (compute_topological_order g = Some (Inl Cycle) \<and> \<not> acyclic (node_edge g))"
proof -
  let ?V = "node_refs g" and ?succ = "node_successors g"
  note succ = successors_within [OF g(1)]
  have "after_sources ?succ ?V []" by (simp add: after_sources_def)
  then obtain ds order where run: "kahn_loop ?succ (map (\<lambda>n. (n, in_degree g n)) (map snd (ng_names g)))
        (filter (\<lambda>n. in_degree g n = 0) (map snd (ng_names g))) [] = Some (ds, order)"
      "degrees_ok ?succ ?V ds [] order []" "after_sources ?succ ?V order"
    using kahn_loop_ok [where V = ?V and succ = ?succ, OF finite_node_refs succ initial_degrees [OF g(1) few]] by blast
  have D: "distinct order" "set order \<subseteq> ?V" "distinct (map fst ds)" "fst ` set ds = ?V"
      "\<And>v. v \<in> ?V \<Longrightarrow> unat (degree_of ds v) = edges_from ?succ (?V - set order) v"
      "\<And>v. v \<in> ?V \<Longrightarrow> degree_of ds v = 0 \<longleftrightarrow> v \<in> set order"
    using run(2) unfolding degrees_ok_def by auto
  have "(\<exists>d \<in> set ds. snd d \<noteq> 0) \<longleftrightarrow> set order \<noteq> ?V" unfolding zero_degrees [OF D(3)] D(4) using D(2,6) by blast
  then have result: "compute_topological_order g = Some (if set order \<noteq> ?V then Inl Cycle else Inr order)"
    using g(2) by (simp add: compute_topological_order_def Let_def run(1) del: map_map)
  show ?thesis
  proof (cases "set order = ?V")
    case True
    have "acyclic (node_edge g)"
      by (rule order_acyclic [OF D(1) run(3)]) (use True succ in \<open>auto simp: node_edge_def\<close>)
    then show ?thesis using True D(1) run(3) by (simp add: result)
  next
    case False
    have "\<exists>u \<in> ?V - set order. (u, v) \<in> node_edge g" if "v \<in> ?V - set order" for v
    proof -
      have "edges_from ?succ (?V - set order) v \<noteq> 0" using D(5,6) that by (metis DiffD1 DiffD2 unat_eq_zero)
      then show ?thesis using finite_node_refs by (auto simp: edges_from_def node_edge_def)
    qed
    moreover have "finite (node_edge g)"
      by (rule finite_subset [of _ "?V \<times> ?V"]) (use succ finite_node_refs in \<open>auto simp: node_edge_def\<close>)
    ultimately have "\<not> acyclic (node_edge g)" using False D(2) finite_node_refs by (intro sources_cyclic [of "?V - set order"]) auto
    then show ?thesis using False by (simp add: result)
  qed
qed

subsection \<open>Every graph the operations build\<close>

datatype graph_op = Add_Node string node_ref node | Remove_Node string | Rename_Node string string
  | Connect_Input socket_ref socket_ref | Connect_Output socket_ref socket_ref | Disconnect_Input socket_ref

primrec perform :: "graph_op \<Rightarrow> node_graph \<Rightarrow> node_graph checked" where
  "perform (Add_Node name n nd) g = add_node name n nd g"
| "perform (Remove_Node name) g = remove_node name g"
| "perform (Rename_Node old new) g = rename_node old new g"
| "perform (Connect_Input inp out) g = connect_input inp out g"
| "perform (Connect_Output out inp) g = connect_output out inp g"
| "perform (Disconnect_Input inp) g = disconnect_input inp g"

text \<open>
  What a caller has to keep: the names the assertions ask for, a fresh node with unconnected
  sockets, sockets of one type, and, for \<open>OutputSocket::connect\<close>, an input that is not connected.
\<close>

primrec allowed :: "graph_op \<Rightarrow> node_graph \<Rightarrow> bool" where
  "allowed (Add_Node name n nd) g \<longleftrightarrow> map_of (ng_names g) name = None \<and> ng_nodes g n = None \<and> unconnected nd \<and> length (nd_inputs nd) < 2 ^ 32"
| "allowed (Remove_Node name) g \<longleftrightarrow> map_of (ng_names g) name \<noteq> None"
| "allowed (Rename_Node old new) g \<longleftrightarrow> map_of (ng_names g) old \<noteq> None \<and> map_of (ng_names g) new = None"
| "allowed (Connect_Input inp out) g \<longleftrightarrow> same_type inp out g"
| "allowed (Connect_Output out inp) g \<longleftrightarrow> same_type inp out g \<and> source_of g inp = None"
| "allowed (Disconnect_Input inp) g \<longleftrightarrow> True"

primrec perform_all :: "graph_op list \<Rightarrow> node_graph \<Rightarrow> node_graph checked" where
  "perform_all [] g = Inr g"
| "perform_all (a # ops) g = and_then (perform a g) (perform_all ops)"

primrec all_allowed :: "graph_op list \<Rightarrow> node_graph \<Rightarrow> bool" where
  "all_allowed [] g \<longleftrightarrow> True"
| "all_allowed (a # ops) g \<longleftrightarrow> allowed a g \<and> (case perform a g of Inl e \<Rightarrow> True | Inr g' \<Rightarrow> all_allowed ops g')"

definition few_sockets :: "node_graph \<Rightarrow> bool" where
  "few_sockets g \<longleftrightarrow> (\<forall>n. length (inputs_of n g) < 2 ^ 32)"

lemma connect_output_ok:
  assumes "wired g" "same_type r out g" "source_of g r = None"
  shows "\<exists>g'. connect_output out r g = Inr g' \<and> wired g' \<and> source_of g' r = Some out"
proof -
  have ends: "in_at g r \<noteq> None" "out_at g out \<noteq> None" using assms(2) by (auto simp: same_type_def split: option.splits)
  let ?g1 = "set_targets out (targets_of g out @ [r]) g"
  let ?g' = "set_source r (Some out) ?g1"
  have "connect_output out r g = Inr ?g'" using assms(2) by (simp add: connect_output_def)
  moreover have "link_count ?g' q p = (if source_of ?g' p = Some q then 1 else 0)" for q p
    using links_append [OF ends(2), of r q p] wired_count [OF assms(1), of q p] assms(3) ends by auto
  then have "wired ?g'" using wired_names [OF assms(1)] by (intro wiredI) simp_all
  ultimately show ?thesis using ends(1) by (intro exI [of _ ?g']) simp
qed

lemma disconnect_all_inputs: "disconnect_all rs g = Inr g' \<Longrightarrow> inputs_of n g' = inputs_of n g"
  by (induction rs arbitrary: g) (auto simp: disconnect_input_def remove_connected_socket_def split: option.splits)

lemma disconnect_outputs_inputs: "disconnect_outputs rs g = Inr g' \<Longrightarrow> inputs_of n g' = inputs_of n g"
  by (induction rs arbitrary: g) (auto dest: disconnect_all_inputs)

lemma perform_inputs:
  assumes "perform a g = Inr g'" "\<And>name m nd. a \<noteq> Add_Node name m nd"
  shows "length (inputs_of n g') \<le> length (inputs_of n g)"
proof (cases a)
  case (Remove_Node name)
  then obtain m g1 g2 where "disconnect_all (inputs_of m g) g = Inr g1" "disconnect_outputs (outputs_of m g1) g1 = Inr g2"
      "ng_nodes g' = (ng_nodes g2)(m := None)"
    using assms(1) by (auto simp: remove_node_def split: option.splits)
  moreover from this have "inputs_of n g' = (if n = m then [] else inputs_of n g2)" by (simp add: inputs_of_def)
  ultimately show ?thesis using disconnect_all_inputs disconnect_outputs_inputs by simp
next
  case (Connect_Input inp out)
  then show ?thesis using assms(1)
    by (auto simp: connect_input_def remove_connected_socket_def Let_def split: option.splits)
next
  case (Disconnect_Input inp)
  then show ?thesis using assms(1) by (auto simp: disconnect_input_def remove_connected_socket_def split: option.splits)
next
  case (Connect_Output out inp)
  then show ?thesis using assms(1) by (auto simp: connect_output_def)
next
  case (Rename_Node old new)
  then show ?thesis using assms(1) by (auto simp: rename_node_def inputs_of_def split: option.splits if_splits)
qed (use assms(2) in blast)

lemma perform_ok:
  assumes "wired g" "few_sockets g" "allowed a g"
  shows "\<exists>g'. perform a g = Inr g' \<and> wired g' \<and> few_sockets g'"
proof -
  have "\<exists>g'. perform a g = Inr g' \<and> wired g'"
  proof (cases a)
    case (Add_Node name n nd)
    then show ?thesis using assms(1,3) add_node_ok [of g name n nd] by auto
  next
    case (Remove_Node name)
    then show ?thesis using assms(1,3) remove_node_ok [of g name] by auto
  next
    case (Rename_Node old new)
    then show ?thesis using assms(1,3) rename_node_ok [of g old _ new] by auto
  next
    case (Connect_Input inp out)
    then show ?thesis using assms(1,3) connect_input_ok [of g inp out] by auto
  next
    case (Connect_Output out inp)
    then show ?thesis using assms(1,3) connect_output_ok [of g inp out] by auto
  next
    case (Disconnect_Input inp)
    then show ?thesis using disconnect_input_ok [OF assms(1), of inp 0] by (simp only: perform.simps) blast
  qed
  then obtain g' where g': "perform a g = Inr g'" "wired g'" by blast
  have "length (inputs_of n g') < 2 ^ 32" for n
  proof (cases "\<exists>name m nd. a = Add_Node name m nd")
    case True
    then show ?thesis using g'(1) assms(2,3) by (auto simp: add_node_def few_sockets_def inputs_of_def)
  next
    case False
    then have "length (inputs_of n g') \<le> length (inputs_of n g)" using perform_inputs [OF g'(1)] by blast
    then show ?thesis using assms(2) le_less_trans unfolding few_sockets_def by blast
  qed
  then show ?thesis using g' unfolding few_sockets_def by blast
qed

lemma perform_all_ok:
  "wired g \<Longrightarrow> few_sockets g \<Longrightarrow> all_allowed ops g \<Longrightarrow> \<exists>g'. perform_all ops g = Inr g' \<and> wired g' \<and> few_sockets g'"
proof (induction ops arbitrary: g)
  case (Cons a ops)
  then obtain g1 where "perform a g = Inr g1" "wired g1" "few_sockets g1" using perform_ok [of g a] by auto
  then show ?case using Cons.IH [of g1] Cons.prems(3) by simp
qed simp

lemma empty_graph_few: "few_sockets empty_graph"
  by (simp add: few_sockets_def inputs_of_def empty_graph_def)

lemma built_graph_ok:
  assumes "all_allowed ops empty_graph"
  shows "\<exists>g. perform_all ops empty_graph = Inr g \<and> wired g \<and> few_sockets g"
  by (rule perform_all_ok [OF empty_graph_wired empty_graph_few assms])

subsection \<open>A small graph\<close>

definition demo_node :: "in_socket list \<Rightarrow> out_socket list \<Rightarrow> node" where
  "demo_node ins outs = \<lparr>nd_name = [], nd_inputs = ins, nd_outputs = outs\<rparr>"

definition demo_in :: in_socket where
  "demo_in = \<lparr>is_name = ''in'', is_type = 3, is_source = None\<rparr>"

definition demo_out :: out_socket where
  "demo_out = \<lparr>os_name = ''out'', os_type = 3, os_targets = []\<rparr>"

text \<open>Two nodes, the second fed by the first, then renamed; the other way round they form a cycle.\<close>

definition demo_ops :: "graph_op list" where
  "demo_ops = [Add_Node ''sum'' 2 (demo_node [demo_in, demo_in] [demo_out]), Add_Node ''load'' 1 (demo_node [demo_in] [demo_out]),
     Connect_Output (1, 0) (2, 0), Connect_Input (2, 1) (1, 0), Rename_Node ''load'' ''tiles'']"

lemmas graph_eval = demo_ops_def demo_node_def demo_in_def demo_out_def empty_graph_def add_node_def connect_output_def connect_input_def
  rename_node_def same_type_def in_at_def out_at_def source_of_def targets_of_def set_source_def set_targets_def unconnected_def Let_def

lemma demo_ops_allowed: "all_allowed demo_ops empty_graph"
  by (simp add: graph_eval)

text \<open>
  \<open>OutputSocket::connect\<close> on an input that is already connected to the same output: the second entry makes the
  counter of the target wrap around, and a graph of two nodes and one edge is reported as a cycle.
\<close>

definition connected_twice :: "graph_op list" where
  "connected_twice = [Add_Node ''load'' 1 (demo_node [] [demo_out]), Add_Node ''sum'' 2 (demo_node [demo_in] [demo_out]),
     Connect_Input (2, 0) (1, 0), Connect_Output (1, 0) (2, 0)]"

lemma connected_twice_reported_as_cycle:
  "\<exists>g. perform_all connected_twice empty_graph = Inr g \<and> inputs_of 1 g = [] \<and> node_successors g 2 = [] \<and>
    compute_topological_order g = Some (Inl Cycle)"
  by (simp add: connected_twice_def graph_eval inputs_of_def outputs_of_def node_successors_def compute_topological_order_def
      in_degree_def kahn_loop.simps count_down_def degree_of_def)

end
