(* ===== verification/Node_Runs.thy ===== *)
theory Node_Runs
  imports RG_Prelude "HOL-Library.Sublist"
begin

text \<open>
  How runs pass through a node graph (NodeGraph.cpp 143-183, nodes/Node.cpp 118-162). The nodes stand
  in the topological order, node \<open>i\<close> has its signal \<open>run_completed\<close> connected to \<open>run\<close> of node \<open>i + 1\<close>, and
  the last one to the graph's own signal. A slot runs inside the call that emits its signal, so the
  calls that are still to be made form a stack. What a node's \<open>run_impl\<close> does (GPU work, network
  requests, files) is a parameter: it finishes later, completes at once, or fails at once.
\<close>

record run_context =
  rc_run_id :: u64
  rc_datetime :: string

record runner =
  rn_enabled :: bool
  rn_running :: bool
  rn_context :: run_context
  rn_pending :: "run_context list"

text \<open>The three lists record what the graph's signals told their listeners.\<close>

record chain =
  ch_nodes :: "runner list"
  ch_run_id :: u64
  ch_triggered :: "run_context list"
  ch_completed :: "run_context list"
  ch_failed :: "(nat \<times> string) list"

datatype outcome = Later | Completes | Fails string

datatype call = Run nat run_context | Complete nat | Fail nat string | Process nat

definition set_runner :: "nat \<Rightarrow> runner \<Rightarrow> chain \<Rightarrow> chain" where
  "set_runner i n c = c\<lparr>ch_nodes := (ch_nodes c)[i := n]\<rparr>"

text \<open>\<open>emit run_completed\<close> of node \<open>i\<close>\<close>

definition emit_completed :: "nat \<Rightarrow> run_context \<Rightarrow> chain \<Rightarrow> call list \<times> chain" where
  "emit_completed i ctx c =
     (if Suc i < length (ch_nodes c) then ([Run (Suc i) ctx], c) else ([], c\<lparr>ch_completed := ch_completed c @ [ctx]\<rparr>))"

definition run :: "(nat \<Rightarrow> run_context \<Rightarrow> outcome) \<Rightarrow> nat \<Rightarrow> run_context \<Rightarrow> chain \<Rightarrow> call list \<times> chain" where
  "run impl i ctx c =
     (let n = ch_nodes c ! i in
      if rn_running n then ([], set_runner i (n\<lparr>rn_pending := rn_pending n @ [ctx]\<rparr>) c)
      else let n = n\<lparr>rn_context := ctx\<rparr> in
      if rn_enabled n
      then (case impl i ctx of Later \<Rightarrow> [] | Completes \<Rightarrow> [Complete i] | Fails msg \<Rightarrow> [Fail i msg], set_runner i (n\<lparr>rn_running := True\<rparr>) c)
      else (case emit_completed i ctx (set_runner i n c) of (calls, c) \<Rightarrow> (calls @ [Process i], c)))"

text \<open>\<open>rerun\<close> is a call of \<open>run\<close> with the context of the last run.\<close>

definition rerun :: "(nat \<Rightarrow> run_context \<Rightarrow> outcome) \<Rightarrow> nat \<Rightarrow> chain \<Rightarrow> call list \<times> chain" where
  "rerun impl i c = run impl i (rn_context (ch_nodes c ! i)) c"

definition complete_run :: "nat \<Rightarrow> chain \<Rightarrow> call list \<times> chain" where
  "complete_run i c =
     (let n = (ch_nodes c ! i)\<lparr>rn_running := False\<rparr>
      in case emit_completed i (rn_context n) (set_runner i n c) of (calls, c) \<Rightarrow> (calls @ [Process i], c))"

definition fail_run :: "nat \<Rightarrow> string \<Rightarrow> chain \<Rightarrow> call list \<times> chain" where
  "fail_run i msg c =
     ([], (set_runner i ((ch_nodes c ! i)\<lparr>rn_running := False, rn_pending := []\<rparr>) c)\<lparr>ch_failed := ch_failed c @ [(i, msg)]\<rparr>)"

definition process_pending :: "nat \<Rightarrow> chain \<Rightarrow> call list \<times> chain" where
  "process_pending i c =
     (let n = ch_nodes c ! i
      in case rn_pending n of [] \<Rightarrow> ([], c) | ctx # rest \<Rightarrow> ([Run i ctx], set_runner i (n\<lparr>rn_pending := rest\<rparr>) c))"

primrec call_node :: "call \<Rightarrow> nat" where
  "call_node (Run i ctx) = i"
| "call_node (Complete i) = i"
| "call_node (Fail i msg) = i"
| "call_node (Process i) = i"

primrec make_call :: "(nat \<Rightarrow> run_context \<Rightarrow> outcome) \<Rightarrow> call \<Rightarrow> chain \<Rightarrow> call list \<times> chain" where
  "make_call impl (Run i ctx) c = run impl i ctx c"
| "make_call impl (Complete i) c = complete_run i c"
| "make_call impl (Fail i msg) c = fail_run i msg c"
| "make_call impl (Process i) c = process_pending i c"

text \<open>
  Every call costs less than what it replaces: a call of \<open>run\<close> pays for the way through the nodes
  behind it, a queued run for its own later start.
\<close>

definition run_cost :: "nat \<Rightarrow> nat \<Rightarrow> nat" where
  "run_cost n i = 4 * (n - i)"

primrec call_cost :: "nat \<Rightarrow> call \<Rightarrow> nat" where
  "call_cost n (Run i ctx) = run_cost n i + 2"
| "call_cost n (Complete i) = run_cost n i + 1"
| "call_cost n (Fail i msg) = 1"
| "call_cost n (Process i) = 2"

definition queue_cost :: "runner list \<Rightarrow> nat" where
  "queue_cost ns = (\<Sum>i < length ns. length (rn_pending (ns ! i)) * (run_cost (length ns) i + 1))"

definition stack_cost :: "call list \<times> chain \<Rightarrow> nat" where
  "stack_cost s = sum_list (map (call_cost (length (ch_nodes (snd s)))) (fst s)) + queue_cost (ch_nodes (snd s))"

lemma queue_cost_update:
  assumes "i < length ns"
  shows "queue_cost (ns[i := n]) + length (rn_pending (ns ! i)) * (run_cost (length ns) i + 1) =
    queue_cost ns + length (rn_pending n) * (run_cost (length ns) i + 1)"
proof -
  let ?rest = "{..<length ns} - {i}"
  have "queue_cost (ns[i := m]) = length (rn_pending m) * (run_cost (length ns) i + 1) +
      (\<Sum>j \<in> ?rest. length (rn_pending (ns ! j)) * (run_cost (length ns) j + 1))" for m
    using assms unfolding queue_cost_def by (subst sum.remove [of _ i]) (auto intro!: sum.cong)
  from this [of n] this [of "ns ! i"] show ?thesis by simp
qed

lemma set_runner_nodes [simp]: "ch_nodes (set_runner i n c) = (ch_nodes c)[i := n]"
  by (simp add: set_runner_def)


lemma emit_cost:
  assumes "i < length (ch_nodes c)" "emit_completed i ctx c = (calls, c')"
  shows "ch_nodes c' = ch_nodes c" "sum_list (map (call_cost (length (ch_nodes c))) calls) + 2 \<le> run_cost (length (ch_nodes c)) i"
  using assms by (auto simp: emit_completed_def run_cost_def split: if_splits)

lemma make_call_cost:
  assumes "call_node a < length (ch_nodes c)" "make_call impl a c = (calls, c')"
  shows "stack_cost (calls @ rest, c') < stack_cost (a # rest, c) \<and> length (ch_nodes c') = length (ch_nodes c)"
proof -
  have update: "queue_cost ((ch_nodes c)[i := n]) + length (rn_pending (ch_nodes c ! i)) * (run_cost (length (ch_nodes c)) i + 1) =
      queue_cost (ch_nodes c) + length (rn_pending n) * (run_cost (length (ch_nodes c)) i + 1)" if "i < length (ch_nodes c)" for i n
    using queue_cost_update [OF that] .
  show ?thesis
  proof (cases a)
    case (Run i ctx)
    then have i: "i < length (ch_nodes c)" using assms(1) by simp
    let ?n = "ch_nodes c ! i"
    show ?thesis
    proof (cases "rn_running ?n \<or> rn_enabled ?n")
      case True
      then show ?thesis using assms(2) Run update [OF i, of "?n\<lparr>rn_pending := rn_pending ?n @ [ctx]\<rparr>"]
          update [OF i, of "?n\<lparr>rn_context := ctx, rn_running := True\<rparr>"]
        by (auto simp: run_def Let_def stack_cost_def split: if_splits outcome.splits)
    next
      case False
      then obtain c1 calls1 where e: "emit_completed i ctx (set_runner i (?n\<lparr>rn_context := ctx\<rparr>) c) = (calls1, c1)"
          "calls = calls1 @ [Process i]" "c' = c1"
        using assms(2) Run by (auto simp: run_def Let_def split: prod.splits)
      then show ?thesis using emit_cost [OF _ e(1)] i Run update [OF i, of "?n\<lparr>rn_context := ctx\<rparr>"]
        by (simp add: stack_cost_def)
    qed
  next
    case (Complete i)
    then have i: "i < length (ch_nodes c)" using assms(1) by simp
    let ?n = "(ch_nodes c ! i)\<lparr>rn_running := False\<rparr>"
    obtain c1 calls1 where e: "emit_completed i (rn_context ?n) (set_runner i ?n c) = (calls1, c1)"
        "calls = calls1 @ [Process i]" "c' = c1"
      using assms(2) Complete by (auto simp: complete_run_def Let_def split: prod.splits)
    then show ?thesis using emit_cost [OF _ e(1)] i Complete update [OF i, of ?n] by (simp add: stack_cost_def)
  next
    case (Fail i msg)
    then show ?thesis using assms update [of i "(ch_nodes c ! i)\<lparr>rn_running := False, rn_pending := []\<rparr>"]
      by (auto simp: fail_run_def stack_cost_def)
  next
    case (Process i)
    then show ?thesis using assms update [of i "(ch_nodes c ! i)\<lparr>rn_pending := tl (rn_pending (ch_nodes c ! i))\<rparr>"]
      by (auto simp: process_pending_def stack_cost_def Let_def split: list.splits)
  qed
qed

text \<open>The calls of the stack one after the other, the ones a call makes before those below it\<close>

function exec_calls :: "(nat \<Rightarrow> run_context \<Rightarrow> outcome) \<Rightarrow> call list \<Rightarrow> chain \<Rightarrow> chain" where
  "exec_calls impl [] c = c"
| "exec_calls impl (a # rest) c =
     (if call_node a < length (ch_nodes c) then (case make_call impl a c of (calls, c') \<Rightarrow> exec_calls impl (calls @ rest) c')
      else exec_calls impl rest c)"
  by pat_completeness auto

termination
proof (relation "measure (\<lambda>(impl, s). stack_cost s)")
  show "wf (measure (\<lambda>(impl, s). stack_cost s))" by simp
next
  fix impl a rest c calls c'
  assume "call_node a < length (ch_nodes c)" "(calls, c') = make_call impl a c"
  then show "((impl, calls @ rest, c'), impl, a # rest, c) \<in> measure (\<lambda>(impl, s). stack_cost s)"
    using make_call_cost [of a c impl calls c' rest] by simp
next
  fix impl :: "nat \<Rightarrow> run_context \<Rightarrow> outcome" and a rest and c :: chain
  assume "\<not> call_node a < length (ch_nodes c)"
  have "0 < call_cost (length (ch_nodes c)) a" by (cases a) simp_all
  then show "((impl, rest, c), impl, a # rest, c) \<in> measure (\<lambda>(impl, s). stack_cost s)" by (simp add: stack_cost_def)
qed

subsection \<open>What reaches the graph from outside\<close>

datatype chain_input = Trigger string | Node_Done nat | Node_Failed nat string | Set_Enabled nat bool

definition trigger :: "string \<Rightarrow> chain \<Rightarrow> run_context \<times> chain" where
  "trigger datetime c =
     (let ctx = \<lparr>rc_run_id = ch_run_id c + 1, rc_datetime = datetime\<rparr>
      in (ctx, c\<lparr>ch_run_id := ch_run_id c + 1, ch_triggered := ch_triggered c @ [ctx]\<rparr>))"

definition enable_node :: "nat \<Rightarrow> bool \<Rightarrow> chain \<Rightarrow> chain" where
  "enable_node i b c = set_runner i ((ch_nodes c ! i)\<lparr>rn_enabled := b\<rparr>) c"

primrec react :: "(nat \<Rightarrow> run_context \<Rightarrow> outcome) \<Rightarrow> chain_input \<Rightarrow> chain \<Rightarrow> chain" where
  "react impl (Trigger datetime) c = (case trigger datetime c of (ctx, c) \<Rightarrow> exec_calls impl [Run 0 ctx] c)"
| "react impl (Node_Done i) c = exec_calls impl [Complete i] c"
| "react impl (Node_Failed i msg) c = exec_calls impl [Fail i msg] c"
| "react impl (Set_Enabled i b) c = enable_node i b c"

text \<open>A node finishes or fails only a run it has started; \<open>enable_node\<close> is called on a node of the graph.\<close>

primrec expected :: "chain_input \<Rightarrow> chain \<Rightarrow> bool" where
  "expected (Trigger datetime) c \<longleftrightarrow> True"
| "expected (Node_Done i) c \<longleftrightarrow> i < length (ch_nodes c) \<and> rn_running (ch_nodes c ! i)"
| "expected (Node_Failed i msg) c \<longleftrightarrow> i < length (ch_nodes c) \<and> rn_running (ch_nodes c ! i)"
| "expected (Set_Enabled i b) c \<longleftrightarrow> i < length (ch_nodes c)"

primrec react_all :: "(nat \<Rightarrow> run_context \<Rightarrow> outcome) \<Rightarrow> chain_input list \<Rightarrow> chain \<Rightarrow> chain" where
  "react_all impl [] c = c"
| "react_all impl (e # es) c = react_all impl es (react impl e c)"

primrec all_expected :: "(nat \<Rightarrow> run_context \<Rightarrow> outcome) \<Rightarrow> chain_input list \<Rightarrow> chain \<Rightarrow> bool" where
  "all_expected impl [] c \<longleftrightarrow> True"
| "all_expected impl (e # es) c \<longleftrightarrow> expected e c \<and> all_expected impl es (react impl e c)"

definition no_context :: run_context where
  "no_context = \<lparr>rc_run_id = 0, rc_datetime = []\<rparr>"

definition new_chain :: "bool list \<Rightarrow> chain" where
  "new_chain enabled = \<lparr>ch_nodes = map (\<lambda>b. \<lparr>rn_enabled = b, rn_running = False, rn_context = no_context, rn_pending = []\<rparr>) enabled,
     ch_run_id = 0, ch_triggered = [], ch_completed = [], ch_failed = []\<rparr>"

subsection \<open>Where a run is\<close>

definition held :: "runner \<Rightarrow> run_context list" where
  "held n = (if rn_running n then [rn_context n] else []) @ rn_pending n"

definition held_all :: "runner list \<Rightarrow> run_context list" where
  "held_all ns = concat (map held (rev ns))"

text \<open>A run that is about to enter node \<open>i\<close>: behind the ones that wait there, or as its current one\<close>

definition entering :: "run_context \<Rightarrow> runner \<Rightarrow> runner" where
  "entering ctx n = (if rn_running n then n\<lparr>rn_pending := rn_pending n @ [ctx]\<rparr> else n\<lparr>rn_context := ctx, rn_running := True\<rparr>)"

fun in_graph :: "call list \<Rightarrow> chain \<Rightarrow> run_context list" where
  "in_graph (Run i ctx # rest) c = held_all ((ch_nodes c)[i := entering ctx (ch_nodes c ! i)])"
| "in_graph calls c = held_all (ch_nodes c)"

definition on_stack :: "call list \<Rightarrow> nat \<Rightarrow> bool" where
  "on_stack calls i \<longleftrightarrow> (\<exists>a \<in> set calls. call_node a = i)"

text \<open>
  The stack: one call, and below it the rests of \<open>run\<close> and \<open>complete_run\<close> of earlier nodes, the nearest on top. A node
  that is not running has runs queued only while such a call is open.
\<close>

definition calls_ok :: "call list \<Rightarrow> chain \<Rightarrow> bool" where
  "calls_ok calls c \<longleftrightarrow>
     sorted_wrt (\<lambda>a b. call_node b < call_node a) calls \<and>
     (\<forall>a \<in> set calls. call_node a < length (ch_nodes c)) \<and>
     (\<forall>a \<in> set (tl calls). \<exists>i. a = Process i \<and> \<not> rn_running (ch_nodes c ! i)) \<and>
     (case calls of Process i # rest \<Rightarrow> \<not> rn_running (ch_nodes c ! i) | Complete i # rest \<Rightarrow> rn_running (ch_nodes c ! i)
        | Fail i msg # rest \<Rightarrow> rn_running (ch_nodes c ! i) | _ \<Rightarrow> True) \<and>
     (\<forall>i < length (ch_nodes c). \<not> rn_running (ch_nodes c ! i) \<longrightarrow> rn_pending (ch_nodes c ! i) = [] \<or> on_stack calls i)"

lemma held_all_Nil [simp]: "held_all [] = []"
  by (simp add: held_all_def)

lemma held_all_append: "held_all (xs @ ys) = held_all ys @ held_all xs"
  by (simp add: held_all_def)

lemma held_all_update:
  "i < length ns \<Longrightarrow> held_all (ns[i := n]) = held_all (drop (Suc i) ns) @ held n @ held_all (take i ns)"
  by (simp add: upd_conv_take_nth_drop held_all_def)

lemma held_all_at: "i < length ns \<Longrightarrow> held_all ns = held_all (drop (Suc i) ns) @ held (ns ! i) @ held_all (take i ns)"
  using held_all_update [of i ns "ns ! i"] by simp

lemma held_entering: "rn_running n \<or> rn_pending n = [] \<Longrightarrow> held (entering ctx n) = held n @ [ctx]"
  by (auto simp: held_def entering_def)

lemma in_graph_rest: "\<forall>a \<in> set rest. \<exists>i. a = Process i \<Longrightarrow> in_graph rest c = held_all (ch_nodes c)"
  by (cases rest) auto

text \<open>A completed run goes from the front of node \<open>i\<close> to the end of the next node, or out of the graph.\<close>

lemma emit_flow:
  assumes i: "i < length (ch_nodes c)" and e: "emit_completed i ctx (set_runner i m c) = (calls, c')"
    and m: "held m' = ctx # held m"
    and room: "Suc i < length (ch_nodes c) \<Longrightarrow> rn_running (ch_nodes c ! Suc i) \<or> rn_pending (ch_nodes c ! Suc i) = []"
  shows "ch_completed c' @ in_graph (calls @ Process i # rest) c' = ch_completed c @ held_all ((ch_nodes c)[i := m'])"
proof (cases "Suc i < length (ch_nodes c)")
  case True
  let ?ns = "ch_nodes c"
  have e': "calls = [Run (Suc i) ctx]" "c' = set_runner i m c" using e True by (simp_all add: emit_completed_def)
  have "held_all (?ns[i := m, Suc i := entering ctx (?ns ! Suc i)]) =
      held_all (drop (Suc (Suc i)) ?ns) @ (held (?ns ! Suc i) @ [ctx]) @ held_all (take (Suc i) (?ns[i := m]))"
    using True held_entering [OF room [OF True]] by (simp add: held_all_update)
  moreover have "held_all (take (Suc i) (?ns[i := m])) = held m @ held_all (take i ?ns)"
    using i by (simp add: take_Suc_conv_app_nth held_all_append) (simp add: held_all_def)
  moreover have "held_all (drop (Suc i) ?ns) = held_all (drop (Suc (Suc i)) ?ns) @ held (?ns ! Suc i)"
    using True by (simp add: Cons_nth_drop_Suc [symmetric] held_all_def)
  ultimately have "held_all (?ns[i := m, Suc i := entering ctx (?ns ! Suc i)]) = held_all (?ns[i := m'])"
    using i m by (simp add: held_all_update)
  then show ?thesis using e' by (simp add: set_runner_def)
next
  case False
  then have "c' = (set_runner i m c)\<lparr>ch_completed := ch_completed c @ [ctx]\<rparr>" "calls = []"
    using e by (simp_all add: emit_completed_def set_runner_def)
  then show ?thesis using i m False by (simp add: held_all_update set_runner_def)
qed

lemma calls_okD:
  assumes "calls_ok (a # rest) c"
  shows "call_node a < length (ch_nodes c)" "\<forall>b \<in> set rest. call_node b < call_node a"
    "\<forall>b \<in> set rest. \<exists>i. b = Process i \<and> \<not> rn_running (ch_nodes c ! i)" "sorted_wrt (\<lambda>a b. call_node b < call_node a) rest"
    "\<forall>b \<in> set rest. call_node b < length (ch_nodes c)"
    "\<And>k. k < length (ch_nodes c) \<Longrightarrow> k \<noteq> call_node a \<Longrightarrow> \<not> rn_running (ch_nodes c ! k) \<Longrightarrow> rn_pending (ch_nodes c ! k) = [] \<or> on_stack rest k"
  using assms unfolding calls_ok_def on_stack_def by auto

text \<open>The calls that replace the top one, when only its node has changed\<close>

lemma calls_ok_replace:
  assumes ok: "calls_ok (a # rest) c" and nodes: "ch_nodes c' = (ch_nodes c)[call_node a := n]"
    and calls: "\<forall>b \<in> set (tl calls). \<exists>i. b = Process i \<and> \<not> rn_running (ch_nodes c' ! i)"
      "sorted_wrt (\<lambda>a b. call_node b < call_node a) calls" "\<forall>b \<in> set calls. call_node a \<le> call_node b \<and> call_node b < length (ch_nodes c)"
    and head: "case calls of Process i # _ \<Rightarrow> \<not> rn_running (ch_nodes c' ! i) | Complete i # _ \<Rightarrow> rn_running (ch_nodes c' ! i)
      | Fail i msg # _ \<Rightarrow> rn_running (ch_nodes c' ! i) | _ \<Rightarrow> True"
    and here: "\<not> rn_running n \<Longrightarrow> rn_pending n = [] \<or> on_stack calls (call_node a)"
  shows "calls_ok (calls @ rest) c'"
  unfolding calls_ok_def
proof (intro conjI allI impI)
  note D = calls_okD [OF ok]
  show "sorted_wrt (\<lambda>a b. call_node b < call_node a) (calls @ rest)"
    unfolding sorted_wrt_append using D(2,4) calls(2,3) by (meson less_le_trans)
  show "\<forall>b \<in> set (calls @ rest). call_node b < length (ch_nodes c')" using D(5) calls(3) nodes by auto
  show "\<forall>b \<in> set (tl (calls @ rest)). \<exists>i. b = Process i \<and> \<not> rn_running (ch_nodes c' ! i)"
  proof
    fix b assume "b \<in> set (tl (calls @ rest))"
    then consider "b \<in> set (tl calls)" | "b \<in> set rest"
      by (cases calls; cases rest) auto
    then show "\<exists>i. b = Process i \<and> \<not> rn_running (ch_nodes c' ! i)"
    proof cases
      case 1
      then show ?thesis using calls(1) by blast
    next
      case 2
      then obtain j where "b = Process j" "\<not> rn_running (ch_nodes c ! j)" "j < call_node a" using D(2,3) by fastforce
      then show ?thesis using nodes by simp
    qed
  qed
  show "case calls @ rest of Process i # _ \<Rightarrow> \<not> rn_running (ch_nodes c' ! i) | Complete i # _ \<Rightarrow> rn_running (ch_nodes c' ! i)
      | Fail i msg # _ \<Rightarrow> rn_running (ch_nodes c' ! i) | _ \<Rightarrow> True"
  proof (cases calls)
    case Nil
    then show ?thesis using D(2,3) nodes by (cases rest) auto
  next
    case (Cons b bs)
    then show ?thesis using head by simp
  qed
  fix k assume k: "k < length (ch_nodes c')" "\<not> rn_running (ch_nodes c' ! k)"
  show "rn_pending (ch_nodes c' ! k) = [] \<or> on_stack (calls @ rest) k"
  proof (cases "k = call_node a")
    case True
    then show ?thesis using here k nodes by (auto simp: on_stack_def)
  next
    case False
    then show ?thesis using D(6) [of k] k nodes by (auto simp: on_stack_def)
  qed
qed

definition chain_flow :: "call list \<Rightarrow> chain \<Rightarrow> run_context list" where
  "chain_flow calls c = ch_completed c @ in_graph calls c"

lemma run_ok:
  assumes ok: "calls_ok (Run i ctx # rest) c" and run: "run impl i ctx c = (calls, c')"
  shows "calls_ok (calls @ rest) c' \<and> chain_flow (calls @ rest) c' = chain_flow (Run i ctx # rest) c \<and>
    ch_triggered c' = ch_triggered c \<and> ch_failed c' = ch_failed c"
proof -
  let ?n = "ch_nodes c ! i"
  note D = calls_okD [OF ok, simplified]
  have procs: "\<exists>j. b = Process j \<and> j < i \<and> \<not> rn_running (ch_nodes c ! j)" if "b \<in> set rest" for b
    using D(2,3) that by fastforce
  have rest: "\<forall>a \<in> set rest. \<exists>i. a = Process i" using D(3) by blast
  show ?thesis
  proof (cases "rn_running ?n \<or> rn_enabled ?n")
    case True
    then have nodes: "c' = set_runner i (entering ctx ?n) c"
      using run by (auto simp: run_def entering_def Let_def)
    have calls: "calls = [] \<or> calls = [Complete i] \<or> (\<exists>msg. calls = [Fail i msg])"
      using run True by (cases "impl i ctx") (auto simp: run_def Let_def split: if_splits)
    have on: "rn_running (entering ctx ?n)" by (simp add: entering_def)
    have "calls_ok (calls @ rest) c'"
      by (rule calls_ok_replace [OF ok, where n = "entering ctx ?n"]) (use calls nodes D(1) on in auto)
    moreover have "in_graph (calls @ rest) c' = held_all (ch_nodes c')" using calls rest in_graph_rest by auto
    ultimately show ?thesis by (simp add: chain_flow_def nodes set_runner_def)
  next
    case False
    let ?m = "?n\<lparr>rn_context := ctx\<rparr>"
    obtain calls1 where e: "emit_completed i ctx (set_runner i ?m c) = (calls1, c')" "calls = calls1 @ [Process i]"
      using run False by (auto simp: run_def Let_def split: prod.splits)
    have same: "ch_nodes c' = (ch_nodes c)[i := ?m]" "ch_triggered c' = ch_triggered c" "ch_failed c' = ch_failed c"
      and calls1: "calls1 = [] \<or> Suc i < length (ch_nodes c) \<and> calls1 = [Run (Suc i) ctx]"
      using e(1) by (auto simp: emit_completed_def set_runner_def split: if_splits)
    have "calls_ok (calls @ rest) c'"
      by (rule calls_ok_replace [OF ok, where n = ?m]) (use calls1 e(2) same(1) D(1) False in \<open>auto simp: on_stack_def\<close>)
    moreover have "rn_running (ch_nodes c ! Suc i) \<or> rn_pending (ch_nodes c ! Suc i) = []" if "Suc i < length (ch_nodes c)"
      using D(6) [of "Suc i"] that procs by (fastforce simp: on_stack_def)
    then have "chain_flow (calls1 @ Process i # rest) c' = ch_completed c @ held_all ((ch_nodes c)[i := entering ctx ?n])"
      using emit_flow [OF D(1) e(1), of "entering ctx ?n" rest] False by (simp add: chain_flow_def held_def entering_def)
    ultimately show ?thesis using same(2,3) e(2) by (simp add: chain_flow_def)
  qed
qed

lemma complete_run_ok:
  assumes ok: "calls_ok (Complete i # rest) c" and run: "complete_run i c = (calls, c')"
  shows "calls_ok (calls @ rest) c' \<and> chain_flow (calls @ rest) c' = chain_flow (Complete i # rest) c \<and>
    ch_triggered c' = ch_triggered c \<and> ch_failed c' = ch_failed c"
proof -
  let ?n = "ch_nodes c ! i"
  let ?m = "?n\<lparr>rn_running := False\<rparr>"
  note D = calls_okD [OF ok, simplified]
  have on: "rn_running ?n" using ok by (simp add: calls_ok_def)
  have procs: "\<exists>j. b = Process j \<and> j < i \<and> \<not> rn_running (ch_nodes c ! j)" if "b \<in> set rest" for b
    using D(2,3) that by fastforce
  obtain calls1 where e: "emit_completed i (rn_context ?n) (set_runner i ?m c) = (calls1, c')" "calls = calls1 @ [Process i]"
    using run by (auto simp: complete_run_def Let_def split: prod.splits)
  have same: "ch_nodes c' = (ch_nodes c)[i := ?m]" "ch_triggered c' = ch_triggered c" "ch_failed c' = ch_failed c"
    and calls1: "calls1 = [] \<or> Suc i < length (ch_nodes c) \<and> calls1 = [Run (Suc i) (rn_context ?n)]"
    using e(1) by (auto simp: emit_completed_def set_runner_def split: if_splits)
  have "calls_ok (calls @ rest) c'"
    by (rule calls_ok_replace [OF ok, where n = ?m]) (use calls1 e(2) same(1) D(1) in \<open>auto simp: on_stack_def\<close>)
  moreover have "rn_running (ch_nodes c ! Suc i) \<or> rn_pending (ch_nodes c ! Suc i) = []" if "Suc i < length (ch_nodes c)"
    using D(6) [of "Suc i"] that procs by (fastforce simp: on_stack_def)
  then have "chain_flow (calls1 @ Process i # rest) c' = ch_completed c @ held_all ((ch_nodes c)[i := ?n])"
    using emit_flow [OF D(1) e(1), of ?n rest] on by (simp add: chain_flow_def held_def)
  ultimately show ?thesis using same(2,3) e(2) by (simp add: chain_flow_def)
qed

lemma process_pending_ok:
  assumes ok: "calls_ok (Process i # rest) c" and run: "process_pending i c = (calls, c')"
  shows "calls_ok (calls @ rest) c' \<and> chain_flow (calls @ rest) c' = chain_flow (Process i # rest) c \<and>
    ch_triggered c' = ch_triggered c \<and> ch_failed c' = ch_failed c"
proof -
  let ?n = "ch_nodes c ! i"
  note D = calls_okD [OF ok, simplified]
  have off: "\<not> rn_running ?n" using ok by (simp add: calls_ok_def)
  have rest: "\<forall>a \<in> set rest. \<exists>i. a = Process i" using D(3) by blast
  show ?thesis
  proof (cases "rn_pending ?n")
    case Nil
    then have c: "calls = []" "c' = c" using run by (simp_all add: process_pending_def)
    have "calls_ok ([] @ rest) c"
      by (rule calls_ok_replace [OF ok, where n = ?n]) (use Nil in auto)
    then show ?thesis using c rest in_graph_rest by (simp add: chain_flow_def)
  next
    case (Cons ctx later)
    let ?m = "?n\<lparr>rn_pending := later\<rparr>"
    have c: "calls = [Run i ctx]" "c' = set_runner i ?m c" using run Cons by (simp_all add: process_pending_def)
    have "calls_ok ([Run i ctx] @ rest) c'"
      by (rule calls_ok_replace [OF ok, where n = ?m]) (use D(1) c(2) in \<open>auto simp: on_stack_def\<close>)
    moreover have "held (entering ctx ?m) = held ?n" using off Cons by (simp add: held_def entering_def)
    then have "held_all ((ch_nodes c)[i := entering ctx ?m]) = held_all (ch_nodes c)"
      using held_all_update [OF D(1), of "entering ctx ?m"] held_all_at [OF D(1)] by simp
    ultimately show ?thesis using c D(1) by (simp add: chain_flow_def set_runner_def)
  qed
qed

lemma fail_run_ok:
  assumes ok: "calls_ok (Fail i msg # rest) c" and run: "fail_run i msg c = (calls, c')"
  shows "calls_ok (calls @ rest) c' \<and> subseq (chain_flow (calls @ rest) c') (chain_flow (Fail i msg # rest) c) \<and>
    ch_triggered c' = ch_triggered c \<and> ch_failed c' \<noteq> []"
proof -
  let ?m = "(ch_nodes c ! i)\<lparr>rn_running := False, rn_pending := []\<rparr>"
  note D = calls_okD [OF ok, simplified]
  have rest: "\<forall>a \<in> set rest. \<exists>i. a = Process i" using D(3) by blast
  have c: "calls = []" "ch_nodes c' = (ch_nodes c)[i := ?m]" "ch_completed c' = ch_completed c" "ch_triggered c' = ch_triggered c"
      "ch_failed c' = ch_failed c @ [(i, msg)]"
    using run by (auto simp: fail_run_def set_runner_def)
  have "calls_ok ([] @ rest) c'"
    by (rule calls_ok_replace [OF ok, where n = ?m]) (use c(2) in auto)
  moreover have "subseq (held_all ((ch_nodes c)[i := ?m])) (held_all (ch_nodes c))"
    unfolding held_all_update [OF D(1)] held_all_at [OF D(1)]
    by (intro list_emb_append_mono subseq_order.refl) (simp add: held_def)
  then have "subseq (held_all (ch_nodes c')) (held_all (ch_nodes c))" by (simp add: c(2))
  ultimately show ?thesis using c(1,3-5) rest in_graph_rest [of rest c']
    by (auto simp: chain_flow_def intro!: list_emb_append_mono subseq_order.refl)
qed

lemma make_call_ok:
  assumes "calls_ok (a # rest) c" "make_call impl a c = (calls, c')"
  shows "calls_ok (calls @ rest) c' \<and> subseq (chain_flow (calls @ rest) c') (chain_flow (a # rest) c) \<and>
    ch_triggered c' = ch_triggered c \<and> (ch_failed c' = [] \<longrightarrow> ch_failed c = [] \<and> chain_flow (calls @ rest) c' = chain_flow (a # rest) c)"
  using assms run_ok complete_run_ok process_pending_ok fail_run_ok by (cases a) fastforce+

lemma exec_calls_ok:
  "calls_ok calls c \<Longrightarrow> calls_ok [] (exec_calls impl calls c) \<and> subseq (chain_flow [] (exec_calls impl calls c)) (chain_flow calls c) \<and>
    ch_triggered (exec_calls impl calls c) = ch_triggered c \<and>
    (ch_failed (exec_calls impl calls c) = [] \<longrightarrow> ch_failed c = [] \<and> chain_flow [] (exec_calls impl calls c) = chain_flow calls c)"
proof (induction impl calls c rule: exec_calls.induct)
  case (2 impl a rest c)
  have len: "call_node a < length (ch_nodes c)" by (rule calls_okD(1) [OF "2.prems"])
  obtain calls c' where step: "make_call impl a c = (calls, c')" by (metis surj_pair)
  note one = make_call_ok [OF "2.prems" step]
  have "exec_calls impl (a # rest) c = exec_calls impl (calls @ rest) c'" using len step by simp
  then show ?case using "2.IH"(1) [OF len step [symmetric]] one by (metis subseq_order.trans)
qed simp

lemma exec_calls_length [simp]: "length (ch_nodes (exec_calls impl calls c)) = length (ch_nodes c)"
proof (induction impl calls c rule: exec_calls.induct)
  case (2 impl a rest c)
  obtain calls c' where step: "make_call impl a c = (calls, c')" by (metis surj_pair)
  show ?case
  proof (cases "call_node a < length (ch_nodes c)")
    case True
    then show ?thesis using "2.IH"(1) [OF True step [symmetric]] make_call_cost [OF True step] step by simp
  next
    case False
    then show ?thesis using "2.IH"(2) by simp
  qed
qed simp

text \<open>Between the inputs: what went in is a run that came out, one that a node holds, or one that failed.\<close>

definition chain_ok :: "chain \<Rightarrow> bool" where
  "chain_ok c \<longleftrightarrow> calls_ok [] c \<and> ch_nodes c \<noteq> [] \<and> subseq (ch_completed c @ held_all (ch_nodes c)) (ch_triggered c) \<and>
     (ch_failed c = [] \<longrightarrow> ch_completed c @ held_all (ch_nodes c) = ch_triggered c)"

lemma new_chain_ok: "enabled \<noteq> [] \<Longrightarrow> chain_ok (new_chain enabled)"
proof -
  have "held_all (map (\<lambda>b. \<lparr>rn_enabled = b, rn_running = False, rn_context = no_context, rn_pending = []\<rparr>) bs) = []" for bs
    by (induction bs) (simp_all add: held_all_def held_def)
  then show "enabled \<noteq> [] \<Longrightarrow> chain_ok (new_chain enabled)" by (simp add: chain_ok_def calls_ok_def new_chain_def)
qed

lemma exec_calls_chain_ok:
  assumes "calls_ok calls c" "ch_nodes c \<noteq> []" "subseq (chain_flow calls c) (ch_triggered c)"
    "ch_failed c = [] \<Longrightarrow> chain_flow calls c = ch_triggered c"
  shows "chain_ok (exec_calls impl calls c)"
proof -
  have "ch_nodes (exec_calls impl calls c) \<noteq> []" using assms(2) exec_calls_length [of impl calls c] by (metis length_0_conv)
  then show ?thesis
    using exec_calls_ok [OF assms(1), of impl] assms(3,4) subseq_order.trans unfolding chain_ok_def chain_flow_def in_graph.simps by metis
qed

lemma enter_graph:
  assumes "chain_ok c" "trigger datetime c = (ctx, c')"
  shows "chain_ok (exec_calls impl [Run 0 ctx] c')"
proof (rule exec_calls_chain_ok)
  have c: "calls_ok [] c" "0 < length (ch_nodes c)" "ch_nodes c' = ch_nodes c" "ch_completed c' = ch_completed c"
      "ch_triggered c' = ch_triggered c @ [ctx]" "ch_failed c' = ch_failed c"
    using assms by (auto simp: chain_ok_def trigger_def Let_def)
  have idle: "k < length (ch_nodes c) \<Longrightarrow> rn_running (ch_nodes c ! k) \<or> rn_pending (ch_nodes c ! k) = []" for k
    using c(1) by (auto simp: calls_ok_def on_stack_def)
  then show "calls_ok [Run 0 ctx] c'" using c(2,3) by (auto simp: calls_ok_def)
  have "held_all ((ch_nodes c)[0 := entering ctx (ch_nodes c ! 0)]) = held_all (ch_nodes c) @ [ctx]"
    using held_all_update [OF c(2)] held_all_at [OF c(2)] held_entering [OF idle [OF c(2)]] by simp
  then have flow: "chain_flow [Run 0 ctx] c' = (ch_completed c @ held_all (ch_nodes c)) @ [ctx]" by (simp add: chain_flow_def c)
  show "subseq (chain_flow [Run 0 ctx] c') (ch_triggered c')"
    unfolding flow c(5) using assms(1) by (intro list_emb_append_mono) (simp_all add: chain_ok_def)
  show "ch_failed c' = [] \<Longrightarrow> chain_flow [Run 0 ctx] c' = ch_triggered c'"
    unfolding flow c(5,6) using assms(1) by (simp add: chain_ok_def)
  show "ch_nodes c' \<noteq> []" using c(2,3) by auto
qed

lemma react_ok:
  assumes ok: "chain_ok c" and e: "expected e c"
  shows "chain_ok (react impl e c)"
proof -
  have c: "calls_ok [] c" "ch_nodes c \<noteq> []" "subseq (chain_flow [] c) (ch_triggered c)" "ch_failed c = [] \<Longrightarrow> chain_flow [] c = ch_triggered c"
    using ok by (auto simp: chain_ok_def chain_flow_def)
  show ?thesis
  proof (cases e)
    case (Trigger datetime)
    then show ?thesis using enter_graph [OF ok] by (simp split: prod.splits)
  next
    case (Node_Done i)
    then have "calls_ok [Complete i] c" "chain_flow [Complete i] c = chain_flow [] c"
      using c(1) e by (auto simp: calls_ok_def on_stack_def chain_flow_def)
    then have "chain_ok (exec_calls impl [Complete i] c)" using c(2-4) by (intro exec_calls_chain_ok) simp_all
    then show ?thesis using Node_Done by simp
  next
    case (Node_Failed i msg)
    then have "calls_ok [Fail i msg] c" "chain_flow [Fail i msg] c = chain_flow [] c"
      using c(1) e by (auto simp: calls_ok_def on_stack_def chain_flow_def)
    then have "chain_ok (exec_calls impl [Fail i msg] c)" using c(2-4) by (intro exec_calls_chain_ok) simp_all
    then show ?thesis using Node_Failed by simp
  next
    case (Set_Enabled i b)
    let ?n = "(ch_nodes c ! i)\<lparr>rn_enabled := b\<rparr>"
    have i: "i < length (ch_nodes c)" using e Set_Enabled by simp
    have "held_all ((ch_nodes c)[i := ?n]) = held_all (ch_nodes c)"
      using held_all_update [OF i, of ?n] held_all_at [OF i] by (simp add: held_def)
    moreover have "rn_running ((ch_nodes c)[i := ?n] ! k) = rn_running (ch_nodes c ! k)"
        "rn_pending ((ch_nodes c)[i := ?n] ! k) = rn_pending (ch_nodes c ! k)" for k
      using i by (cases "k = i"; simp)+
    then have "calls_ok [] (set_runner i ?n c)" using c(1) by (simp add: calls_ok_def on_stack_def)
    ultimately show ?thesis using ok Set_Enabled by (simp add: chain_ok_def enable_node_def) (simp add: set_runner_def)
  qed
qed

lemma react_all_ok: "chain_ok c \<Longrightarrow> all_expected impl es c \<Longrightarrow> chain_ok (react_all impl es c)"
  by (induction es arbitrary: c) (auto intro: react_ok)

lemma held_all_idle:
  assumes "calls_ok [] c" "\<forall>n \<in> set (ch_nodes c). \<not> rn_running n"
  shows "held_all (ch_nodes c) = []"
proof -
  have "held n = []" if "n \<in> set (ch_nodes c)" for n
  proof -
    obtain i where "i < length (ch_nodes c)" "n = ch_nodes c ! i" using \<open>n \<in> set (ch_nodes c)\<close> by (metis in_set_conv_nth)
    then show ?thesis using assms by (auto simp: calls_ok_def on_stack_def held_def)
  qed
  then show ?thesis by (simp add: held_all_def)
qed

text \<open>Run numbers go up by one from one, so no run is the same as another one before 2^64 runs.\<close>

lemma demo_runs:
  "ch_completed (react_all (\<lambda>i ctx. if i = 1 then Completes else Later)
     [Trigger ''a'', Trigger ''b'', Node_Done 0, Node_Done 2, Node_Done 0] (new_chain [True, True, True])) =
   [\<lparr>rc_run_id = 1, rc_datetime = ''a''\<rparr>]"
  by code_simp

end
