(* ===== verification/Spec2Isabelle.thy ===== *)
theory Spec2Isabelle
  imports Access_Bounds Demo_Frame Tile_Demo Shader_Preprocessor Node_Graph Node_Runs
begin

text \<open>
  Four programs of the repository, each modelled from its inputs to its effects.

  The render graph of webgpu/base (RenderGraph.h, \<open>RenderGraph_internal.h\<close>, RenderGraph.cpp): a frame
  is recorded as resources and passes, compiled into a schedule with sizes, lifetimes and alias
  slots, realized on GPU objects that outlive the frame in two pools, and executed on a command
  encoder. The tile pipeline of nucleus/tile: from a camera to requests for quads of tiles, through
  limiters and an assembler back into the caches of a scheduler, to the layers of a GPU array and
  the dictionary the shaders search. The shader preprocessor of webgpu/base/util. The node graph of
  webgpu/compute: connections, the order of the nodes, and the runs that pass through them.

  The render graph, in the order data flows through it.

  \<^item> \<open>RG_Prelude\<close>: list, option and fold lemmas shared by all; \<open>checked\<close>, the result type of
    code that asserts (\<open>Q_ASSERT\<close> as in a build with assertions on).
  \<^item> \<open>Gpu_Types\<close>, \<open>Float32\<close>: formats, extents, byte sizes; single precision as rounding of
    rationals, for the scale of relative sizes.
  \<^item> \<open>Arena\<close>, \<open>Interner\<close>: the bump allocator as a list of blocks (addresses are a block and an
    offset; malloc is an argument that may refuse) and the name table on top of it. Allocations
    are aligned and disjoint, rewinding restores a mark, equal names have equal pointers. The
    locale \<open>name_table\<close> is what the graph relies on.
  \<^item> \<open>Access\<close>, \<open>Graph\<close>, \<open>Recording\<close>, \<open>Pass_Builder\<close>, \<open>Record_Frame\<close>: the data and the recording
    calls, each with its assertions. \<open>Record_Wf\<close> proves that every sequence of calls gives a well
    formed recording (\<open>recorded_ok\<close>), the hypothesis of everything after it.
  \<^item> \<open>Hazards\<close>, \<open>Topo\<close>: the dependency edges and the depth-first sort (locale \<open>dag\<close>).
  \<^item> \<open>Sizes\<close>: \<open>resolve_size\<close> against an inductive definition of what the size of a texture is.
  \<^item> \<open>Validation\<close>, \<open>Compile\<close>: the checks and \<open>compile_impl\<close>, phase by phase. \<open>Compile_Order\<close>,
    \<open>Compile_Back\<close>, \<open>Lifetimes\<close>, \<open>Aliasing\<close>, \<open>Access_Bounds\<close>, \<open>Compiled_Sizes\<close> are about its result.
  \<^item> \<open>Device\<close>: GPU objects. The device is a counter and the set of live objects; it remembers every
    release of an object that is not live. The locales \<open>object_keeper\<close> and \<open>object_owner\<close> are the
    contract of whoever owns objects; the view cache is here too.
  \<^item> \<open>Persistent_Pool\<close>, \<open>Transient_Pool\<close>, \<open>Profiler\<close>, \<open>Allocator\<close>: what outlives a graph. The pools
    are interpretations of \<open>object_owner\<close>, acquiring from the transient pool one of \<open>claim_provider\<close>.
  \<^item> \<open>Realize\<close>: \<open>realize_graph\<close> and \<open>release_resources\<close>. \<open>Realize_Owner\<close>, \<open>Realized\<close>, \<open>Pool_State\<close>,
    \<open>Realize_Total\<close> and \<open>Realize_Objects\<close> prove that it always succeeds on a compiled graph, who
    shares an object with whom, and what the pools look like afterwards.
  \<^item> \<open>Pass_Context\<close>, \<open>Execute\<close>: the resolvers a pass body calls and \<open>execute\<close>. The body of a pass is an
    argument: the calls it makes on its context. \<open>Body_Frame\<close> bounds what a body can change,
    \<open>Encoding\<close> interprets the recorded commands, \<open>Execute_Frame\<close> and \<open>Frames\<close> follow the allocator
    through whole frames.
  \<^item> \<open>Demo\<close>, \<open>Demo_Frame\<close>: two concrete frames, recorded through the real calls and evaluated, to
    which the properties are applied.

  The tile pipeline.

  \<^item> \<open>Tile_Id\<close>, \<open>Tile_Types\<close> (nucleus/srs, tile/types.h): ids, their packing into two words and their
    hash, overlap of tiles; network states in their order, quads of four tiles.
  \<^item> \<open>Tile_Cache\<close>, \<open>Tile_Disk\<close> (tile/Cache.h): the memory cache with its visits and purges, and writing it
    to and reading it from a directory; the bytes are made by a \<open>codec\<close>, an argument of which
    \<open>codec_ok\<close> says that it reads back what it wrote.
  \<^item> \<open>Tile_Scheduler\<close> (tile/Scheduler.cpp): the operations of the scheduler with their signals and
    timers. \<open>Gpu_Array\<close> (tile/GpuArrayHelper.cpp, the update in TileMeshRenderer.cpp): layers and the
    dictionary; the locale \<open>tile_store\<close> is what the update relies on, interpreted on the array.
  \<^item> \<open>Tile_Sync\<close> proves that one update keeps array and scheduler in step. \<open>Tile_Pipeline\<close>: the slot and
    rate limiters, the assembler and the answers of the load service, as setup.h connects them.
    \<open>Tile_System\<close>: scheduler, pipeline and array as one machine whose steps are the slots and timers;
    \<open>Tile_Demo\<close>: a tile tree, a start of that machine and a disk cache for the witnesses.

  The other two.

  \<^item> \<open>Shader_Preprocessor\<close> (webgpu/base/util/ShaderPreprocessor.cpp): lines, the regular expressions as
    matchers on strings, defines, includes, conditionals, macros; \<open>denote_all\<close> and \<open>replace_words\<close> are the
    reference meanings of conditionals and macros.
  \<^item> \<open>Node_Graph\<close> (webgpu/compute/NodeGraph.cpp, nodes/Node.cpp): sockets and both ends of their
    connections (\<open>wired\<close>), and Kahn's algorithm on 32-bit counters. \<open>Node_Runs\<close>: the runs in the chain
    of nodes, with a slot's calls inside the call that emits as an explicit stack.

  Correspondence. Intrusive lists are lists in list order; pointers to nodes are positions or ids;
  handles are compared as the code compares them. Fixed-width integers keep their width where the
  code can wrap (ids of subresources, byte offsets, extents) and are \<open>nat\<close> where a counter cannot
  (frame clocks, declaration indices). A failed assertion is \<open>Inl\<close>, a reported error an element of
  \<open>g_errors\<close> together with the state \<open>RG_Failed\<close>. The text of messages is not modelled.

  Termination. \<open>resolve_size\<close> terminates because every recursive call marks one more node as being
  resolved. The topological walk is a loop over an explicit stack (\<open>topo_loop\<close>, a
  \<open>partial_function\<close>, so that not returning is \<open>None\<close>); that it returns on every graph, and so that
  \<open>compile\<close> does, is \<open>compile_always_returns\<close>. Loops that follow what a file or a graph says are
  \<open>partial_function\<close>s too: includes and macros return by \<open>preprocessing_returns\<close>, Kahn's loop by
  \<open>topological_order_or_cycle\<close>. The stack of \<open>Node_Runs\<close> terminates by a cost that every call lowers. Only the
  recursive visit of a cache has fuel (\<open>visit_node\<close>), 31 levels for ids that are at most 29 deep; running out is
  \<open>None\<close>, which \<open>tile_updates_stay_in_sync\<close> excludes.

  Arguments. What the repository calls and does not contain is an argument: malloc, the bodies of passes,
  the radix library (children of a tile and the traversal, \<open>quad_tree\<close> and \<open>traversal_ok\<close>), \<open>std::nth_element\<close>
  (\<open>nth_element_spec\<close>), image decoding, the byte format of zpp bits (\<open>codec_ok\<close>), the clock, the network's answers, the reader of
  shader files, and what a node's \<open>run_impl\<close> does. \<open>Tile_Demo\<close> gives functions that satisfy these hypotheses.

  Not modelled: time measurement and logging, the debug panel, the encoder and queue behind
  \<open>webgpu.h\<close> (their arguments are recorded, their effects on images are not), the emscripten
  shims, \<open>RG_TIME_TRANSFER_PASSES\<close>; of the tiles the third scheduler (3D textures), the statistics beyond their
  signals and threads (a slot called over a queue is a step of the machine; the setters are operations of the
  scheduler and no steps of it);
  of the node graph the data that sockets hand over and the nodes' own GPU work; and the rest of the repository:
  cameras, labels, tracks, the engines' draw code, user interfaces, tests.
\<close>

section \<open>The schedule\<close>

text \<open>C1. In a compiled graph two passes that touch one resource, one of them writing it, run in
  the order in which they were declared: position \<open>x\<close> holds the pass declared earlier, so it
  comes first.\<close>

theorem hazards_keep_declaration_order:
  assumes "compile_impl pool enable g = Some g'" "g_state g' = RG_Compiled"
    and "x < length (g_passes g')" "y < length (g_passes g')"
    and "pn_index (g_passes g' ! x) < pn_index (g_passes g' ! y)"
    and "pass_conflict (g_passes g' ! x) (g_passes g' ! y)"
  shows "x < y"
  by (rule compiled_conflict_order [OF assms])

theorem hazards_keep_declaration_order_witness: "(0::nat) < 1"
  by (rule hazards_keep_declaration_order [OF demo_compiles, of 0 1]) (simp_all add: demo_compiled_simps)

text \<open>C2. The schedule of a compiled graph is exactly what its sinks need: no pass twice, every
  pass after the passes it depends on, and the passes in it are those reachable from a sink over
  the hazard edges; the rest is culled.\<close>

theorem schedule_is_what_sinks_need:
  assumes "compile_impl pool enable g = Some g'" "g_state g' = RG_Compiled"
  shows "distinct (schedule_of g') \<and> deps_first (hazard_adj (g_passes (before_link pool g))) (schedule_of g') \<and>
    set (schedule_of g') = reached (hazard_adj (g_passes (before_link pool g))) (set (root_indices (before_link pool g)))"
  using compiled_schedule [OF assms] by blast

theorem schedule_is_what_sinks_need_witness: "distinct (schedule_of chain_compiled)"
  using schedule_is_what_sinks_need [OF chain_compiles chain_state] by blast

text \<open>C3. \<open>compile\<close> always returns, whatever was recorded and whatever the pool holds: the
  relative-size recursion and the depth-first walk of the passes both end.\<close>

theorem compile_always_returns: "\<exists>g'. compile_impl pool enable g = Some g'"
  by (rule compile_returns)



section \<open>Lifetimes, aliasing, bounds\<close>

text \<open>C5. Two resources that phase 4 puts into one alias slot both fit the slot, and their
  lifetimes, as schedule positions, do not meet.\<close>

theorem aliased_lifetimes_are_disjoint:
  assumes "recorded_ok (it, g)" "compile_impl pool enable g = Some g'" "g_state g' = RG_Compiled"
    and "r \<in> set (g_nodes g')" "q \<in> set (g_nodes g')" "h_id (rn_handle r) \<noteq> h_id (rn_handle q)"
    and "rn_alias_slot r = Some k" "rn_alias_slot q = Some k"
  shows "k < length (g_slots g') \<and> slot_holds r (g_slots g' ! k) \<and> slot_holds q (g_slots g' ! k) \<and>
    (\<exists>f l f' l'. lives r f l \<and> lives q f' l' \<and> (l < f' \<or> l' < f))"
  by (rule compiled_alias [OF assms])

theorem aliased_lifetimes_are_disjoint_witness:
  "slot_holds (g_nodes chain_compiled ! 1) (g_slots chain_compiled ! 0)"
proof -
  obtain it where ok: "recorded_ok (it, chain_graph)" using chain_recorded_ok by blast
  have "map (\<lambda>n. h_id (rn_handle n)) (g_nodes chain_compiled) ! 1 \<noteq> map (\<lambda>n. h_id (rn_handle n)) (g_nodes chain_compiled) ! 3"
    using chain_use_simps by simp
  then have "h_id (rn_handle (g_nodes chain_compiled ! 1)) \<noteq> h_id (rn_handle (g_nodes chain_compiled ! 3))"
    using chain_simps by simp
  from aliased_lifetimes_are_disjoint [OF ok chain_compiles chain_state chain_members(1) chain_members(1) this]
  show ?thesis using chain_use_simps by simp
qed

text \<open>C6. The lifetime recorded for a resource covers every access the schedule makes to it, and
  its usage flags grant every such access.\<close>

theorem lifetimes_cover_accesses:
  assumes "recorded_ok (it, g)" "compile_impl pool enable g = Some g'" "g_state g' = RG_Compiled"
    and "r \<in> set (g_nodes g')" "k < length (g_passes g')" "a \<in> set (pn_accesses (g_passes g' ! k))"
    and "h_id (ac_handle a) = h_id (rn_handle r)"
  shows "covered r k a"
  by (rule compiled_covered [OF assms])

theorem lifetimes_cover_accesses_witness: "covered (g_nodes chain_compiled ! 1) 1 chain_read"
proof -
  obtain it where ok: "recorded_ok (it, chain_graph)" using chain_recorded_ok by blast
  show ?thesis
    by (rule lifetimes_cover_accesses [OF ok chain_compiles chain_state chain_members(1) _ chain_read_facts(2,4)])
      (use chain_simps in simp_all)
qed





section \<open>Sizes\<close>

text \<open>C9. A compiled texture has the one size its declarations give: absolute, imported, or
  scaled from the size of the texture it is relative to.\<close>

theorem textures_have_their_declared_size:
  assumes "recorded_ok (it, g)" "compile_impl pool enable g = Some g'" "g_state g' = RG_Compiled"
    and "r \<in> set (g_nodes g')" "rn_kind r = RK_Texture" "sized (find_node g) (h_id (rn_handle r)) D e"
  shows "rn_resolved r = e"
  using compiled_sizes [OF assms(1-5)] sized_unique [OF assms(6)] by blast

theorem textures_have_their_declared_size_witness: "rn_resolved (g_nodes chain_compiled ! 4) = mk_extent 8 8 1"
proof -
  obtain it where ok: "recorded_ok (it, chain_graph)" using chain_recorded_ok by blast
  obtain D where D: "sized (find_node chain_graph) 5 D (mk_extent 8 8 1)" using chain_sized by blast
  have "map (\<lambda>n. h_id (rn_handle n)) (g_nodes chain_compiled) ! 4 = 5" using chain_use_simps by simp
  then have "h_id (rn_handle (g_nodes chain_compiled ! 4)) = 5" using chain_simps by simp
  then have "sized (find_node chain_graph) (h_id (rn_handle (g_nodes chain_compiled ! 4))) D (mk_extent 8 8 1)" using D by simp
  from textures_have_their_declared_size [OF ok chain_compiles chain_state chain_members(1) _ this]
  show ?thesis using chain_use_simps by simp
qed

text \<open>C10. Resolving the size of a texture either reports an error or finds the size the chain of
  declarations defines: a cycle or a missing base never yields a size silently.\<close>

theorem unresolvable_sizes_are_reported:
  assumes "memo_ok L g" "find_node g i \<noteq> None" "\<nexists>C e. sized L i C e"
  shows "g_state (snd (resolve_size i g)) = RG_Failed"
  using resolve_unsized [OF assms(1,2)] assms(3) by blast

theorem unresolvable_sizes_are_reported_witness: "g_state (snd (resolve_size 1 cyclic_graph)) = RG_Failed"
  by (rule unresolvable_sizes_are_reported [OF cyclic_memo cyclic_unsized])

text \<open>\<open>round(v * 0.5f)\<close> in single precision is half of \<open>v\<close>, rounded up, for every
  extent below 2^23.\<close>

lemma half_scale_rounds_up: "uint v < 2 ^ 23 \<Longrightarrow> uint (scale_dim v (1 / 2)) = (uint v + 1) div 2"
  by (rule scale_dim_half)

lemma half_scale_rounds_up_at: "uint (scale_dim 7 (1 / 2)) = 4"
  using half_scale_rounds_up [of 7] by simp

section \<open>Realizing\<close>

text \<open>C11. Realizing a compiled graph at the start of a frame never fails and changes nothing but
  the objects of its resources: none of the errors \<open>realize_graph\<close> can report happens.\<close>

theorem realizing_always_succeeds:
  assumes "ready (it, g) pool0 enable x"
  shows "g_state (ex_graph (realize_graph b x)) = RG_Compiled \<and> g_errors (ex_graph (realize_graph b x)) = g_errors (ex_graph x) \<and>
    g_passes (ex_graph (realize_graph b x)) = g_passes (ex_graph x) \<and>
    map unrealized (g_nodes (ex_graph (realize_graph b x))) = map unrealized (g_nodes (ex_graph x))"
  using realize_succeeds [OF assms] by blast

theorem realizing_always_succeeds_witness: "g_state (ex_graph (realize_graph False chain_exec)) = RG_Compiled"
proof -
  obtain it where "ready (it, chain_graph) empty_persistent_pool True chain_exec" using chain_ready by blast
  from realizing_always_succeeds [OF this] show ?thesis by blast
qed

text \<open>C12. Two resources of the graph's own are realized with one GPU object only if phase 4 put
  them into one slot and one of them is dead before the other is born.\<close>

theorem objects_are_shared_by_aliases_only:
  assumes "ready (it, g) pool0 enable x"
    and "m < length (g_nodes (ex_graph x))" "pool_used (g_nodes (ex_graph x) ! m)" "\<not> is_external (g_nodes (ex_graph x) ! m)"
    and "n < length (g_nodes (ex_graph x))" "pool_used (g_nodes (ex_graph x) ! n)" "\<not> is_external (g_nodes (ex_graph x) ! n)"
    and "m \<noteq> n"
    and "node_object (g_nodes (ex_graph (realize_graph b x)) ! m) = node_object (g_nodes (ex_graph (realize_graph b x)) ! n)"
  shows "sharable (g_nodes (ex_graph x) ! m) (g_nodes (ex_graph x) ! n)"
  by (rule realized_sharing [OF assms])

theorem objects_are_shared_by_aliases_only_witness: "sharable (g_nodes chain_compiled ! 1) (g_nodes chain_compiled ! 3)"
proof -
  have e: "ex_graph chain_exec = chain_compiled" by (simp add: chain_exec_def)
  obtain it where "ready (it, chain_graph) empty_persistent_pool True chain_exec" using chain_ready by blast
  from objects_are_shared_by_aliases_only [OF this, of 1 3 False, unfolded e] chain_simps show ?thesis by simp
qed

text \<open>C13. A used persistent resource is realized with the layer of its pool entry that its clock
  and index select; the entry fits the declaration and was created with the usage it needs.\<close>

theorem persistent_resources_get_their_entry:
  assumes "ready (it, g) pool0 enable x" "n < length (g_nodes (ex_graph x))" "pooled (g_nodes (ex_graph x) ! n)"
  shows "\<exists>e. pool_find (rn_id (g_nodes (ex_graph x) ! n)) (al_pool (ex_alloc (realize_graph b x))) = Some e \<and>
    g_nodes (ex_graph (realize_graph b x)) ! n = point_at_layer (pp_clock (al_pool (ex_alloc x))) e (g_nodes (ex_graph x) ! n) \<and>
    fits (pp_clock (al_pool (ex_alloc x))) (g_nodes (ex_graph x) ! n) e \<and> grants (g_nodes (ex_graph x) ! n) e \<and>
    \<not> would_recreate (g_nodes (ex_graph x) ! n) e"
  by (rule realized_pooled [OF assms, of b]) blast

theorem persistent_resources_get_their_entry_witness:
  "\<exists>e. grants (g_nodes chain_compiled ! 4) e"
proof -
  have e: "ex_graph chain_exec = chain_compiled" by (simp add: chain_exec_def)
  obtain it where "ready (it, chain_graph) empty_persistent_pool True chain_exec" using chain_ready by blast
  from persistent_resources_get_their_entry [OF this, of 4 False, unfolded e] chain_simps show ?thesis by auto
qed

text \<open>C14. The current and the previous layer of a history resource are never the same object.\<close>

theorem history_layers_differ:
  assumes "ready (it, g) pool0 enable x"
    and "i < length (g_nodes (ex_graph x))" "pooled (g_nodes (ex_graph x) ! i)" "rn_history (g_nodes (ex_graph x) ! i)"
      "rn_history_index (g_nodes (ex_graph x) ! i) = 0"
    and "j < length (g_nodes (ex_graph x))" "pooled (g_nodes (ex_graph x) ! j)" "rn_history_index (g_nodes (ex_graph x) ! j) = 1"
    and "same_name (rn_id (g_nodes (ex_graph x) ! i)) (rn_id (g_nodes (ex_graph x) ! j))"
  shows "node_object (g_nodes (ex_graph (realize_graph b x)) ! i) \<noteq> node_object (g_nodes (ex_graph (realize_graph b x)) ! j)"
  by (rule realized_history [OF assms])

theorem history_layers_differ_witness:
  "node_object (g_nodes (ex_graph (realize_graph False chain_exec)) ! 4) \<noteq> node_object (g_nodes (ex_graph (realize_graph False chain_exec)) ! 5)"
proof -
  have e: "ex_graph chain_exec = chain_compiled" by (simp add: chain_exec_def)
  obtain it where "ready (it, chain_graph) empty_persistent_pool True chain_exec" using chain_ready by blast
  from history_layers_differ [OF this, of 4 5 False, unfolded e] chain_simps show ?thesis by simp
qed

section \<open>Executing\<close>

text \<open>C15. The commands \<open>execute\<close> records are accepted by the encoder from beginning to end, and
  what they amount to is the schedule: every body once, in schedule order, inside a pass of its
  kind and the debug group of its name; groups and passes closed; the timestamp pairs contiguous,
  at most 64, and resolved at the end if there are any.\<close>

theorem commands_implement_the_schedule:
  assumes "execute b profiling bodies x = Inr (cs, x')" "g_state (ex_graph x) = RG_Compiled"
    "g_state (ex_graph (realize_graph b x)) = RG_Compiled"
  shows "interpret_cmds cs idle_encoder =
     Some \<lparr>en_group = [], en_pass = PK_None, en_bodies = bodies_of (g_passes (ex_graph (realize_graph b x))),
           en_begun = begun_of (g_passes (ex_graph (realize_graph b x))), en_pairs = [0..<run_pairs b profiling x],
           en_resolved = (if run_pairs b profiling x = 0 then None else Some (run_pairs b profiling x))\<rparr> \<and>
    run_pairs b profiling x \<le> kMaxPasses"
  using execute_encodes [OF assms] by (simp add: run_pairs_def)

theorem commands_implement_the_schedule_witness: "run_pairs False True chain_exec \<le> 64"
proof -
  obtain cs x where e: "execute False True chain_bodies chain_exec = Inr (cs, x)" using chain_executes by blast
  have "g_state (ex_graph chain_exec) = RG_Compiled" using chain_state by (simp add: chain_exec_def)
  from commands_implement_the_schedule [OF e this chain_realized] show ?thesis by (simp add: kMaxPasses_def)
qed

text \<open>C16. After a frame the pools are ready for the next one: every entry is consistent, every
  GPU object the allocator owns is live and owned once, and nothing was released twice.\<close>

theorem frames_leave_the_pools_ready:
  assumes "ready (it, g) pool0 enable x" "ex_subviews x = (\<lambda>_. None)"
    and "profiler_clean (al_profiler (ex_alloc x))" "accounts (full_owned (ex_alloc x)) (ex_device x)"
    and "execute b profiling bodies x = Inr (cs, x')" "end_frame (ex_alloc x', ex_device x') = (al, d)"
  shows "persistent_ok (al_pool al) \<and> allocator_valid al \<and> accounts (full_owned al) d"
  by (rule frame_ready [OF assms])

theorem frames_leave_the_pools_ready_witness: "\<exists>al d. persistent_ok (al_pool al) \<and> accounts (full_owned al) d"
proof -
  obtain it where r: "ready (it, chain_graph) empty_persistent_pool True chain_exec" using chain_ready by blast
  obtain cs x where e: "execute False True chain_bodies chain_exec = Inr (cs, x)" using chain_executes by blast
  obtain al d where f: "end_frame (ex_alloc x, ex_device x) = (al, d)" by fastforce
  have "profiler_clean (al_profiler (ex_alloc chain_exec))" "accounts (full_owned (ex_alloc chain_exec)) (ex_device chain_exec)"
    "ex_subviews chain_exec = (\<lambda>_. None)"
    using chain_accounts(1,2) by (simp_all add: chain_exec_def allocator_valid_def)
  from frames_leave_the_pools_ready [OF r this(3,1,2) e f] show ?thesis by blast
qed

text \<open>C17. A finished graph holds no object it did not import or pool, and no transient object
  stays claimed.\<close>

theorem finished_graphs_hold_nothing:
  assumes "execute b profiling bodies x = Inr (cs, x')" "g_state (ex_graph x) = RG_Compiled"
    "g_state (ex_graph (realize_graph b x)) = RG_Compiled"
  shows "g_state (ex_graph x') = RG_Finished \<and>
    list_all (\<lambda>r. is_external r \<or> node_object r = None) (g_nodes (ex_graph x')) \<and>
    list_all (\<lambda>e. \<not> te_in_use e) (tr_entries (al_transient (ex_alloc x')))"
  using finished_released [OF assms] by blast

theorem finished_graphs_hold_nothing_witness:
  "\<exists>cs x. execute False True chain_bodies chain_exec = Inr (cs, x) \<and> g_state (ex_graph x) = RG_Finished"
proof -
  obtain cs x where e: "execute False True chain_bodies chain_exec = Inr (cs, x)" using chain_executes by blast
  have "g_state (ex_graph chain_exec) = RG_Compiled" using chain_state by (simp add: chain_exec_def)
  from finished_graphs_hold_nothing [OF e this chain_realized] e show ?thesis by blast
qed

section \<open>The life of an allocator\<close>

text \<open>C18. Whatever frames an allocator goes through, as long as none is profiled, closing it
  leaves exactly the objects of others alive, and no object was ever released twice.\<close>

theorem allocators_release_what_they_create:
  assumes "set fs \<subseteq> unprofiled_ops" "unprofiled al" "accounts (allocator_owned al) d"
    "destroy_allocator (fold id fs (al, d)) = (al', d')"
  shows "dv_stray d' = [] \<and> dv_live d' = dv_live d - set (allocator_owned al)"
  by (rule allocators.balanced [OF assms])

theorem allocators_release_what_they_create_witness:
  "\<exists>al d. destroy_allocator (fold id [begin_frame, execute_on False False chain_bodies chain_compiled, end_frame] (chain_allocator, chain_device)) = (al, d) \<and>
     dv_live d = {7}"
proof -
  let ?fs = "[begin_frame, execute_on False False chain_bodies chain_compiled, end_frame]"
  obtain al d where r: "destroy_allocator (fold id ?fs (chain_allocator, chain_device)) = (al, d)" by fastforce
  have f: "set ?fs \<subseteq> unprofiled_ops" by (auto simp: unprofiled_ops_def)
  have o: "allocator_owned chain_allocator = []" using chain_accounts(5) by (simp add: full_owned_def)
  then have a: "accounts (allocator_owned chain_allocator) chain_device" using chain_accounts(1,5) by simp
  from allocators_release_what_they_create [OF f chain_accounts(3) a r] r o show ?thesis by (auto simp: chain_device_def)
qed



section \<open>Recording\<close>

text \<open>C20. Whatever calls record a frame, the recording is well formed: ids are the declaration
  order, names interned and unique but for history pairs, and every pass declares accesses and
  bakes of resources of its own graph only.\<close>

theorem recordings_are_well_formed:
  assumes "interner_ok it" "0 < gen" "record_frame pf gen it cs = Inr st"
  shows "recorded_ok st"
  by (rule record_frame_ok [OF assms])

theorem recordings_are_well_formed_witness: "\<exists>st. demo_recording = Inr st \<and> recorded_ok st"
proof -
  obtain st where st: "demo_recording = Inr st" using demo_recording_eq by blast
  have "recorded_ok st"
    by (rule recordings_are_well_formed [OF demo_interner_ok _ st [unfolded demo_recording_def]]) simp
  then show ?thesis using st by blast
qed

text \<open>C21. Two accesses a setup declares on the same texels are two reads, or the storage read and
  storage write of one read-write binding.\<close>

theorem setups_never_race_on_texels:
  assumes "run_setup g cs (fresh_pass rid kind) = Inr p" "kind \<noteq> PK_Transfer" "list_all call_in_range cs"
    and "i < length (pn_accesses p)" "j < length (pn_accesses p)" "i \<noteq> j"
    and "same_texels (pn_accesses p ! i) (pn_accesses p ! j)"
  shows "(\<not> access_is_write (ac_type (pn_accesses p ! i)) \<and> \<not> access_is_write (ac_type (pn_accesses p ! j))) \<or>
    {ac_type (pn_accesses p ! i), ac_type (pn_accesses p ! j)} = {StorageRead, StorageWrite}"
proof -
  have "exclusive (pn_accesses p)"
    by (rule setup_exclusive [OF assms(1) _ assms(3) fresh_pass_ok(4)]) (use assms(2) in \<open>simp add: fresh_pass_def\<close>)
  from same_texels_harmless [OF exclusive_pair [OF this assms(4-6)] assms(7)] show ?thesis .
qed

theorem setups_never_race_on_texels_witness:
  "{ac_type (storage_pair ! 0), ac_type (storage_pair ! 1)} = {StorageRead, StorageWrite}"
proof -
  from storage_setup_run obtain p where p: "run_setup chain_graph storage_setup (fresh_pass storage_id PK_Compute) = Inr p" "pn_accesses p = storage_pair"
    by blast
  from setups_never_race_on_texels [OF p(1) _ storage_setup_facts(1), of 0 1] storage_setup_facts(2-) show ?thesis
    unfolding p(2) by simp
qed

text \<open>C22. The attachments of a render pass are consistent after any setup: colour slots distinct
  and in range, every resolve target has its colour slot, at most one depth attachment, and no
  attachments outside graphics passes.\<close>

theorem setups_keep_attachments_consistent:
  assumes "run_setup g cs p = Inr p'" "attachments_ok p"
  shows "attachments_ok p'"
  by (rule setup_attachments [OF assms])

theorem setups_keep_attachments_consistent_witness: "\<exists>p. run_setup chain_graph storage_setup (fresh_pass storage_id PK_Compute) = Inr p \<and> attachments_ok p"
proof -
  from storage_setup_run obtain p where p: "run_setup chain_graph storage_setup (fresh_pass storage_id PK_Compute) = Inr p" by blast
  from setups_keep_attachments_consistent [OF p fresh_pass_ok(2)] p show ?thesis by blast
qed

text \<open>C23. Interning two names gives ids with one pointer exactly when the names are equal.\<close>

theorem interned_names_are_equal_pointers:
  assumes "interner_ok it" "intern mal s it = Some (a, it1)" "intern mal t it1 = Some (b, it2)"
  shows "rid_data a = rid_data b \<longleftrightarrow> s = t"
  by (rule names.add_twice [OF assms])

theorem interned_names_are_equal_pointers_witness:
  "\<exists>a it1 b it2. intern (\<lambda>_. True) ''x'' demo_interner = Some (a, it1) \<and> intern (\<lambda>_. True) ''y'' it1 = Some (b, it2) \<and> rid_data a \<noteq> rid_data b"
proof -
  obtain a it1 b it2 where i: "intern (\<lambda>_. True) ''x'' demo_interner = Some (a, it1)" "intern (\<lambda>_. True) ''y'' it1 = Some (b, it2)"
    using demo_interns by blast
  from interned_names_are_equal_pointers [OF demo_interner_ok i] i show ?thesis by auto
qed

section \<open>Arena\<close>



text \<open>C25. Rewinding to a mark gives back exactly what was allocated since: the allocated bytes and
  the live block are those of the mark, whatever was allocated in between.\<close>

theorem rewinding_undoes_allocations:
  assumes "arena_ok ar" "aligned_requests rs" "alloc_list mal rs ar = Some (as, ar')"
  shows "allocated (rewind (mark_arena ar) ar') = allocated ar \<and> ar_live (rewind (mark_arena ar) ar') = ar_live ar"
  using rewind_mark_restores [OF assms] by blast

theorem rewinding_undoes_allocations_witness:
  "\<exists>as ar. alloc_list (\<lambda>_. True) [(8, 8), (40, 4)] (empty_arena 32) = Some (as, ar) \<and>
     allocated (rewind (mark_arena (empty_arena 32)) ar) = allocated (empty_arena 32)"
proof -
  obtain as ar where a: "alloc_list (\<lambda>_. True) [(8, 8), (40, 4)] (empty_arena 32) = Some (as, ar)" using demo_allocs by blast
  have "aligned_requests [(8, 8), (40, 4)]" by (simp add: aligned_requests_def)
  from rewinding_undoes_allocations [OF empty_arena_ok this a] a show ?thesis by blast
qed

text \<open>The bit-mask rounding of the allocator is rounding up to a multiple, for a power of two
  and no wrap-around.\<close>

lemma mask_alignment_rounds_up:
  assumes "k < 64" "unat v + 2 ^ k < 2 ^ 64"
  shows "unat (align_up_word v (2 ^ k)) = align_up (unat v) (2 ^ k)"
  by (rule align_up_word_refines [OF assms])

lemma mask_alignment_rounds_up_at: "unat (align_up_word 13 (2 ^ 3)) = align_up 13 8"
  using mask_alignment_rounds_up [of 3 13] by simp

section \<open>Pools, views, timings\<close>

text \<open>C26. However many textures are acquired from the transient pool in a frame, no object is
  handed out twice or while somebody else holds it.\<close>

theorem acquired_textures_are_distinct:
  assumes "pool_good s" "acquire_all acquire_tex rs s = (outs, s')"
  shows "pool_good s' \<and> (\<exists>xs. outs = map Some xs \<and> length xs = length rs \<and> distinct xs \<and> set xs \<inter> claimed_objects s = {} \<and>
    claimed_objects s' = claimed_objects s \<union> set xs)"
  by (rule textures.acquire_all_distinct [OF assms])

theorem acquired_textures_are_distinct_witness:
  "pool_good (snd (acquire_all acquire_tex [(sig_default, {}, None), (sig_default, {}, None)] (empty_transient_pool, chain_device)))"
proof -
  have "pool_good (empty_transient_pool, chain_device)"
    by (simp add: pool_good_def transient_ok_def empty_transient_pool_def accounts_def transient_owned_def chain_device_def)
  from acquired_textures_are_distinct [OF this prod.collapse [symmetric]] show ?thesis by blast
qed

text \<open>Asking again for the view of a key gives the cached view and creates nothing.\<close>

lemma views_are_created_once:
  assumes "subview_for vs k d = (v, vs', d')"
  shows "subview_for vs' k d'' = (v, vs', d'')"
  by (rule subview_for_cached [OF assms])

lemma views_are_created_once_at: "snd (snd (subview_for (fst (snd (subview_for [] demo_key chain_device))) demo_key chain_device)) = chain_device"
proof -
  obtain v vs d where s: "subview_for [] demo_key chain_device = (v, vs, d)" by (metis prod_cases3)
  from views_are_created_once [OF s] show ?thesis by (simp add: s)
qed

text \<open>C27. Whatever sequence of frames, map callbacks and user interface events the profiler goes
  through, its ring, results and history stay within their fixed sizes and the pending slot is
  one that is not being mapped.\<close>

theorem profiler_stays_within_bounds:
  assumes "profiler_step\<^sup>*\<^sup>* empty_profiler p"
  shows "profiler_ok p"
  by (rule profiler_run_ok [OF assms])

theorem profiler_stays_within_bounds_witness: "profiler_ok (snd (collect_gpu_timings empty_profiler))"
  by (rule profiler_stays_within_bounds) (rule r_into_rtranclp, rule profiler_step.collect)

text \<open>Sampling writes one column of the history: every result with a row is in its row, every
  other row is zero there, and a result is without a row only when all 64 rows are taken.\<close>

lemma sampling_fills_one_column:
  assumes "profiler_ok p" "pr_recording p" "pr_result_id p \<noteq> pr_last_sampled p"
  shows "stored (pr_results p) (pr_head p) (length (pr_results p)) (pr_series (sample_history p)) \<and>
    has_rows (pr_results p) (length (pr_results p)) (pr_series (sample_history p))"
  using sample_column [OF assms] by blast

lemma sampling_fills_one_column_at:
  "stored [((None, ''a''), 1)] 0 1 (pr_series (sample_history (empty_profiler\<lparr>pr_recording := True, pr_result_id := 1, pr_results := [((None, ''a''), 1)]\<rparr>)))"
proof -
  let ?p = "empty_profiler\<lparr>pr_recording := True, pr_result_id := 1, pr_results := [((None, ''a''), 1)]\<rparr>"
  have "profiler_ok ?p" using empty_profiler_ok by (simp add: profiler_ok_def kMaxPasses_def)
  from sampling_fills_one_column [OF this] show ?thesis by (simp add: empty_profiler_def)
qed


section \<open>Tiles\<close>

text \<open>C28. Whatever the camera, the network, the timers and the load service do, and in whatever order,
  the tile machine never fails an assertion; the layers of the GPU array hold exactly the tiles of the
  quads the scheduler takes for being on the GPU, and these quads hang together from the root.\<close>

theorem tile_updates_stay_in_sync:
  assumes "world_ok w" "system_ok w S" "system_run w S R"
  shows "\<exists>S'. R = Some (Inr S') \<and> held_tiles (ts_heights S') = tiles_of (w_children w) (on_gpu (ts_scheduler S')) \<and>
    rooted (w_children w) (on_gpu (ts_scheduler S')) \<and> system_ok w S'"
  using system_run_ok [OF assms(1,3,2)] by (auto simp: system_ok_def heights_in_sync_def gpu_tree_def)

theorem tile_updates_stay_in_sync_witness:
  "\<exists>S'. update_timeout demo_world 1000 demo_clock (\<lambda>_. 1000) demo_enabled = Some (Inr S') \<and>
     held_tiles (ts_heights S') = tiles_of demo_children (on_gpu (ts_scheduler S'))"
  using tile_updates_stay_in_sync [OF demo_world_ok demo_start_ok demo_run] by (simp add: demo_world_def) blast

text \<open>C29. From a new pipeline, whatever is requested and however the tiles are answered, no assertion fails, at
  most sixteen quads are in flight, and every quad delivered has exactly the four tiles below it.\<close>

theorem pipeline_delivers_whole_quads:
  assumes "quad_tree parent children" "pipeline_run parent children no_reply new_pipeline R"
  shows "\<exists>P. R = Inr P \<and> card (sl_in_flight (pl_slots P)) \<le> 16 \<and> (\<forall>q \<in> set (pl_delivered P). whole_quad children q)"
proof -
  obtain P where P: "R = Inr P" "pipeline_ok children P" "sl_limit (pl_slots P) = sl_limit (pl_slots new_pipeline)"
    using pipeline_run_ok [OF assms new_pipeline_ok] by blast
  then have "slots_ok (pl_slots P)" "\<forall>q \<in> set (pl_delivered P). whole_quad children q" "unat (sl_limit (pl_slots P)) = 16"
    by (simp_all add: pipeline_ok_def new_pipeline_def new_slot_limiter_def)
  then show ?thesis using P(1) by (simp add: slots_ok_def)
qed

theorem pipeline_delivers_whole_quads_witness: "card (sl_in_flight (pl_slots demo_asked)) \<le> 16"
  using pipeline_delivers_whole_quads [OF demo_tree demo_pipeline_run] by auto

text \<open>C30. The pipeline never gets stuck: while quads are missing, a tile is being loaded or the timer of the rate
  limiter runs; every answer takes one unit off the work that is left and the timer adds none; and when no work
  is left, nothing is in flight and nothing waits.\<close>

theorem pipelines_never_get_stuck:
  assumes "quad_tree parent children" "pipeline_run parent children no_reply new_pipeline (Inr P)"
  shows "(0 < work P \<longrightarrow> pl_asked P \<noteq> {#} \<or> rl_timer (pl_rate P) \<noteq> None) \<and>
    (\<forall>td clock. td_id td \<in># pl_asked P \<longrightarrow> (\<exists>P'. pipe_deliver parent children no_reply clock td
        (P\<lparr>pl_asked := pl_asked P - {#td_id td#}\<rparr>) = Inr P' \<and> Suc (work P') = work P)) \<and>
    (\<forall>now. work (pipe_timeout children no_reply now P) = work P) \<and>
    (work P = 0 \<longrightarrow> sl_in_flight (pl_slots P) = {} \<and> sl_queue (pl_slots P) = [])"
proof -
  have ok: "pipeline_ok children P" using pipeline_run_ok [OF assms new_pipeline_ok] by simp
  show ?thesis
    using never_stuck [OF assms(1) ok] work_done [OF assms(1) ok] pipe_deliver_ok [OF assms(1) ok]
      pipe_timeout_ok(3,4) [OF assms(1) ok refl] by (fastforce simp: work_def)
qed

theorem pipelines_never_get_stuck_witness: "\<not> (pl_asked demo_asked = {#} \<and> rl_timer (pl_rate demo_asked) = None)"
  using pipelines_never_get_stuck [OF demo_tree demo_pipeline_run] demo_asks(2) by simp

text \<open>C31. Quads leave the rate limiter in the order in which they arrived, none lost, and in no window as long as the
  rate period more of them than the rate.\<close>

theorem request_rate_is_bounded:
  assumes "rate_run evs r = (r', sends)" "rl_in_flight r = []" "sorted (map fst evs)"
    "\<forall>e \<in> set evs. unat (rl_period r) \<le> unat (fst e)"
  shows "map snd sends @ rl_queue r' = rl_queue r @ List.map_filter snd evs \<and>
    in_window (unat (rl_period r)) from_time (map fst sends) \<le> unat (rl_rate r)"
  using rate_run_fifo [OF assms(1)] rate_run_window [OF assms(1,3,4,2)] by blast

theorem request_rate_is_bounded_witness:
  "in_window 1000 1500 (map fst (snd (rate_run [(2000, Some root_tile), (2001, Some root_tile)] (new_rate_limiter\<lparr>rl_rate := 1\<rparr>)))) \<le> 1"
  using request_rate_is_bounded [where evs = "[(2000, Some root_tile), (2001, Some root_tile)]" and
      r = "new_rate_limiter\<lparr>rl_rate := 1\<rparr>" and from_time = 1500, OF prod.collapse [symmetric]]
  by (simp add: new_rate_limiter_def)



text \<open>C33. A write that fails at the file of a tile is not repaired by the next, successful one: \<open>m_disk_cached\<close> names
  tiles whose files were removed, they are not written again, and whoever reads the cache gets an error and
  nothing else.\<close>

theorem failed_writes_spoil_the_disk_cache:
  assumes "codec_ok codec" "cache_ok dq_id (sc_ram s)"
    "fst (write_to_disk codec may_open (sc_ram s) (sc_disk s) files) = Inl (Could_not_write p)" "p \<noteq> meta_info_path"
    "persist_tiles codec may_open (s, files) = (r, s1, files1)"
    "persist_tiles codec may_open' (s1, files1) = (True, s2, files2)" "named other"
  shows "\<not> r \<and> read_disk_cache codec (other, files2) = (False, other\<lparr>sc_ram := [], sc_disk := []\<rparr>, Map.empty)"
  by (rule persist_failure_spoils [OF assms])

theorem failed_writes_spoil_the_disk_cache_witness:
  "read_disk_cache demo_codec (demo_named, [meta_info_path \<mapsto> [1, 3]]) = (False, demo_named\<lparr>sc_ram := [], sc_disk := []\<rparr>, Map.empty)"
proof -
  have "fst (write_to_disk demo_codec (\<lambda>_. False) (sc_ram demo_named) (sc_disk demo_named) Map.empty) = Inl (Could_not_write (tile_path root_tile))"
    using demo_write(2) demo_named_facts(2,3) by simp
  from failed_writes_spoil_the_disk_cache [OF demo_codec_ok demo_named_facts(1) this tile_path_not_meta demo_persists(2,3) demo_named_facts(4)]
  show ?thesis by blast
qed

text \<open>C34. The dictionary the shaders search finds every tile of the array in the layer that holds it, and no tile that
  is not there.\<close>

theorem dictionary_finds_every_tile:
  assumes "array_ok arr" "mset entries = mset (ga_layers arr)" "\<forall>t \<in> held_tiles arr. valid_tile t"
  shows "\<exists>d. generate_dictionary entries = Some (Inr d) \<and> dictionary_of entries d"
  by (rule generate_dictionary_ok [OF assms])

theorem dictionary_finds_every_tile_witness:
  "\<exists>l arr d k. add_tile root_tile demo_heights = Inr (l, arr) \<and> generate_dictionary (ga_layers arr) = Some (Inr d) \<and>
     found_at (fst d) root_tile k"
proof -
  have none: "ga_layers demo_heights = []" using demo_heights_ok(3) by (simp add: held_tiles_def)
  have "length (ga_free demo_heights) = 2048" using array_count [OF demo_heights_ok(1)] by (simp add: none demo_heights_ok(2))
  then have "ga_free demo_heights \<noteq> []" by force
  then obtain l arr where add: "add_tile root_tile demo_heights = Inr (l, arr)" "fst ` set (ga_layers arr) = {root_tile}"
    by (auto simp: add_tile_def none Let_def)
  have "\<forall>t \<in> held_tiles arr. valid_tile t" using add(2) valid_root by (simp add: held_tiles_def)
  from dictionary_finds_every_tile [OF add_tile_ok [OF demo_heights_ok(1) add(1)] refl this]
  obtain d where "generate_dictionary (ga_layers arr) = Some (Inr d)" "dictionary_of (ga_layers arr) d" by blast
  moreover have "\<exists>n. (root_tile, n) \<in> set (ga_layers arr)" using add(2) by force
  ultimately show ?thesis using add(1) unfolding dictionary_of_def by blast
qed

text \<open>C35. Two tiles overlap exactly when the squares they stand for have a cell of the finest level in common.\<close>

theorem overlap_is_common_area:
  assumes "unat (zoom_level a) \<le> L" "unat (zoom_level b) \<le> L"
  shows "overlap a b \<longleftrightarrow> tile_region L a \<inter> tile_region L b \<noteq> {}"
  by (rule overlap_regions [OF assms])

theorem overlap_is_common_area_witness: "overlap (tile 1 0 1) (tile 2 1 2) \<longleftrightarrow> tile_region 2 (tile 1 0 1) \<inter> tile_region 2 (tile 2 1 2) \<noteq> {}"
  by (rule overlap_is_common_area) simp_all

section \<open>Shader source\<close>

text \<open>C36. Where \<open>///elif\<close> and \<open>///else\<close> branches hold no conditionals of their own, the preprocessor keeps what the nesting
  of the conditionals means: of each block the first branch whose condition holds, and reports nothing.\<close>

theorem conditionals_keep_the_taken_branches:
  assumes "spells (get_lines source) blocks" "list_all flat_elifs blocks"
  shows "process_conditionals m source = (denote_all m blocks, [])"
  by (rule conditionals_block_by_block [OF assms])

theorem conditionals_keep_the_taken_branches_witness:
  "process_conditionals [''A'' \<mapsto> ''2''] (concat (map put_line [''///if A 1'', ''x'', ''///endif'', ''x''])) = (put_line ''x'', [])"
proof -
  have c: "classify ''///if A 1'' = If_Value ''A'' ''1''" "classify ''x'' = Plain" "classify ''///endif'' = Endif"
    using nested_classified by (simp_all add: nested_lines_def)
  have "get_lines (concat (map put_line [''///if A 1'', ''x'', ''///endif'', ''x''])) = [''///if A 1'', ''x'', ''///endif'', ''x'']" by code_simp
  moreover have "spells (''///if A 1'' # [''x''] @ [''///endif''] @ [''x'']) [Conditional (Equals ''A'' ''1'') [Code_Line ''x''] [] None, Code_Line ''x'']"
    using spells_spells_rest.conditional [OF _ plain [OF c(2) spells_spells_rest.nothing] closed [OF c(3)] plain [OF c(2) spells_spells_rest.nothing]]
    by (simp add: c(1))
  ultimately have "spells (get_lines (concat (map put_line [''///if A 1'', ''x'', ''///endif'', ''x''])))
      [Conditional (Equals ''A'' ''1'') [Code_Line ''x''] [] None, Code_Line ''x'']" by simp
  from conditionals_keep_the_taken_branches [OF this, of "[''A'' \<mapsto> ''2'']"] show ?thesis
    by (simp add: denote_Conditional has_value_def only_lines_def)
qed

text \<open>C37. With symbols that are words, macro replacement is word by word: every maximal word of the text that is a symbol
  becomes its value, local defines before global ones, and nothing inside a longer word is touched.\<close>

theorem macros_are_replaced_word_by_word:
  assumes "distinct (map fst globals)" "distinct (map fst locals)" "\<forall>e \<in> set globals \<union> set locals. word_symbol (fst e)"
  shows "replace_macros globals locals source = Some (replace_words (symbol_lookup globals locals) source)"
  by (rule macros_word_by_word [OF assms])

theorem macros_are_replaced_word_by_word_witness:
  "replace_macros [(''TILES'', ''4'')] [] ''MY_TILES+TILES'' = Some (replace_words [''TILES'' \<mapsto> ''4''] ''MY_TILES+TILES'')"
  using macros_are_replaced_word_by_word [of "[(''TILES'', ''4'')]" "[]" "''MY_TILES+TILES''"] demo_word by (simp add: symbol_lookup_def)

text \<open>C38. Preprocessing returns when the files that can be reached by including are finitely many, even when they include
  each other; each file is included at most once.\<close>

theorem preprocessing_returns:
  assumes "finite U" "closed_under r U" "reads r p" "uses_within U ns (get_lines (fst (process_defines source [])))"
    and "distinct (map fst (sp_globals p))" "\<forall>e \<in> set (sp_globals p). word_symbol (fst e)"
  shows "\<exists>out p' body included p1. preprocess_code source ns p = Some (out, p') \<and>
    process_includes (fst (process_defines source [])) [] ns p = Some (body, included, p1) \<and> distinct included \<and> set included \<subseteq> snd ` U"
  using preprocess_code_steps [OF assms] includes_return [OF assms(1-4)] by fastforce

theorem preprocessing_returns_witness: "\<exists>out p'. preprocess_code ''///use a'' [] demo_preprocessor = Some (out, p')"
proof -
  have "uses_within {([], ''a''), ([], ''b'')} [] (get_lines (fst (process_defines ''///use a'' [])))"
    using demo_code_uses by (auto simp: uses_within_def)
  from preprocessing_returns [OF _ demo_closed demo_reads(1) this] show ?thesis using demo_reads(2) demo_word by auto
qed

section \<open>The compute graph\<close>



text \<open>C40. Runs come out of a node graph in the order in which they were triggered and none twice, whichever nodes are
  enabled, finish at once, finish later or fail; and when none has failed and no node is running, every run that
  was triggered has come out.\<close>

theorem runs_come_out_in_order:
  assumes "enabled \<noteq> []" "all_expected impl es (new_chain enabled)" "c = react_all impl es (new_chain enabled)"
  shows "subseq (ch_completed c) (ch_triggered c) \<and>
    (ch_failed c = [] \<and> (\<forall>n \<in> set (ch_nodes c). \<not> rn_running n) \<longrightarrow> ch_completed c = ch_triggered c)"
proof -
  have ok: "chain_ok c" using react_all_ok [OF new_chain_ok [OF assms(1)] assms(2)] assms(3) by simp
  have "subseq (ch_completed c) (ch_completed c @ held_all (ch_nodes c))" by (rule prefix_imp_subseq) simp
  then show ?thesis using ok held_all_idle [of c] subseq_order.trans unfolding chain_ok_def by fastforce
qed

theorem runs_come_out_in_order_witness:
  "ch_completed (react_all (\<lambda>i ctx. Later) [Trigger ''a'', Node_Done 0] (new_chain [True])) = [\<lparr>rc_run_id = 1, rc_datetime = ''a''\<rparr>]"
proof -
  let ?c = "react_all (\<lambda>i ctx. Later) [Trigger ''a'', Node_Done 0] (new_chain [True])"
  have e: "all_expected (\<lambda>i ctx. Later) [Trigger ''a'', Node_Done 0] (new_chain [True])" by code_simp
  have c: "ch_failed ?c = [] \<and> (\<forall>n \<in> set (ch_nodes ?c). \<not> rn_running n)" by code_simp
  have t: "ch_triggered ?c = [\<lparr>rc_run_id = 1, rc_datetime = ''a''\<rparr>]" by code_simp
  from runs_come_out_in_order [OF _ e refl] c t show ?thesis by simp
qed


end
